(* ===== verification/Prelude.thy ===== *)
theory Prelude
  imports Main "HOL-Library.Word" "HOL-Library.Signed_Division"
begin

text \<open>
  Shared ground of the development: the result type of a kernel function, the C integer
  types, the page constants of \<^verbatim>\<open>kernel/riscv.h\<close> and \<^verbatim>\<open>kernel/memlayout.h\<close>, and the generic
  lemmas on lists and words that the component theories use.

  A kernel function that can panic or can run forever returns an \<open>outcome\<close>: \<open>Ret x\<close> when it
  returns \<open>x\<close>, \<open>Panic msg\<close> when it calls \<^verbatim>\<open>panic(msg)\<close>, \<open>Hang\<close> when a loop of the source is
  still running after the number of iterations its fuel allows.
\<close>

unbundle bit_operations_syntax

named_theorems word_nat \<open>readings of machine words as natural numbers\<close>
named_theorems frame \<open>fields an operation leaves alone\<close>

section \<open>Outcomes of kernel functions\<close>

datatype 'a outcome = Ret 'a | Panic string | Hang

fun obind :: "'a outcome \<Rightarrow> ('a \<Rightarrow> 'b outcome) \<Rightarrow> 'b outcome" where
  "obind (Ret x) f = f x"
| "obind (Panic e) f = Panic e"
| "obind Hang f = Hang"

lemma obind_eq_Ret [simp]: "obind m f = Ret y \<longleftrightarrow> (\<exists>x. m = Ret x \<and> f x = Ret y)"
  by (cases m) auto

lemma obind_RetE:
  assumes "obind m f = Ret y"
  obtains x where "m = Ret x" "f x = Ret y"
  using assms by auto

lemma obind_assoc: "obind (obind m f) g = obind m (\<lambda>x. obind (f x) g)"
  by (cases m) auto

lemma obind_cong [cong]:
  "m = m' \<Longrightarrow> (\<And>x. m' = Ret x \<Longrightarrow> f x = f' x) \<Longrightarrow> obind m f = obind m' f'"
  by (cases m') auto

section \<open>Machine types and page constants\<close>

type_synonym byte = "8 word"
type_synonym addr = "64 word"
type_synonym uint = "32 word"

definition PGSIZE :: addr where [simp]: "PGSIZE = 4096"

definition PGROUNDUP :: "addr \<Rightarrow> addr" where
  "PGROUNDUP sz = (sz + 4095) AND NOT 4095"

definition PGROUNDDOWN :: "addr \<Rightarrow> addr" where
  "PGROUNDDOWN a = a AND NOT 4095"

definition KERNBASE :: addr where [simp]: "KERNBASE = 0x80000000"

definition PHYSTOP :: addr where [simp]: "PHYSTOP = KERNBASE + 128 * 1024 * 1024"

definition MAXVA :: addr where [simp]: "MAXVA = 0x4000000000"

definition TRAMPOLINE :: addr where [simp]: "TRAMPOLINE = MAXVA - PGSIZE"

definition TRAPFRAME :: addr where [simp]: "TRAPFRAME = TRAMPOLINE - PGSIZE"

definition KSTACK :: "nat \<Rightarrow> addr" where
  "KSTACK p = TRAMPOLINE - (of_nat p + 1) * 2 * PGSIZE"

definition page_aligned :: "addr \<Rightarrow> bool" where
  "page_aligned a \<longleftrightarrow> a mod PGSIZE = 0"

section \<open>Words as natural numbers\<close>

lemma unat_mod_4096 [word_nat]: "unat ((a :: addr) mod 4096) = unat a mod 4096"
  by (simp add: unat_mod)

lemma page_aligned_iff [word_nat]: "page_aligned a \<longleftrightarrow> 4096 dvd unat a"
proof -
  have "a mod 4096 = 0 \<longleftrightarrow> unat (a mod 4096) = 0" by (simp add: unat_eq_0)
  then show ?thesis by (simp only: page_aligned_def PGSIZE_def unat_mod_4096 dvd_eq_mod_eq_0)
qed

lemma page_alignedE:
  assumes "page_aligned a"
  obtains k where "unat a = 4096 * k"
  using assms unfolding page_aligned_iff by (elim dvdE)

lemma page_aligned_8: "page_aligned a \<Longrightarrow> 8 dvd unat a"
  by (elim page_alignedE) (simp add: dvd_mult2)

lemma and_not_4095: "(a :: addr) AND NOT 4095 = a - a mod 4096"
proof -
  have "(4095 :: addr) = mask 12" by (simp add: mask_eq_exp_minus_1)
  then have "a AND NOT 4095 = a AND NOT (take_bit 12 a)"
    by (simp only:) (auto simp: bit_eq_iff bit_simps)
  also have "\<dots> = a - take_bit 12 a"
    by (rule disjunctive_diff_eq_and_not [symmetric]) (auto simp: bit_eq_iff bit_simps)
  finally show ?thesis by (simp only: take_bit_eq_mod) simp
qed

lemma unat_PGROUNDDOWN [word_nat]: "unat (PGROUNDDOWN a) = unat a - unat a mod 4096"
proof -
  have "a mod 4096 \<le> a" by (simp add: word_le_nat_alt unat_mod)
  then show ?thesis
    by (simp only: PGROUNDDOWN_def and_not_4095 unat_sub) (simp add: unat_mod)
qed

lemma unat_PGROUNDUP [word_nat]:
  assumes "unat a + 4095 < 2 ^ 64"
  shows "unat (PGROUNDUP a) = (unat a + 4095) div 4096 * 4096"
proof -
  have "unat (a + 4095) = unat a + 4095"
    using assms by (simp add: unat_word_ariths)
  moreover have "PGROUNDUP a = PGROUNDDOWN (a + 4095)"
    by (simp add: PGROUNDUP_def PGROUNDDOWN_def)
  ultimately show ?thesis
    by (simp add: unat_PGROUNDDOWN minus_mod_eq_div_mult)
qed

lemma round_up_ge: "(n :: nat) \<le> (n + 4095) div 4096 * 4096"
proof -
  have "(n + 4095) mod 4096 < 4096" by simp
  moreover have "n + 4095 = (n + 4095) div 4096 * 4096 + (n + 4095) mod 4096" by simp
  ultimately show ?thesis by linarith
qed

lemma unat_lt64 [simp]: "unat (a :: addr) < 2 ^ 64" "unat (a :: addr) < 18446744073709551616"
  using unsigned_less [of a, where 'a = nat] by simp_all

lemma unat_add_small [word_nat]:
  "unat (a :: addr) + n < 2 ^ 64 \<Longrightarrow> unat (a + of_nat n) = unat a + n"
  by (simp add: unat_word_ariths unat_of_nat)

lemma word_diff_of_nat: "n < 2 ^ 64 \<Longrightarrow> unat ((a :: addr) + of_nat n - a) = n"
  by (simp add: unat_of_nat)

section \<open>C division\<close>

lemma sdiv_nonneg: "0 \<le> a \<Longrightarrow> 0 < b \<Longrightarrow> (a :: int) sdiv b = a div b"
  by (cases "a = 0") (simp_all add: signed_divide_int_def)

lemma smod_nonneg: "0 \<le> a \<Longrightarrow> 0 < b \<Longrightarrow> (a :: int) smod b = a mod b"
  by (cases "a = 0") (simp_all add: signed_modulo_int_def)

section \<open>Scanning lists\<close>

text \<open>
  The kernel finds a table slot by a loop that runs from index 0 and stops at the first entry
  that satisfies a condition.  \<open>scan P xs\<close> is that index, or \<open>None\<close> when the loop reaches the
  end of the table.
\<close>

fun scan_from :: "('a \<Rightarrow> bool) \<Rightarrow> 'a list \<Rightarrow> nat \<Rightarrow> nat option" where
  "scan_from P [] i = None"
| "scan_from P (x # xs) i = (if P x then Some i else scan_from P xs (Suc i))"

abbreviation scan :: "('a \<Rightarrow> bool) \<Rightarrow> 'a list \<Rightarrow> nat option" where
  "scan P xs \<equiv> scan_from P xs 0"

lemma scan_from_None: "scan_from P xs i = None \<longleftrightarrow> (\<forall>x \<in> set xs. \<not> P x)"
  by (induction xs arbitrary: i) auto

lemma scan_from_Some:
  "scan_from P xs i = Some j \<longleftrightarrow>
     i \<le> j \<and> j - i < length xs \<and> P (xs ! (j - i)) \<and> (\<forall>k < j - i. \<not> P (xs ! k))"
proof (induction xs arbitrary: i)
  case Nil
  then show ?case by simp
next
  case (Cons x xs)
  show ?case
  proof (cases "P x")
    case True
    then have "(\<forall>k < j - i. \<not> P ((x # xs) ! k)) \<longleftrightarrow> j - i = 0"
      by (metis less_nat_zero_code not_gr_zero nth_Cons_0)
    then show ?thesis using True by auto
  next
    case False
    have "scan_from P (x # xs) i = Some j \<longleftrightarrow>
      Suc i \<le> j \<and> j - Suc i < length xs \<and> P (xs ! (j - Suc i)) \<and>
      (\<forall>k < j - Suc i. \<not> P (xs ! k))"
      using False Cons.IH [of "Suc i"] by simp
    also have "\<dots> \<longleftrightarrow> i \<le> j \<and> j - i < length (x # xs) \<and> P ((x # xs) ! (j - i)) \<and>
      (\<forall>k < j - i. \<not> P ((x # xs) ! k))"
    proof (cases "j \<le> i")
      case True
      then show ?thesis using False by auto
    next
      case j: False
      then obtain d where d: "j = Suc (i + d)" by (auto dest: less_imp_Suc_add simp: not_le)
      show ?thesis using False
        by (auto simp: d less_Suc_eq_0_disj)
    qed
    finally show ?thesis .
  qed
qed

lemma scan_SomeD:
  assumes "scan P xs = Some j"
  shows "j < length xs" "P (xs ! j)" "\<And>k. k < j \<Longrightarrow> \<not> P (xs ! k)"
  using assms by (auto simp: scan_from_Some)

lemma scan_first:
  "j < length xs \<Longrightarrow> P (xs ! j) \<Longrightarrow> (\<And>k. k < j \<Longrightarrow> \<not> P (xs ! k)) \<Longrightarrow> scan P xs = Some j"
  by (auto simp: scan_from_Some)

lemma scan_exists: "x \<in> set xs \<Longrightarrow> P x \<Longrightarrow> \<exists>j. scan P xs = Some j"
  by (metis scan_from_None option.exhaust)

section \<open>Updating one element of a table\<close>

definition upd_at :: "nat \<Rightarrow> ('a \<Rightarrow> 'a) \<Rightarrow> 'a list \<Rightarrow> 'a list" where
  "upd_at i f xs = xs[i := f (xs ! i)]"

lemma length_upd_at [simp]: "length (upd_at i f xs) = length xs"
  by (simp add: upd_at_def)

lemma nth_upd_at [simp]:
  "j < length xs \<Longrightarrow> upd_at i f xs ! j = (if i = j then f (xs ! j) else xs ! j)"
  by (auto simp: upd_at_def nth_list_update)

lemma upd_at_all: "list_all P xs \<Longrightarrow> (i < length xs \<Longrightarrow> P (f (xs ! i))) \<Longrightarrow> list_all P (upd_at i f xs)"
  by (cases "i < length xs") (auto simp: list_all_length nth_list_update upd_at_def)

end
