(* ===== verification/Memory.thy ===== *)
theory Memory
  imports Prelude
begin

text \<open>
  Physical memory is a map from 64-bit addresses to bytes.  The kernel runs with memory mapped
  at its physical addresses, so a kernel pointer is an address of this map.  A \<^verbatim>\<open>uint64\<close> object
  (a page table entry, the link of a free page, a trapframe register) is eight bytes, least
  significant first.

  The lemmas say which stores a load sees: the same object, a disjoint aligned object, an object
  on another page, an object inside a filled page.
\<close>

type_synonym mem = "addr \<Rightarrow> byte"

section \<open>Loads and stores\<close>

definition write_bytes :: "mem \<Rightarrow> addr \<Rightarrow> byte list \<Rightarrow> mem" where
  "write_bytes m a bs = (\<lambda>x. if unat (x - a) < length bs then bs ! unat (x - a) else m x)"

definition read_bytes :: "mem \<Rightarrow> addr \<Rightarrow> nat \<Rightarrow> byte list" where
  "read_bytes m a n = map (\<lambda>i. m (a + of_nat i)) [0..<n]"

definition load64 :: "mem \<Rightarrow> addr \<Rightarrow> 64 word" where
  "load64 m a = word_rcat (rev (read_bytes m a 8))"

definition bytes64 :: "64 word \<Rightarrow> byte list" where
  "bytes64 v = map (\<lambda>i. ucast (drop_bit (8 * i) v)) [0..<8]"

definition store64 :: "mem \<Rightarrow> addr \<Rightarrow> 64 word \<Rightarrow> mem" where
  "store64 m a v = write_bytes m a (bytes64 v)"

text \<open>The little-endian bytes of a 32-bit \<^verbatim>\<open>int\<close>, as \<^verbatim>\<open>copyout\<close> reads them from the kernel stack.\<close>

definition bytes32 :: "uint \<Rightarrow> byte list" where
  "bytes32 v = map (\<lambda>i. ucast (drop_bit (8 * i) v)) [0..<4]"

lemma length_bytes [simp]: "length (bytes64 v) = 8" "length (bytes32 w) = 4"
    "length (read_bytes m a n) = n"
  by (simp_all add: bytes64_def bytes32_def read_bytes_def)

lemma read_bytes_nth [simp]: "i < n \<Longrightarrow> read_bytes m a n ! i = m (a + of_nat i)"
  by (simp add: read_bytes_def)

lemma write_bytes_in:
  "i < length bs \<Longrightarrow> i < 2 ^ 64 \<Longrightarrow> write_bytes m a bs (a + of_nat i) = bs ! i"
  by (simp add: write_bytes_def unat_of_nat)

lemma write_bytes_out: "length bs \<le> unat (x - a) \<Longrightarrow> write_bytes m a bs x = m x"
  by (simp add: write_bytes_def)

lemma write_bytes_Nil [simp]: "write_bytes m a [] = m"
  by (simp add: write_bytes_def)

lemma read_write_bytes:
  "length bs \<le> 2 ^ 64 \<Longrightarrow> read_bytes (write_bytes m a bs) a (length bs) = bs"
  by (rule nth_equalityI) (simp_all add: write_bytes_in)

lemma bit_load64:
  "bit (load64 m a) n \<longleftrightarrow> n < 64 \<and> bit (m (a + of_nat (n div 8))) (n mod 8)"
  using bit_horner_sum_uint_exp_iff [of "read_bytes m a 8" n]
  by (auto simp: load64_def word_rcat_def bit_word_of_int_iff)

lemma bit_bytes64: "i < 8 \<Longrightarrow> bit (bytes64 v ! i) k \<longleftrightarrow> k < 8 \<and> bit v (8 * i + k)"
  by (auto simp: bytes64_def bit_simps)

lemma load64_store64 [simp]: "load64 (store64 m a v) a = v"
proof (rule bit_word_eqI)
  fix n :: nat
  assume n: "n < LENGTH(64)"
  then have d: "n div 8 < 8" by simp
  have "bit (load64 (store64 m a v) a) n \<longleftrightarrow> bit (bytes64 v ! (n div 8)) (n mod 8)"
    using n d by (simp add: bit_load64 store64_def write_bytes_in)
  also have "\<dots> \<longleftrightarrow> bit v n"
    using d by (simp add: bit_bytes64)
  finally show "bit (load64 (store64 m a v) a) n \<longleftrightarrow> bit v n" .
qed

lemma load64_cong:
  "(\<And>i. i < 8 \<Longrightarrow> m (a + of_nat i) = m' (a + of_nat i)) \<Longrightarrow> load64 m a = load64 m' a"
  by (auto simp: load64_def read_bytes_def intro!: arg_cong [where f = word_rcat])

text \<open>Two aligned 64-bit objects at different addresses do not overlap.\<close>

lemma aligned8_apart:
  assumes "8 dvd unat (a :: addr)" "8 dvd unat b" "a \<noteq> b" "i < 8"
  shows "8 \<le> unat (b + of_nat i - a)"
proof (cases "a \<le> b")
  case True
  have le: "unat a \<le> unat b" using True by (simp add: word_le_nat_alt)
  have ne: "unat a \<noteq> unat b" using assms(3) by (simp add: word_unat_eq_iff)
  obtain k l where k: "unat a = 8 * k" and l: "unat b = 8 * l" using assms(1,2) by (auto elim!: dvdE)
  have lt: "unat b < 2 ^ 64" by (rule unat_lt64)
  have sum: "unat (b + of_nat i) = unat b + i"
    using lt l assms(4) by (intro unat_add_small) auto
  have "unat (b + of_nat i - a) = unat b + i - unat a"
    using le sum by (simp add: unat_sub_if')
  then show ?thesis using k l le ne by auto
next
  case False
  then have lt: "unat b < unat a" by (simp add: word_less_nat_alt not_le)
  obtain k l where k: "unat a = 8 * k" and l: "unat b = 8 * l" using assms(1,2) by (auto elim!: dvdE)
  have bnd: "unat a < 2 ^ 64" by (rule unat_lt64)
  have sum: "unat (b + of_nat i) = unat b + i"
    using lt bnd k l assms(4) by (intro unat_add_small) auto
  have "unat (b + of_nat i - a) = 2 ^ 64 + (unat b + i) - unat a"
    using lt k l sum assms(4) by (simp add: unat_sub_if')
  then show ?thesis using k l lt bnd by auto
qed

lemma load64_store64_other:
  assumes "8 dvd unat a" "8 dvd unat b" "a \<noteq> b"
  shows "load64 (store64 m a v) b = load64 m b"
  using aligned8_apart [OF assms]
  by (intro load64_cong) (simp add: store64_def write_bytes_out)

section \<open>Pages\<close>

abbreviation same_page :: "addr \<Rightarrow> addr \<Rightarrow> bool" where
  "same_page a b \<equiv> unat a div 4096 = unat b div 4096"

lemma page_apart:
  assumes "page_aligned a" "\<not> same_page x a"
  shows "4096 \<le> unat (x - a)"
proof -
  obtain k where k: "unat a = 4096 * k" using assms(1) by (rule page_alignedE)
  have d: "unat x div 4096 \<noteq> k" using assms(2) k by simp
  have bnd: "unat x < 2 ^ 64" "unat a < 2 ^ 64" by simp_all
  show ?thesis
  proof (cases "a \<le> x")
    case True
    then have "unat (x - a) = unat x - unat a" and "unat a \<le> unat x"
      by (simp_all add: unat_sub word_le_nat_alt)
    then show ?thesis using k d by (simp add: div_nat_eqI)
  next
    case False
    then have "unat x < unat a" by (simp add: word_less_nat_alt not_le)
    then have "unat (x - a) = 2 ^ 64 + unat x - unat a"
      by (simp add: unat_sub_if')
    moreover have "k \<le> 4503599627370495" using bnd k by simp
    ultimately show ?thesis using k by simp
  qed
qed

lemma same_page_offset:
  assumes "8 dvd unat (b :: addr)" "i < 8"
  shows "same_page (b + of_nat i) b"
proof -
  obtain l where l: "unat b = 8 * l" using assms(1) by (auto elim!: dvdE)
  have "unat b < 2 ^ 64" by simp
  then have "unat (b + of_nat i) = unat b + i"
    using l assms(2) by (intro unat_add_small) auto
  then show ?thesis using l assms(2) by simp
qed

lemma load64_write_other_page:
  assumes "page_aligned a" "length bs \<le> 4096" "8 dvd unat b" "\<not> same_page b a"
  shows "load64 (write_bytes m a bs) b = load64 m b"
proof (rule load64_cong)
  fix i :: nat
  assume "i < 8"
  then have "\<not> same_page (b + of_nat i) a"
    using same_page_offset [OF assms(3)] assms(4) by simp
  then have "4096 \<le> unat (b + of_nat i - a)" by (rule page_apart [OF assms(1)])
  then show "write_bytes m a bs (b + of_nat i) = m (b + of_nat i)"
    using assms(2) by (simp add: write_bytes_out)
qed

lemma in_page_offset:
  assumes "page_aligned a" "same_page b a"
  shows "unat (b - a) < 4096"
proof -
  obtain k where k: "unat a = 4096 * k" using assms(1) by (rule page_alignedE)
  then have "a \<le> b" using assms(2) by (simp add: word_le_nat_alt)
  then have "unat (b - a) = unat b - unat a" by (simp add: unat_sub)
  then show ?thesis using k assms(2) by simp
qed

lemma load64_zero_mem [simp]: "load64 (\<lambda>_. 0) b = 0"
  by (rule bit_word_eqI) (simp add: bit_load64)

lemma load64_zero_page:
  assumes "page_aligned a" "8 dvd unat b" "same_page b a"
  shows "load64 (write_bytes m a (replicate 4096 0)) b = 0"
proof -
  have "write_bytes m a (replicate 4096 0) (b + of_nat i) = 0" if "i < 8" for i
    using in_page_offset [OF assms(1), of "b + of_nat i"] same_page_offset [OF assms(2) that] assms(3)
    by (simp add: write_bytes_def)
  then have "load64 (write_bytes m a (replicate 4096 0)) b = load64 (\<lambda>_. 0) b"
    by (intro load64_cong) simp
  then show ?thesis by simp
qed

end
