(* ===== verification/Kstring.thy ===== *)
theory Kstring
  imports Memory
begin

text \<open>
  Model of \<^verbatim>\<open>kernel/string.c\<close>.  Each loop of the source is a recursive function over physical
  memory; a count of type \<^verbatim>\<open>uint\<close> is read with \<open>unat\<close>, an \<^verbatim>\<open>int\<close> count is an \<open>int\<close>.  The lemmas
  show that the loops compute what their names promise: \<open>memset\<close> and \<open>memmove\<close> are one block
  write (also when source and destination overlap), \<open>strncmp\<close> decides equality of the first
  \<open>n\<close> characters up to the terminator, \<open>safestrcpy\<close> always terminates its result and writes
  nothing outside the \<open>n\<close> bytes it is given.
\<close>

section \<open>The functions\<close>

fun memset_loop :: "mem \<Rightarrow> addr \<Rightarrow> byte \<Rightarrow> nat \<Rightarrow> mem" where
  "memset_loop m cdst c 0 = m"
| "memset_loop m cdst c (Suc n) = memset_loop (m(cdst := c)) (cdst + 1) c n"

definition memset :: "mem \<Rightarrow> addr \<Rightarrow> byte \<Rightarrow> uint \<Rightarrow> mem" where
  "memset m dst c n = memset_loop m dst c (unat n)"

fun memcmp_loop :: "mem \<Rightarrow> addr \<Rightarrow> addr \<Rightarrow> nat \<Rightarrow> int" where
  "memcmp_loop m s1 s2 0 = 0"
| "memcmp_loop m s1 s2 (Suc n) =
     (if m s1 \<noteq> m s2 then uint (m s1) - uint (m s2) else memcmp_loop m (s1 + 1) (s2 + 1) n)"

definition memcmp :: "mem \<Rightarrow> addr \<Rightarrow> addr \<Rightarrow> uint \<Rightarrow> int" where
  "memcmp m v1 v2 n = memcmp_loop m v1 v2 (unat n)"

fun copy_up :: "mem \<Rightarrow> addr \<Rightarrow> addr \<Rightarrow> nat \<Rightarrow> mem" where
  "copy_up m d s 0 = m"
| "copy_up m d s (Suc n) = copy_up (m(d := m s)) (d + 1) (s + 1) n"

fun copy_down :: "mem \<Rightarrow> addr \<Rightarrow> addr \<Rightarrow> nat \<Rightarrow> mem" where
  "copy_down m d s 0 = m"
| "copy_down m d s (Suc n) = copy_down (m(d - 1 := m (s - 1))) (d - 1) (s - 1) n"

definition memmove :: "mem \<Rightarrow> addr \<Rightarrow> addr \<Rightarrow> uint \<Rightarrow> mem" where
  "memmove m dst src n =
     (if n = 0 then m
      else if src < dst \<and> src + ucast n > dst
      then copy_down m (dst + ucast n) (src + ucast n) (unat n)
      else copy_up m dst src (unat n))"

definition memcpy :: "mem \<Rightarrow> addr \<Rightarrow> addr \<Rightarrow> uint \<Rightarrow> mem" where
  "memcpy m dst src n = memmove m dst src n"

fun strncmp_loop :: "mem \<Rightarrow> addr \<Rightarrow> addr \<Rightarrow> nat \<Rightarrow> int" where
  "strncmp_loop m p q 0 = 0"
| "strncmp_loop m p q (Suc n) =
     (if m p \<noteq> 0 \<and> m p = m q then strncmp_loop m (p + 1) (q + 1) n
      else uint (m p) - uint (m q))"

definition strncmp :: "mem \<Rightarrow> addr \<Rightarrow> addr \<Rightarrow> uint \<Rightarrow> int" where
  "strncmp m p q n = strncmp_loop m p q (unat n)"

fun strncpy_loop :: "mem \<Rightarrow> addr \<Rightarrow> addr \<Rightarrow> nat \<Rightarrow> mem" where
  "strncpy_loop m s t 0 = m"
| "strncpy_loop m s t (Suc n) =
     (let m' = m(s := m t) in
      if m t \<noteq> 0 then strncpy_loop m' (s + 1) (t + 1) n else memset_loop m' (s + 1) 0 n)"

definition strncpy :: "mem \<Rightarrow> addr \<Rightarrow> addr \<Rightarrow> int \<Rightarrow> mem" where
  "strncpy m s t n = strncpy_loop m s t (nat n)"

fun safestrcpy_loop :: "mem \<Rightarrow> addr \<Rightarrow> addr \<Rightarrow> nat \<Rightarrow> mem" where
  "safestrcpy_loop m s t 0 = m(s := 0)"
| "safestrcpy_loop m s t (Suc n) =
     (let m' = m(s := m t) in
      if m t \<noteq> 0 then safestrcpy_loop m' (s + 1) (t + 1) n else m'(s + 1 := 0))"

definition safestrcpy :: "mem \<Rightarrow> addr \<Rightarrow> addr \<Rightarrow> int \<Rightarrow> mem" where
  "safestrcpy m s t n = (if n \<le> 0 then m else safestrcpy_loop m s t (nat (n - 1)))"

partial_function (option) strlen_from :: "mem \<Rightarrow> addr \<Rightarrow> nat \<Rightarrow> nat option" where
  "strlen_from m s n = (if m (s + of_nat n) \<noteq> 0 then strlen_from m s (Suc n) else Some n)"

definition strlen :: "mem \<Rightarrow> addr \<Rightarrow> nat option" where
  "strlen m s = strlen_from m s 0"

section \<open>Filling and copying are block writes\<close>

lemma write_bytes_Cons:
  assumes "length bs < 2 ^ 64"
  shows "write_bytes m a (b # bs) = write_bytes (m(a := b)) (a + 1) bs"
proof
  fix x
  show "write_bytes m a (b # bs) x = write_bytes (m(a := b)) (a + 1) bs x"
  proof (cases "x = a")
    case True
    have "unat (- 1 :: addr) = 2 ^ 64 - 1" by (simp add: unsigned_minus_1_eq_mask mask_eq_exp_minus_1)
    then show ?thesis using True assms by (simp add: write_bytes_def)
  next
    case False
    then have "x - a \<noteq> 0" by simp
    then have "unat (x - a) = Suc (unat (x - a - 1))"
      by (metis Suc_pred' unat_gt_0 unat_minus_one)
    then show ?thesis using False by (simp add: write_bytes_def diff_diff_eq)
  qed
qed

lemma memset_loop_eq: "n \<le> 2 ^ 64 \<Longrightarrow> memset_loop m a c n = write_bytes m a (replicate n c)"
  by (induction n arbitrary: m a) (simp_all add: write_bytes_Cons)

lemma unat32_less: "unat (n :: uint) < 2 ^ 32"
  using unsigned_less [of n, where 'a = nat] by simp

lemma unat32_le: "unat (n :: uint) \<le> 2 ^ 64"
  using unat32_less [of n] by simp

lemma memset_eq: "memset m a c n = write_bytes m a (replicate (unat n) c)"
  unfolding memset_def by (rule memset_loop_eq [OF unat32_le])

lemma read_bytes_Suc: "read_bytes m a (Suc n) = m a # read_bytes m (a + 1) n"
proof (rule nth_equalityI)
  fix i
  assume "i < length (read_bytes m a (Suc n))"
  then show "read_bytes m a (Suc n) ! i = (m a # read_bytes m (a + 1) n) ! i"
    by (cases i) (simp_all add: add.assoc)
qed simp

lemma read_bytes_snoc: "read_bytes m a (Suc n) = read_bytes m a n @ [m (a + of_nat n)]"
  by (simp add: read_bytes_def)

lemma read_bytes_upd:
  "(\<And>i. i < n \<Longrightarrow> x \<noteq> a + of_nat i) \<Longrightarrow> read_bytes (m(x := v)) a n = read_bytes m a n"
  by (rule nth_equalityI) auto

lemma write_bytes_snoc:
  assumes "length bs < 2 ^ 64"
  shows "write_bytes (m(a + of_nat (length bs) := b)) a bs = write_bytes m a (bs @ [b])"
proof
  fix x
  have "x = a + of_nat (length bs)" if "unat (x - a) = length bs"
  proof -
    have "x - a = of_nat (length bs)" using that [symmetric] by simp
    then show ?thesis by (simp add: diff_eq_eq add.commute)
  qed
  then have "x = a + of_nat (length bs) \<longleftrightarrow> unat (x - a) = length bs"
    using word_diff_of_nat [OF assms] by blast
  then show "write_bytes (m(a + of_nat (length bs) := b)) a bs x = write_bytes m a (bs @ [b]) x"
    by (auto simp: write_bytes_def nth_append)
qed

lemma copy_up_eq:
  assumes "n \<le> 2 ^ 64" "\<And>i j. i < j \<Longrightarrow> j < n \<Longrightarrow> d + of_nat i \<noteq> s + of_nat j"
  shows "copy_up m d s n = write_bytes m d (read_bytes m s n)"
  using assms
proof (induction n arbitrary: m d s)
  case 0
  then show ?case by (simp add: read_bytes_def)
next
  case (Suc n)
  have apart: "d + 1 + of_nat i \<noteq> s + 1 + of_nat j" if "i < j" "j < n" for i j
    using Suc.prems(2) [of "Suc i" "Suc j"] that by (simp add: ac_simps)
  have fresh: "d \<noteq> s + 1 + of_nat i" if "i < n" for i
    using Suc.prems(2) [of 0 "Suc i"] that by (simp add: ac_simps)
  have "copy_up m d s (Suc n) = write_bytes (m(d := m s)) (d + 1) (read_bytes (m(d := m s)) (s + 1) n)"
    unfolding copy_up.simps by (rule Suc.IH) (use apart Suc.prems(1) in simp_all)
  also have "\<dots> = write_bytes (m(d := m s)) (d + 1) (read_bytes m (s + 1) n)"
    using fresh by (simp add: read_bytes_upd)
  also have "\<dots> = write_bytes m d (read_bytes m s (Suc n))"
    using Suc.prems(1) by (simp add: write_bytes_Cons read_bytes_Suc)
  finally show ?case .
qed

lemma copy_down_eq:
  assumes "n \<le> 2 ^ 64" "\<And>i j. i < j \<Longrightarrow> j < n \<Longrightarrow> d + of_nat j \<noteq> s + of_nat i"
  shows "copy_down m (d + of_nat n) (s + of_nat n) n = write_bytes m d (read_bytes m s n)"
  using assms
proof (induction n arbitrary: m)
  case 0
  then show ?case by (simp add: read_bytes_def)
next
  case (Suc n)
  let ?m = "m(d + of_nat n := m (s + of_nat n))"
  have "copy_down m (d + of_nat (Suc n)) (s + of_nat (Suc n)) (Suc n)
        = copy_down ?m (d + of_nat n) (s + of_nat n) n"
    by (simp add: algebra_simps)
  also have "\<dots> = write_bytes ?m d (read_bytes ?m s n)"
    using Suc by simp
  also have "\<dots> = write_bytes ?m d (read_bytes m s n)"
    using Suc.prems(2) by (subst read_bytes_upd) auto
  also have "\<dots> = write_bytes m d (read_bytes m s (Suc n))"
    using Suc.prems(1) write_bytes_snoc [of "read_bytes m s n" m d "m (s + of_nat n)"]
    by (simp add: read_bytes_snoc)
  finally show ?case .
qed

lemma memmove_eq:
  assumes "unat dst + unat n < 2 ^ 64" "unat src + unat n < 2 ^ 64"
  shows "memmove m dst src n = write_bytes m dst (read_bytes m src (unat n))"
proof -
  let ?n = "unat n"
  have n: "?n \<le> 2 ^ 64" by (rule unat32_le)
  have cast: "ucast n = (of_nat ?n :: addr)" by simp
  have u: "unat (dst + of_nat i) = unat dst + i" "unat (src + of_nat i) = unat src + i"
    if "i \<le> ?n" for i
    using assms that by (auto intro!: unat_add_small)
  show ?thesis
  proof (cases "src < dst \<and> src + ucast n > dst")
    case True
    then have lt: "unat src < unat dst" by (simp add: word_less_nat_alt)
    have "dst + of_nat j \<noteq> src + of_nat i" if "i < j" "j < ?n" for i j
    proof
      assume "dst + of_nat j = src + of_nat i"
      then have "unat dst + j = unat src + i" using u [of i] u [of j] that by simp
      then show False using lt that by simp
    qed
    then have "copy_down m (dst + of_nat ?n) (src + of_nat ?n) ?n = write_bytes m dst (read_bytes m src ?n)"
      by (rule copy_down_eq [OF n])
    then show ?thesis using True by (auto simp: memmove_def read_bytes_def)
  next
    case False
    have "dst + of_nat i \<noteq> src + of_nat j" if "i < j" "j < ?n" for i j
    proof
      assume "dst + of_nat i = src + of_nat j"
      then have eq: "unat dst + i = unat src + j" using u [of i] u [of j] that by simp
      then have "src < dst" using that by (simp add: word_less_nat_alt)
      with False have "unat (src + ucast n) \<le> unat dst" by (simp add: word_le_nat_alt not_less)
      then have "unat src + ?n \<le> unat dst" using u(2) [of ?n] by (simp only: cast)
      then show False using eq that by simp
    qed
    then have "copy_up m dst src ?n = write_bytes m dst (read_bytes m src ?n)"
      by (rule copy_up_eq [OF n])
    then show ?thesis using False by (auto simp: memmove_def read_bytes_def)
  qed
qed

section \<open>Strings\<close>

abbreviation chars :: "mem \<Rightarrow> addr \<Rightarrow> nat \<Rightarrow> byte list" where
  "chars m s n \<equiv> takeWhile (\<lambda>b. b \<noteq> 0) (read_bytes m s n)"

lemma uint_diff_0: "uint (a :: byte) - uint b = 0 \<longleftrightarrow> a = b"
  by (simp add: word_uint_eq_iff)

lemma strncmp_loop_0: "strncmp_loop m p q n = 0 \<longleftrightarrow> chars m p n = chars m q n"
proof (induction n arbitrary: p q)
  case 0
  then show ?case by (simp add: read_bytes_def)
next
  case (Suc n)
  show ?case
  proof (cases "m p \<noteq> 0 \<and> m p = m q")
    case True
    then show ?thesis using Suc.IH by (auto simp: read_bytes_Suc)
  next
    case False
    then show ?thesis using uint_diff_0 [of "m p" "m q"] by (auto simp: read_bytes_Suc)
  qed
qed

lemma strncmp_0: "strncmp m p q n = 0 \<longleftrightarrow> chars m p (unat n) = chars m q (unat n)"
  by (simp add: strncmp_def strncmp_loop_0)

lemma memcmp_loop_0: "memcmp_loop m p q n = 0 \<longleftrightarrow> read_bytes m p n = read_bytes m q n"
proof (induction n arbitrary: p q)
  case 0
  then show ?case by (simp add: read_bytes_def)
next
  case (Suc n)
  then show ?case using uint_diff_0 [of "m p" "m q"] by (auto simp: read_bytes_Suc)
qed

lemma memcmp_0: "memcmp m p q n = 0 \<longleftrightarrow> read_bytes m p (unat n) = read_bytes m q (unat n)"
  by (simp add: memcmp_def memcmp_loop_0)

lemma safestrcpy_loop_terminated: "\<exists>k \<le> n. safestrcpy_loop m s t n (s + of_nat k) = 0"
proof (induction n arbitrary: m s t)
  case 0
  then show ?case by simp
next
  case (Suc n)
  show ?case
  proof (cases "m t = 0")
    case True
    then show ?thesis by (intro exI [of _ 1]) simp
  next
    case False
    obtain k where "k \<le> n" "safestrcpy_loop (m(s := m t)) (s + 1) (t + 1) n (s + 1 + of_nat k) = 0"
      using Suc.IH by blast
    then show ?thesis using False by (intro exI [of _ "Suc k"]) (simp add: ac_simps)
  qed
qed

lemma word_off_Suc:
  assumes "Suc n \<le> unat (x - s :: addr)"
  shows "n \<le> unat (x - (s + 1))" "x \<noteq> s"
proof -
  have ne: "x - s \<noteq> 0" using assms by auto
  then have "unat (x - s) = Suc (unat (x - s - 1))"
    by (metis Suc_pred' unat_gt_0 unat_minus_one)
  then show "n \<le> unat (x - (s + 1))" using assms by (simp add: diff_diff_eq)
  show "x \<noteq> s" using ne by auto
qed

lemma safestrcpy_loop_frame: "Suc n \<le> unat (x - s) \<Longrightarrow> safestrcpy_loop m s t n x = m x"
proof (induction n arbitrary: m s t)
  case 0
  then show ?case by auto
next
  case (Suc n)
  note off = word_off_Suc [OF Suc.prems]
  have "x \<noteq> s + 1" using off(1) by auto
  then show ?case using Suc.IH [OF off(1)] off(2) by (simp add: Let_def)
qed

lemma safestrcpy_bounded:
  assumes "0 < n"
  shows "\<exists>k < nat n. safestrcpy m s t n (s + of_nat k) = 0"
    and "nat n \<le> unat (x - s) \<Longrightarrow> safestrcpy m s t n x = m x"
proof -
  have n: "nat n = Suc (nat (n - 1))" using assms by simp
  then show "\<exists>k < nat n. safestrcpy m s t n (s + of_nat k) = 0"
    using safestrcpy_loop_terminated [of "nat (n - 1)" m s t] assms
    by (auto simp: safestrcpy_def less_Suc_eq_le)
  show "nat n \<le> unat (x - s) \<Longrightarrow> safestrcpy m s t n x = m x"
    using safestrcpy_loop_frame [of "nat (n - 1)" x s m t] assms n by (simp add: safestrcpy_def)
qed

lemma strlen_from_stops:
  "m (s + of_nat (n + d)) = 0 \<Longrightarrow> (\<forall>i < d. m (s + of_nat (n + i)) \<noteq> 0) \<Longrightarrow>
   strlen_from m s n = Some (n + d)"
proof (induction d arbitrary: n)
  case 0
  then show ?case by (simp add: strlen_from.simps)
next
  case (Suc d)
  have "m (s + of_nat n) \<noteq> 0" using Suc.prems(2) by (metis add.right_neutral zero_less_Suc)
  moreover have "strlen_from m s (Suc n) = Some (Suc n + d)"
  proof (rule Suc.IH)
    show "m (s + of_nat (Suc n + d)) = 0" using Suc.prems(1) by (metis add_Suc_shift)
    show "\<forall>i < d. m (s + of_nat (Suc n + i)) \<noteq> 0"
      using Suc.prems(2) by (metis Suc_less_eq add_Suc_shift)
  qed
  ultimately show ?case by (simp add: strlen_from.simps [of m s n])
qed

lemma strlen_stops:
  "m (s + of_nat n) = 0 \<Longrightarrow> (\<And>i. i < n \<Longrightarrow> m (s + of_nat i) \<noteq> 0) \<Longrightarrow> strlen m s = Some n"
  using strlen_from_stops [of m s 0 n] by (simp add: strlen_def)

section \<open>Properties\<close>

text \<open>
  C9. \<open>memmove\<close> copies correctly even when source and destination overlap: afterwards the
  destination holds the bytes the source held before the call, and every byte outside the
  destination range is unchanged.
\<close>

theorem memmove_correct:
  assumes "unat dst + unat n < 2 ^ 64" "unat src + unat n < 2 ^ 64"
  shows "read_bytes (memmove m dst src n) dst (unat n) = read_bytes m src (unat n) \<and>
    (\<forall>x. unat n \<le> unat (x - dst) \<longrightarrow> memmove m dst src n x = m x)"
proof -
  have "unat n \<le> 2 ^ 64" by (rule unat32_le)
  then show ?thesis
    using read_write_bytes [of "read_bytes m src (unat n)" m dst]
    by (simp add: memmove_eq [OF assms] write_bytes_out)
qed

theorem memmove_correct_witness:
  "read_bytes (memmove (\<lambda>x. ucast x) 0x1004 0x1000 8) 0x1004 8 = [0, 1, 2, 3, 4, 5, 6, 7]"
proof -
  have "read_bytes (memmove (\<lambda>x. ucast x) 0x1004 0x1000 8) 0x1004 (unat (8 :: uint)) =
      read_bytes (\<lambda>x. ucast x) 0x1000 (unat (8 :: uint))"
    by (rule memmove_correct [THEN conjunct1]) simp_all
  also have "\<dots> = [0, 1, 2, 3, 4, 5, 6, 7]" by (simp add: read_bytes_def upt_rec)
  finally show ?thesis by simp
qed

end
