(* ===== verification/Kalloc.thy ===== *)
theory Kalloc
  imports Kstring
begin

text \<open>
  Model of \<^verbatim>\<open>kernel/kalloc.c\<close>.  The state is physical memory and the head of the free list; the
  list itself is threaded through the free pages, each holding the address of the next one in
  its first eight bytes (\<^verbatim>\<open>struct run\<close>), exactly as in the source.  \<open>kend\<close> is the linker symbol
  \<^verbatim>\<open>end\<close>, the first address after the kernel image; \<open>etext\<close> and \<open>trampoline\<close> are the other two
  linker symbols the memory code uses.  No operation changes them.  \<open>kernel_pagetable\<close> is the global
  of \<^verbatim>\<open>kernel/vm.c\<close> that \<^verbatim>\<open>kvminit\<close> sets.

  \<open>kmem_inv s xs\<close> says that the list in memory is \<open>xs\<close>.  The lemmas show that \<open>kalloc\<close> pops
  this list, \<open>kfree\<close> pushes, neither touches any other page, and \<open>kinit\<close> builds the list of all
  pages between \<^verbatim>\<open>end\<close> and \<^verbatim>\<open>PHYSTOP\<close>.  The interface the other components use is the locale
  \<open>page_allocator\<close>, interpreted on \<open>kalloc\<close> and \<open>kfree\<close>.
\<close>

record kmem_state =
  pmem :: mem
  freelist :: addr
  kend :: addr
  etext :: addr
  trampoline :: addr
  kernel_pagetable :: addr

section \<open>The allocator\<close>

definition kfree :: "addr \<Rightarrow> 'z kmem_state_scheme \<Rightarrow> 'z kmem_state_scheme outcome" where
  "kfree pa s =
     (if pa mod PGSIZE \<noteq> 0 \<or> pa < kend s \<or> pa \<ge> PHYSTOP then Panic ''kfree''
      else let m = memset (pmem s) pa 1 4096
           in Ret (s\<lparr>pmem := store64 m pa (freelist s), freelist := pa\<rparr>))"

fun freerange_loop :: "nat \<Rightarrow> addr \<Rightarrow> addr \<Rightarrow> 'z kmem_state_scheme \<Rightarrow> 'z kmem_state_scheme outcome" where
  "freerange_loop 0 p pa_end s = Hang"
| "freerange_loop (Suc fuel) p pa_end s =
     (if p + PGSIZE \<le> pa_end
      then obind (kfree p s) (freerange_loop fuel (p + PGSIZE) pa_end)
      else Ret s)"

definition freerange :: "addr \<Rightarrow> addr \<Rightarrow> 'z kmem_state_scheme \<Rightarrow> 'z kmem_state_scheme outcome" where
  "freerange pa_start pa_end s =
     freerange_loop (Suc (unat pa_end div 4096)) (PGROUNDUP pa_start) pa_end s"

definition kinit :: "'z kmem_state_scheme \<Rightarrow> 'z kmem_state_scheme outcome" where
  "kinit s = freerange (kend s) PHYSTOP s"

definition kalloc :: "'z kmem_state_scheme \<Rightarrow> addr \<times> 'z kmem_state_scheme" where
  "kalloc s =
     (let r = freelist s;
          s1 = (if r \<noteq> 0 then s\<lparr>freelist := load64 (pmem s) r\<rparr> else s);
          s2 = (if r \<noteq> 0 then s1\<lparr>pmem := memset (pmem s1) r 5 4096\<rparr> else s1)
      in (r, s2))"

section \<open>The free list in memory\<close>

fun run_chain :: "mem \<Rightarrow> addr \<Rightarrow> addr list \<Rightarrow> bool" where
  "run_chain m p [] \<longleftrightarrow> p = 0"
| "run_chain m p (x # xs) \<longleftrightarrow> p = x \<and> x \<noteq> 0 \<and> run_chain m (load64 m x) xs"

definition page_ok :: "'z kmem_state_scheme \<Rightarrow> addr \<Rightarrow> bool" where
  "page_ok s a \<longleftrightarrow> page_aligned a \<and> kend s \<le> a \<and> a < PHYSTOP"

definition kmem_inv :: "'z kmem_state_scheme \<Rightarrow> addr list \<Rightarrow> bool" where
  "kmem_inv s xs \<longleftrightarrow>
     KERNBASE \<le> kend s \<and> run_chain (pmem s) (freelist s) xs \<and> distinct xs \<and> list_all (page_ok s) xs"

lemma run_chain_cong:
  "(\<And>x. x \<in> set xs \<Longrightarrow> load64 m x = load64 m' x) \<Longrightarrow> run_chain m p xs = run_chain m' p xs"
  by (induction xs arbitrary: p) auto

lemma run_chain_unique: "run_chain m p xs \<Longrightarrow> run_chain m p ys \<Longrightarrow> xs = ys"
proof (induction xs arbitrary: p ys)
  case Nil
  then show ?case by (cases ys) auto
next
  case (Cons x xs)
  then show ?case by (cases ys) auto
qed

lemma page_ok_nonzero: "KERNBASE \<le> kend s \<Longrightarrow> page_ok s a \<Longrightarrow> a \<noteq> 0"
  by (auto simp: page_ok_def)

lemma page_ok_aligned: "page_ok s a \<Longrightarrow> page_aligned a"
  by (simp add: page_ok_def)

lemma page_ok_cong: "kend t = kend s \<Longrightarrow> page_ok t = page_ok s"
  by (simp add: page_ok_def fun_eq_iff)

lemma kmem_inv_same:
  "kend t = kend s \<Longrightarrow> freelist t = freelist s \<Longrightarrow> pmem t = pmem s \<Longrightarrow> kmem_inv t fs = kmem_inv s fs"
  by (simp add: kmem_inv_def page_ok_cong [of t s])

lemma kmem_inv_unique: "kmem_inv s xs \<Longrightarrow> kmem_inv s ys \<Longrightarrow> xs = ys"
  by (auto simp: kmem_inv_def dest: run_chain_unique)

lemma aligned_same_page: "page_aligned a \<Longrightarrow> page_aligned b \<Longrightarrow> same_page a b \<longleftrightarrow> a = b"
  by (auto simp: word_unat_eq_iff elim!: page_alignedE)

lemma run_chain_fill_other:
  assumes "page_aligned a" "list_all page_aligned xs" "a \<notin> set xs" "length bs \<le> 4096"
  shows "run_chain (write_bytes m a bs) p xs = run_chain m p xs"
proof (rule run_chain_cong)
  fix x
  assume x: "x \<in> set xs"
  then have al: "page_aligned x" using assms(2) by (auto simp: list_all_iff)
  then have "\<not> same_page x a" using assms(1,3) x by (auto simp: aligned_same_page)
  then show "load64 (write_bytes m a bs) x = load64 m x"
    using assms al by (intro load64_write_other_page) (auto simp: page_aligned_8)
qed

section \<open>Allocation and release\<close>

lemma memset_page: "memset m a c 4096 = write_bytes m a (replicate 4096 c)"
  by (simp add: memset_eq)

lemma kalloc_Nil: "kmem_inv s [] \<Longrightarrow> kalloc s = (0, s)"
  by (simp add: kmem_inv_def kalloc_def)

lemma kalloc_Cons:
  assumes "kmem_inv s (x # xs)"
  shows "kalloc s = (x, s\<lparr>freelist := load64 (pmem s) x,
                          pmem := write_bytes (pmem s) x (replicate 4096 5)\<rparr>)"
  using assms by (simp add: kmem_inv_def kalloc_def memset_page)

lemma kmem_inv_frame:
  assumes "kmem_inv s xs" "kend s' = kend s" "freelist s' = freelist s"
    "\<And>x. x \<in> set xs \<Longrightarrow> load64 (pmem s') x = load64 (pmem s) x"
  shows "kmem_inv s' xs"
  using assms run_chain_cong [of xs "pmem s'" "pmem s"]
  by (auto simp: kmem_inv_def page_ok_def list_all_iff)

lemma kalloc_inv:
  assumes "kmem_inv s (x # xs)"
  shows "kmem_inv (snd (kalloc s)) xs"
proof -
  have al: "page_aligned x" "list_all page_aligned xs" "x \<notin> set xs"
    using assms by (auto simp: kmem_inv_def page_ok_def list_all_iff)
  then have "run_chain (write_bytes (pmem s) x (replicate 4096 5)) (load64 (pmem s) x) xs"
    using assms by (subst run_chain_fill_other) (auto simp: kmem_inv_def)
  then show ?thesis
    using assms by (auto simp: kalloc_Cons [OF assms] kmem_inv_def page_ok_def list_all_iff)
qed

lemma kfree_ok:
  assumes "page_ok s a"
  shows "kfree a s = Ret (s\<lparr>pmem := store64 (write_bytes (pmem s) a (replicate 4096 1)) a (freelist s),
                            freelist := a\<rparr>)"
  using assms unfolding page_ok_def page_aligned_def
  by (simp add: kfree_def memset_page Let_def not_less not_le)

lemma kfree_panics: "\<not> page_ok s a \<Longrightarrow> kfree a s = Panic ''kfree''"
  unfolding page_ok_def page_aligned_def kfree_def by (auto simp: not_less not_le)

lemma store64_out_of_page:
  assumes "page_aligned a" "\<not> same_page x a"
  shows "store64 m a v x = m x"
  using page_apart [OF assms] by (simp add: store64_def write_bytes_out)

lemma run_chain_store_other:
  assumes "page_aligned a" "list_all page_aligned xs" "a \<notin> set xs"
  shows "run_chain (store64 m a v) p xs = run_chain m p xs"
  unfolding store64_def using assms by (rule run_chain_fill_other) simp

lemma kfree_inv:
  assumes "kmem_inv s xs" "page_ok s a" "a \<notin> set xs" "kfree a s = Ret s'"
  shows "kmem_inv s' (a # xs)"
proof -
  have al: "page_aligned a" "list_all page_aligned xs"
    using assms by (auto simp: kmem_inv_def page_ok_def list_all_iff)
  have "run_chain (pmem s') (freelist s) xs"
    using assms al by (auto simp: kfree_ok run_chain_store_other run_chain_fill_other kmem_inv_def)
  then show ?thesis
    using assms page_ok_nonzero [of s a]
    by (auto simp: kfree_ok kmem_inv_def page_ok_def list_all_iff)
qed

text \<open>Neither operation touches a byte outside the page it hands over or takes back.\<close>

lemma kalloc_frame:
  assumes "kmem_inv s xs" "kalloc s = (a, s')" "a = 0 \<or> \<not> same_page y a"
  shows "pmem s' y = pmem s y"
proof (cases xs)
  case Nil
  then show ?thesis using assms kalloc_Nil [of s] by simp
next
  case (Cons x xs')
  have "page_aligned x" "x \<noteq> 0"
    using assms(1) Cons page_ok_nonzero by (auto simp: kmem_inv_def page_ok_def)
  moreover have "a = x" using assms Cons kalloc_Cons [of s x xs'] by simp
  ultimately have "4096 \<le> unat (y - x)" using assms(3) by (auto intro: page_apart)
  then show ?thesis
    using assms Cons kalloc_Cons [of s x xs'] by (auto simp: write_bytes_out)
qed

lemma kfree_frame:
  assumes "kfree a s = Ret s'" "\<not> same_page y a"
  shows "pmem s' y = pmem s y"
proof -
  have ok: "page_ok s a" using assms(1) kfree_panics by fastforce
  then have "4096 \<le> unat (y - a)" using assms(2) by (intro page_apart) (auto simp: page_ok_def)
  then show ?thesis
    using assms(1) ok by (auto simp: kfree_ok store64_def write_bytes_out)
qed

lemma kalloc_shape: "\<exists>m f. snd (kalloc s) = s\<lparr>pmem := m, freelist := f\<rparr>"
proof -
  have "snd (kalloc s) = s\<lparr>pmem := pmem (snd (kalloc s)), freelist := freelist (snd (kalloc s))\<rparr>"
    by (simp add: kalloc_def Let_def)
  then show ?thesis by blast
qed

lemma kfree_shape: "kfree a s = Ret s' \<Longrightarrow> \<exists>m f. s' = s\<lparr>pmem := m, freelist := f\<rparr>"
  by (auto simp: kfree_def Let_def split: if_splits)

lemma kalloc_kend [frame, simp]: "kend (snd (kalloc s)) = kend s"
  using kalloc_shape [of s] by auto

lemma kfree_kend [frame]: "kfree a s = Ret s' \<Longrightarrow> kend s' = kend s"
  using kfree_shape [of a s] by auto

section \<open>Initialisation\<close>

text \<open>
  The pages that \<open>kinit\<close> frees, in address order: those from \<^verbatim>\<open>PGROUNDUP(end)\<close> that lie wholly
  below \<^verbatim>\<open>PHYSTOP\<close>.
\<close>

definition pages_between :: "addr \<Rightarrow> nat \<Rightarrow> addr list" where
  "pages_between p n = map (\<lambda>i. p + of_nat i * PGSIZE) [0..<n]"

lemma pages_between_Suc: "pages_between p (Suc n) = p # pages_between (p + PGSIZE) n"
  by (simp add: pages_between_def map_upt_Suc algebra_simps del: upt_Suc)

lemma unat_page_plus:
  "page_aligned p \<Longrightarrow> unat p + 4096 * n \<le> 2 ^ 32 \<Longrightarrow> unat (p + of_nat n * PGSIZE) = unat p + 4096 * n"
  using unat_add_small [of p "4096 * n"] by (simp add: mult.commute)

lemma freerange_loop_ok:
  assumes "kmem_inv s xs" "page_aligned p" "kend s \<le> p" "n < fuel"
    and "unat p + 4096 * n \<le> unat e" "unat e < unat p + 4096 * Suc n" "e \<le> PHYSTOP"
    and "\<And>x. x \<in> set xs \<Longrightarrow> x < p"
  shows "\<exists>s'. freerange_loop fuel p e s = Ret s' \<and> kend s' = kend s \<and>
              kmem_inv s' (rev (pages_between p n) @ xs)"
  using assms
proof (induction fuel arbitrary: p n s xs)
  case 0
  then show ?case by simp
next
  case (Suc fuel)
  have e32: "unat e \<le> 2281701376" using Suc.prems(7) by (simp add: word_le_nat_alt)
  have step: "unat (p + PGSIZE) = unat p + 4096"
    using Suc.prems(5) e32 unat_add_small [of p 4096] Suc.prems(6)
    by simp
  show ?case
  proof (cases n)
    case 0
    then have "\<not> p + PGSIZE \<le> e"
      using Suc.prems(6) step by (simp add: word_le_nat_alt)
    then show ?thesis using Suc.prems 0 by (auto simp: pages_between_def)
  next
    case (Suc k)
    have le: "p + PGSIZE \<le> e"
      using Suc.prems(5) step Suc by (simp add: word_le_nat_alt)
    have pe: "unat p + 4096 \<le> unat e" using Suc.prems(5) Suc by simp
    have "p < PHYSTOP" using pe e32 by (simp add: word_less_nat_alt)
    then have ok: "page_ok s p" using Suc.prems by (simp add: page_ok_def)
    have fresh: "p \<notin> set xs" using Suc.prems(8) by blast
    obtain s1 where s1: "kfree p s = Ret s1" using kfree_ok [OF ok] by blast
    have inv1: "kmem_inv s1 (p # xs)" by (rule kfree_inv [OF Suc.prems(1) ok fresh s1])
    have kend1: "kend s1 = kend s" by (rule kfree_kend [OF s1])
    have below: "p < p + PGSIZE" using step by (simp add: word_less_nat_alt)
    have "\<exists>s'. freerange_loop fuel (p + PGSIZE) e s1 = Ret s' \<and> kend s' = kend s1 \<and>
            kmem_inv s' (rev (pages_between (p + PGSIZE) k) @ p # xs)"
    proof (rule Suc.IH [OF inv1])
      show "page_aligned (p + PGSIZE)"
        using Suc.prems(2) step unfolding page_aligned_iff by simp
      show "kend s1 \<le> p + PGSIZE" using kend1 Suc.prems(3) below by simp
      show "k < fuel" using Suc.prems(4) Suc by simp
      show "unat (p + PGSIZE) + 4096 * k \<le> unat e" "unat e < unat (p + PGSIZE) + 4096 * Suc k"
        using Suc.prems(5,6) Suc step by simp_all
      show "e \<le> PHYSTOP" by (rule Suc.prems(7))
      show "x < p + PGSIZE" if "x \<in> set (p # xs)" for x
        using that below Suc.prems(8) by (auto intro: less_trans)
    qed
    then show ?thesis using le s1 kend1 Suc by (auto simp: pages_between_Suc)
  qed
qed

text \<open>How many pages lie between two addresses, counted as \<open>freerange\<close> counts them.\<close>

definition free_count :: "addr \<Rightarrow> addr \<Rightarrow> nat" where
  "free_count lo hi = (unat hi - unat (PGROUNDUP lo)) div 4096"

lemma kinit_ok:
  assumes "KERNBASE \<le> kend s" "kend s \<le> PHYSTOP" "freelist s = 0"
  shows "\<exists>s'. kinit s = Ret s' \<and> kend s' = kend s \<and>
     kmem_inv s' (rev (pages_between (PGROUNDUP (kend s)) (free_count (kend s) PHYSTOP)))"
proof -
  let ?p = "PGROUNDUP (kend s)" and ?n = "free_count (kend s) PHYSTOP"
  have k: "unat (kend s) \<le> 2281701376" using assms(2) by (simp add: word_le_nat_alt)
  then have p: "unat ?p = (unat (kend s) + 4095) div 4096 * 4096"
    by (intro unat_PGROUNDUP) simp
  have "unat (kend s) \<le> unat ?p" unfolding p by (rule round_up_ge)
  then have kp: "kend s \<le> ?p" by (simp add: word_le_nat_alt)
  have "(unat (kend s) + 4095) div 4096 \<le> 2281705471 div 4096"
    using k by (intro div_le_mono) simp
  then have top: "unat ?p \<le> 2281701376" unfolding p by simp
  have al: "page_aligned ?p" unfolding page_aligned_iff p by simp
  have inv: "kmem_inv s []" using assms by (simp add: kmem_inv_def)
  have "\<exists>s'. freerange_loop (Suc (unat PHYSTOP div 4096)) ?p PHYSTOP s = Ret s' \<and> kend s' = kend s \<and>
              kmem_inv s' (rev (pages_between ?p ?n) @ [])"
  proof (rule freerange_loop_ok [OF inv al kp])
    show "?n < Suc (unat PHYSTOP div 4096)"
      by (simp add: free_count_def div_le_mono)
    have sum: "unat ?p + (unat PHYSTOP - unat ?p) = unat PHYSTOP" using top by simp
    show "unat ?p + 4096 * ?n \<le> unat PHYSTOP"
      using sum unfolding free_count_def by (metis add_le_cancel_left div_times_less_eq_dividend mult.commute)
    show "unat PHYSTOP < unat ?p + 4096 * Suc ?n"
      using sum unfolding free_count_def
      by (metis add_less_cancel_left dividend_less_times_div mult_Suc_right zero_less_numeral)
  qed simp_all
  then show ?thesis by (simp add: kinit_def freerange_def)
qed

section \<open>The allocator as an interface\<close>

text \<open>
  What the clients of the allocator rely on: page table creation, pipes, disk requests and
  process creation call \<open>alloc\<close> and \<open>free\<close> only through these laws.
\<close>

locale page_allocator =
  fixes alloc :: "'s \<Rightarrow> addr \<times> 's"
    and free :: "addr \<Rightarrow> 's \<Rightarrow> 's outcome"
    and inv :: "'s \<Rightarrow> addr list \<Rightarrow> bool"
    and valid :: "'s \<Rightarrow> addr \<Rightarrow> bool"
  assumes alloc_empty: "inv s [] \<Longrightarrow> alloc s = (0, s)"
    and alloc_pop: "inv s (x # xs) \<Longrightarrow> fst (alloc s) = x \<and> inv (snd (alloc s)) xs"
    and alloc_valid: "inv s xs \<Longrightarrow> valid (snd (alloc s)) a = valid s a"
    and free_push: "inv s xs \<Longrightarrow> valid s a \<Longrightarrow> a \<notin> set xs \<Longrightarrow> \<exists>s'. free a s = Ret s' \<and> inv s' (a # xs)"
    and inv_distinct: "inv s xs \<Longrightarrow> distinct xs"
    and inv_valid: "inv s xs \<Longrightarrow> x \<in> set xs \<Longrightarrow> valid s x"
    and inv_nonzero: "inv s xs \<Longrightarrow> 0 \<notin> set xs"
begin

fun alloc_n :: "nat \<Rightarrow> 's \<Rightarrow> addr list \<times> 's" where
  "alloc_n 0 s = ([], s)"
| "alloc_n (Suc n) s = (let (a, s1) = alloc s; (as, s2) = alloc_n n s1 in (a # as, s2))"

lemma alloc_fails_iff: "inv s xs \<Longrightarrow> fst (alloc s) = 0 \<longleftrightarrow> xs = []"
  using alloc_empty alloc_pop inv_nonzero by (cases xs) fastforce+

lemma alloc_n_takes:
  "inv s xs \<Longrightarrow> n \<le> length xs \<Longrightarrow>
   fst (alloc_n n s) = take n xs \<and> inv (snd (alloc_n n s)) (drop n xs)"
proof (induction n arbitrary: s xs)
  case 0
  then show ?case by simp
next
  case (Suc n)
  then obtain x ys where xs: "xs = x # ys" by (cases xs) auto
  have "fst (alloc s) = x" "inv (snd (alloc s)) ys" using alloc_pop [of s x ys] Suc.prems xs by auto
  then show ?case using Suc.IH [of "snd (alloc s)" ys] Suc.prems xs
    by (simp add: split_beta Let_def)
qed

lemma alloc_n_distinct:
  "inv s xs \<Longrightarrow> n \<le> length xs \<Longrightarrow> distinct (fst (alloc_n n s)) \<and> 0 \<notin> set (fst (alloc_n n s))"
  using alloc_n_takes [of s xs n] inv_distinct [of s xs] inv_nonzero [of s xs]
  by (auto dest: in_set_takeD)

lemma alloc_free:
  assumes "inv s (x # xs)"
  shows "\<exists>s'. free (fst (alloc s)) (snd (alloc s)) = Ret s' \<and> inv s' (x # xs)"
proof -
  have a: "fst (alloc s) = x" "inv (snd (alloc s)) xs" using alloc_pop assms by auto
  moreover have "valid (snd (alloc s)) x" using alloc_valid inv_valid assms by simp
  moreover have "x \<notin> set xs" using inv_distinct [OF assms] by simp
  ultimately show ?thesis using free_push by simp
qed

lemma free_alloc:
  assumes "inv s xs" "valid s a" "a \<notin> set xs" "free a s = Ret s'"
  shows "fst (alloc s') = a \<and> inv (snd (alloc s')) xs"
  using free_push [OF assms(1-3)] assms(4) alloc_pop by force

end

lemma kfree_push:
  assumes "kmem_inv s xs" "page_ok s a" "a \<notin> set xs"
  shows "\<exists>s'. kfree a s = Ret s' \<and> kmem_inv s' (a # xs)"
  using kfree_inv [OF assms kfree_ok [OF assms(2)]] kfree_ok [OF assms(2)] by simp

lemma kmem_inv_nonzero: "kmem_inv s xs \<Longrightarrow> 0 \<notin> set xs"
  by (metis kmem_inv_def list_all_iff page_ok_nonzero)

interpretation kmem: page_allocator kalloc kfree kmem_inv page_ok
  apply unfold_locales
  subgoal by (rule kalloc_Nil)
  subgoal for s x xs using kalloc_inv [of s x xs] kalloc_Cons [of s x xs] by simp
  subgoal by (simp add: page_ok_def)
  subgoal by (rule kfree_push)
  subgoal by (simp add: kmem_inv_def)
  subgoal by (auto simp: kmem_inv_def list_all_iff)
  subgoal by (rule kmem_inv_nonzero)
  done

section \<open>Properties\<close>

text \<open>
  C6. After \<open>kinit\<close>, allocation hands out every page between the end of the kernel and
  \<^verbatim>\<open>PHYSTOP\<close> exactly once: \<open>free_count\<close> successive calls return pairwise distinct valid pages,
  and the call after them returns the null pointer.
\<close>

theorem kinit_then_kalloc_all:
  assumes "KERNBASE \<le> kend s" "kend s \<le> PHYSTOP" "freelist s = 0"
  shows "\<exists>s'. kinit s = Ret s' \<and>
    (let n = free_count (kend s) PHYSTOP; (as, s'') = kmem.alloc_n n s' in
       length as = n \<and> distinct as \<and> list_all (page_ok s') as \<and> fst (kalloc s'') = 0)"
proof -
  let ?n = "free_count (kend s) PHYSTOP"
  let ?xs = "rev (pages_between (PGROUNDUP (kend s)) ?n)"
  obtain s' where s': "kinit s = Ret s'" "kmem_inv s' ?xs" using kinit_ok [OF assms] by blast
  have len: "length ?xs = ?n" by (simp add: pages_between_def)
  note T = kmem.alloc_n_takes [OF s'(2), of ?n]
  have "fst (kmem.alloc_n ?n s') = ?xs" "kmem_inv (snd (kmem.alloc_n ?n s')) []"
    using T len by simp_all
  moreover from this(2) have "fst (kalloc (snd (kmem.alloc_n ?n s'))) = 0"
    using kmem.alloc_fails_iff by blast
  ultimately show ?thesis
    using s' len by (auto simp: Let_def split_beta kmem_inv_def)
qed

definition boot_mem :: "addr \<Rightarrow> kmem_state" where
  "boot_mem e = \<lparr>pmem = (\<lambda>_. 0), freelist = 0, kend = e, etext = KERNBASE, trampoline = KERNBASE, kernel_pagetable = 0\<rparr>"

theorem kinit_then_kalloc_all_witness:
  "\<exists>s'. kinit (boot_mem 0x87FFD123) = Ret s' \<and>
    (let n = free_count 0x87FFD123 PHYSTOP; (as, s'') = kmem.alloc_n n s' in
       length as = n \<and> distinct as \<and> list_all (page_ok s') as \<and> fst (kalloc s'') = 0)"
  using kinit_then_kalloc_all [of "boot_mem 0x87FFD123"] by (simp add: boot_mem_def)

text \<open>
  C7. \<open>kfree\<close> accepts exactly the page-aligned addresses between the end of the kernel and
  \<^verbatim>\<open>PHYSTOP\<close> and panics on every other argument; freeing a page that is not on the free list puts
  it at the front, so the next \<open>kalloc\<close> returns it.
\<close>

theorem kfree_accepts_pages:
  "(kfree a s = Panic ''kfree'' \<longleftrightarrow> \<not> page_ok s a) \<and>
   (kmem_inv s xs \<longrightarrow> page_ok s a \<longrightarrow> a \<notin> set xs \<longrightarrow>
      (\<exists>s'. kfree a s = Ret s' \<and> kmem_inv s' (a # xs) \<and> fst (kalloc s') = a))"
  using kfree_ok [of s a] kfree_panics [of s a] kmem.free_push [of s xs a] kmem.free_alloc [of s xs a]
  by auto

theorem kfree_accepts_pages_witness:
  "\<exists>s'. kfree 0x80003000 (boot_mem 0x80002010) = Ret s' \<and> fst (kalloc s') = 0x80003000"
proof -
  let ?s = "boot_mem 0x80002010"
  have "kmem_inv ?s []" "page_ok ?s 0x80003000" "0x80003000 \<notin> set ([] :: addr list)"
    by (simp_all add: boot_mem_def kmem_inv_def page_ok_def page_aligned_def)
  then show ?thesis using kfree_accepts_pages [of "0x80003000" ?s "[]"] by blast
qed

text \<open>
  C8. The allocator stays inside the page it handles: \<open>kalloc\<close> changes no byte outside the page it
  returns, \<open>kfree\<close> none outside the page it is given.
\<close>

theorem kalloc_kfree_local:
  assumes "kmem_inv s xs"
  shows "(\<forall>y. \<not> same_page y (fst (kalloc s)) \<longrightarrow> pmem (snd (kalloc s)) y = pmem s y) \<and>
    (\<forall>a s' y. kfree a s = Ret s' \<longrightarrow> \<not> same_page y a \<longrightarrow> pmem s' y = pmem s y)"
  using kalloc_frame [OF assms, of "fst (kalloc s)" "snd (kalloc s)"] kfree_frame by auto

theorem kalloc_kfree_local_witness:
  "\<exists>s'. kfree 0x80003000 (boot_mem 0x80002010) = Ret s' \<and> pmem s' 0x80005000 = 0"
proof -
  let ?s = "boot_mem 0x80002010"
  have inv: "kmem_inv ?s []" and ok: "page_ok ?s 0x80003000"
    by (simp_all add: boot_mem_def kmem_inv_def page_ok_def page_aligned_def)
  obtain s' where s': "kfree 0x80003000 ?s = Ret s'" using kfree_ok [OF ok] by blast
  have "\<not> same_page 0x80005000 0x80003000" by simp
  then have "pmem s' 0x80005000 = pmem ?s 0x80005000"
    using kalloc_kfree_local [OF inv] s' by blast
  then show ?thesis using s' by (simp add: boot_mem_def)
qed

end
