(* ===== verification/Proc.thy ===== *)
theory Proc
  imports Kalloc
begin

text \<open>
  The process table of \<^verbatim>\<open>kernel/proc.h\<close> and the parts of \<^verbatim>\<open>kernel/proc.c\<close>, \<^verbatim>\<open>kernel/trap.c\<close> and
  \<^verbatim>\<open>kernel/sysproc.c\<close> that work on it alone: the multi-level feedback queue (time slices,
  demotion, boost, dispatch), sleeping and waking, killing, reparenting, and the system calls
  that report on processes.

  A pointer \<^verbatim>\<open>struct proc *\<close> is an index into the table, \<open>None\<close> for the null pointer.  A sleep
  channel is the address of a kernel object; distinct objects are distinct constructors of \<open>chan\<close>.
  A function body that the source runs under \<^verbatim>\<open>p->lock\<close> (or \<^verbatim>\<open>wait_lock\<close>, \<^verbatim>\<open>tickslock\<close>) is one
  atomic step here.  \<open>cpus\<close> holds \<^verbatim>\<open>c->proc\<close> of every hart and \<open>hart\<close> is the number (register
  \<^verbatim>\<open>tp\<close>) of the hart that executes the current step.
\<close>

section \<open>The process table\<close>

definition NPROC :: nat where [simp]: "NPROC = 64"
definition NCPU :: nat where [simp]: "NCPU = 8"
definition NOFILE :: nat where [simp]: "NOFILE = 16"
definition MLFQ_LEVELS :: int where [simp]: "MLFQ_LEVELS = 4"
definition BOOST_INTERVAL :: uint where [simp]: "BOOST_INTERVAL = 128"

definition mlfq_quantum :: "int list" where
  "mlfq_quantum = [2, 4, 8, 16]"

datatype procstate = UNUSED | USED | SLEEPING | RUNNABLE | RUNNING | ZOMBIE

datatype chan = NoChan | ChanProc nat | ChanTicks | ChanPipeRead addr | ChanPipeWrite addr
  | ChanBufLock nat | ChanInodeLock nat | ChanLog | ChanBuf nat | ChanDescFree | ChanUartTx | ChanCons

record proc_context =
  ctx_ra :: addr
  ctx_sp :: addr
  ctx_s :: "64 word list"

record proc =
  p_state :: procstate
  p_chan :: chan
  p_killed :: int
  p_xstate :: int
  p_pid :: int
  p_parent :: "nat option"
  p_kstack :: addr
  p_sz :: addr
  p_pagetable :: addr
  p_trapframe :: addr
  p_context :: proc_context
  p_ofile :: "nat option list"
  p_cwd :: "nat option"
  p_name :: "byte list"
  p_syscall_count :: int
  p_level :: int
  p_current_ticks :: int
  p_ticks :: "int list"
  p_times_scheduled :: int
  p_slice_start_syscalls :: int
  p_time_slice_expired :: bool
  p_page_faults :: int
  p_pages_evicted :: int
  p_pages_swapped_in :: int
  p_pages_swapped_out :: int
  p_resident_pages :: int
  p_disk_reads :: int
  p_disk_writes :: int
  p_total_disk_latency :: "64 word"

record proc_state = kmem_state +
  ptable :: "proc list"
  initproc :: "nat option"
  nextpid :: int
  mlfq_head :: "nat list"
  ticks :: uint
  cpus :: "nat option list"
  hart :: nat
  sym_forkret :: addr

abbreviation upd_proc :: "nat \<Rightarrow> (proc \<Rightarrow> proc) \<Rightarrow> 'z proc_state_scheme \<Rightarrow> 'z proc_state_scheme" where
  "upd_proc i f s \<equiv> s\<lparr>ptable := upd_at i f (ptable s)\<rparr>"

abbreviation upd_all :: "(proc \<Rightarrow> proc) \<Rightarrow> 'z proc_state_scheme \<Rightarrow> 'z proc_state_scheme" where
  "upd_all f s \<equiv> s\<lparr>ptable := map f (ptable s)\<rparr>"

section \<open>Initialisation and process identifiers\<close>

definition init_mlfq_state :: "proc \<Rightarrow> proc" where
  "init_mlfq_state p = p\<lparr>p_level := 0, p_current_ticks := 0, p_times_scheduled := 0,
     p_slice_start_syscalls := 0, p_time_slice_expired := False, p_syscall_count := 0,
     p_ticks := replicate (nat MLFQ_LEVELS) 0\<rparr>"

fun procinit_loop :: "nat \<Rightarrow> proc list \<Rightarrow> proc list" where
  "procinit_loop i [] = []"
| "procinit_loop i (p # ps) = p\<lparr>p_state := UNUSED, p_kstack := KSTACK i\<rparr> # procinit_loop (Suc i) ps"

definition procinit :: "'z proc_state_scheme \<Rightarrow> 'z proc_state_scheme" where
  "procinit s = s\<lparr>ptable := procinit_loop 0 (ptable s)\<rparr>"

definition myproc :: "'z proc_state_scheme \<Rightarrow> nat option" where
  "myproc s = cpus s ! hart s"

definition set_myproc :: "nat option \<Rightarrow> 'z proc_state_scheme \<Rightarrow> 'z proc_state_scheme" where
  "set_myproc p s = s\<lparr>cpus := (cpus s)[hart s := p]\<rparr>"

definition allocpid :: "'z proc_state_scheme \<Rightarrow> int \<times> 'z proc_state_scheme" where
  "allocpid s = (let pid = nextpid s in (pid, s\<lparr>nextpid := nextpid s + 1\<rparr>))"

text \<open>What \<open>allocproc\<close> writes into the free slot it has found, before it allocates memory for it.\<close>

definition allocproc_init :: "int \<Rightarrow> proc \<Rightarrow> proc" where
  "allocproc_init pid p = (init_mlfq_state (p\<lparr>p_pid := pid, p_state := USED\<rparr>))
     \<lparr>p_page_faults := 0, p_pages_evicted := 0, p_pages_swapped_in := 0, p_pages_swapped_out := 0,
      p_resident_pages := 0\<rparr>"

section \<open>The feedback queue\<close>

text \<open>The functions on the whole table are passes with no other hart at work in between; \<open>Harts\<close> takes them apart.\<close>

definition boost_proc :: "proc \<Rightarrow> proc" where
  "boost_proc p =
     (if p_state p \<noteq> UNUSED \<and> p_state p \<noteq> ZOMBIE
      then p\<lparr>p_level := 0, p_current_ticks := 0, p_time_slice_expired := False\<rparr> else p)"

definition mlfq_boost :: "'z proc_state_scheme \<Rightarrow> 'z proc_state_scheme" where
  "mlfq_boost s = upd_all boost_proc s"

text \<open>
  One round of \<open>scheduler\<close>: the scan over the levels, inside each level the scan over the table
  that starts at \<open>mlfq_head\<close>, and the dispatch of the first process found.  \<open>None\<close> is the round
  that finds nothing and executes \<^verbatim>\<open>wfi\<close>.
\<close>

definition sched_candidate :: "'z proc_state_scheme \<Rightarrow> int \<Rightarrow> nat \<Rightarrow> bool" where
  "sched_candidate s level idx \<longleftrightarrow>
     p_state (ptable s ! idx) = RUNNABLE \<and> p_level (ptable s ! idx) = level"

definition rr_order :: "nat \<Rightarrow> nat list" where
  "rr_order start = map (\<lambda>i. (start + i) mod NPROC) [0..<NPROC]"

definition pick_at_level :: "'z proc_state_scheme \<Rightarrow> nat \<Rightarrow> nat option" where
  "pick_at_level s level =
     (let order = rr_order (mlfq_head s ! level) in
      case scan (sched_candidate s (int level)) order of
        None \<Rightarrow> None
      | Some i \<Rightarrow> Some (order ! i))"

fun pick_levels :: "'z proc_state_scheme \<Rightarrow> nat list \<Rightarrow> (nat \<times> nat) option" where
  "pick_levels s [] = None"
| "pick_levels s (level # ls) =
     (case pick_at_level s level of Some idx \<Rightarrow> Some (level, idx) | None \<Rightarrow> pick_levels s ls)"

definition mlfq_pick :: "'z proc_state_scheme \<Rightarrow> (nat \<times> nat) option" where
  "mlfq_pick s = pick_levels s [0..<nat MLFQ_LEVELS]"

definition start_slice :: "proc \<Rightarrow> proc" where
  "start_slice p = p\<lparr>p_state := RUNNING, p_current_ticks := 0, p_time_slice_expired := False,
     p_slice_start_syscalls := p_syscall_count p, p_times_scheduled := p_times_scheduled p + 1\<rparr>"

definition dispatch_at :: "nat \<Rightarrow> nat \<Rightarrow> 'z proc_state_scheme \<Rightarrow> 'z proc_state_scheme" where
  "dispatch_at level idx s =
     set_myproc (Some idx) ((upd_proc idx start_slice s)\<lparr>mlfq_head := (mlfq_head s)[level := idx]\<rparr>)"

definition scheduler_round :: "'z proc_state_scheme \<Rightarrow> 'z proc_state_scheme option" where
  "scheduler_round s =
     (case mlfq_pick s of
        None \<Rightarrow> None
      | Some (level, idx) \<Rightarrow> Some (dispatch_at level idx s))"

text \<open>
  \<open>sched\<close> gives the processor back.  Its arguments are what it reads of the lock state:
  \<^verbatim>\<open>holding(&p->lock)\<close>, \<^verbatim>\<open>mycpu()->noff\<close> and \<^verbatim>\<open>intr_get()\<close>.  The switch lands in \<open>scheduler\<close>, which
  clears \<^verbatim>\<open>c->proc\<close>.
\<close>

definition sched :: "bool \<Rightarrow> int \<Rightarrow> bool \<Rightarrow> nat \<Rightarrow> 'z proc_state_scheme \<Rightarrow> 'z proc_state_scheme outcome" where
  "sched hold noff intr i s =
     (if \<not> hold then Panic ''sched p->lock''
      else if noff \<noteq> 1 then Panic ''sched locks''
      else if p_state (ptable s ! i) = RUNNING then Panic ''sched RUNNING''
      else if intr then Panic ''sched interruptible''
      else Ret (set_myproc None s))"

definition end_slice :: "proc \<Rightarrow> proc" where
  "end_slice p =
     (if p_time_slice_expired p then
        let delta_syscalls = p_syscall_count p - p_slice_start_syscalls p;
            delta_ticks = (if p_current_ticks p < 0 then 0 else p_current_ticks p);
            p1 = (if delta_syscalls < delta_ticks \<and> p_level p < MLFQ_LEVELS - 1
                  then p\<lparr>p_level := p_level p + 1\<rparr> else p)
        in p1\<lparr>p_current_ticks := 0, p_time_slice_expired := False\<rparr>
      else p)"

definition yield :: "nat \<Rightarrow> 'z proc_state_scheme \<Rightarrow> 'z proc_state_scheme outcome" where
  "yield i s = sched True 1 False i (upd_proc i (\<lambda>p. (end_slice p)\<lparr>p_state := RUNNABLE\<rparr>) s)"

section \<open>Sleeping, waking, killing\<close>

definition sleep :: "nat \<Rightarrow> chan \<Rightarrow> 'z proc_state_scheme \<Rightarrow> 'z proc_state_scheme outcome" where
  "sleep i c s = sched True 1 False i (upd_proc i (\<lambda>p. p\<lparr>p_chan := c, p_state := SLEEPING\<rparr>) s)"

definition sleep_resume :: "nat \<Rightarrow> 'z proc_state_scheme \<Rightarrow> 'z proc_state_scheme" where
  "sleep_resume i s = upd_proc i (\<lambda>p. p\<lparr>p_chan := NoChan\<rparr>) s"

fun wakeup_loop :: "nat option \<Rightarrow> chan \<Rightarrow> nat \<Rightarrow> proc list \<Rightarrow> proc list" where
  "wakeup_loop me c i [] = []"
| "wakeup_loop me c i (p # ps) =
     (if Some i \<noteq> me \<and> p_state p = SLEEPING \<and> p_chan p = c then p\<lparr>p_state := RUNNABLE\<rparr> else p)
     # wakeup_loop me c (Suc i) ps"

definition wakeup :: "chan \<Rightarrow> 'z proc_state_scheme \<Rightarrow> 'z proc_state_scheme" where
  "wakeup c s = s\<lparr>ptable := wakeup_loop (myproc s) c 0 (ptable s)\<rparr>"

definition kkill :: "int \<Rightarrow> 'z proc_state_scheme \<Rightarrow> int \<times> 'z proc_state_scheme" where
  "kkill pid s =
     (case scan (\<lambda>p. p_pid p = pid) (ptable s) of
        None \<Rightarrow> (-1, s)
      | Some i \<Rightarrow> (0, upd_proc i (\<lambda>p. p\<lparr>p_killed := 1,
          p_state := (if p_state p = SLEEPING then RUNNABLE else p_state p)\<rparr>) s))"

text \<open>The end of \<open>kexit\<close>: the process becomes a zombie and never runs again.\<close>

definition exit_sched :: "int \<Rightarrow> nat \<Rightarrow> 'z proc_state_scheme \<Rightarrow> 'z proc_state_scheme outcome" where
  "exit_sched status i s =
     sched True 1 False i (upd_proc i (\<lambda>p. p\<lparr>p_xstate := status, p_state := ZOMBIE\<rparr>) s)"

definition setkilled :: "nat \<Rightarrow> 'z proc_state_scheme \<Rightarrow> 'z proc_state_scheme" where
  "setkilled i s = upd_proc i (\<lambda>p. p\<lparr>p_killed := 1\<rparr>) s"

definition killed :: "nat \<Rightarrow> 'z proc_state_scheme \<Rightarrow> int" where
  "killed i s = p_killed (ptable s ! i)"

text \<open>
  \<open>reparent\<close> walks the table; a child of \<open>i\<close> is given to \<open>initproc\<close>, which is woken each time.
  A null \<open>initproc\<close> does not occur after \<open>userinit\<close>.
\<close>

fun reparent_loop :: "nat \<Rightarrow> nat list \<Rightarrow> 'z proc_state_scheme \<Rightarrow> 'z proc_state_scheme" where
  "reparent_loop i [] s = s"
| "reparent_loop i (j # js) s =
     (if p_parent (ptable s ! j) = Some i
      then reparent_loop i js
             (wakeup (case initproc s of Some k \<Rightarrow> ChanProc k | None \<Rightarrow> NoChan)
               (upd_proc j (\<lambda>pp. pp\<lparr>p_parent := initproc s\<rparr>) s))
      else reparent_loop i js s)"

definition reparent :: "nat \<Rightarrow> 'z proc_state_scheme \<Rightarrow> 'z proc_state_scheme" where
  "reparent i s = reparent_loop i [0..<length (ptable s)] s"

section \<open>The clock\<close>

definition charge_tick :: "proc \<Rightarrow> proc" where
  "charge_tick p =
     (let p1 = (if p_level p < 0 \<or> p_level p \<ge> MLFQ_LEVELS then p\<lparr>p_level := 0\<rparr> else p);
          p2 = p1\<lparr>p_current_ticks := p_current_ticks p1 + 1\<rparr>
      in if p_level p2 \<ge> 0 \<and> p_level p2 < MLFQ_LEVELS
         then let p3 = p2\<lparr>p_ticks := upd_at (nat (p_level p2)) (\<lambda>t. t + 1) (p_ticks p2)\<rparr>
              in if p_current_ticks p3 \<ge> mlfq_quantum ! nat (p_level p3)
                 then p3\<lparr>p_time_slice_expired := True\<rparr> else p3
         else p2)"

definition clockintr :: "'z proc_state_scheme \<Rightarrow> 'z proc_state_scheme" where
  "clockintr s =
     (let s1 = (case myproc s of
                  Some i \<Rightarrow> if p_state (ptable s ! i) = RUNNING then upd_proc i charge_tick s else s
                | None \<Rightarrow> s)
      in if hart s = 0
         then let s2 = wakeup ChanTicks (s1\<lparr>ticks := ticks s1 + 1\<rparr>);
                  xticks = ticks s1 + 1
              in if xticks mod BOOST_INTERVAL = 0 then mlfq_boost s2 else s2
         else s1)"

text \<open>
  The timer path of \<open>usertrap\<close> and \<open>kerneltrap\<close>: \<open>devintr\<close> has called \<open>clockintr\<close> and returned 2,
  and the interrupted process gives up the processor if its slice has expired.
\<close>

definition trap_yield :: "'z proc_state_scheme \<Rightarrow> 'z proc_state_scheme outcome" where
  "trap_yield s =
     (case myproc s of
        Some i \<Rightarrow> if p_time_slice_expired (ptable s ! i) then yield i s else Ret s
      | None \<Rightarrow> Ret s)"

definition timer_trap :: "'z proc_state_scheme \<Rightarrow> 'z proc_state_scheme outcome" where
  "timer_trap s = trap_yield (clockintr s)"

section \<open>System calls on the process table\<close>

definition sys_getpid :: "nat \<Rightarrow> 'z proc_state_scheme \<Rightarrow> int" where
  "sys_getpid i s = p_pid (ptable s ! i)"

definition sys_getpid2 :: "nat \<Rightarrow> 'z proc_state_scheme \<Rightarrow> int" where
  "sys_getpid2 i s = p_pid (ptable s ! i)"

text \<open>
  \<open>sys_getppid\<close> follows \<^verbatim>\<open>p->parent\<close> without a test; on a null pointer the load faults in the
  kernel, \<open>devintr\<close> does not recognise the fault and \<open>kerneltrap\<close> panics.
\<close>

definition sys_getppid :: "nat \<Rightarrow> 'z proc_state_scheme \<Rightarrow> int outcome" where
  "sys_getppid i s =
     (case p_parent (ptable s ! i) of
        Some j \<Rightarrow> Ret (p_pid (ptable s ! j))
      | None \<Rightarrow> Panic ''kerneltrap'')"

definition sys_getnumchild :: "nat \<Rightarrow> 'z proc_state_scheme \<Rightarrow> int" where
  "sys_getnumchild i s =
     fold (\<lambda>child count. if p_parent child = Some i \<and> p_state child \<noteq> ZOMBIE then count + 1 else count)
       (ptable s) 0"

definition sys_getsyscount :: "nat \<Rightarrow> 'z proc_state_scheme \<Rightarrow> int" where
  "sys_getsyscount i s = p_syscall_count (ptable s ! i)"

definition sys_getchildsyscount :: "nat \<Rightarrow> int \<Rightarrow> 'z proc_state_scheme \<Rightarrow> int" where
  "sys_getchildsyscount i child_pid s =
     (case scan (\<lambda>c. p_pid c = child_pid \<and> p_parent c = Some i) (ptable s) of
        Some j \<Rightarrow> p_syscall_count (ptable s ! j)
      | None \<Rightarrow> -1)"

definition sys_getlevel :: "nat \<Rightarrow> 'z proc_state_scheme \<Rightarrow> int" where
  "sys_getlevel i s = p_level (ptable s ! i)"

definition sys_uptime :: "'z proc_state_scheme \<Rightarrow> uint" where
  "sys_uptime s = ticks s"

definition sys_kill :: "int \<Rightarrow> 'z proc_state_scheme \<Rightarrow> int \<times> 'z proc_state_scheme" where
  "sys_kill pid s = kkill pid s"

section \<open>Waking\<close>

lemma length_wakeup_loop [simp]: "length (wakeup_loop me c i ps) = length ps"
  by (induction ps arbitrary: i) auto

lemma nth_wakeup_loop:
  "j < length ps \<Longrightarrow> wakeup_loop me c i ps ! j =
     (if Some (i + j) \<noteq> me \<and> p_state (ps ! j) = SLEEPING \<and> p_chan (ps ! j) = c
      then (ps ! j)\<lparr>p_state := RUNNABLE\<rparr> else ps ! j)"
proof (induction ps arbitrary: i j)
  case Nil
  then show ?case by simp
next
  case (Cons p ps)
  then show ?case by (cases j) auto
qed

lemma wakeup_fields [simp, frame]:
  "length (ptable (wakeup c s)) = length (ptable s)" "mlfq_head (wakeup c s) = mlfq_head s"
  "cpus (wakeup c s) = cpus s" "hart (wakeup c s) = hart s" "ticks (wakeup c s) = ticks s"
  by (simp_all add: wakeup_def)

lemma nth_wakeup:
  "j < length (ptable s) \<Longrightarrow> ptable (wakeup c s) ! j =
     (if Some j \<noteq> myproc s \<and> p_state (ptable s ! j) = SLEEPING \<and> p_chan (ptable s ! j) = c
      then (ptable s ! j)\<lparr>p_state := RUNNABLE\<rparr> else ptable s ! j)"
  by (simp add: wakeup_def nth_wakeup_loop)

text \<open>\<open>woken ps qs\<close>: some processes that slept in \<open>ps\<close> are runnable in \<open>qs\<close>; nothing else differs.\<close>

definition woken :: "proc list \<Rightarrow> proc list \<Rightarrow> bool" where
  "woken ps qs \<longleftrightarrow> length qs = length ps \<and>
     (\<forall>i < length ps. qs ! i = ps ! i \<or> p_state (ps ! i) = SLEEPING \<and> qs ! i = (ps ! i)\<lparr>p_state := RUNNABLE\<rparr>)"

lemma woken_refl [simp]: "woken ps ps"
  by (simp add: woken_def)

lemma woken_trans [trans]:
  assumes "woken ps qs" "woken qs rs"
  shows "woken ps rs"
  unfolding woken_def
proof (intro conjI allI impI)
  show "length rs = length ps" using assms by (simp add: woken_def)
  fix i
  assume "i < length ps"
  then show "rs ! i = ps ! i \<or> p_state (ps ! i) = SLEEPING \<and> rs ! i = (ps ! i)\<lparr>p_state := RUNNABLE\<rparr>"
    using assms unfolding woken_def by (metis proc.select_convs(1) proc.surjective proc.update_convs(1))
qed

lemma woken_wakeup [simp]: "woken ps (wakeup_loop me c k ps)"
  by (auto simp: woken_def nth_wakeup_loop)

section \<open>Example states\<close>

text \<open>The states the witnesses start from: an empty table except for the listed slots.\<close>

definition proc0 :: proc where
  "proc0 = \<lparr>p_state = UNUSED, p_chan = NoChan, p_killed = 0, p_xstate = 0, p_pid = 0, p_parent = None,
     p_kstack = 0, p_sz = 0, p_pagetable = 0, p_trapframe = 0,
     p_context = \<lparr>ctx_ra = 0, ctx_sp = 0, ctx_s = replicate 12 0\<rparr>,
     p_ofile = replicate NOFILE None, p_cwd = None, p_name = replicate 16 0, p_syscall_count = 0,
     p_level = 0, p_current_ticks = 0, p_ticks = replicate 4 0, p_times_scheduled = 0,
     p_slice_start_syscalls = 0, p_time_slice_expired = False, p_page_faults = 0,
     p_pages_evicted = 0, p_pages_swapped_in = 0, p_pages_swapped_out = 0, p_resident_pages = 0,
     p_disk_reads = 0, p_disk_writes = 0, p_total_disk_latency = 0\<rparr>"

definition demo_state :: "(nat \<times> proc) list \<Rightarrow> proc_state" where
  "demo_state ps = \<lparr>pmem = (\<lambda>_. 0), freelist = 0, kend = KERNBASE, etext = KERNBASE, trampoline = KERNBASE, kernel_pagetable = 0,
     ptable = fold (\<lambda>(i, p) t. t[i := p]) ps (replicate NPROC proc0), initproc = Some 0, nextpid = 1,
     mlfq_head = replicate 4 0, ticks = 0, cpus = replicate NCPU None, hart = 0, sym_forkret = KERNBASE\<rparr>"

end
