(* ===== verification/Mlfq.thy ===== *)
theory Mlfq
  imports Proc
begin

text \<open>
  The scheduler.  First the functional facts: which process a round dispatches, what a clock
  tick, the end of a slice and a boost do.  Then the scheduler of one hart as a state machine: the
  steps are the dispatch, the timer trap, sleeping, waking, killing and the life cycle of a table
  slot; \<open>mlfq_inv\<close> is kept by every step.
\<close>

section \<open>Which process is dispatched\<close>

lemma set_rr_order: "set (rr_order start) = {..<NPROC}"
proof -
  have "idx \<in> (\<lambda>i. (start + i) mod 64) ` {0..<64}" if "idx < 64" for idx
  proof (rule image_eqI [where x = "(idx + 64 - start mod 64) mod 64"])
    have "(start + (idx + 64 - start mod 64) mod 64) mod 64 = (start mod 64 + (idx + 64 - start mod 64)) mod 64"
      by (metis mod_add_left_eq mod_add_right_eq)
    also have "start mod 64 + (idx + 64 - start mod 64) = idx + 64"
      using mod_less_divisor [of 64 start] by linarith
    also have "(idx + 64) mod 64 = idx" using that by simp
    finally show "idx = (start + (idx + 64 - start mod 64) mod 64) mod 64" by simp
  qed simp
  then show ?thesis by (auto simp: rr_order_def)
qed

lemma length_rr_order [simp]: "length (rr_order start) = 64"
  by (simp add: rr_order_def)

lemma nth_rr_order: "i < 64 \<Longrightarrow> rr_order start ! i = (start + i) mod 64"
  by (simp add: rr_order_def)

lemma pick_at_level_None:
  "pick_at_level s level = None \<longleftrightarrow> (\<forall>idx < NPROC. \<not> sched_candidate s (int level) idx)"
proof -
  have "pick_at_level s level = None \<longleftrightarrow>
      scan (sched_candidate s (int level)) (rr_order (mlfq_head s ! level)) = None"
    by (simp add: pick_at_level_def Let_def split: option.split)
  then show ?thesis by (simp add: scan_from_None set_rr_order) auto
qed

lemma pick_at_level_Some:
  assumes "pick_at_level s level = Some idx"
  obtains i where "i < NPROC" "idx = (mlfq_head s ! level + i) mod NPROC"
    "sched_candidate s (int level) idx"
    "\<And>k. k < i \<Longrightarrow> \<not> sched_candidate s (int level) ((mlfq_head s ! level + k) mod NPROC)"
proof -
  let ?o = "rr_order (mlfq_head s ! level)"
  obtain i where i: "scan (sched_candidate s (int level)) ?o = Some i" "idx = ?o ! i"
    using assms by (auto simp: pick_at_level_def Let_def split: option.splits)
  note D = scan_SomeD [OF i(1)]
  show ?thesis
  proof (rule that [of i])
    show "i < NPROC" using D(1) by simp
    then show "idx = (mlfq_head s ! level + i) mod NPROC" using i(2) by (simp add: nth_rr_order)
    show "sched_candidate s (int level) idx" using D(2) i(2) by simp
    fix k assume "k < i"
    then show "\<not> sched_candidate s (int level) ((mlfq_head s ! level + k) mod NPROC)"
      using D(3) [of k] D(1) by (simp add: nth_rr_order)
  qed
qed

lemma pick_levels_None: "pick_levels s ls = None \<longleftrightarrow> (\<forall>l \<in> set ls. pick_at_level s l = None)"
  by (induction ls) (auto split: option.splits)

lemma mlfq_pick_unfold:
  "mlfq_pick s =
     (case pick_at_level s 0 of Some i \<Rightarrow> Some (0, i) | None \<Rightarrow>
     (case pick_at_level s 1 of Some i \<Rightarrow> Some (1, i) | None \<Rightarrow>
     (case pick_at_level s 2 of Some i \<Rightarrow> Some (2, i) | None \<Rightarrow>
     (case pick_at_level s 3 of Some i \<Rightarrow> Some (3, i) | None \<Rightarrow> None))))"
  by (simp add: mlfq_pick_def upt_rec numeral_eq_Suc split: option.split)

lemma mlfq_pick_level:
  assumes "mlfq_pick s = Some (level, idx)"
  shows "level < 4" "pick_at_level s level = Some idx"
    "\<And>l. l < level \<Longrightarrow> pick_at_level s l = None"
  using assms by (auto simp: mlfq_pick_unfold less_Suc_eq numeral_eq_Suc split: option.splits)

lemma mlfq_pick_None:
  "mlfq_pick s = None \<longleftrightarrow> (\<forall>l < 4. \<forall>idx < NPROC. \<not> sched_candidate s (int l) idx)"
  by (auto simp: mlfq_pick_def pick_levels_None pick_at_level_None)

lemma mlfq_pick_runnable:
  assumes "mlfq_pick s = Some (level, idx)"
  shows "idx < NPROC" "p_state (ptable s ! idx) = RUNNABLE" "p_level (ptable s ! idx) = int level"
  using mlfq_pick_level [OF assms]
  by (auto elim!: pick_at_level_Some simp: sched_candidate_def)

section \<open>The scheduler as a state machine\<close>

text \<open>
  The steps of a machine with one hart at work.  Interrupts are off in the trap handler and in the scan of the scheduler, so
  that the functions of \<open>Proc\<close> are its steps.  The machine with several harts, where they are not, is in \<open>Harts\<close>.
\<close>

inductive mlfq_step :: "'z proc_state_scheme \<Rightarrow> 'z proc_state_scheme \<Rightarrow> bool" where
  dispatch: "myproc s = None \<Longrightarrow> scheduler_round s = Some t \<Longrightarrow> mlfq_step s t"
| clock: "mlfq_step s (clockintr s)"
| preempt: "trap_yield s = Ret t \<Longrightarrow> mlfq_step s t"
| sleeps: "myproc s = Some i \<Longrightarrow> sleep i c s = Ret t \<Longrightarrow> mlfq_step s t"
| resumes: "myproc s = Some i \<Longrightarrow> mlfq_step s (sleep_resume i s)"
| wakes: "mlfq_step s (wakeup c s)"
| kills: "mlfq_step s (snd (kkill pid s))"
| counts: "myproc s = Some i \<Longrightarrow>
    mlfq_step s (upd_proc i (\<lambda>p. p\<lparr>p_syscall_count := p_syscall_count p + 1\<rparr>) s)"
| creates: "i < NPROC \<Longrightarrow> p_state (ptable s ! i) = UNUSED \<Longrightarrow> mlfq_step s (upd_proc i (allocproc_init pid) s)"
| readies: "i < NPROC \<Longrightarrow> p_state (ptable s ! i) = USED \<Longrightarrow>
    mlfq_step s (upd_proc i (\<lambda>p. p\<lparr>p_state := RUNNABLE\<rparr>) s)"
| exits: "myproc s = Some i \<Longrightarrow> exit_sched status i s = Ret t \<Longrightarrow> mlfq_step s t"
| reaps: "i < NPROC \<Longrightarrow> p_state (ptable s ! i) = ZOMBIE \<Longrightarrow>
    mlfq_step s (upd_proc i (\<lambda>p. p\<lparr>p_state := UNUSED\<rparr>) s)"

inductive mlfq_reachable :: "'z proc_state_scheme \<Rightarrow> 'z proc_state_scheme \<Rightarrow> bool" for s0 where
  start: "mlfq_reachable s0 s0"
| step: "mlfq_reachable s0 s \<Longrightarrow> mlfq_step s t \<Longrightarrow> mlfq_reachable s0 t"

definition level_ok :: "proc \<Rightarrow> bool" where
  "level_ok p \<longleftrightarrow> 0 \<le> p_level p \<and> p_level p < MLFQ_LEVELS \<and> length (p_ticks p) = nat MLFQ_LEVELS"

text \<open>A running process has ticks left in its slice, or its expiry has been noted.\<close>

definition slice_ok :: "proc \<Rightarrow> bool" where
  "slice_ok p \<longleftrightarrow> (p_state p = RUNNING \<longrightarrow> 0 \<le> p_current_ticks p \<and>
     (p_time_slice_expired p \<or> p_current_ticks p < mlfq_quantum ! nat (p_level p)))"

text \<open>The processes marked running are exactly those on a hart, each on one hart only.\<close>

definition one_hart :: "nat option list \<Rightarrow> bool" where
  "one_hart cs \<longleftrightarrow> (\<forall>h < length cs. \<forall>h' < length cs. \<forall>i. cs ! h = Some i \<longrightarrow> cs ! h' = Some i \<longrightarrow> h = h')"

definition cpus_ok :: "'z proc_state_scheme \<Rightarrow> bool" where
  "cpus_ok s \<longleftrightarrow> length (cpus s) = NCPU \<and> hart s < NCPU \<and> one_hart (cpus s) \<and>
     (\<forall>h < NCPU. \<forall>i. cpus s ! h = Some i \<longrightarrow> i < NPROC \<and> p_state (ptable s ! i) = RUNNING) \<and>
     (\<forall>j < NPROC. p_state (ptable s ! j) = RUNNING \<longrightarrow> (\<exists>h < NCPU. cpus s ! h = Some j))"

definition mlfq_inv :: "'z proc_state_scheme \<Rightarrow> bool" where
  "mlfq_inv s \<longleftrightarrow>
     length (ptable s) = NPROC \<and> length (mlfq_head s) = nat MLFQ_LEVELS \<and>
     list_all (\<lambda>h. h < NPROC) (mlfq_head s) \<and> cpus_ok s \<and>
     (\<forall>j < NPROC. level_ok (ptable s ! j) \<and> slice_ok (ptable s ! j))"

lemma mlfq_invD:
  assumes "mlfq_inv s"
  shows "length (ptable s) = 64" "length (mlfq_head s) = 4"
    "\<And>j. j < 64 \<Longrightarrow> level_ok (ptable s ! j)" "\<And>j. j < 64 \<Longrightarrow> slice_ok (ptable s ! j)"
    "cpus_ok s"
  using assms unfolding mlfq_inv_def by auto

lemma myproc_running:
  assumes "mlfq_inv s" "myproc s = Some i"
  shows "i < 64" "p_state (ptable s ! i) = RUNNING"
  using assms by (auto simp: mlfq_inv_def cpus_ok_def myproc_def)

text \<open>
  Two shapes of step keep the invariant: one that changes slots without changing who is running,
  and one in which the process of this hart stops running and leaves the hart.
\<close>

lemma mlfq_inv_slots:
  assumes "mlfq_inv s" "length (ptable t) = length (ptable s)" "mlfq_head t = mlfq_head s"
    and "cpus t = cpus s" "hart t = hart s"
    and "\<And>j. j < NPROC \<Longrightarrow> level_ok (ptable t ! j) \<and> slice_ok (ptable t ! j) \<and>
        (p_state (ptable t ! j) = RUNNING \<longleftrightarrow> p_state (ptable s ! j) = RUNNING)"
  shows "mlfq_inv t"
  using assms unfolding mlfq_inv_def cpus_ok_def by simp

lemma mlfq_inv_upd:
  assumes "mlfq_inv s" "i < NPROC" "level_ok (f (ptable s ! i))" "slice_ok (f (ptable s ! i))"
    "p_state (f (ptable s ! i)) = RUNNING \<longleftrightarrow> p_state (ptable s ! i) = RUNNING"
  shows "mlfq_inv (upd_proc i f s)"
  by (rule mlfq_inv_slots [OF assms(1)]) (use assms mlfq_invD [OF assms(1)] in auto)

lemma mlfq_inv_wakeup:
  assumes "mlfq_inv s"
  shows "mlfq_inv (wakeup c s)"
  by (rule mlfq_inv_slots [OF assms])
    (use mlfq_invD [OF assms] in \<open>auto simp: nth_wakeup level_ok_def slice_ok_def\<close>)

lemma one_hart_upd:
  assumes "one_hart cs" "\<And>i. x = Some i \<Longrightarrow> Some i \<notin> set cs"
  shows "one_hart (cs[h := x])"
  unfolding one_hart_def
proof (intro allI impI)
  fix a b i
  assume *: "a < length (cs[h := x])" "b < length (cs[h := x])" "cs[h := x] ! a = Some i" "cs[h := x] ! b = Some i"
  have "x \<noteq> Some i" if "a \<noteq> b" 
    using that * assms(2) [of i] by (cases "a = h"; cases "b = h") (auto simp: in_set_conv_nth)
  then show "a = b"
    using * assms(1) by (cases "a = h"; cases "b = h") (auto simp: one_hart_def)
qed

lemma one_hartD: "one_hart cs \<Longrightarrow> h < length cs \<Longrightarrow> h' < length cs \<Longrightarrow> cs ! h = Some i \<Longrightarrow> cs ! h' = Some i \<Longrightarrow> h = h'"
  by (auto simp: one_hart_def)

lemma cpus_ok_leave:
  assumes "cpus_ok s" "length (ptable s) = NPROC" "myproc s = Some i" "p_state p \<noteq> RUNNING"
  shows "cpus_ok (set_myproc None (upd_proc i (\<lambda>_. p) s))"
proof -
  have h: "hart s < 8" "length (cpus s) = 8" "cpus s ! hart s = Some i" "one_hart (cpus s)"
    and r: "\<And>h k. h < 8 \<Longrightarrow> cpus s ! h = Some k \<Longrightarrow> k < 64 \<and> p_state (ptable s ! k) = RUNNING"
    and x: "\<And>j. j < 64 \<Longrightarrow> p_state (ptable s ! j) = RUNNING \<Longrightarrow> \<exists>h < 8. cpus s ! h = Some j"
    using assms(1,3) unfolding cpus_ok_def myproc_def by auto
  have ne: "k \<noteq> i" if "h' < 8" "h' \<noteq> hart s" "cpus s ! h' = Some k" for h' k
    using one_hartD [OF h(4)] h that by auto
  have *: "k < 64 \<and> p_state (upd_at i (\<lambda>_. p) (ptable s) ! k) = RUNNING"
    if "h' < 8" "(cpus s)[hart s := None] ! h' = Some k" for h' k
    using that h ne [of h' k] r [of h' k] assms(2) by (auto simp: nth_list_update split: if_splits)
  have "\<exists>h' < 8. (cpus s)[hart s := None] ! h' = Some j"
    if j: "j < 64" "p_state (upd_at i (\<lambda>_. p) (ptable s) ! j) = RUNNING" for j
  proof -
    have "j \<noteq> i" "p_state (ptable s ! j) = RUNNING"
      using j assms(2,4) by (auto split: if_splits)
    then obtain h' where "h' < 8" "cpus s ! h' = Some j" "h' \<noteq> hart s"
      using x [OF j(1)] h(3) by (metis option.inject)
    then show ?thesis by (intro exI [of _ h']) simp
  qed
  then show ?thesis
    using * h one_hart_upd [OF h(4), of None "hart s"] unfolding cpus_ok_def set_myproc_def by auto
qed

lemma upd_at_const: "upd_at i f xs = upd_at i (\<lambda>_. f (xs ! i)) xs"
  by (rule nth_equalityI) auto

lemma mlfq_inv_sched:
  assumes "mlfq_inv s" "myproc s = Some i" "sched True 1 False i (upd_proc i f s) = Ret t"
    "level_ok (f (ptable s ! i))"
  shows "mlfq_inv t"
proof -
  note I = mlfq_invD [OF assms(1)]
  have i: "i < 64" by (rule myproc_running [OF assms(1,2)])
  have t: "t = set_myproc None (upd_proc i f s)" and nr: "p_state (f (ptable s ! i)) \<noteq> RUNNING"
    using assms(3) i I(1) by (auto simp: sched_def split: if_splits)
  have "cpus_ok t"
    unfolding t upd_at_const [of i f] using cpus_ok_leave [OF I(5) _ assms(2) nr] I(1) by simp
  moreover have "level_ok (ptable t ! j) \<and> slice_ok (ptable t ! j)" if "j < 64" for j
    using that t I(1) I(3,4) [OF that] assms(4) nr by (auto simp: set_myproc_def slice_ok_def)
  ultimately show ?thesis
    using assms(1) unfolding mlfq_inv_def by (simp add: t set_myproc_def)
qed

section \<open>Every step keeps the invariant\<close>

lemma quantum_pos: "0 \<le> l \<Longrightarrow> l < MLFQ_LEVELS \<Longrightarrow> 0 < mlfq_quantum ! nat l"
  by (cases "nat l"; cases "nat l - 1"; cases "nat l - 2"; cases "nat l - 3")
    (auto simp: mlfq_quantum_def nth_Cons split: nat.splits)

lemma charge_tick_level:
  assumes "level_ok p"
  shows "level_ok (charge_tick p)" "p_level (charge_tick p) = p_level p"
    "p_state (charge_tick p) = p_state p" "p_current_ticks (charge_tick p) = p_current_ticks p + 1"
    "p_time_slice_expired (charge_tick p) \<longleftrightarrow>
       p_time_slice_expired p \<or> mlfq_quantum ! nat (p_level p) \<le> p_current_ticks p + 1"
    "p_ticks (charge_tick p) = upd_at (nat (p_level p)) (\<lambda>t. t + 1) (p_ticks p)"
  using assms by (auto simp: charge_tick_def level_ok_def Let_def)

lemma charge_tick_slice: "level_ok p \<Longrightarrow> slice_ok p \<Longrightarrow> slice_ok (charge_tick p)"
  by (auto simp: slice_ok_def charge_tick_level)

lemma mlfq_boost_fields [simp, frame]:
  "length (ptable (mlfq_boost s)) = length (ptable s)" "mlfq_head (mlfq_boost s) = mlfq_head s"
  "cpus (mlfq_boost s) = cpus s" "hart (mlfq_boost s) = hart s" "ticks (mlfq_boost s) = ticks s"
  by (simp_all add: mlfq_boost_def)

lemma nth_mlfq_boost:
  "j < length (ptable s) \<Longrightarrow> ptable (mlfq_boost s) ! j =
     (if p_state (ptable s ! j) = UNUSED \<or> p_state (ptable s ! j) = ZOMBIE then ptable s ! j
      else (ptable s ! j)\<lparr>p_level := 0, p_current_ticks := 0, p_time_slice_expired := False\<rparr>)"
  by (simp add: mlfq_boost_def boost_proc_def)

lemma mlfq_inv_boost:
  assumes "mlfq_inv s"
  shows "mlfq_inv (mlfq_boost s)"
  by (rule mlfq_inv_slots [OF assms])
    (use mlfq_invD [OF assms] in \<open>auto simp: nth_mlfq_boost level_ok_def slice_ok_def mlfq_quantum_def\<close>)

lemma mlfq_inv_ticks: "mlfq_inv (s\<lparr>ticks := x\<rparr>) = mlfq_inv s"
  by (simp add: mlfq_inv_def cpus_ok_def)

lemma mlfq_inv_charge:
  assumes "mlfq_inv s" "myproc s = Some i"
  shows "mlfq_inv (upd_proc i charge_tick s)"
  using assms(1) mlfq_invD [OF assms(1)] myproc_running [OF assms]
  by (intro mlfq_inv_upd) (auto simp: charge_tick_level charge_tick_slice)

lemma clockintr_fields [simp, frame]:
  "cpus (clockintr s) = cpus s" "hart (clockintr s) = hart s" "mlfq_head (clockintr s) = mlfq_head s"
  "length (ptable (clockintr s)) = length (ptable s)"
  by (simp_all add: clockintr_def Let_def split: option.split)

lemma mlfq_inv_clockintr:
  assumes "mlfq_inv s"
  shows "mlfq_inv (clockintr s)"
proof -
  define s1 where "s1 = (case myproc s of
      Some i \<Rightarrow> if p_state (ptable s ! i) = RUNNING then upd_proc i charge_tick s else s | None \<Rightarrow> s)"
  have "mlfq_inv s1"
    using mlfq_inv_charge [OF assms] assms by (auto simp: s1_def split: option.split)
  then show ?thesis
    by (auto simp: clockintr_def Let_def mlfq_inv_ticks mlfq_inv_wakeup mlfq_inv_boost simp flip: s1_def)
qed

lemma end_slice_level: "level_ok p \<Longrightarrow> level_ok ((end_slice p)\<lparr>p_state := RUNNABLE\<rparr>)"
  by (auto simp: end_slice_def level_ok_def Let_def)

lemma mlfq_inv_yield:
  "mlfq_inv s \<Longrightarrow> myproc s = Some i \<Longrightarrow> yield i s = Ret t \<Longrightarrow> mlfq_inv t"
  unfolding yield_def
  using mlfq_inv_sched end_slice_level mlfq_invD(3) myproc_running(1) by blast

lemma mlfq_inv_trap_yield: "mlfq_inv s \<Longrightarrow> trap_yield s = Ret t \<Longrightarrow> mlfq_inv t"
  using mlfq_inv_yield by (auto simp: trap_yield_def split: option.splits if_splits)

lemma start_slice_ok: "level_ok p \<Longrightarrow> level_ok (start_slice p) \<and> slice_ok (start_slice p)"
  using quantum_pos [of "p_level p"] by (auto simp: start_slice_def level_ok_def slice_ok_def)

lemma cpus_ok_enter:
  assumes "cpus_ok s" "length (ptable s) = NPROC" "myproc s = None" "idx < NPROC"
    "p_state (ptable s ! idx) \<noteq> RUNNING" "p_state p = RUNNING"
  shows "cpus_ok (set_myproc (Some idx) (upd_proc idx (\<lambda>_. p) s))"
proof -
  have h: "hart s < 8" "length (cpus s) = 8" "cpus s ! hart s = None" "one_hart (cpus s)"
    and r: "\<And>h k. h < 8 \<Longrightarrow> cpus s ! h = Some k \<Longrightarrow> k < 64 \<and> p_state (ptable s ! k) = RUNNING"
    and x: "\<And>j. j < 64 \<Longrightarrow> p_state (ptable s ! j) = RUNNING \<Longrightarrow> \<exists>h < 8. cpus s ! h = Some j"
    using assms(1,3) unfolding cpus_ok_def myproc_def by auto
  have "Some idx \<notin> set (cpus s)"
    using r assms(5) h(2) by (metis in_set_conv_nth)
  then have one: "one_hart ((cpus s)[hart s := Some idx])" by (intro one_hart_upd h) auto
  have *: "k < 64 \<and> p_state (upd_at idx (\<lambda>_. p) (ptable s) ! k) = RUNNING"
    if "h' < 8" "(cpus s)[hart s := Some idx] ! h' = Some k" for h' k
    using that h r [of h' k] assms(2,4,6) by (auto simp: nth_list_update split: if_splits)
  have "\<exists>h' < 8. (cpus s)[hart s := Some idx] ! h' = Some j"
    if j: "j < 64" "p_state (upd_at idx (\<lambda>_. p) (ptable s) ! j) = RUNNING" for j
  proof (cases "j = idx")
    case True
    then show ?thesis using h by (intro exI [of _ "hart s"]) simp
  next
    case False
    then obtain h' where "h' < 8" "cpus s ! h' = Some j" "h' \<noteq> hart s"
      using x [OF j(1)] h(3) j assms(2) by (auto, metis option.distinct(1))
    then show ?thesis by (intro exI [of _ h']) simp
  qed
  then show ?thesis using * h one unfolding cpus_ok_def set_myproc_def by auto
qed

lemma scheduler_roundE:
  assumes "scheduler_round s = Some t"
  obtains l idx where "mlfq_pick s = Some (l, idx)"
    "t = set_myproc (Some idx) ((upd_proc idx start_slice s)\<lparr>mlfq_head := (mlfq_head s)[l := idx]\<rparr>)"
  using assms by (auto simp: scheduler_round_def dispatch_at_def split: option.splits)

lemma mlfq_inv_dispatch:
  assumes "mlfq_inv s" "myproc s = None" "scheduler_round s = Some t"
  shows "mlfq_inv t"
proof -
  note I = mlfq_invD [OF assms(1)]
  obtain l idx where p: "mlfq_pick s = Some (l, idx)"
    and t: "t = set_myproc (Some idx) ((upd_proc idx start_slice s)\<lparr>mlfq_head := (mlfq_head s)[l := idx]\<rparr>)"
    using assms(3) by (rule scheduler_roundE)
  have idx: "idx < 64" "p_state (ptable s ! idx) = RUNNABLE" using mlfq_pick_runnable [OF p] by auto
  have heads: "list_all (\<lambda>h. h < NPROC) ((mlfq_head s)[l := idx])"
    using assms(1) idx(1) by (auto simp: mlfq_inv_def list_all_iff dest!: set_update_subset_insert [THEN subsetD])
  have "cpus_ok (set_myproc (Some idx) (upd_proc idx start_slice s))"
    unfolding upd_at_const [of idx start_slice]
    by (rule cpus_ok_enter [OF I(5) _ assms(2)]) (use I(1) idx in \<open>auto simp: start_slice_def\<close>)
  then have "cpus_ok t" by (auto simp: t cpus_ok_def set_myproc_def)
  moreover have "level_ok (ptable t ! j) \<and> slice_ok (ptable t ! j)" if "j < 64" for j
    using that t I(1,3,4) start_slice_ok by (auto simp: set_myproc_def)
  ultimately show ?thesis
    using t heads I(1,2) by (auto simp: mlfq_inv_def set_myproc_def)
qed

lemma mlfq_inv_kill:
  assumes "mlfq_inv s"
  shows "mlfq_inv (snd (kkill pid s))"
proof (cases "scan (\<lambda>p. p_pid p = pid) (ptable s)")
  case None
  then show ?thesis using assms by (simp add: kkill_def)
next
  case (Some i)
  note I = mlfq_invD [OF assms]
  have i: "i < 64" using scan_SomeD(1) [OF Some] I(1) by simp
  then show ?thesis
    using Some I(3,4) [OF i] assms
    by (auto simp: kkill_def level_ok_def slice_ok_def intro!: mlfq_inv_upd split: if_splits)
qed

lemmas mlfq_slot_simps = level_ok_def slice_ok_def allocproc_init_def init_mlfq_state_def sleep_resume_def

lemma mlfq_step_inv:
  assumes "mlfq_step s t" "mlfq_inv s"
  shows "mlfq_inv t"
  using assms(1)
proof cases
  case dispatch
  then show ?thesis using mlfq_inv_dispatch assms(2) by blast
next
  case clock
  then show ?thesis using mlfq_inv_clockintr assms(2) by blast
next
  case preempt
  then show ?thesis using mlfq_inv_trap_yield assms(2) by blast
next
  case (sleeps i c)
  then show ?thesis unfolding sleep_def
    using mlfq_inv_sched [OF assms(2)] mlfq_invD [OF assms(2)] myproc_running [OF assms(2)]
    by (fastforce simp: level_ok_def)
next
  case (resumes i)
  then show ?thesis using assms(2) mlfq_invD [OF assms(2)] myproc_running [OF assms(2)]
    by (auto simp: mlfq_slot_simps intro!: mlfq_inv_upd)
next
  case (wakes c)
  then show ?thesis using mlfq_inv_wakeup assms(2) by blast
next
  case (kills pid)
  then show ?thesis using mlfq_inv_kill assms(2) by blast
next
  case (counts i)
  then show ?thesis using assms(2) mlfq_invD [OF assms(2)] myproc_running [OF assms(2)]
    by (auto simp: mlfq_slot_simps intro!: mlfq_inv_upd)
next
  case (creates i pid)
  then show ?thesis using assms(2) mlfq_invD [OF assms(2)]
    by (auto simp: mlfq_slot_simps intro!: mlfq_inv_upd)
next
  case (readies i)
  then show ?thesis using assms(2) mlfq_invD [OF assms(2)]
    by (auto simp: mlfq_slot_simps intro!: mlfq_inv_upd)
next
  case (exits i status)
  then show ?thesis unfolding exit_sched_def
    using mlfq_inv_sched [OF assms(2)] mlfq_invD [OF assms(2)] myproc_running [OF assms(2)]
    by (fastforce simp: level_ok_def)
next
  case (reaps i)
  then show ?thesis using assms(2) mlfq_invD [OF assms(2)]
    by (auto simp: mlfq_slot_simps intro!: mlfq_inv_upd)
qed

lemma mlfq_reachable_inv: "mlfq_reachable s0 s \<Longrightarrow> mlfq_inv s0 \<Longrightarrow> mlfq_inv s"
  by (induction rule: mlfq_reachable.induct) (auto intro: mlfq_step_inv)

section \<open>Properties\<close>

text \<open>
  C1. A scheduler round dispatches a runnable process of the highest non-empty priority level:
  the chosen process is runnable at the chosen level, and no runnable process has a smaller
  level number.
\<close>

theorem sched_picks_highest_level:
  assumes "mlfq_pick s = Some (level, idx)"
  shows "idx < NPROC \<and> p_state (ptable s ! idx) = RUNNABLE \<and> p_level (ptable s ! idx) = int level \<and>
    (\<forall>j < NPROC. p_state (ptable s ! j) = RUNNABLE \<longrightarrow> 0 \<le> p_level (ptable s ! j) \<longrightarrow>
       p_level (ptable s ! idx) \<le> p_level (ptable s ! j))"
proof -
  note L = mlfq_pick_level [OF assms] and R = mlfq_pick_runnable [OF assms]
  have "int level \<le> p_level (ptable s ! j)"
    if j: "j < NPROC" "p_state (ptable s ! j) = RUNNABLE" "0 \<le> p_level (ptable s ! j)" for j
  proof (rule ccontr)
    assume "\<not> int level \<le> p_level (ptable s ! j)"
    then have "nat (p_level (ptable s ! j)) < level" using j(3) by linarith
    then have "pick_at_level s (nat (p_level (ptable s ! j))) = None" by (rule L(3))
    then show False using j by (auto simp: pick_at_level_None sched_candidate_def)
  qed
  then show ?thesis using R by simp
qed

definition ready_at :: "int \<Rightarrow> proc" where
  "ready_at l = proc0\<lparr>p_state := RUNNABLE, p_level := l, p_pid := 1\<rparr>"

lemma demo_pick_two: "mlfq_pick (demo_state [(3, ready_at 2), (5, ready_at 1)]) = Some (1, 5)"
  by code_simp

theorem sched_picks_highest_level_witness:
  "mlfq_pick (demo_state [(3, ready_at 2), (5, ready_at 1)]) = Some (1, 5) \<and>
   p_level (ptable (demo_state [(3, ready_at 2), (5, ready_at 1)]) ! 5) = 1"
  using sched_picks_highest_level [OF demo_pick_two] demo_pick_two by simp

text \<open>
  C4. The scheduler is work conserving: in a state that satisfies the invariant a round idles
  (executes \<^verbatim>\<open>wfi\<close>) exactly when no process is runnable.
\<close>

theorem sched_work_conserving:
  assumes "mlfq_inv s"
  shows "scheduler_round s = None \<longleftrightarrow> (\<forall>j < NPROC. p_state (ptable s ! j) \<noteq> RUNNABLE)"
proof -
  have "\<exists>l < 4. p_level (ptable s ! j) = int l" if "j < 64" for j
    using mlfq_invD(3) [OF assms that]
    by (intro exI [of _ "nat (p_level (ptable s ! j))"]) (auto simp: level_ok_def)
  then have "mlfq_pick s = None \<longleftrightarrow> (\<forall>j < 64. p_state (ptable s ! j) \<noteq> RUNNABLE)"
    by (auto simp: mlfq_pick_None sched_candidate_def)
  then show ?thesis by (auto simp: scheduler_round_def split: option.split)
qed

lemma all_less_list_all: "(\<forall>j < length xs. P (xs ! j)) \<longleftrightarrow> list_all P xs"
  by (simp add: list_all_length)

lemma mlfq_inv_demo:
  assumes "\<And>i p. (i, p) \<in> set ps \<Longrightarrow> level_ok p \<and> p_state p \<noteq> RUNNING"
  shows "mlfq_inv (demo_state ps)"
proof -
  let ?t = "fold (\<lambda>(i, p) t. t[i := p]) ps (replicate 64 proc0)"
  have len: "length (fold (\<lambda>(i, p) t. t[i := p]) qs t) = length t" for qs :: "(nat \<times> proc) list" and t
    by (induction qs arbitrary: t) auto
  have "list_all (\<lambda>p. level_ok p \<and> p_state p \<noteq> RUNNING) (fold (\<lambda>(i, p) t. t[i := p]) qs t)"
    if "set qs \<subseteq> set ps" "list_all (\<lambda>p. level_ok p \<and> p_state p \<noteq> RUNNING) t" for qs t
    using that
  proof (induction qs arbitrary: t)
    case Nil
    then show ?case by simp
  next
    case (Cons q qs)
    have "list_all (\<lambda>p. level_ok p \<and> p_state p \<noteq> RUNNING) (t[fst q := snd q])"
      using Cons.prems assms [of "fst q" "snd q"]
      by (auto simp: list_all_iff dest!: set_update_subset_insert [THEN subsetD])
    then show ?case using Cons by (cases q) auto
  qed
  from this [of ps "replicate 64 proc0"]
  have all: "list_all (\<lambda>p. level_ok p \<and> p_state p \<noteq> RUNNING) ?t"
    by (simp add: list_all_iff level_ok_def proc0_def)
  have "level_ok (?t ! j) \<and> p_state (?t ! j) \<noteq> RUNNING" if "j < 64" for j
    using all that by (auto simp: list_all_length len)
  then show ?thesis
    by (auto simp: mlfq_inv_def cpus_ok_def one_hart_def demo_state_def len slice_ok_def list_all_iff)
qed

theorem sched_work_conserving_witness:
  "mlfq_inv (demo_state []) \<and> scheduler_round (demo_state []) = None"
proof -
  have inv: "mlfq_inv (demo_state [])" by (rule mlfq_inv_demo) simp
  have "\<forall>j < NPROC. p_state (ptable (demo_state []) ! j) \<noteq> RUNNABLE"
    by (simp add: demo_state_def proc0_def)
  then show ?thesis using inv sched_work_conserving [OF inv] by blast
qed

text \<open>
  C3. The demotion rule of \<open>yield\<close>: when the process on this hart gives up the processor after its
  slice has expired, it becomes runnable and leaves the hart; it moves down one level, and stays
  at the bottom level if it is there, exactly when it made fewer system calls in the slice than
  it used ticks; no other process changes.
\<close>

theorem yield_demotes:
  assumes "mlfq_inv s" "myproc s = Some i" "p_time_slice_expired (ptable s ! i)"
  shows "\<exists>t. yield i s = Ret t \<and> myproc t = None \<and> p_state (ptable t ! i) = RUNNABLE \<and>
    p_level (ptable t ! i) =
      (if p_syscall_count (ptable s ! i) - p_slice_start_syscalls (ptable s ! i) < p_current_ticks (ptable s ! i)
       then min (MLFQ_LEVELS - 1) (p_level (ptable s ! i) + 1) else p_level (ptable s ! i)) \<and>
    p_current_ticks (ptable t ! i) = 0 \<and> \<not> p_time_slice_expired (ptable t ! i) \<and>
    (\<forall>j < NPROC. j \<noteq> i \<longrightarrow> ptable t ! j = ptable s ! j)"
proof -
  note I = mlfq_invD [OF assms(1)] and i = myproc_running [OF assms(1,2)]
  have "hart s < length (cpus s)" using I(5) by (simp add: cpus_ok_def)
  moreover have "0 \<le> p_current_ticks (ptable s ! i)" "p_level (ptable s ! i) < 4"
    using I(3,4) [OF i(1)] i(2) by (auto simp: slice_ok_def level_ok_def)
  ultimately show ?thesis
    using assms(3) i I(1)
    by (auto simp: yield_def sched_def end_slice_def Let_def set_myproc_def myproc_def)
qed

lemma mlfq_inv_run:
  assumes "mlfq_inv s" "myproc s = None" "i < NPROC" "p_state (ptable s ! i) \<noteq> RUNNING"
    "p_state p = RUNNING" "level_ok p" "slice_ok p"
  shows "mlfq_inv (set_myproc (Some i) (upd_proc i (\<lambda>_. p) s))"
proof -
  note I = mlfq_invD [OF assms(1)]
  have "cpus_ok (set_myproc (Some i) (upd_proc i (\<lambda>_. p) s))"
    by (rule cpus_ok_enter [OF I(5) _ assms(2-5)]) (use I(1) in simp)
  then show ?thesis
    using assms(1,3,6,7) I by (auto simp: mlfq_inv_def set_myproc_def)
qed

definition busy :: proc where
  "busy = (ready_at 1)\<lparr>p_state := RUNNING, p_current_ticks := 4, p_syscall_count := 3, p_time_slice_expired := True\<rparr>"

definition demo_run :: "nat \<Rightarrow> proc \<Rightarrow> proc_state" where
  "demo_run i p = set_myproc (Some i) (upd_proc i (\<lambda>_. p) (demo_state []))"

lemma mlfq_inv_demo_run:
  "i < NPROC \<Longrightarrow> p_state p = RUNNING \<Longrightarrow> level_ok p \<Longrightarrow> slice_ok p \<Longrightarrow> mlfq_inv (demo_run i p)"
  unfolding demo_run_def using mlfq_inv_demo [of "[]"]
  by (intro mlfq_inv_run) (simp_all add: demo_state_def myproc_def proc0_def)

lemma demo_run_simps [simp]:
  "i < NPROC \<Longrightarrow> ptable (demo_run i p) ! i = p" "myproc (demo_run i p) = Some i"
  by (simp_all add: demo_run_def set_myproc_def demo_state_def myproc_def)

theorem yield_demotes_witness:
  "mlfq_inv (demo_run 7 busy) \<and> (\<exists>t. yield 7 (demo_run 7 busy) = Ret t \<and> p_level (ptable t ! 7) = 2)"
proof -
  have inv: "mlfq_inv (demo_run 7 busy)"
    by (rule mlfq_inv_demo_run) (auto simp: busy_def ready_at_def proc0_def level_ok_def slice_ok_def)
  have e: "p_time_slice_expired (ptable (demo_run 7 busy) ! 7)" by (simp add: busy_def)
  have "myproc (demo_run 7 busy) = Some 7" by simp
  from yield_demotes [OF inv this e] inv show ?thesis
    by (auto simp: busy_def ready_at_def proc0_def)
qed

text \<open>
  C5. The periodic boost: when hart 0 takes the clock interrupt whose tick count is a multiple of
  \<open>BOOST_INTERVAL\<close>, every process that is neither unused nor a zombie ends at level 0 with a
  fresh slice, whatever its level was.
\<close>

theorem clock_boosts_all:
  assumes "length (ptable s) = NPROC" "hart s = 0" "(ticks s + 1) mod BOOST_INTERVAL = 0" "j < NPROC"
    "p_state (ptable s ! j) \<noteq> UNUSED" "p_state (ptable s ! j) \<noteq> ZOMBIE"
  shows "p_level (ptable (clockintr s) ! j) = 0 \<and> p_current_ticks (ptable (clockintr s) ! j) = 0 \<and>
    \<not> p_time_slice_expired (ptable (clockintr s) ! j)"
proof -
  define s1 where "s1 = (case myproc s of
      Some i \<Rightarrow> if p_state (ptable s ! i) = RUNNING then upd_proc i charge_tick s else s | None \<Rightarrow> s)"
  have f: "ticks s1 = ticks s" "length (ptable s1) = 64"
    using assms(1) by (auto simp: s1_def split: option.split)
  have state: "p_state (charge_tick p) = p_state p" for p by (simp add: charge_tick_def Let_def)
  have "p_state (ptable s1 ! j) = p_state (ptable s ! j)"
    using assms(1,4) by (auto simp: s1_def state split: option.split)
  moreover have "clockintr s = mlfq_boost (wakeup ChanTicks (s1\<lparr>ticks := ticks s1 + 1\<rparr>))"
    using assms(2,3) by (simp add: clockintr_def Let_def f flip: s1_def)
  ultimately show ?thesis using assms(4-6) f(2) by (auto simp: nth_mlfq_boost nth_wakeup)
qed

theorem clock_boosts_all_witness:
  "p_level (ptable (clockintr ((demo_state [(9, ready_at 3)])\<lparr>ticks := 127\<rparr>)) ! 9) = 0"
proof -
  let ?s = "(demo_state [(9, ready_at 3)])\<lparr>ticks := 127\<rparr>"
  have "length (ptable ?s) = NPROC" "hart ?s = 0" "(ticks ?s + 1) mod BOOST_INTERVAL = 0" "(9::nat) < NPROC"
    "p_state (ptable ?s ! 9) \<noteq> UNUSED" "p_state (ptable ?s ! 9) \<noteq> ZOMBIE"
    by (simp_all add: demo_state_def ready_at_def)
  from clock_boosts_all [OF this] show ?thesis by blast
qed

text \<open>
  The scan inside a level is not round robin: \<open>mlfq_head\<close> is set to the process dispatched, and
  the next scan starts at that process.  A process that yields at the same level, with no runnable
  process above it, is dispatched again, however many others wait at its level.
\<close>

theorem sched_repeats_process:
  assumes "mlfq_inv s" "myproc s = None" "mlfq_pick s = Some (l, idx)" "scheduler_round s = Some t"
    and "p_level p = int l" "p_current_ticks p \<le> p_syscall_count p - p_slice_start_syscalls p"
    and "0 \<le> p_syscall_count p - p_slice_start_syscalls p"
    and "yield idx (upd_proc idx (\<lambda>_. p) t) = Ret u"
  shows "mlfq_pick u = Some (l, idx)"
proof -
  note I = mlfq_invD [OF assms(1)] and L = mlfq_pick_level [OF assms(3)]
  have idx: "idx < 64" using mlfq_pick_runnable [OF assms(3)] by simp
  have t: "t = set_myproc (Some idx) ((upd_proc idx start_slice s)\<lparr>mlfq_head := (mlfq_head s)[l := idx]\<rparr>)"
    using assms(3,4) by (simp add: scheduler_round_def dispatch_at_def)
  have q: "p_level (end_slice p) = int l" using assms(5-7) by (auto simp: end_slice_def Let_def)
  have u: "ptable u = (ptable s)[idx := (end_slice p)\<lparr>p_state := RUNNABLE\<rparr>]" "mlfq_head u ! l = idx"
    using assms(8) idx I(1,2) L(1)
    by (auto simp: t yield_def sched_def set_myproc_def nth_list_update intro!: nth_equalityI split: if_splits)
  have "pick_at_level u k = None" if "k < l" for k
    using L(3) [OF that] q that u(1) idx I(1)
    by (auto simp: pick_at_level_None sched_candidate_def nth_list_update)
  moreover have "pick_at_level u l = Some idx"
  proof -
    have "sched_candidate u (int l) (rr_order idx ! 0)"
      using u idx I(1) q by (simp add: sched_candidate_def nth_rr_order)
    then have "scan (sched_candidate u (int l)) (rr_order idx) = Some 0"
      by (intro scan_first) auto
    then show ?thesis using u(2) idx by (simp add: pick_at_level_def nth_rr_order)
  qed
  ultimately show ?thesis using L(1) by (auto simp: mlfq_pick_unfold less_Suc_eq numeral_eq_Suc)
qed

end
