(* ===== verification/Harts.thy ===== *)
theory Harts
  imports Mlfq
begin

text \<open>
  The scheduler with all harts at work.  What a hart does with a slot while it holds the lock of the slot is one step.  The accounting of
  \<^verbatim>\<open>clockintr\<close> takes no lock: it is run load by load and store by store, and so are the stores of \<^verbatim>\<open>mlfq_boost\<close>, which may fall between
  them.  The invariant of this machine, the relation to the steps of \<open>Mlfq\<close>, and the race that remains.
\<close>

section \<open>The accounting and the boost, access by access\<close>

text \<open>The points of the accounting in \<^verbatim>\<open>clockintr\<close>; \<open>AddTick\<close> and \<open>Compare\<close> carry the value of \<^verbatim>\<open>p->current_ticks\<close> in a register.\<close>

datatype acct_pc = LevelLow | LevelHigh | LevelReset | LoadTicks | AddTick int | InLow | InHigh | CountLevel | LoadUsed | Compare int | Expire

fun account :: "acct_pc \<Rightarrow> proc \<Rightarrow> acct_pc option \<times> proc" where
  "account LevelLow p = (Some (if p_level p < 0 then LevelReset else LevelHigh), p)"
| "account LevelHigh p = (Some (if p_level p \<ge> MLFQ_LEVELS then LevelReset else LoadTicks), p)"
| "account LevelReset p = (Some LoadTicks, p\<lparr>p_level := 0\<rparr>)"
| "account LoadTicks p = (Some (AddTick (p_current_ticks p)), p)"
| "account (AddTick a) p = (Some InLow, p\<lparr>p_current_ticks := a + 1\<rparr>)"
| "account InLow p = (if p_level p \<ge> 0 then Some InHigh else None, p)"
| "account InHigh p = (if p_level p < MLFQ_LEVELS then Some CountLevel else None, p)"
| "account CountLevel p = (Some LoadUsed, p\<lparr>p_ticks := upd_at (nat (p_level p)) (\<lambda>t. t + 1) (p_ticks p)\<rparr>)"
| "account LoadUsed p = (Some (Compare (p_current_ticks p)), p)"
| "account (Compare a) p = (if a \<ge> mlfq_quantum ! nat (p_level p) then Some Expire else None, p)"
| "account Expire p = (None, p\<lparr>p_time_slice_expired := True\<rparr>)"

datatype boost_pc = SetLevel | SetTicks | SetExpired

fun boost_store :: "boost_pc \<Rightarrow> proc \<Rightarrow> boost_pc option \<times> proc" where
  "boost_store SetLevel p = (Some SetTicks, p\<lparr>p_level := 0\<rparr>)"
| "boost_store SetTicks p = (Some SetExpired, p\<lparr>p_current_ticks := 0\<rparr>)"
| "boost_store SetExpired p = (None, p\<lparr>p_time_slice_expired := False\<rparr>)"

section \<open>The machine\<close>

text \<open>For each hart the point of its accounting, and the slot hart 0 holds for a boost with the next store.\<close>

record 'z harts =
  core :: "'z proc_state_scheme"
  acct :: "nat \<Rightarrow> acct_pc option"
  boosting :: "(nat \<times> boost_pc) option"

definition at_rest :: "'z proc_state_scheme \<Rightarrow> 'z harts" where
  "at_rest s = \<lparr>core = s, acct = (\<lambda>_. None), boosting = None\<rparr>"

abbreviation on :: "nat \<Rightarrow> 'z harts \<Rightarrow> 'z proc_state_scheme" where
  "on h x \<equiv> (core x)\<lparr>hart := h\<rparr>"

definition unlocked :: "nat \<Rightarrow> 'z harts \<Rightarrow> bool" where
  "unlocked i x \<longleftrightarrow> i < NPROC \<and> (case boosting x of None \<Rightarrow> True | Some (k, _) \<Rightarrow> k \<noteq> i)"

definition kernel_on :: "nat \<Rightarrow> 'z harts \<Rightarrow> bool" where
  "kernel_on h x \<longleftrightarrow> h < NCPU \<and> acct x h = None"

text \<open>What the rest of the kernel leaves alone.\<close>

definition same_sched :: "proc \<Rightarrow> proc \<Rightarrow> bool" where
  "same_sched p q \<longleftrightarrow> p_state p = p_state q \<and> p_level p = p_level q \<and> p_current_ticks p = p_current_ticks q \<and>
     p_ticks p = p_ticks q \<and> p_time_slice_expired p = p_time_slice_expired q"

inductive hart_step :: "'z harts \<Rightarrow> 'z harts \<Rightarrow> bool" where
  dispatch: "kernel_on h x \<Longrightarrow> cpus (core x) ! h = None \<Longrightarrow> unlocked i x \<Longrightarrow> l < nat MLFQ_LEVELS \<Longrightarrow> sched_candidate (core x) (int l) i \<Longrightarrow>
    hart_step x (x\<lparr>core := dispatch_at l i (on h x)\<rparr>)"
| charge: "kernel_on h x \<Longrightarrow> cpus (core x) ! h = Some i \<Longrightarrow> p_state (ptable (core x) ! i) = RUNNING \<Longrightarrow>
    hart_step x (x\<lparr>acct := (acct x)(h := Some LevelLow)\<rparr>)"
| accounts: "acct x h = Some a \<Longrightarrow> cpus (core x) ! h = Some i \<Longrightarrow> account a (ptable (core x) ! i) = (b, p) \<Longrightarrow>
    hart_step x (x\<lparr>core := upd_proc i (\<lambda>_. p) (core x), acct := (acct x)(h := b)\<rparr>)"
| boosts: "boosting x = None \<Longrightarrow> i < NPROC \<Longrightarrow> p_state (ptable (core x) ! i) \<noteq> UNUSED \<Longrightarrow> p_state (ptable (core x) ! i) \<noteq> ZOMBIE \<Longrightarrow>
    hart_step x (x\<lparr>boosting := Some (i, SetLevel)\<rparr>)"
| stores: "boosting x = Some (i, a) \<Longrightarrow> boost_store a (ptable (core x) ! i) = (b, p) \<Longrightarrow>
    hart_step x (x\<lparr>core := upd_proc i (\<lambda>_. p) (core x), boosting := map_option (Pair i) b\<rparr>)"
| yields: "kernel_on h x \<Longrightarrow> cpus (core x) ! h = Some i \<Longrightarrow> unlocked i x \<Longrightarrow> yield i (on h x) = Ret t \<Longrightarrow> hart_step x (x\<lparr>core := t\<rparr>)"
| sleeps: "kernel_on h x \<Longrightarrow> cpus (core x) ! h = Some i \<Longrightarrow> unlocked i x \<Longrightarrow> sleep i c (on h x) = Ret t \<Longrightarrow> hart_step x (x\<lparr>core := t\<rparr>)"
| exits: "kernel_on h x \<Longrightarrow> cpus (core x) ! h = Some i \<Longrightarrow> unlocked i x \<Longrightarrow> exit_sched status i (on h x) = Ret t \<Longrightarrow> hart_step x (x\<lparr>core := t\<rparr>)"
| wakes: "unlocked i x \<Longrightarrow> p_state (ptable (core x) ! i) = SLEEPING \<Longrightarrow>
    hart_step x (x\<lparr>core := upd_proc i (\<lambda>p. p\<lparr>p_state := RUNNABLE\<rparr>) (core x)\<rparr>)"
| kills: "unlocked i x \<Longrightarrow> hart_step x (x\<lparr>core := upd_proc i (\<lambda>p. p\<lparr>p_killed := 1,
      p_state := (if p_state p = SLEEPING then RUNNABLE else p_state p)\<rparr>) (core x)\<rparr>)"
| creates: "unlocked i x \<Longrightarrow> p_state (ptable (core x) ! i) = UNUSED \<Longrightarrow> hart_step x (x\<lparr>core := upd_proc i (allocproc_init pid) (core x)\<rparr>)"
| readies: "unlocked i x \<Longrightarrow> p_state (ptable (core x) ! i) = USED \<Longrightarrow>
    hart_step x (x\<lparr>core := upd_proc i (\<lambda>p. p\<lparr>p_state := RUNNABLE\<rparr>) (core x)\<rparr>)"
| frees: "unlocked i x \<Longrightarrow> p_state (ptable (core x) ! i) = USED \<or> p_state (ptable (core x) ! i) = ZOMBIE \<Longrightarrow>
    hart_step x (x\<lparr>core := upd_proc i (\<lambda>p. p\<lparr>p_state := UNUSED\<rparr>) (core x)\<rparr>)"
| rest: "list_all2 same_sched (ptable (core x)) (ptable t) \<Longrightarrow> mlfq_head t = mlfq_head (core x) \<Longrightarrow> cpus t = cpus (core x) \<Longrightarrow>
    hart t = hart (core x) \<Longrightarrow> hart_step x (x\<lparr>core := t\<rparr>)"

inductive harts_run :: "'z harts \<Rightarrow> 'z harts \<Rightarrow> bool" for x where
  stay: "harts_run x x"
| next_step: "harts_run x y \<Longrightarrow> hart_step y z \<Longrightarrow> harts_run x z"

section \<open>The invariant\<close>

definition run_ok :: "proc \<Rightarrow> bool" where
  "run_ok p \<longleftrightarrow> level_ok p \<and> (p_state p = RUNNING \<longrightarrow> 0 \<le> p_current_ticks p)"

definition core_inv :: "'z proc_state_scheme \<Rightarrow> bool" where
  "core_inv s \<longleftrightarrow> length (ptable s) = NPROC \<and> length (mlfq_head s) = nat MLFQ_LEVELS \<and> list_all (\<lambda>h. h < NPROC) (mlfq_head s) \<and> cpus_ok s \<and>
     (\<forall>j < NPROC. run_ok (ptable s ! j))"

definition harts_inv :: "'z harts \<Rightarrow> bool" where
  "harts_inv x \<longleftrightarrow> core_inv (core x) \<and>
     (\<forall>h a. acct x h = Some a \<longrightarrow> h < NCPU \<and> cpus (core x) ! h \<noteq> None \<and> (\<forall>n. a = AddTick n \<longrightarrow> 0 \<le> n)) \<and>
     (\<forall>i a. boosting x = Some (i, a) \<longrightarrow> i < NPROC)"

lemma core_inv_upd:
  assumes "core_inv s" "i < NPROC" "run_ok (f (ptable s ! i))" "p_state (f (ptable s ! i)) = RUNNING \<longleftrightarrow> p_state (ptable s ! i) = RUNNING"
  shows "core_inv (upd_proc i f s)"
  using assms unfolding core_inv_def cpus_ok_def by auto

lemma core_inv_on: "core_inv (s\<lparr>hart := h\<rparr>) \<longleftrightarrow> core_inv s" if "h < NCPU" "core_inv s" for s :: "'z proc_state_scheme"
  using that by (simp add: core_inv_def cpus_ok_def)

lemma core_inv_sched:
  assumes "core_inv s" "myproc s = Some i" "sched True 1 False i (upd_proc i f s) = Ret t" "level_ok (f (ptable s ! i))"
  shows "core_inv t \<and> cpus t = (cpus s)[hart s := None]"
proof -
  have I: "length (ptable s) = 64" "cpus_ok s" "\<And>j. j < 64 \<Longrightarrow> run_ok (ptable s ! j)" using assms(1) by (auto simp: core_inv_def)
  have i: "i < 64" using assms(2) I(2) by (auto simp: cpus_ok_def myproc_def)
  have t: "t = set_myproc None (upd_proc i f s)" and nr: "p_state (f (ptable s ! i)) \<noteq> RUNNING"
    using assms(3) i I(1) by (auto simp: sched_def split: if_splits)
  have "cpus_ok t" unfolding t upd_at_const [of i f] using cpus_ok_leave [OF I(2) _ assms(2) nr] I(1) by simp
  moreover have "run_ok (ptable t ! j)" if "j < 64" for j
    using that t I(1) I(3) [OF that] assms(4) nr by (auto simp: set_myproc_def run_ok_def)
  ultimately show ?thesis using assms(1) unfolding core_inv_def by (simp add: t set_myproc_def)
qed

lemma core_inv_dispatch:
  assumes "core_inv s" "myproc s = None" "idx < NPROC" "p_state (ptable s ! idx) = RUNNABLE"
  shows "core_inv (dispatch_at l idx s)"
proof -
  have I: "length (ptable s) = 64" "length (mlfq_head s) = 4" "cpus_ok s" "\<And>j. j < 64 \<Longrightarrow> run_ok (ptable s ! j)"
    using assms(1) by (auto simp: core_inv_def)
  have heads: "list_all (\<lambda>h. h < NPROC) ((mlfq_head s)[l := idx])"
    using assms(1,3) by (auto simp: core_inv_def list_all_iff dest!: set_update_subset_insert [THEN subsetD])
  have "cpus_ok (set_myproc (Some idx) (upd_proc idx start_slice s))"
    unfolding upd_at_const [of idx start_slice]
    by (rule cpus_ok_enter [OF I(3) _ assms(2,3)]) (use I(1) assms(4) in \<open>auto simp: start_slice_def\<close>)
  then have "cpus_ok (dispatch_at l idx s)" by (auto simp: dispatch_at_def cpus_ok_def set_myproc_def)
  moreover have "run_ok (ptable (dispatch_at l idx s) ! j)" if "j < 64" for j
    using that I by (auto simp: dispatch_at_def set_myproc_def run_ok_def start_slice_def level_ok_def)
  ultimately show ?thesis using heads I(1,2) by (auto simp: core_inv_def dispatch_at_def set_myproc_def)
qed

lemma account_ok:
  assumes "account a p = (b, q)" "run_ok p" "p_state p = RUNNING" "\<And>n. a = AddTick n \<Longrightarrow> 0 \<le> n"
  shows "run_ok q \<and> p_state q = RUNNING \<and> (\<forall>n. b = Some (AddTick n) \<longrightarrow> 0 \<le> n)"
  using assms by (cases a) (auto simp: run_ok_def level_ok_def split: if_splits)

lemma boost_store_ok: "boost_store a p = (b, q) \<Longrightarrow> run_ok p \<Longrightarrow> run_ok q \<and> p_state q = p_state p"
  by (cases a) (auto simp: run_ok_def level_ok_def)

lemma harts_inv_core:
  assumes "harts_inv x" "core_inv t" "cpus t = cpus (core x) \<or> (\<exists>h i. kernel_on h x \<and> cpus t = (cpus (core x))[h := i])"
  shows "harts_inv (x\<lparr>core := t\<rparr>)"
  using assms by (auto simp: harts_inv_def kernel_on_def core_inv_def cpus_ok_def nth_list_update)

lemma harts_invD:
  assumes "harts_inv x"
  shows "core_inv (core x)" "length (ptable (core x)) = 64" "length (cpus (core x)) = 8" "\<And>j. j < 64 \<Longrightarrow> run_ok (ptable (core x) ! j)"
    "\<And>h i. h < 8 \<Longrightarrow> cpus (core x) ! h = Some i \<Longrightarrow> i < 64 \<and> p_state (ptable (core x) ! i) = RUNNING"
  using assms by (auto simp: harts_inv_def core_inv_def cpus_ok_def)

lemma harts_inv_slot:
  assumes "harts_inv x" "unlocked i x" "run_ok (f (ptable (core x) ! i))"
    "p_state (f (ptable (core x) ! i)) = RUNNING \<longleftrightarrow> p_state (ptable (core x) ! i) = RUNNING"
  shows "harts_inv (x\<lparr>core := upd_proc i f (core x)\<rparr>)"
  using assms core_inv_upd [of "core x" i f] by (intro harts_inv_core) (auto simp: unlocked_def harts_inv_def)

lemma harts_inv_leave:
  assumes "harts_inv x" "kernel_on h x" "cpus (core x) ! h = Some i" "sched True 1 False i (upd_proc i f (on h x)) = Ret t"
    "level_ok (f (ptable (core x) ! i))"
  shows "harts_inv (x\<lparr>core := t\<rparr>)"
proof -
  have "core_inv (on h x)" "myproc (on h x) = Some i"
    using assms(1-3) core_inv_on [of h "core x"] by (auto simp: harts_inv_def kernel_on_def myproc_def)
  from core_inv_sched [OF this assms(4)] assms(5) have "core_inv t" "cpus t = (cpus (core x))[h := None]" by auto
  then show ?thesis using assms(1,2) by (auto intro!: harts_inv_core)
qed

lemma harts_inv_accounts:
  assumes "harts_inv x" "acct x h = Some a" "cpus (core x) ! h = Some i" "account a (ptable (core x) ! i) = (b, p)"
  shows "harts_inv (x\<lparr>core := upd_proc i (\<lambda>_. p) (core x), acct := (acct x)(h := b)\<rparr>)"
proof -
  note I = harts_invD [OF assms(1)]
  have h: "h < 8" "\<And>n. a = AddTick n \<Longrightarrow> 0 \<le> n" using assms(1,2) by (auto simp: harts_inv_def)
  note i = I(5) [OF h(1) assms(3)]
  have "run_ok p \<and> p_state p = RUNNING \<and> (\<forall>n. b = Some (AddTick n) \<longrightarrow> 0 \<le> n)"
    by (rule account_ok [OF assms(4) I(4)]) (use i h in auto)
  then show ?thesis using assms(1,3) h(1) i core_inv_upd [OF I(1), of i "\<lambda>_. p"] by (auto simp: harts_inv_def)
qed

lemma same_sched_ok: "same_sched p q \<Longrightarrow> run_ok q = run_ok p \<and> p_state q = p_state p"
  by (auto simp: same_sched_def run_ok_def level_ok_def)

lemma core_inv_rest:
  assumes "core_inv s" "list_all2 same_sched (ptable s) (ptable t)" "mlfq_head t = mlfq_head s" "cpus t = cpus s" "hart t = hart s"
  shows "core_inv t"
proof -
  have "run_ok (ptable t ! j) = run_ok (ptable s ! j) \<and> p_state (ptable t ! j) = p_state (ptable s ! j)" if "j < 64" for j
    using assms(1) that list_all2_nthD [OF assms(2), of j] by (auto simp: core_inv_def same_sched_ok)
  then show ?thesis using assms list_all2_lengthD [OF assms(2)] by (auto simp: core_inv_def cpus_ok_def)
qed

lemmas slot_simps = run_ok_def level_ok_def allocproc_init_def init_mlfq_state_def unlocked_def

lemma hart_step_inv:
  assumes "hart_step x y" "harts_inv x"
  shows "harts_inv y"
  using assms(1)
proof cases
  case (dispatch h i l)
  have "core_inv (dispatch_at l i (on h x))"
    using dispatch harts_invD(1) [OF assms(2)] core_inv_on [of h "core x"]
    by (intro core_inv_dispatch) (auto simp: kernel_on_def myproc_def unlocked_def sched_candidate_def)
  then show ?thesis unfolding dispatch(1) using dispatch(2) assms(2)
    by (intro harts_inv_core) (auto simp: dispatch_at_def set_myproc_def)
next
  case (charge h i)
  then show ?thesis using assms(2) by (auto simp: harts_inv_def kernel_on_def)
next
  case (accounts h a i b p)
  then show ?thesis using harts_inv_accounts [OF assms(2)] by blast
next
  case (boosts i)
  then show ?thesis using assms(2) by (auto simp: harts_inv_def)
next
  case (stores i a b p)
  then show ?thesis using assms(2) boost_store_ok [OF stores(3)] harts_invD(4) [OF assms(2), of i] core_inv_upd [of "core x" i "\<lambda>_. p"]
    by (auto simp: harts_inv_def)
next
  case (yields h i t)
  then have "level_ok ((end_slice (ptable (core x) ! i))\<lparr>p_state := RUNNABLE\<rparr>)"
    using harts_invD(4) [OF assms(2), of i] by (intro end_slice_level) (auto simp: run_ok_def unlocked_def)
  then show ?thesis using harts_inv_leave [OF assms(2) yields(2,3)] yields by (simp add: yield_def)
next
  case (sleeps h i c t)
  then have "level_ok ((ptable (core x) ! i)\<lparr>p_chan := c, p_state := SLEEPING\<rparr>)"
    using harts_invD(4) [OF assms(2), of i] by (auto simp: slot_simps)
  then show ?thesis using harts_inv_leave [OF assms(2) sleeps(2,3)] sleeps by (simp add: sleep_def)
next
  case (exits h i status t)
  then have "level_ok ((ptable (core x) ! i)\<lparr>p_xstate := status, p_state := ZOMBIE\<rparr>)"
    using harts_invD(4) [OF assms(2), of i] by (auto simp: slot_simps)
  then show ?thesis using harts_inv_leave [OF assms(2) exits(2,3)] exits by (simp add: exit_sched_def)
next
  case (rest t)
  then show ?thesis using assms(2) core_inv_rest harts_invD(1) [OF assms(2)] by (metis harts_inv_core)
qed (use assms(2) harts_invD(4) [OF assms(2)] in \<open>auto simp: slot_simps intro!: harts_inv_slot split: if_splits\<close>)

lemma harts_run_inv: "harts_run x y \<Longrightarrow> harts_inv x \<Longrightarrow> harts_inv y"
  by (induction rule: harts_run.induct) (auto intro: hart_step_inv)

lemma at_rest_inv: "mlfq_inv s \<Longrightarrow> harts_inv (at_rest s)"
  by (auto simp: mlfq_inv_def harts_inv_def core_inv_def at_rest_def run_ok_def slice_ok_def)

section \<open>The steps of one hart as runs of the machine\<close>

lemma harts_run_trans: "harts_run y z \<Longrightarrow> harts_run x y \<Longrightarrow> harts_run x z"
  by (induction rule: harts_run.induct) (auto intro: harts_run.next_step)

lemma harts_run_one: "hart_step x y \<Longrightarrow> harts_run x y"
  by (blast intro: harts_run.intros)

lemma at_rest_simps [simp]:
  "core (at_rest s) = s" "acct (at_rest s) h = None" "boosting (at_rest s) = None" "(at_rest s)\<lparr>core := t\<rparr> = at_rest t"
  "kernel_on h (at_rest s) \<longleftrightarrow> h < NCPU" "unlocked i (at_rest s) \<longleftrightarrow> i < NPROC"
  by (simp_all add: at_rest_def kernel_on_def unlocked_def)

lemma upd_slot_id: "length (ptable s) = NPROC \<Longrightarrow> f (ptable s ! i) = ptable s ! i \<Longrightarrow> upd_proc i f s = (s :: 'z proc_state_scheme)"
  by (simp add: upd_at_def)

text \<open>A pass over the table is a run when its work on each slot is one.\<close>

lemma run_pass:
  fixes s :: "'z proc_state_scheme"
  assumes "\<And>i (t :: 'z proc_state_scheme). i < 64 \<Longrightarrow> length (ptable t) = 64 \<Longrightarrow> harts_run (at_rest t) (at_rest (upd_proc i (f i) t))"
    and "length (ptable s) = 64"
  shows "harts_run (at_rest s) (at_rest (s\<lparr>ptable := map (\<lambda>i. f i (ptable s ! i)) [0..<64]\<rparr>))"
proof -
  define part where "part k = map (\<lambda>i. if i < k then f i (ptable s ! i) else ptable s ! i) [0..<64]" for k
  have "harts_run (at_rest s) (at_rest (s\<lparr>ptable := part k\<rparr>))" if "k \<le> 64" for k
    using that
  proof (induction k)
    case 0
    have "part 0 = ptable s" using assms(2) by (auto simp: part_def intro: nth_equalityI)
    then show ?case by (simp add: harts_run.stay)
  next
    case (Suc k)
    have "upd_at k (f k) (part k) = part (Suc k)"
      using Suc.prems by (auto simp: part_def nth_list_update less_Suc_eq intro!: nth_equalityI)
    then show ?case using assms(1) [of k "s\<lparr>ptable := part k\<rparr>"] Suc by (auto intro: harts_run_trans simp: part_def)
  qed
  moreover have "part 64 = map (\<lambda>i. f i (ptable s ! i)) [0..<64]" by (auto simp: part_def)
  ultimately show ?thesis by (metis order_refl)
qed

lemma boost_slot_run:
  assumes "i < 64" "length (ptable s) = 64"
  shows "harts_run (at_rest s) (at_rest (upd_proc i boost_proc s))"
proof (cases "p_state (ptable s ! i) = UNUSED \<or> p_state (ptable s ! i) = ZOMBIE")
  case True
  then show ?thesis using assms by (auto simp: upd_slot_id boost_proc_def harts_run.stay)
next
  case False
  define X where "X a p = \<lparr>core = upd_proc i (\<lambda>_. p) s, acct = (\<lambda>_. None), boosting = map_option (Pair i) a\<rparr>" for a p
  have st: "harts_run (X (Some a) p) (X b q)" if "boost_store a p = (b, q)" for a b p q
    using hart_step.stores [of "X (Some a) p" i a b q] that assms by (intro harts_run_one) (simp add: X_def upd_at_def)
  have "hart_step (at_rest s) ((at_rest s)\<lparr>boosting := Some (i, SetLevel)\<rparr>)" using False assms(1) by (intro hart_step.boosts) auto
  then have "harts_run (at_rest s) (X (Some SetLevel) (ptable s ! i))" by (intro harts_run_one) (simp add: X_def at_rest_def upd_at_def)
  then have "harts_run (at_rest s) (X None (boost_proc (ptable s ! i)))"
    using st [of SetLevel "ptable s ! i"] st [of SetTicks] st [of SetExpired] False
    by (simp add: boost_proc_def) (meson harts_run_trans)
  then show ?thesis by (simp add: X_def at_rest_def upd_at_def)
qed

lemma charge_run:
  assumes "i < 64" "length (ptable s) = 64" "h < NCPU" "cpus s ! h = Some i" "p_state (ptable s ! i) = RUNNING" "level_ok (ptable s ! i)"
  shows "harts_run (at_rest s) (at_rest (upd_proc i charge_tick s))"
proof -
  define X where "X a p = \<lparr>core = upd_proc i (\<lambda>_. p) s, acct = (\<lambda>_. None)(h := a), boosting = None\<rparr>" for a p
  have st: "harts_run (at_rest s) (X b q)" if "harts_run (at_rest s) (X (Some a) p)" "account a p = (b, q)" for a b p q
    using hart_step.accounts [of "X (Some a) p" h a i b q] that assms by (auto simp: X_def upd_at_def intro: harts_run.next_step)
  have "hart_step (at_rest s) ((at_rest s)\<lparr>acct := (acct (at_rest s))(h := Some LevelLow)\<rparr>)"
    by (rule hart_step.charge) (use assms in auto)
  then have 1: "harts_run (at_rest s) (X (Some LevelLow) (ptable s ! i))"
    by (intro harts_run_one) (simp add: X_def at_rest_def upd_at_def)
  have l: "\<not> p_level (ptable s ! i) < 0" "\<not> 4 \<le> p_level (ptable s ! i)" using assms(6) by (auto simp: level_ok_def)
  let ?p = "ptable s ! i"
  let ?q = "?p\<lparr>p_current_ticks := p_current_ticks ?p + 1\<rparr>"
  let ?r = "?q\<lparr>p_ticks := upd_at (nat (p_level ?p)) (\<lambda>t. t + 1) (p_ticks ?p)\<rparr>"
  have "harts_run (at_rest s) (X (Some LevelHigh) ?p)" by (rule st [OF 1]) (simp add: l)
  then have "harts_run (at_rest s) (X (Some LoadTicks) ?p)" by (rule st) (use l in simp)
  then have "harts_run (at_rest s) (X (Some (AddTick (p_current_ticks ?p))) ?p)" by (rule st) simp
  then have "harts_run (at_rest s) (X (Some InLow) ?q)" by (rule st) simp
  then have "harts_run (at_rest s) (X (Some InHigh) ?q)" by (rule st) (use l in simp)
  then have "harts_run (at_rest s) (X (Some CountLevel) ?q)" by (rule st) (use l in simp)
  then have "harts_run (at_rest s) (X (Some LoadUsed) ?r)" by (rule st) simp
  then have "harts_run (at_rest s) (X (Some (Compare (p_current_ticks ?r))) ?r)" by (rule st) simp
  then have "harts_run (at_rest s) (X (if mlfq_quantum ! nat (p_level ?p) \<le> p_current_ticks ?p + 1 then Some Expire else None) ?r)"
    by (rule st) simp
  then have "harts_run (at_rest s) (X None (if mlfq_quantum ! nat (p_level ?p) \<le> p_current_ticks ?p + 1
      then ?r\<lparr>p_time_slice_expired := True\<rparr> else ?r))"
    by (cases "mlfq_quantum ! nat (p_level ?p) \<le> p_current_ticks ?p + 1") (auto elim: st)
  then have "harts_run (at_rest s) (X None (charge_tick ?p))" using l by (simp add: charge_tick_def Let_def)
  then show ?thesis by (simp add: X_def at_rest_def upd_at_def fun_upd_def)
qed

lemma wakeup_run:
  fixes s :: "'z proc_state_scheme"
  assumes "length (ptable s) = 64"
  shows "harts_run (at_rest s) (at_rest (wakeup c s))"
proof -
  define f where "f i p = (if Some i \<noteq> myproc s \<and> p_state p = SLEEPING \<and> p_chan p = c then p\<lparr>p_state := RUNNABLE\<rparr> else p)" for i and p :: proc
  have "harts_run (at_rest t) (at_rest (upd_proc i (f i) t))" if "i < 64" "length (ptable t) = 64" for i and t :: "'z proc_state_scheme"
  proof (cases "Some i \<noteq> myproc s \<and> p_state (ptable t ! i) = SLEEPING \<and> p_chan (ptable t ! i) = c")
    case True
    then have "upd_proc i (f i) t = upd_proc i (\<lambda>p. p\<lparr>p_state := RUNNABLE\<rparr>) t" by (simp add: upd_at_def f_def)
    then show ?thesis using hart_step.wakes [of i "at_rest t"] True that by (auto intro: harts_run_one)
  next
    case False
    then show ?thesis using that by (auto simp: upd_slot_id f_def harts_run.stay)
  qed
  then have "harts_run (at_rest s) (at_rest (s\<lparr>ptable := map (\<lambda>i. f i (ptable s ! i)) [0..<64]\<rparr>))"
    using run_pass [of f s] assms by blast
  moreover have "wakeup_loop (myproc s) c 0 (ptable s) = map (\<lambda>i. f i (ptable s ! i)) [0..<64]"
    using assms by (auto simp: nth_wakeup_loop f_def intro!: nth_equalityI)
  ultimately show ?thesis by (simp add: wakeup_def)
qed

lemma rest_run:
  assumes "list_all2 same_sched (ptable s) (ptable t)" "mlfq_head t = mlfq_head s" "cpus t = cpus s" "hart t = hart s"
  shows "harts_run (at_rest s) (at_rest t)"
  using hart_step.rest [of "at_rest s" t] assms by (auto intro: harts_run_one)

lemma same_refl [simp]: "same_sched p p"
  by (simp add: same_sched_def)

lemma same_slots:
  assumes "\<And>p. same_sched p (f p)"
  shows "list_all2 same_sched ps (upd_at i f ps)"
  by (rule list_all2_all_nthI) (simp_all add: assms)

lemma mlfq_boost_run: "length (ptable s) = 64 \<Longrightarrow> harts_run (at_rest s) (at_rest (mlfq_boost s))"
proof -
  assume l: "length (ptable s) = 64"
  have "map boost_proc (ptable s) = map (\<lambda>i. boost_proc (ptable s ! i)) [0..<64]" using l by (auto intro: nth_equalityI)
  then show ?thesis unfolding mlfq_boost_def using run_pass [of "\<lambda>_. boost_proc" s, OF boost_slot_run l] by (simp only:)
qed

lemma clockintr_run:
  assumes "mlfq_inv s"
  shows "harts_run (at_rest s) (at_rest (clockintr s))"
proof -
  note I = mlfq_invD [OF assms]
  define s1 where "s1 = (case myproc s of Some i \<Rightarrow> if p_state (ptable s ! i) = RUNNING then upd_proc i charge_tick s else s | None \<Rightarrow> s)"
  have l: "length (ptable s1) = 64" using I(1) by (auto simp: s1_def split: option.split)
  have 1: "harts_run (at_rest s) (at_rest s1)"
  proof (cases "myproc s")
    case (Some i)
    then show ?thesis using charge_run [of i s "hart s"] myproc_running [OF assms Some] I(1,3,5)
      by (auto simp: s1_def myproc_def cpus_ok_def)
  qed (simp add: s1_def harts_run.stay)
  define s2 where "s2 = wakeup ChanTicks (s1\<lparr>ticks := ticks s1 + 1\<rparr>)"
  have l2: "length (ptable s2) = 64" using l by (simp add: s2_def)
  have "harts_run (at_rest s1) (at_rest (s1\<lparr>ticks := ticks s1 + 1\<rparr>))"
    by (rule rest_run) (auto simp: list_all2_conv_all_nth)
  then have 2: "harts_run (at_rest s1) (at_rest s2)"
    unfolding s2_def using wakeup_run [of "s1\<lparr>ticks := ticks s1 + 1\<rparr>"] l by (auto intro: harts_run_trans)
  show ?thesis unfolding clockintr_def Let_def s1_def [symmetric] s2_def [symmetric]
    using 1 2 mlfq_boost_run [OF l2] by (auto intro: harts_run_trans)
qed

lemma mlfq_step_run:
  assumes "mlfq_step s t" "mlfq_inv s"
  shows "harts_run (at_rest s) (at_rest t)"
proof -
  note I = mlfq_invD [OF assms(2)] and R = myproc_running [OF assms(2)]
  have h: "hart s < 8" "s\<lparr>hart := hart s\<rparr> = s" using I(5) by (auto simp: cpus_ok_def)
  have y: "yield i s = Ret u \<Longrightarrow> myproc s = Some i \<Longrightarrow> harts_run (at_rest s) (at_rest u)" for i u
    using hart_step.yields [of "hart s" "at_rest s" i u] R [of i] h by (auto simp: myproc_def intro: harts_run_one)
  show ?thesis using assms(1)
  proof cases
    case dispatch
    then obtain l i where p: "mlfq_pick s = Some (l, i)" "t = dispatch_at l i s"
      by (auto simp: scheduler_round_def split: option.splits)
    then show ?thesis
      using hart_step.dispatch [of "hart s" "at_rest s" i l] mlfq_pick_level(1) [OF p(1)] mlfq_pick_runnable [OF p(1)] dispatch h
      by (auto simp: myproc_def sched_candidate_def intro: harts_run_one)
  next
    case clock
    then show ?thesis using clockintr_run assms(2) by simp
  next
    case preempt
    then show ?thesis using y by (auto simp: trap_yield_def harts_run.stay split: option.splits if_splits)
  next
    case (sleeps i c)
    then show ?thesis using hart_step.sleeps [of "hart s" "at_rest s" i c t] R [of i] h by (auto simp: myproc_def intro: harts_run_one)
  next
    case (resumes i)
    then show ?thesis by (auto intro!: rest_run same_slots simp: sleep_resume_def same_sched_def)
  next
    case (wakes c)
    then show ?thesis using wakeup_run I(1) by simp
  next
    case (kills pid)
    then show ?thesis using I(1) hart_step.kills [of _ "at_rest s"]
      by (auto simp: kkill_def harts_run.stay dest: scan_SomeD(1) intro!: harts_run_one split: option.split)
  next
    case (counts i)
    then show ?thesis by (auto intro!: rest_run same_slots simp: same_sched_def)
  next
    case (creates i pid)
    then show ?thesis using hart_step.creates [of i "at_rest s" pid] by (auto intro: harts_run_one)
  next
    case (readies i)
    then show ?thesis using hart_step.readies [of i "at_rest s"] by (auto intro: harts_run_one)
  next
    case (exits i status)
    then show ?thesis using hart_step.exits [of "hart s" "at_rest s" i status t] R [of i] h by (auto simp: myproc_def intro: harts_run_one)
  next
    case (reaps i)
    then show ?thesis using hart_step.frees [of i "at_rest s"] by (auto intro: harts_run_one)
  qed
qed

lemma mlfq_reachable_run: "mlfq_reachable s0 s \<Longrightarrow> mlfq_inv s0 \<Longrightarrow> harts_run (at_rest s0) (at_rest s)"
  by (induction rule: mlfq_reachable.induct) (auto intro: harts_run.stay harts_run_trans mlfq_step_run mlfq_reachable_inv)

section \<open>The race that remains\<close>

text \<open>
  A boost that falls between the load and the store of \<^verbatim>\<open>p->current_ticks++\<close> is undone in part: the process is at level 0, but with the ticks
  of its old slice, and its new slice has expired at once.
\<close>

lemma boost_undone:
  assumes "i < 64" "length (ptable s) = 64" "h < NCPU" "cpus s ! h = Some i" "p_state (ptable s ! i) = RUNNING" "level_ok (ptable s ! i)"
    "1 \<le> p_current_ticks (ptable s ! i)"
  shows "\<exists>q. harts_run (at_rest s) (at_rest (upd_proc i (\<lambda>_. q) s)) \<and> p_level q = 0 \<and> p_state q = RUNNING \<and>
    p_current_ticks q = p_current_ticks (ptable s ! i) + 1 \<and> p_time_slice_expired q"
proof -
  define X where "X a b p = \<lparr>core = upd_proc i (\<lambda>_. p) s, acct = (\<lambda>_. None)(h := a), boosting = map_option (Pair i) b\<rparr>" for a b p
  have st: "harts_run (at_rest s) (X a' b q)" if "harts_run (at_rest s) (X (Some a) b p)" "account a p = (a', q)" for a a' b p q
    using hart_step.accounts [of "X (Some a) b p" h a i a' q] that assms by (auto simp: X_def upd_at_def intro: harts_run.next_step)
  have bt: "harts_run (at_rest s) (X a b' q)" if "harts_run (at_rest s) (X a (Some b) p)" "boost_store b p = (b', q)" for a b b' p q
    using hart_step.stores [of "X a (Some b) p" i b b' q] that assms by (auto simp: X_def upd_at_def intro: harts_run.next_step)
  have "hart_step (at_rest s) ((at_rest s)\<lparr>acct := (acct (at_rest s))(h := Some LevelLow)\<rparr>)"
    by (rule hart_step.charge) (use assms in auto)
  then have 1: "harts_run (at_rest s) (X (Some LevelLow) None (ptable s ! i))"
    by (intro harts_run_one) (simp add: X_def at_rest_def upd_at_def)
  let ?p = "ptable s ! i"
  let ?b = "?p\<lparr>p_level := 0, p_current_ticks := 0, p_time_slice_expired := False\<rparr>"
  let ?q = "?b\<lparr>p_current_ticks := p_current_ticks ?p + 1\<rparr>"
  let ?r = "?q\<lparr>p_ticks := upd_at 0 (\<lambda>t. t + 1) (p_ticks ?p)\<rparr>"
  have l: "\<not> p_level ?p < 0" "\<not> 4 \<le> p_level ?p" using assms(6) by (auto simp: level_ok_def)
  have "harts_run (at_rest s) (X (Some LevelHigh) None ?p)" by (rule st [OF 1]) (simp add: l)
  then have "harts_run (at_rest s) (X (Some LoadTicks) None ?p)" by (rule st) (use l in simp)
  then have "harts_run (at_rest s) (X (Some (AddTick (p_current_ticks ?p))) None ?p)" by (rule st) simp
  then have "harts_run (at_rest s) (X (Some (AddTick (p_current_ticks ?p))) (Some SetLevel) ?p)"
    using hart_step.boosts [of "X (Some (AddTick (p_current_ticks ?p))) None ?p" i] assms
    by (auto simp: X_def upd_at_def intro: harts_run.next_step)
  then have "harts_run (at_rest s) (X (Some (AddTick (p_current_ticks ?p))) (Some SetTicks) (?p\<lparr>p_level := 0\<rparr>))" by (rule bt) simp
  then have "harts_run (at_rest s) (X (Some (AddTick (p_current_ticks ?p))) (Some SetExpired) (?p\<lparr>p_level := 0, p_current_ticks := 0\<rparr>))"
    by (rule bt) simp
  then have "harts_run (at_rest s) (X (Some (AddTick (p_current_ticks ?p))) None ?b)" by (rule bt) simp
  then have "harts_run (at_rest s) (X (Some InLow) None ?q)" by (rule st) simp
  then have "harts_run (at_rest s) (X (Some InHigh) None ?q)" by (rule st) simp
  then have "harts_run (at_rest s) (X (Some CountLevel) None ?q)" by (rule st) simp
  then have "harts_run (at_rest s) (X (Some LoadUsed) None ?r)" by (rule st) simp
  then have "harts_run (at_rest s) (X (Some (Compare (p_current_ticks ?r))) None ?r)" by (rule st) simp
  then have "harts_run (at_rest s) (X (Some Expire) None ?r)" by (rule st) (use assms(7) in \<open>simp add: mlfq_quantum_def\<close>)
  then have "harts_run (at_rest s) (X None None (?r\<lparr>p_time_slice_expired := True\<rparr>))" by (rule st) simp
  then show ?thesis using assms(5) by (intro exI [of _ "?r\<lparr>p_time_slice_expired := True\<rparr>"]) (simp add: X_def at_rest_def fun_upd_def)
qed

section \<open>The property\<close>

text \<open>
  C2. With any number of harts, in every state reached from a state that satisfies the invariant by any interleaving of the locked sections,
  of the single accesses of the unlocked accounting in \<open>clockintr\<close> and of the stores of a boost, each process has a level between 0 and 3, a
  process is marked running exactly when it is on a hart, no process is on two harts, and no running process has a negative
  number of ticks.  The steps of a machine with one hart at work are such runs, and there a running process whose expiry has not been noted
  has ticks left in the quantum of its level.
\<close>

theorem mlfq_reachable_safe:
  assumes "mlfq_inv s0" "harts_run (at_rest s0) x" "mlfq_reachable s0 s" "j < NPROC"
  shows "0 \<le> p_level (ptable (core x) ! j) \<and> p_level (ptable (core x) ! j) < MLFQ_LEVELS \<and>
    (p_state (ptable (core x) ! j) = RUNNING \<longleftrightarrow> (\<exists>!h. h < NCPU \<and> cpus (core x) ! h = Some j)) \<and>
    (p_state (ptable (core x) ! j) = RUNNING \<longrightarrow> 0 \<le> p_current_ticks (ptable (core x) ! j)) \<and>
    harts_run (at_rest s0) (at_rest s) \<and>
    (p_state (ptable s ! j) = RUNNING \<longrightarrow> \<not> p_time_slice_expired (ptable s ! j) \<longrightarrow>
       p_current_ticks (ptable s ! j) < mlfq_quantum ! nat (p_level (ptable s ! j)))"
proof -
  have inv: "mlfq_inv s" by (rule mlfq_reachable_inv [OF assms(3,1)])
  have h: "harts_inv x" by (rule harts_run_inv [OF assms(2) at_rest_inv [OF assms(1)]])
  have j: "j < 64" using assms(4) by simp
  have "p_state (ptable (core x) ! j) = RUNNING \<longleftrightarrow> (\<exists>!h. h < NCPU \<and> cpus (core x) ! h = Some j)"
    using harts_invD(1) [OF h] j one_hartD [of "cpus (core x)"] unfolding core_inv_def cpus_ok_def by auto
  then show ?thesis using harts_invD(4) [OF h j] mlfq_invD(4) [OF inv j] mlfq_reachable_run [OF assms(3,1)]
    by (auto simp: run_ok_def level_ok_def slice_ok_def)
qed

theorem mlfq_reachable_safe_witness:
  "mlfq_inv (demo_state [(5, ready_at 1)]) \<and>
   (\<exists>t. scheduler_round (demo_state [(5, ready_at 1)]) = Some t \<and> mlfq_reachable (demo_state [(5, ready_at 1)]) t \<and>
     harts_run (at_rest (demo_state [(5, ready_at 1)])) (at_rest t) \<and>
     0 \<le> p_level (ptable t ! 5) \<and> p_level (ptable t ! 5) < MLFQ_LEVELS)"
proof -
  let ?s = "demo_state [(5, ready_at 1)]"
  have inv: "mlfq_inv ?s"
    by (rule mlfq_inv_demo) (auto simp: ready_at_def proc0_def level_ok_def)
  have my: "myproc ?s = None" by (simp add: myproc_def demo_state_def)
  have "mlfq_pick ?s = Some (1, 5)" by code_simp
  then obtain t where t: "scheduler_round ?s = Some t" by (auto simp: scheduler_round_def)
  have r: "mlfq_reachable ?s t"
    by (rule mlfq_reachable.step [OF mlfq_reachable.start mlfq_step.dispatch [OF my t]])
  have h: "harts_run (at_rest ?s) (at_rest t)" by (rule mlfq_reachable_run [OF r inv])
  have "(5::nat) < NPROC" by simp
  from mlfq_reachable_safe [OF inv h r this] t r inv show ?thesis by auto
qed

end
