(* ===== verification/Disk_Sched.thy ===== *)
theory Disk_Sched
  imports Proc
begin

text \<open>
  Model of \<^verbatim>\<open>kernel/disk_sched.c\<close>: the RAID address maps, the queue of disk requests with its two
  scheduling policies, the latency model and the statistics.

  A request is a structure that \<^verbatim>\<open>add_disk_request\<close> allocates as a whole page; \<open>disk_reqs\<close> maps the
  address of such a page to the structure in it, and the queue is threaded through \<open>rq_next\<close> as in
  the source, with a head and a tail pointer.  C's truncating division is \<open>sdiv\<close> and \<open>smod\<close>; an
  out parameter is an extra component of the result.
\<close>

section \<open>State\<close>

definition DISK_SCHED_FCFS :: int where [simp]: "DISK_SCHED_FCFS = 0"
definition DISK_SCHED_SSTF :: int where [simp]: "DISK_SCHED_SSTF = 1"
definition RAID_MODE_0 :: int where [simp]: "RAID_MODE_0 = 0"
definition RAID_MODE_1 :: int where [simp]: "RAID_MODE_1 = 1"
definition RAID_MODE_5 :: int where [simp]: "RAID_MODE_5 = 2"
definition NUM_DISKS :: int where [simp]: "NUM_DISKS = 4"
definition DISK_BLOCKS_PER_DISK :: int where [simp]: "DISK_BLOCKS_PER_DISK = 4096"
definition SWAP_START_BLOCK :: int where [simp]: "SWAP_START_BLOCK = 0"
definition DISK_ROTATIONAL_DELAY :: int where [simp]: "DISK_ROTATIONAL_DELAY = 5"
definition DISK_READ :: int where [simp]: "DISK_READ = 0"
definition DISK_WRITE :: int where [simp]: "DISK_WRITE = 1"

record disk_request =
  rq_type :: int
  rq_logical_block :: int
  rq_disk_id :: int
  rq_block_on_disk :: int
  rq_buffer :: addr
  rq_proc :: "nat option"
  rq_priority :: int
  rq_timestamp :: "64 word"
  rq_raid_mode :: int
  rq_next :: addr

record disk_state = proc_state +
  current_disk_head :: "int list"
  disk_sched_policy :: int
  raid_mode :: int
  disk_queue_head :: addr
  disk_queue_tail :: addr
  disk_reqs :: "addr \<Rightarrow> disk_request"
  disk_reads :: "64 word"
  disk_writes :: "64 word"
  total_disk_latency :: "64 word"
  disk_operations :: "64 word"

section \<open>Configuration\<close>

definition disk_sched_init :: "'z disk_state_scheme \<Rightarrow> 'z disk_state_scheme" where
  "disk_sched_init s = s\<lparr>current_disk_head := replicate (nat NUM_DISKS) 0,
     disk_sched_policy := DISK_SCHED_FCFS, raid_mode := RAID_MODE_0\<rparr>"

definition disk_queue_init :: "'z disk_state_scheme \<Rightarrow> 'z disk_state_scheme" where
  "disk_queue_init s = s\<lparr>disk_queue_head := 0, disk_queue_tail := 0\<rparr>"

definition setdisksched :: "int \<Rightarrow> 'z disk_state_scheme \<Rightarrow> int \<times> 'z disk_state_scheme" where
  "setdisksched policy s =
     (if policy = DISK_SCHED_FCFS \<or> policy = DISK_SCHED_SSTF
      then (0, s\<lparr>disk_sched_policy := policy\<rparr>) else (-1, s))"

definition set_raid_mode :: "int \<Rightarrow> 'z disk_state_scheme \<Rightarrow> 'z disk_state_scheme" where
  "set_raid_mode mode s =
     (if mode \<ge> RAID_MODE_0 \<and> mode \<le> RAID_MODE_5 then s\<lparr>raid_mode := mode\<rparr> else s)"

definition sys_setdisksched :: "int \<Rightarrow> 'z disk_state_scheme \<Rightarrow> int \<times> 'z disk_state_scheme" where
  "sys_setdisksched policy s = setdisksched policy s"

section \<open>RAID address maps\<close>

text \<open>
  \<open>i32\<close> is the value of an \<^verbatim>\<open>int\<close> after a product or sum that may not fit: the arithmetic of the machine
  wraps.
\<close>

definition i32 :: "int \<Rightarrow> int" where
  "i32 k = sint (word_of_int k :: 32 word)"

text \<open>The result is the return value, \<^verbatim>\<open>*out_disk\<close> and \<^verbatim>\<open>*out_block\<close>.\<close>

definition raid0_map :: "int \<Rightarrow> int \<times> int \<times> int" where
  "raid0_map logical_block =
     (let out_disk = logical_block smod NUM_DISKS;
          out_block = logical_block sdiv NUM_DISKS
      in (if out_block \<ge> DISK_BLOCKS_PER_DISK then -1 else 0, out_disk, out_block))"

definition raid1_map :: "int \<Rightarrow> int \<times> int \<times> int" where
  "raid1_map logical_block =
     (let stripe = logical_block sdiv (DISK_BLOCKS_PER_DISK sdiv 2);
          block_offset = logical_block smod (DISK_BLOCKS_PER_DISK sdiv 2);
          out_disk = (if stripe smod 2 = 0 then 0 else 2);
          out_block = block_offset
      in (if out_block \<ge> DISK_BLOCKS_PER_DISK then -1 else 0, out_disk, out_block))"

definition raid5_map :: "int \<Rightarrow> int \<times> int \<times> int" where
  "raid5_map logical_block =
     (let stripe = logical_block sdiv (NUM_DISKS - 1);
          block_in_stripe = logical_block smod (NUM_DISKS - 1);
          parity_disk = stripe smod NUM_DISKS;
          data_disk = (if block_in_stripe \<ge> parity_disk then block_in_stripe + 1 else block_in_stripe);
          out_block = i32 (stripe * (DISK_BLOCKS_PER_DISK sdiv NUM_DISKS))
      in (if out_block \<ge> DISK_BLOCKS_PER_DISK then -1 else 0, data_disk, out_block))"

text \<open>In the default case the out parameters keep their values, passed as the last two arguments.\<close>

definition raid_map_logical_to_physical :: "int \<Rightarrow> int \<Rightarrow> int \<Rightarrow> int \<Rightarrow> int \<times> int \<times> int" where
  "raid_map_logical_to_physical mode logical_block disk0 block0 =
     (if mode = RAID_MODE_0 then raid0_map logical_block
      else if mode = RAID_MODE_1 then raid1_map logical_block
      else if mode = RAID_MODE_5 then raid5_map logical_block
      else (-1, disk0, block0))"

definition raid_reverse_map :: "int \<Rightarrow> int \<Rightarrow> int \<Rightarrow> int \<Rightarrow> int \<times> int" where
  "raid_reverse_map mode disk block logical0 =
     (if mode = RAID_MODE_0 then (0, i32 (block * NUM_DISKS + disk))
      else if mode = RAID_MODE_1 then (0, i32 (block + (disk sdiv 2) * (DISK_BLOCKS_PER_DISK sdiv 2)))
      else if mode = RAID_MODE_5 then
        (let blocks_per_stripe = DISK_BLOCKS_PER_DISK sdiv NUM_DISKS;
             stripe = block sdiv blocks_per_stripe
         in (0, i32 (stripe * (NUM_DISKS - 1) + disk)))
      else (-1, logical0))"

text \<open>
  \<open>raid_stripe_page\<close> fills three out parameters; \<open>None\<close> is a null pointer.  \<^verbatim>\<open>data\<close> is not used.
\<close>

definition raid_stripe_page ::
  "int \<Rightarrow> int \<Rightarrow> int list option \<Rightarrow> int list option \<Rightarrow> int option \<Rightarrow>
   int list option \<times> int list option \<times> int option" where
  "raid_stripe_page mode logical_block disks blocks cnt =
     (case (disks, blocks, cnt) of
        (Some ds, Some bs, Some c) \<Rightarrow>
          (let (r, disk, block) = raid_map_logical_to_physical mode logical_block 0 0
           in if r = 0 then (Some (ds[0 := disk]), Some (bs[0 := block]), Some 1)
              else (Some ds, Some bs, Some 0))
      | _ \<Rightarrow> (disks, blocks, cnt))"

text \<open>\<open>raid_reconstruct_page\<close> tests its arguments and does nothing.\<close>

definition raid_reconstruct_page :: "byte list option \<Rightarrow> int \<Rightarrow> int list option \<Rightarrow> byte list option" where
  "raid_reconstruct_page data logical_block available_disks = data"

section \<open>Latency\<close>

definition calculate_disk_latency :: "int list \<Rightarrow> int \<Rightarrow> int \<Rightarrow> 64 word" where
  "calculate_disk_latency heads disk requested_block =
     (let seek_distance = heads ! nat disk - requested_block;
          seek_distance = (if seek_distance < 0 then - seek_distance else seek_distance)
      in word_of_int (seek_distance + DISK_ROTATIONAL_DELAY))"

abbreviation req_latency :: "'z disk_state_scheme \<Rightarrow> addr \<Rightarrow> 64 word" where
  "req_latency s a \<equiv>
     calculate_disk_latency (current_disk_head s) (rq_disk_id (disk_reqs s a)) (rq_block_on_disk (disk_reqs s a))"

section \<open>The request queue\<close>

definition enqueue_request :: "addr \<Rightarrow> 'z disk_state_scheme \<Rightarrow> 'z disk_state_scheme" where
  "enqueue_request req s =
     (if disk_queue_tail s = 0 then s\<lparr>disk_queue_head := req, disk_queue_tail := req\<rparr>
      else s\<lparr>disk_reqs := (disk_reqs s)(disk_queue_tail s := (disk_reqs s (disk_queue_tail s))\<lparr>rq_next := req\<rparr>),
             disk_queue_tail := req\<rparr>)"

definition make_request :: "int \<Rightarrow> int \<Rightarrow> int \<Rightarrow> int \<Rightarrow> addr \<Rightarrow> nat option \<Rightarrow> 'z disk_state_scheme \<Rightarrow> disk_request" where
  "make_request type logical_block disk_id block_on_disk buffer p s =
     \<lparr>rq_type = type, rq_logical_block = logical_block, rq_disk_id = disk_id,
      rq_block_on_disk = block_on_disk, rq_buffer = buffer, rq_proc = p,
      rq_priority = (case p of Some i \<Rightarrow> p_level (ptable s ! i) | None \<Rightarrow> MLFQ_LEVELS - 1),
      rq_timestamp = ucast (ticks s), rq_raid_mode = raid_mode s, rq_next = 0\<rparr>"

definition add_disk_request ::
  "int \<Rightarrow> int \<Rightarrow> addr \<Rightarrow> nat option \<Rightarrow> 'z disk_state_scheme \<Rightarrow> (int \<times> 'z disk_state_scheme) outcome" where
  "add_disk_request type logical_block buffer p s =
     (let (req, s1) = kalloc s in
      if req = 0 then Ret (-1, s1)
      else let (r, disk_id, block_on_disk) = raid_map_logical_to_physical (raid_mode s1) logical_block 0 0 in
        if r \<noteq> 0 then obind (kfree req s1) (\<lambda>s2. Ret (-1, s2))
        else let s2 = s1\<lparr>disk_reqs := (disk_reqs s1)(req :=
                        make_request type logical_block disk_id block_on_disk buffer p s1)\<rparr>
             in Ret (0, enqueue_request req s2))"

definition schedule_fcfs :: "'z disk_state_scheme \<Rightarrow> addr \<times> 'z disk_state_scheme" where
  "schedule_fcfs s =
     (let req = disk_queue_head s in
      if req \<noteq> 0
      then let s1 = s\<lparr>disk_queue_head := rq_next (disk_reqs s req)\<rparr>
           in (req, if disk_queue_head s1 = 0 then s1\<lparr>disk_queue_tail := 0\<rparr> else s1)
      else (req, s))"

text \<open>
  The loop of \<open>schedule_sstf\<close>.  A queue is a chain of distinct pages, so \<open>MAX_REQS\<close> iterations, the
  number of pages of the machine and one more, are enough (\<open>sstf_loop_chain\<close>).
\<close>

definition MAX_REQS :: nat where "MAX_REQS = 32769"

fun sstf_loop ::
  "nat \<Rightarrow> 'z disk_state_scheme \<Rightarrow> addr \<Rightarrow> addr \<Rightarrow> addr \<Rightarrow> addr \<Rightarrow> 64 word \<Rightarrow> (addr \<times> addr) outcome" where
  "sstf_loop 0 s cur prev_cur best prev_best min_latency = Hang"
| "sstf_loop (Suc fuel) s cur prev_cur best prev_best min_latency =
     (if cur = 0 then Ret (best, prev_best)
      else let latency = req_latency s cur in
        if latency < min_latency \<or>
           (latency = min_latency \<and> rq_priority (disk_reqs s cur) < rq_priority (disk_reqs s best))
        then sstf_loop fuel s (rq_next (disk_reqs s cur)) cur cur prev_cur latency
        else sstf_loop fuel s (rq_next (disk_reqs s cur)) cur best prev_best min_latency)"

definition schedule_sstf :: "'z disk_state_scheme \<Rightarrow> (addr \<times> 'z disk_state_scheme) outcome" where
  "schedule_sstf s =
     (if disk_queue_head s = 0 then Ret (0, s)
      else obind (sstf_loop MAX_REQS s (disk_queue_head s) 0 (disk_queue_head s) 0
                    (req_latency s (disk_queue_head s)))
        (\<lambda>(best, prev_best).
           let next = rq_next (disk_reqs s best);
               s1 = (if prev_best = 0 then s\<lparr>disk_queue_head := next\<rparr>
                     else s\<lparr>disk_reqs := (disk_reqs s)(prev_best := (disk_reqs s prev_best)\<lparr>rq_next := next\<rparr>)\<rparr>);
               s2 = (if disk_queue_head s1 = 0 then s1\<lparr>disk_queue_tail := 0\<rparr> else s1);
               s3 = s2\<lparr>disk_reqs := (disk_reqs s2)(best := (disk_reqs s2 best)\<lparr>rq_next := 0\<rparr>)\<rparr>
           in Ret (best, s3)))"

definition schedule_next_request :: "'z disk_state_scheme \<Rightarrow> (addr \<times> 'z disk_state_scheme) outcome" where
  "schedule_next_request s =
     (if disk_sched_policy s = DISK_SCHED_FCFS then Ret (schedule_fcfs s)
      else if disk_sched_policy s = DISK_SCHED_SSTF then schedule_sstf s
      else Ret (0, s))"

section \<open>Serving a request\<close>

definition update_disk_stats :: "addr \<Rightarrow> 64 word \<Rightarrow> 'z disk_state_scheme \<Rightarrow> 'z disk_state_scheme" where
  "update_disk_stats req latency s =
     (let r = disk_reqs s req;
          s1 = (if rq_type r = DISK_READ then s\<lparr>disk_reads := disk_reads s + 1\<rparr>
                else s\<lparr>disk_writes := disk_writes s + 1\<rparr>);
          s2 = s1\<lparr>total_disk_latency := total_disk_latency s1 + latency,
                  disk_operations := disk_operations s1 + 1\<rparr>
      in case rq_proc r of
           None \<Rightarrow> s2
         | Some i \<Rightarrow>
             if rq_type r = DISK_READ
             then upd_proc i (\<lambda>p. p\<lparr>p_pages_swapped_in := p_pages_swapped_in p + 1\<rparr>) s2
             else upd_proc i (\<lambda>p. p\<lparr>p_pages_swapped_out := p_pages_swapped_out p + 1\<rparr>) s2)"

definition process_disk_request :: "addr \<Rightarrow> 'z disk_state_scheme \<Rightarrow> 'z disk_state_scheme" where
  "process_disk_request req s =
     (if req = 0 then s
      else let latency = req_latency s req;
               s1 = s\<lparr>current_disk_head :=
                        (current_disk_head s)[nat (rq_disk_id (disk_reqs s req)) := rq_block_on_disk (disk_reqs s req)]\<rparr>
           in update_disk_stats req latency s1)"

definition get_avg_disk_latency :: "'z disk_state_scheme \<Rightarrow> 64 word" where
  "get_avg_disk_latency s =
     (if disk_operations s > 0 then total_disk_latency s div disk_operations s else 0)"

end
