(* ===== verification/Disk_Queue.thy ===== *)
theory Disk_Queue
  imports Disk_Sched "HOL-Library.Multiset"
begin

text \<open>
  Correctness of the disk request queue.  \<open>disk_chain s xs\<close> says that following \<open>rq_next\<close> from the
  head pointer visits exactly the requests \<open>xs\<close>; \<open>disk_inv s xs\<close> adds that the tail pointer is the
  last of them.  First come, first served keeps both; shortest seek time first keeps only the
  chain, which is enough to show that every queued request is served once
  (locale \<open>disk_policy\<close>) but not that later requests are reached.
\<close>

section \<open>Chains of requests\<close>

fun req_seg :: "(addr \<Rightarrow> disk_request) \<Rightarrow> addr \<Rightarrow> addr list \<Rightarrow> addr \<Rightarrow> bool" where
  "req_seg h p [] q \<longleftrightarrow> p = q"
| "req_seg h p (x # xs) q \<longleftrightarrow> p = x \<and> x \<noteq> 0 \<and> req_seg h (rq_next (h x)) xs q"

definition last0 :: "addr list \<Rightarrow> addr" where
  "last0 xs = (if xs = [] then 0 else last xs)"

definition disk_chain :: "'z disk_state_scheme \<Rightarrow> addr list \<Rightarrow> bool" where
  "disk_chain s xs \<longleftrightarrow> KERNBASE \<le> kend s \<and> list_all (page_ok s) xs \<and> distinct xs \<and>
     req_seg (disk_reqs s) (disk_queue_head s) xs 0"

definition disk_inv :: "'z disk_state_scheme \<Rightarrow> addr list \<Rightarrow> bool" where
  "disk_inv s xs \<longleftrightarrow> disk_chain s xs \<and> disk_queue_tail s = last0 xs"

lemma last0_simps [simp]: "last0 [] = 0" "last0 (xs @ [x]) = x" "last0 [x] = x"
  by (simp_all add: last0_def)

lemma last0_nonempty: "xs \<noteq> [] \<Longrightarrow> last0 xs = last xs"
  by (simp add: last0_def)

lemma req_seg_append [simp]:
  "req_seg h p (xs @ ys) q \<longleftrightarrow> (\<exists>r. req_seg h p xs r \<and> req_seg h r ys q)"
  by (induction xs arbitrary: p) auto

lemma req_seg_cong:
  "(\<And>x. x \<in> set xs \<Longrightarrow> rq_next (h x) = rq_next (h' x)) \<Longrightarrow> req_seg h p xs q = req_seg h' p xs q"
  by (induction xs arbitrary: p) auto

lemma req_seg_nonzero: "req_seg h p xs q \<Longrightarrow> 0 \<notin> set xs"
  by (induction xs arbitrary: p) auto

lemma req_seg_head: "req_seg h p xs 0 \<Longrightarrow> p = 0 \<longleftrightarrow> xs = []"
  by (cases xs) auto

text \<open>Appending one request to a chain, and taking one out of the middle.\<close>

lemma req_seg_snoc:
  assumes "req_seg h p xs 0" "xs \<noteq> []" "distinct xs" "a \<notin> set xs" "a \<noteq> 0" "rq_next (h a) = 0"
  shows "req_seg (h(last xs := (h (last xs))\<lparr>rq_next := a\<rparr>)) p (xs @ [a]) 0"
proof -
  obtain ys y where xs: "xs = ys @ [y]" using assms(2) by (cases xs rule: rev_cases) auto
  let ?h = "h(y := (h y)\<lparr>rq_next := a\<rparr>)"
  have "req_seg h p ys y" "y \<noteq> 0" using assms(1) xs by auto
  then have "req_seg ?h p ys y" using assms(3) xs by (subst req_seg_cong [where h' = h]) auto
  then show ?thesis using xs \<open>y \<noteq> 0\<close> assms(4-6) by auto
qed

lemma req_seg_unlink:
  assumes "req_seg h p (us @ b # vs) 0" "distinct (us @ b # vs)"
  defines "h1 \<equiv> if us = [] then h else h(last us := (h (last us))\<lparr>rq_next := rq_next (h b)\<rparr>)"
  shows "req_seg (h1(b := (h1 b)\<lparr>rq_next := 0\<rparr>)) (if us = [] then rq_next (h b) else p) (us @ vs) 0"
proof (cases us rule: rev_cases)
  case Nil
  then have "req_seg h (rq_next (h b)) vs 0" using assms(1) by simp
  then show ?thesis using Nil assms(2) by (subst req_seg_cong [where h' = h]) (auto simp: h1_def)
next
  case (snoc us0 u)
  let ?h = "h1(b := (h1 b)\<lparr>rq_next := 0\<rparr>)"
  have seg: "req_seg h p us0 u" "u \<noteq> 0" "req_seg h (rq_next (h b)) vs 0" using assms(1) snoc by auto
  have "req_seg ?h p us0 u" "req_seg ?h (rq_next (h b)) vs 0"
    using seg(1,3) assms(2) snoc by (subst req_seg_cong [where h' = h], auto simp: h1_def)+
  moreover have "rq_next (?h u) = rq_next (h b)" using snoc assms(2) by (auto simp: h1_def)
  ultimately show ?thesis using snoc seg(2) by auto
qed

text \<open>Requests are distinct pages, so a queue is never longer than the number of pages.\<close>

lemma disk_chain_length:
  assumes "disk_chain s xs"
  shows "length xs < MAX_REQS"
proof -
  let ?f = "\<lambda>a :: addr. unat a div 4096"
  have ok: "2147483648 \<le> unat a \<and> unat a < 2281701376 \<and> 4096 dvd unat a" if "a \<in> set xs" for a
  proof -
    have "page_ok s a" using assms that by (auto simp: disk_chain_def list_all_iff)
    moreover have "KERNBASE \<le> a"
      using assms calculation by (auto simp: disk_chain_def page_ok_def)
    ultimately show ?thesis
      unfolding page_ok_def page_aligned_iff by (simp add: word_le_nat_alt word_less_nat_alt)
  qed
  have "inj_on ?f (set xs)"
    by (rule inj_onI) (use ok in \<open>auto simp: word_unat_eq_iff dvd_div_eq_iff elim!: dvdE\<close>)
  then have "length xs = card (?f ` set xs)"
    using assms by (simp add: disk_chain_def card_image distinct_card)
  also have "?f ` set xs \<subseteq> {524288..<557056}"
  proof
    fix k assume "k \<in> ?f ` set xs"
    then obtain a where a: "a \<in> set xs" "k = unat a div 4096" by blast
    note o = ok [OF a(1)]
    have "2147483648 div 4096 \<le> k" unfolding a(2) using o by (intro div_le_mono) simp
    moreover have "k < 557056" unfolding a(2) using o by (intro less_mult_imp_div_less) simp
    ultimately show "k \<in> {524288..<557056}" by simp
  qed
  then have "card (?f ` set xs) \<le> card {524288..<557056 :: nat}" by (intro card_mono) auto
  finally show ?thesis by (simp add: MAX_REQS_def)
qed

section \<open>First come, first served\<close>

lemma schedule_fcfs_Nil: "disk_chain s [] \<Longrightarrow> schedule_fcfs s = (0, s)"
  by (simp add: disk_chain_def schedule_fcfs_def Let_def)

lemma schedule_fcfs_Cons:
  assumes "disk_chain s (x # xs)"
  shows "fst (schedule_fcfs s) = x" "disk_chain (snd (schedule_fcfs s)) xs"
    "disk_inv s (x # xs) \<Longrightarrow> disk_inv (snd (schedule_fcfs s)) xs"
    "disk_reqs (snd (schedule_fcfs s)) = disk_reqs s"
  using assms req_seg_head [of "disk_reqs s" "rq_next (disk_reqs s x)" xs]
  by (auto simp: disk_chain_def disk_inv_def schedule_fcfs_def Let_def page_ok_def list_all_iff last0_def)

text \<open>A request that is ready to be queued: a valid page whose link is null.\<close>

definition req_ready :: "addr \<Rightarrow> 'z disk_state_scheme \<Rightarrow> bool" where
  "req_ready a s \<longleftrightarrow> page_ok s a \<and> rq_next (disk_reqs s a) = 0"

lemma enqueue_request_inv:
  assumes "disk_inv s xs" "req_ready a s" "a \<notin> set xs"
  shows "disk_inv (enqueue_request a s) (xs @ [a])"
proof -
  have c: "KERNBASE \<le> kend s" "list_all (page_ok s) xs" "distinct xs"
    "req_seg (disk_reqs s) (disk_queue_head s) xs 0" and tail: "disk_queue_tail s = last0 xs"
    using assms(1) by (auto simp: disk_inv_def disk_chain_def)
  have a: "a \<noteq> 0" using assms(2) c(1) by (metis req_ready_def page_ok_nonzero)
  show ?thesis
  proof (cases "xs = []")
    case True
    then show ?thesis
      using c tail a assms(2) by (simp add: disk_inv_def disk_chain_def enqueue_request_def req_ready_def page_ok_def)
  next
    case False
    have nz: "last xs \<noteq> 0" using req_seg_nonzero [OF c(4)] False by (metis last_in_set)
    show ?thesis
      using req_seg_snoc [OF c(4) False c(3) assms(3) a] c nz tail assms(2,3) False
      by (simp add: disk_inv_def disk_chain_def enqueue_request_def req_ready_def page_ok_def
          last0_def list_all_iff)
  qed
qed

lemma enqueue_request_other:
  assumes "disk_inv s xs" "req_ready b s" "b \<notin> set xs" "b \<noteq> a"
  shows "req_ready b (enqueue_request a s)"
proof -
  have "xs \<noteq> [] \<longrightarrow> last xs \<in> set xs" by simp
  then show ?thesis
    using assms by (auto simp: req_ready_def enqueue_request_def disk_inv_def last0_def page_ok_def split: if_splits)
qed

text \<open>
  The interface of a first-in first-out queue, and what its clients obtain: requests queued one
  after the other come out in that order.
\<close>

locale fifo_queue =
  fixes enq :: "addr \<Rightarrow> 's \<Rightarrow> 's"
    and deq :: "'s \<Rightarrow> addr \<times> 's"
    and inv :: "'s \<Rightarrow> addr list \<Rightarrow> bool"
    and ready :: "addr \<Rightarrow> 's \<Rightarrow> bool"
  assumes enq_inv: "inv s xs \<Longrightarrow> ready a s \<Longrightarrow> a \<notin> set xs \<Longrightarrow> inv (enq a s) (xs @ [a])"
    and enq_ready: "inv s xs \<Longrightarrow> ready b s \<Longrightarrow> b \<notin> set xs \<Longrightarrow> b \<noteq> a \<Longrightarrow> ready b (enq a s)"
    and deq_inv: "inv s (x # xs) \<Longrightarrow> fst (deq s) = x \<and> inv (snd (deq s)) xs"
begin

fun deq_n :: "nat \<Rightarrow> 's \<Rightarrow> addr list \<times> 's" where
  "deq_n 0 s = ([], s)"
| "deq_n (Suc n) s = (let (a, s1) = deq s; (as, s2) = deq_n n s1 in (a # as, s2))"

lemma enq_all:
  "inv s xs \<Longrightarrow> distinct as \<Longrightarrow> set as \<inter> set xs = {} \<Longrightarrow> (\<And>a. a \<in> set as \<Longrightarrow> ready a s) \<Longrightarrow>
   inv (fold enq as s) (xs @ as)"
proof (induction as arbitrary: s xs)
  case Nil
  then show ?case by simp
next
  case (Cons a as)
  have "inv (enq a s) (xs @ [a])" using Cons.prems by (intro enq_inv) auto
  moreover have "ready b (enq a s)" if "b \<in> set as" for b
    using Cons.prems that by (intro enq_ready [of s xs]) auto
  ultimately have "inv (fold enq as (enq a s)) ((xs @ [a]) @ as)"
    using Cons.prems by (intro Cons.IH) auto
  then show ?case by simp
qed

lemma deq_all: "inv s xs \<Longrightarrow> n \<le> length xs \<Longrightarrow> fst (deq_n n s) = take n xs"
proof (induction n arbitrary: s xs)
  case 0
  then show ?case by simp
next
  case (Suc n)
  then obtain x ys where xs: "xs = x # ys" by (cases xs) auto
  then show ?case using deq_inv [of s x ys] Suc.IH [of "snd (deq s)" ys] Suc.prems
    by (simp add: split_beta Let_def)
qed

lemma fifo_order:
  "inv s [] \<Longrightarrow> distinct as \<Longrightarrow> (\<And>a. a \<in> set as \<Longrightarrow> ready a s) \<Longrightarrow>
   fst (deq_n (length as) (fold enq as s)) = as"
  using enq_all [of s "[]" as] deq_all [of "fold enq as s" as "length as"] by simp

end

interpretation fcfs_fifo: fifo_queue enqueue_request schedule_fcfs disk_inv req_ready
  apply unfold_locales
  subgoal by (rule enqueue_request_inv)
  subgoal by (rule enqueue_request_other)
  subgoal for s x xs using schedule_fcfs_Cons [of s x xs] by (simp add: disk_inv_def)
  done

section \<open>Shortest seek time first\<close>

text \<open>The order in which the policy prefers requests: latency first, then process priority.\<close>

definition better :: "'z disk_state_scheme \<Rightarrow> addr \<Rightarrow> addr \<Rightarrow> bool" where
  "better s a b \<longleftrightarrow> req_latency s a < req_latency s b \<or>
     (req_latency s a = req_latency s b \<and> rq_priority (disk_reqs s a) < rq_priority (disk_reqs s b))"

lemma better_trans: "better s a b \<Longrightarrow> \<not> better s c b \<Longrightarrow> better s a c"
  unfolding better_def by (cases "req_latency s c" "req_latency s b" rule: linorder_cases) auto

lemma better_irrefl: "\<not> better s a a"
  by (simp add: better_def)

lemma better_asym: "better s a b \<Longrightarrow> \<not> better s b a"
  unfolding better_def by auto

text \<open>
  The request chosen from a queue \<open>us @ b # vs\<close> is \<open>b\<close>: nothing is better, and it is strictly
  better than everything before it, so it is the first of the best.
\<close>

definition sstf_choice :: "'z disk_state_scheme \<Rightarrow> addr list \<Rightarrow> addr \<Rightarrow> addr list \<Rightarrow> bool" where
  "sstf_choice s us b vs \<longleftrightarrow> (\<forall>u \<in> set us. better s b u) \<and> (\<forall>v \<in> set vs. \<not> better s v b)"

lemma sstf_loop_chain:
  assumes "req_seg (disk_reqs s) cur ys 0" "length ys < fuel"
    and "pre = us @ best # vs" "sstf_choice s us best vs"
  shows "\<exists>us' best' vs'. pre @ ys = us' @ best' # vs' \<and> sstf_choice s us' best' vs' \<and>
     sstf_loop fuel s cur (last0 pre) best (last0 us) (req_latency s best) = Ret (best', last0 us')"
  using assms
proof (induction ys arbitrary: cur fuel pre us best vs)
  case Nil
  then obtain n where "fuel = Suc n" by (cases fuel) auto
  then show ?case using Nil by auto
next
  case (Cons y ys)
  obtain n where n: "fuel = Suc n" using Cons.prems(2) by (cases fuel) auto
  have y: "cur = y" "y \<noteq> 0" "req_seg (disk_reqs s) (rq_next (disk_reqs s y)) ys 0"
    using Cons.prems(1) by auto
  have len: "length ys < n" using Cons.prems(2) n by simp
  show ?case
  proof (cases "better s y best")
    case True
    have "\<not> better s p best" if "p \<in> set pre" for p
      using that Cons.prems(3,4) better_asym better_irrefl by (auto simp: sstf_choice_def)
    then have "sstf_choice s pre y []"
      using better_trans [OF True] by (auto simp: sstf_choice_def)
    then obtain us' best' vs' where "(pre @ [y]) @ ys = us' @ best' # vs'" "sstf_choice s us' best' vs'"
      "sstf_loop n s (rq_next (disk_reqs s y)) (last0 (pre @ [y])) y (last0 pre) (req_latency s y)
         = Ret (best', last0 us')"
      using Cons.IH [OF y(3) len, of "pre @ [y]" pre y "[]"] by auto
    then show ?thesis using True y n by (auto simp: better_def Let_def)
  next
    case False
    then have "sstf_choice s us best (vs @ [y])"
      using Cons.prems(4) by (auto simp: sstf_choice_def)
    then obtain us' best' vs' where "(pre @ [y]) @ ys = us' @ best' # vs'" "sstf_choice s us' best' vs'"
      "sstf_loop n s (rq_next (disk_reqs s y)) (last0 (pre @ [y])) best (last0 us) (req_latency s best)
         = Ret (best', last0 us')"
      using Cons.IH [OF y(3) len, of "pre @ [y]" us best "vs @ [y]"] Cons.prems(3) by auto
    then show ?thesis using False y n by (auto simp: better_def Let_def)
  qed
qed

text \<open>
  The loop starts with \<open>cur\<close> and \<open>best\<close> both at the head; its first iteration compares the head
  with itself and changes nothing.
\<close>

lemma sstf_loop_first:
  assumes "req_seg (disk_reqs s) x (x # xs) 0" "length (x # xs) < fuel"
  shows "\<exists>us b vs. x # xs = us @ b # vs \<and> sstf_choice s us b vs \<and>
     sstf_loop fuel s x 0 x 0 (req_latency s x) = Ret (b, last0 us)"
proof -
  obtain n where n: "fuel = Suc n" using assms(2) by (cases fuel) auto
  have "\<exists>us' b' vs'. [x] @ xs = us' @ b' # vs' \<and> sstf_choice s us' b' vs' \<and>
     sstf_loop n s (rq_next (disk_reqs s x)) (last0 [x]) x (last0 []) (req_latency s x) = Ret (b', last0 us')"
    using assms n by (intro sstf_loop_chain) (auto simp: sstf_choice_def)
  then show ?thesis using assms(1) n by (auto simp: Let_def)
qed

lemma schedule_sstf_Nil: "disk_chain s [] \<Longrightarrow> schedule_sstf s = Ret (0, s)"
  by (simp add: disk_chain_def schedule_sstf_def)

lemma schedule_sstf_chain:
  assumes "disk_chain s xs" "xs \<noteq> []"
  obtains us b vs s' where "xs = us @ b # vs" "sstf_choice s us b vs" "schedule_sstf s = Ret (b, s')"
    "disk_chain s' (us @ vs)" "disk_queue_tail s' = (if us @ vs = [] then 0 else disk_queue_tail s)"
    "\<And>a. (disk_reqs s' a)\<lparr>rq_next := 0\<rparr> = (disk_reqs s a)\<lparr>rq_next := 0\<rparr>"
    "pmem s' = pmem s" "freelist s' = freelist s" "kend s' = kend s" "raid_mode s' = raid_mode s"
proof -
  have seg: "req_seg (disk_reqs s) (disk_queue_head s) xs 0" and d: "distinct xs"
    using assms(1) by (simp_all add: disk_chain_def)
  obtain x ys where xs: "xs = x # ys" using assms(2) by (cases xs) auto
  then have x: "disk_queue_head s = x" "x \<noteq> 0" using seg by auto
  obtain us b vs where c: "xs = us @ b # vs" "sstf_choice s us b vs"
    "sstf_loop MAX_REQS s x 0 x 0 (req_latency s x) = Ret (b, last0 us)"
    using sstf_loop_first [of s x ys MAX_REQS] disk_chain_length [OF assms(1)] seg xs x by auto
  have b: "b \<noteq> 0" "last0 us = 0 \<longleftrightarrow> us = []"
    using req_seg_nonzero [OF seg] c(1) last_in_set [of us] by (auto simp: last0_def, metis)
  define h1 where "h1 = (if us = [] then disk_reqs s
    else (disk_reqs s)(last us := (disk_reqs s (last us))\<lparr>rq_next := rq_next (disk_reqs s b)\<rparr>))"
  define hd' where "hd' = (if us = [] then rq_next (disk_reqs s b) else disk_queue_head s)"
  define h2 where "h2 = h1(b := (h1 b)\<lparr>rq_next := 0\<rparr>)"
  define s' where "s' = s\<lparr>disk_reqs := h2, disk_queue_head := hd',
      disk_queue_tail := (if us @ vs = [] then 0 else disk_queue_tail s)\<rparr>"
  have seg': "req_seg h2 hd' (us @ vs) 0"
    unfolding h1_def hd'_def h2_def x(1)
    by (rule req_seg_unlink) (use seg d c(1) x in simp_all)
  have h0: "hd' = 0 \<longleftrightarrow> us @ vs = []" using req_seg_head [OF seg'] by simp
  have sch: "schedule_sstf s = Ret (b, s')"
  proof (cases "us = []")
    case True
    then show ?thesis
      using x c(3) h0 by (simp add: schedule_sstf_def Let_def s'_def h2_def h1_def hd'_def)
  next
    case False
    then have "last0 us = last us" "last us \<noteq> 0" using b(2) by (simp_all add: last0_def)
    then show ?thesis
      using x c(3) h0 False by (simp add: schedule_sstf_def Let_def s'_def h2_def h1_def hd'_def)
  qed
  have "disk_chain s' (us @ vs)"
    using assms(1) seg' c(1) by (auto simp: disk_chain_def s'_def page_ok_def list_all_iff)
  moreover have "(h2 a)\<lparr>rq_next := 0\<rparr> = (disk_reqs s a)\<lparr>rq_next := 0\<rparr>" for a
    by (simp add: h2_def h1_def)
  ultimately show thesis
    by (intro that [OF c(1,2) sch]) (simp_all add: s'_def)
qed

section \<open>Both policies serve every request once\<close>

locale disk_policy =
  fixes next_req :: "'s \<Rightarrow> (addr \<times> 's) outcome"
    and chain :: "'s \<Rightarrow> addr list \<Rightarrow> bool"
  assumes next_empty: "chain s [] \<Longrightarrow> next_req s = Ret (0, s)"
    and next_takes: "chain s xs \<Longrightarrow> xs \<noteq> [] \<Longrightarrow>
      \<exists>x s'. x \<in> set xs \<and> next_req s = Ret (x, s') \<and> chain s' (remove1 x xs)"
begin

fun drain :: "nat \<Rightarrow> 's \<Rightarrow> (addr list \<times> 's) outcome" where
  "drain 0 s = Ret ([], s)"
| "drain (Suc n) s = obind (next_req s) (\<lambda>(a, s1). obind (drain n s1) (\<lambda>(as, s2). Ret (a # as, s2)))"

lemma drain_all:
  "chain s xs \<Longrightarrow> \<exists>as s'. drain (length xs) s = Ret (as, s') \<and> mset as = mset xs \<and> chain s' []"
proof (induction "length xs" arbitrary: s xs)
  case 0
  then show ?case by simp
next
  case (Suc n)
  then obtain x s1 where x: "x \<in> set xs" "next_req s = Ret (x, s1)" "chain s1 (remove1 x xs)"
    using next_takes [of s xs] by (metis length_0_conv nat.distinct(1))
  have n: "n = length (remove1 x xs)" using Suc.hyps(2) x(1) by (simp add: length_remove1)
  then obtain as s' where "drain n s1 = Ret (as, s')" "mset as = mset (remove1 x xs)" "chain s' []"
    using Suc.hyps(1) [OF n x(3)] by blast
  then show ?case using x Suc.hyps(2) [symmetric] by (auto simp: insert_DiffM)
qed

end

interpretation sstf: disk_policy schedule_sstf disk_chain
proof
  show "schedule_sstf s = Ret (0, s)" if "disk_chain s []" for s :: "'z disk_state_scheme"
    using that by (rule schedule_sstf_Nil)
  show "\<exists>x s'. x \<in> set xs \<and> schedule_sstf s = Ret (x, s') \<and> disk_chain s' (remove1 x xs)"
    if xs: "disk_chain s xs" "xs \<noteq> []" for s :: "'z disk_state_scheme" and xs
  proof -
    obtain us b vs s' where c: "xs = us @ b # vs" "schedule_sstf s = Ret (b, s')" "disk_chain s' (us @ vs)"
      using schedule_sstf_chain [OF xs] by metis
    have "b \<notin> set us" using xs(1) c(1) by (auto simp: disk_chain_def)
    then have "remove1 b xs = us @ vs" using c(1) by (simp add: remove1_append)
    then show ?thesis using c by auto
  qed
qed

interpretation fcfs: disk_policy "\<lambda>s. Ret (schedule_fcfs s)" disk_chain
proof
  show "Ret (schedule_fcfs s) = Ret (0, s)" if "disk_chain s []" for s :: "'z disk_state_scheme"
    using schedule_fcfs_Nil [OF that] by simp
  show "\<exists>x s'. x \<in> set xs \<and> Ret (schedule_fcfs s) = Ret (x, s') \<and> disk_chain s' (remove1 x xs)"
    if c: "disk_chain s xs" "xs \<noteq> []" for s :: "'z disk_state_scheme" and xs
  proof -
    obtain x ys where xs: "xs = x # ys" using c(2) by (cases xs) auto
    show ?thesis
      using schedule_fcfs_Cons(1,2) [of s x ys] c(1) xs
      by (intro exI [of _ x] exI [of _ "snd (schedule_fcfs s)"]) (auto simp: prod_eq_iff)
  qed
qed

text \<open>\<open>schedule_next_request\<close> with one of the two policies set, which it leaves alone.\<close>

definition policy_chain :: "'z disk_state_scheme \<Rightarrow> addr list \<Rightarrow> bool" where
  "policy_chain s xs \<longleftrightarrow> disk_chain s xs \<and> (disk_sched_policy s = DISK_SCHED_FCFS \<or> disk_sched_policy s = DISK_SCHED_SSTF)"

lemma schedule_policy:
  "disk_sched_policy (snd (schedule_fcfs s)) = disk_sched_policy s"
  "schedule_sstf s = Ret (r, t) \<Longrightarrow> disk_sched_policy t = disk_sched_policy s"
proof -
  show "disk_sched_policy (snd (schedule_fcfs s)) = disk_sched_policy s" by (simp add: schedule_fcfs_def Let_def)
  show "disk_sched_policy t = disk_sched_policy s" if "schedule_sstf s = Ret (r, t)"
    using that by (cases "disk_queue_head s = 0") (auto simp: schedule_sstf_def Let_def simp del: sstf_loop.simps)
qed

interpretation next_request: disk_policy schedule_next_request policy_chain
proof
  show "schedule_next_request s = Ret (0, s)" if "policy_chain s []" for s :: "'z disk_state_scheme"
    using that fcfs.next_empty [of s] sstf.next_empty [of s] by (auto simp: policy_chain_def schedule_next_request_def)
  show "\<exists>x s'. x \<in> set xs \<and> schedule_next_request s = Ret (x, s') \<and> policy_chain s' (remove1 x xs)"
    if c: "policy_chain s xs" "xs \<noteq> []" for s :: "'z disk_state_scheme" and xs
  proof (cases "disk_sched_policy s = DISK_SCHED_FCFS")
    case True
    obtain x s' where x: "x \<in> set xs" "schedule_fcfs s = (x, s')" "disk_chain s' (remove1 x xs)"
      using fcfs.next_takes [of s xs] c by (auto simp: policy_chain_def)
    then show ?thesis using True schedule_policy(1) [of s] by (auto simp: policy_chain_def schedule_next_request_def)
  next
    case False
    obtain x s' where x: "x \<in> set xs" "schedule_sstf s = Ret (x, s')" "disk_chain s' (remove1 x xs)"
      using sstf.next_takes [of s xs] c by (auto simp: policy_chain_def)
    moreover have "disk_sched_policy s = DISK_SCHED_SSTF" using False c(1) by (simp add: policy_chain_def)
    ultimately show ?thesis using schedule_policy(2) [OF x(2)] by (auto simp: policy_chain_def schedule_next_request_def)
  qed
qed

lemma fcfs_drain_order:
  "disk_chain s xs \<Longrightarrow> disk_sched_policy s = DISK_SCHED_FCFS \<Longrightarrow> \<exists>s'. next_request.drain (length xs) s = Ret (xs, s')"
proof (induction xs arbitrary: s)
  case (Cons x xs)
  note F = schedule_fcfs_Cons(1,2) [OF Cons.prems(1)]
  have n: "schedule_next_request s = Ret (x, snd (schedule_fcfs s))"
    using Cons.prems(2) F(1) by (simp add: schedule_next_request_def prod_eq_iff)
  obtain s' where "next_request.drain (length xs) (snd (schedule_fcfs s)) = Ret (xs, s')"
    using Cons.IH [OF F(2)] Cons.prems(2) schedule_policy(1) [of s] by auto
  then show ?case using n by simp
qed simp

section \<open>Queueing a request\<close>

lemma kmem_inv_disk_fields [simp]:
  "kmem_inv (s\<lparr>disk_reqs := h, disk_queue_head := a, disk_queue_tail := b\<rparr>) fs = kmem_inv s fs"
  "kmem_inv (s\<lparr>disk_reqs := h\<rparr>) fs = kmem_inv s fs"
  by (rule kmem_inv_same; simp)+

lemma disk_inv_same:
  "kend t = kend s \<Longrightarrow> disk_queue_head t = disk_queue_head s \<Longrightarrow> disk_queue_tail t = disk_queue_tail s \<Longrightarrow>
   disk_reqs t = disk_reqs s \<Longrightarrow> disk_inv t xs = disk_inv s xs \<and> disk_chain t xs = disk_chain s xs"
  by (simp add: disk_inv_def disk_chain_def page_ok_cong [of t s])

text \<open>The page a request is built in, and the state in which it is allocated.\<close>

lemma kalloc_for_request:
  assumes "kmem_inv s (f # fs)" "disk_inv s xs" "f \<notin> set xs"
  obtains s1 m fl where "kalloc s = (f, s1)" "s1 = s\<lparr>pmem := m, freelist := fl\<rparr>" "f \<noteq> 0"
    "kmem_inv s1 fs" "disk_inv s1 xs" "page_ok s1 f" "f \<notin> set fs"
proof -
  obtain s1 where s1: "kalloc s = (f, s1)" using kalloc_Cons [OF assms(1)] by blast
  obtain m fl where sh: "s1 = s\<lparr>pmem := m, freelist := fl\<rparr>" using kalloc_shape [of s] s1 by auto
  have "kmem_inv s1 fs" using kalloc_inv [OF assms(1)] s1 by simp
  moreover have "disk_inv s1 xs" using assms(2) sh disk_inv_same [of s1 s xs] by simp
  moreover have "page_ok s1 f" using assms(1) sh page_ok_cong [of s1 s] by (simp add: kmem_inv_def)
  moreover have "f \<noteq> 0" "f \<notin> set fs"
    using kmem_inv_nonzero [OF assms(1)] assms(1) by (auto simp: kmem_inv_def)
  ultimately show thesis using that s1 sh by blast
qed

lemma kmem_inv_enqueue [simp]: "kmem_inv (enqueue_request r s) fs = kmem_inv s fs"
  by (rule kmem_inv_same) (simp_all add: enqueue_request_def)

lemma add_disk_request_rejects:
  assumes "kmem_inv s (f # fs)" "disk_inv s xs" "f \<notin> set xs"
    and "raid_map_logical_to_physical (raid_mode s) lb 0 0 = (r, d, b)" "r \<noteq> 0"
  shows "\<exists>s'. add_disk_request t lb buf p s = Ret (-1, s') \<and> disk_inv s' xs \<and> kmem_inv s' (f # fs)"
proof -
  obtain s1 m fl where s1: "kalloc s = (f, s1)" "s1 = s\<lparr>pmem := m, freelist := fl\<rparr>" "f \<noteq> 0"
    "kmem_inv s1 fs" "disk_inv s1 xs" "page_ok s1 f" "f \<notin> set fs"
    using kalloc_for_request [OF assms(1-3)] .
  obtain s2 where s2: "kfree f s1 = Ret s2" "kmem_inv s2 (f # fs)"
    using kfree_push [OF s1(4,6,7)] by blast
  have "disk_inv s2 xs"
    using kfree_shape [OF s2(1)] s1(5) disk_inv_same [of s2 s1 xs] by auto
  moreover have "add_disk_request t lb buf p s = Ret (-1, s2)"
    using s1 assms(4,5) s2(1) by (simp add: add_disk_request_def)
  ultimately show ?thesis using s2 by blast
qed

lemma add_disk_request_queues:
  assumes "kmem_inv s (f # fs)" "disk_inv s xs" "f \<notin> set xs"
    and "raid_map_logical_to_physical (raid_mode s) lb 0 0 = (0, d, b)"
  shows "\<exists>s'. add_disk_request t lb buf p s = Ret (0, s') \<and> disk_inv s' (xs @ [f]) \<and> kmem_inv s' fs \<and>
      (disk_reqs s' f)\<lparr>rq_next := 0\<rparr> = make_request t lb d b buf p s"
proof -
  obtain s1 m fl where s1: "kalloc s = (f, s1)" "s1 = s\<lparr>pmem := m, freelist := fl\<rparr>" "f \<noteq> 0"
    "kmem_inv s1 fs" "disk_inv s1 xs" "page_ok s1 f" "f \<notin> set fs"
    using kalloc_for_request [OF assms(1-3)] .
  let ?s2 = "s1\<lparr>disk_reqs := (disk_reqs s1)(f := make_request t lb d b buf p s1)\<rparr>"
  have "req_seg (disk_reqs ?s2) (disk_queue_head s1) xs 0"
    using s1(5) assms(3) by (subst req_seg_cong [where h' = "disk_reqs s1"]) (auto simp: disk_inv_def disk_chain_def)
  then have d2: "disk_inv ?s2 xs"
    using s1(5) page_ok_cong [of ?s2 s1] by (simp add: disk_inv_def disk_chain_def)
  have "req_ready f ?s2"
    using s1(6) page_ok_cong [of ?s2 s1] by (simp add: req_ready_def make_request_def)
  then have "disk_inv (enqueue_request f ?s2) (xs @ [f])"
    using d2 assms(3) fcfs_fifo.enq_inv by blast
  moreover have "add_disk_request t lb buf p s = Ret (0, enqueue_request f ?s2)"
    using s1 assms(4) by (simp add: add_disk_request_def)
  moreover have "(disk_reqs (enqueue_request f ?s2) f)\<lparr>rq_next := 0\<rparr> = make_request t lb d b buf p s"
    using s1(2) by (simp add: enqueue_request_def make_request_def split: option.split)
  ultimately show ?thesis using s1(4) by simp
qed

lemma make_request_fields:
  assumes "r\<lparr>rq_next := 0\<rparr> = make_request t lb d b buf p s"
  shows "rq_disk_id r = d" "rq_block_on_disk r = b" "rq_logical_block r = lb" "rq_buffer r = buf"
    "rq_priority r = (case p of Some i \<Rightarrow> p_level (ptable s ! i) | None \<Rightarrow> MLFQ_LEVELS - 1)"
  using arg_cong [OF assms, of rq_disk_id] arg_cong [OF assms, of rq_block_on_disk]
    arg_cong [OF assms, of rq_logical_block] arg_cong [OF assms, of rq_buffer]
    arg_cong [OF assms, of rq_priority]
  by (simp_all add: make_request_def)

section \<open>Properties\<close>

text \<open>
  C13. \<open>add_disk_request\<close> on every branch.  With a free page and a block the RAID map accepts it
  takes that page, fills in the request with the mapped disk and block and the level of the
  process, and puts it at the end of the queue; if the map rejects the block it gives the page
  back, returns -1 and leaves the queue alone; with no free page it returns -1 and changes nothing.
\<close>

theorem add_disk_request_correct:
  assumes "kmem_inv s fs" "disk_inv s xs" "set fs \<inter> set xs = {}"
    and "raid_map_logical_to_physical (raid_mode s) lb 0 0 = (r, d, b)"
  shows "\<exists>s'. add_disk_request t lb buf p s = Ret (if fs = [] \<or> r \<noteq> 0 then -1 else 0, s') \<and>
    (if fs = [] then s' = s
     else if r \<noteq> 0 then disk_inv s' xs \<and> kmem_inv s' fs
     else disk_inv s' (xs @ [hd fs]) \<and> kmem_inv s' (tl fs) \<and>
       rq_disk_id (disk_reqs s' (hd fs)) = d \<and> rq_block_on_disk (disk_reqs s' (hd fs)) = b \<and>
       rq_logical_block (disk_reqs s' (hd fs)) = lb \<and> rq_buffer (disk_reqs s' (hd fs)) = buf \<and>
       rq_priority (disk_reqs s' (hd fs)) =
         (case p of Some i \<Rightarrow> p_level (ptable s ! i) | None \<Rightarrow> MLFQ_LEVELS - 1))"
proof (cases fs)
  case Nil
  then show ?thesis using kalloc_Nil [of s] assms(1) by (simp add: add_disk_request_def)
next
  case (Cons f gs)
  then have f: "kmem_inv s (f # gs)" "f \<notin> set xs" using assms(1,3) by auto
  show ?thesis
  proof (cases "r = 0")
    case True
    then have "raid_map_logical_to_physical (raid_mode s) lb 0 0 = (0, d, b)" using assms(4) by simp
    from add_disk_request_queues [OF f(1) assms(2) f(2) this, of t buf p]
    obtain s' where s': "add_disk_request t lb buf p s = Ret (0, s')" "disk_inv s' (xs @ [f])" "kmem_inv s' gs"
      "(disk_reqs s' f)\<lparr>rq_next := 0\<rparr> = make_request t lb d b buf p s" by blast
    then show ?thesis using True Cons make_request_fields [OF s'(4)] by (intro exI [of _ s']) simp
  next
    case False
    then show ?thesis
      using add_disk_request_rejects [OF f(1) assms(2) f(2) assms(4) False, of t buf p] Cons by auto
  qed
qed

definition demo_disk :: disk_state where
  "demo_disk = proc_state.extend (demo_state [])
     (disk_state.fields [0, 0, 0, 0] 0 0 0 0
        (\<lambda>_. \<lparr>rq_type = 0, rq_logical_block = 0, rq_disk_id = 0, rq_block_on_disk = 0, rq_buffer = 0,
             rq_proc = None, rq_priority = 3, rq_timestamp = 0, rq_raid_mode = 0, rq_next = 0\<rparr>)
        0 0 0 0)"

lemma demo_disk_fields [simp]:
  "pmem demo_disk = (\<lambda>_. 0)" "kend demo_disk = KERNBASE" "freelist demo_disk = 0"
  "raid_mode demo_disk = 0" "disk_queue_head demo_disk = 0" "disk_queue_tail demo_disk = 0"
  "current_disk_head demo_disk = [0, 0, 0, 0]" "rq_next (disk_reqs demo_disk a) = 0"
  "rq_disk_id (disk_reqs demo_disk a) = 0" "rq_priority (disk_reqs demo_disk a) = 3"
  by (simp_all add: demo_disk_def demo_state_def proc_state.defs disk_state.defs)

lemma demo_disk_free: "kmem_inv (demo_disk\<lparr>freelist := 0x80003000\<rparr>) [0x80003000]"
  by (simp add: kmem_inv_def page_ok_def page_aligned_def)

theorem add_disk_request_correct_witness:
  "\<exists>s'. add_disk_request DISK_WRITE 5 0x80009000 None (demo_disk\<lparr>freelist := 0x80003000\<rparr>) = Ret (0, s') \<and>
     disk_inv s' [0x80003000] \<and> rq_disk_id (disk_reqs s' 0x80003000) = 1"
proof -
  let ?s = "demo_disk\<lparr>freelist := 0x80003000\<rparr>"
  have d: "disk_inv ?s []" by (simp add: disk_inv_def disk_chain_def)
  have m: "raid_map_logical_to_physical (raid_mode ?s) 5 0 0 = (0, 1, 1)"
    by (simp add: raid_map_logical_to_physical_def raid0_map_def sdiv_nonneg smod_nonneg)
  have e: "set [0x80003000] \<inter> set ([] :: addr list) = {}" by simp
  show ?thesis
    using add_disk_request_correct [OF demo_disk_free d e m, of DISK_WRITE "0x80009000" None] by auto
qed

text \<open>
  C16. First come, first served: requests put into an empty queue one after the other are handed
  out by \<open>schedule_fcfs\<close> in exactly that order.
\<close>

theorem fcfs_serves_in_order:
  assumes "disk_inv s []" "distinct as" "\<forall>a \<in> set as. req_ready a s"
  shows "fst (fcfs_fifo.deq_n (length as) (fold enqueue_request as s)) = as"
  using assms by (intro fcfs_fifo.fifo_order) auto

theorem fcfs_serves_in_order_witness:
  "fst (fcfs_fifo.deq_n 2 (fold enqueue_request [0x80006000, 0x80005000] demo_disk)) = [0x80006000, 0x80005000]"
proof -
  have "disk_inv demo_disk []" by (simp add: disk_inv_def disk_chain_def)
  moreover have "distinct [0x80006000, 0x80005000 :: addr]" by simp
  moreover have "\<forall>a \<in> set [0x80006000, 0x80005000]. req_ready a demo_disk"
    by (simp add: req_ready_def page_ok_def page_aligned_def)
  ultimately show ?thesis
    using fcfs_serves_in_order [of demo_disk "[0x80006000, 0x80005000]"] by (simp add: numeral_2_eq_2)
qed

text \<open>
  C15. Shortest seek time first: from a non-empty queue \<open>schedule_sstf\<close> returns, without running out
  of the queue, a request of least latency; among those of least latency one of the highest
  process priority, and among these the oldest.  Exactly that request leaves the queue.
\<close>

theorem sstf_serves_nearest:
  assumes "disk_chain s xs" "xs \<noteq> []"
  shows "\<exists>us b vs s'. xs = us @ b # vs \<and> schedule_sstf s = Ret (b, s') \<and> disk_chain s' (us @ vs) \<and>
    (\<forall>a \<in> set xs. req_latency s b \<le> req_latency s a) \<and>
    (\<forall>a \<in> set xs. req_latency s a = req_latency s b \<longrightarrow>
        rq_priority (disk_reqs s b) \<le> rq_priority (disk_reqs s a)) \<and>
    (\<forall>a \<in> set us. req_latency s a = req_latency s b \<longrightarrow>
        rq_priority (disk_reqs s b) < rq_priority (disk_reqs s a))"
proof -
  obtain us b vs s' where c: "xs = us @ b # vs" "sstf_choice s us b vs" "schedule_sstf s = Ret (b, s')"
    "disk_chain s' (us @ vs)"
    using schedule_sstf_chain [OF assms] by metis
  have nb: "\<not> better s a b" if "a \<in> set xs" for a
    using that c(1,2) better_asym [of s b a] better_irrefl [of s b] by (auto simp: sstf_choice_def)
  have "req_latency s b \<le> req_latency s a"
    "req_latency s a = req_latency s b \<longrightarrow> rq_priority (disk_reqs s b) \<le> rq_priority (disk_reqs s a)"
    if "a \<in> set xs" for a
    using nb [OF that] unfolding better_def by auto
  moreover have "req_latency s a = req_latency s b \<longrightarrow>
      rq_priority (disk_reqs s b) < rq_priority (disk_reqs s a)" if "a \<in> set us" for a
    using that c(2) by (auto simp: sstf_choice_def better_def)
  ultimately show ?thesis using c by blast
qed

text \<open>A queue of two requests, the second nearer to the disk head than the first.\<close>

definition demo_two :: disk_state where
  "demo_two = demo_disk\<lparr>disk_queue_head := 0x80005000, disk_queue_tail := 0x80006000,
     disk_reqs := (disk_reqs demo_disk)
       (0x80005000 := (disk_reqs demo_disk 0)\<lparr>rq_block_on_disk := 100, rq_next := 0x80006000\<rparr>,
        0x80006000 := (disk_reqs demo_disk 0)\<lparr>rq_block_on_disk := 10\<rparr>)\<rparr>"

lemma demo_two_inv: "disk_inv demo_two [0x80005000, 0x80006000]"
  by (simp add: demo_two_def disk_inv_def disk_chain_def page_ok_def page_aligned_def last0_def)

theorem sstf_serves_nearest_witness:
  "\<exists>b s'. schedule_sstf demo_two = Ret (b, s') \<and> req_latency demo_two b \<le> req_latency demo_two 0x80005000"
proof -
  have "disk_chain demo_two [0x80005000, 0x80006000]" using demo_two_inv by (simp add: disk_inv_def)
  from sstf_serves_nearest [OF this] show ?thesis by auto
qed

text \<open>
  C14. As long as nothing is queued meanwhile, calling \<open>schedule_next_request\<close> as often as there are requests hands out
  every request of the queue exactly once, under either policy and in the order of arrival under FCFS, and leaves the
  queue empty, so that the next call finds nothing.
\<close>

theorem policies_serve_all:
  assumes "disk_chain s xs" "disk_sched_policy s = DISK_SCHED_FCFS \<or> disk_sched_policy s = DISK_SCHED_SSTF"
  shows "\<exists>as s'. next_request.drain (length xs) s = Ret (as, s') \<and> mset as = mset xs \<and>
    (disk_sched_policy s = DISK_SCHED_FCFS \<longrightarrow> as = xs) \<and> disk_chain s' [] \<and> schedule_next_request s' = Ret (0, s')"
proof -
  have "policy_chain s xs" using assms by (simp add: policy_chain_def)
  then obtain as s' where d: "next_request.drain (length xs) s = Ret (as, s')" "mset as = mset xs" "policy_chain s' []"
    using next_request.drain_all by blast
  moreover have "as = xs" if "disk_sched_policy s = DISK_SCHED_FCFS" using fcfs_drain_order [OF assms(1) that] d(1) by auto
  ultimately show ?thesis using next_request.next_empty [OF d(3)] by (auto simp: policy_chain_def)
qed

theorem policies_serve_all_witness:
  "\<exists>as s'. next_request.drain 2 (demo_two\<lparr>disk_sched_policy := DISK_SCHED_SSTF\<rparr>) = Ret (as, s') \<and> mset as = {#0x80005000, 0x80006000#}"
proof -
  let ?s = "demo_two\<lparr>disk_sched_policy := DISK_SCHED_SSTF\<rparr>"
  have "disk_chain ?s [0x80005000, 0x80006000]" using demo_two_inv disk_inv_same [of ?s demo_two] by (simp add: disk_inv_def)
  from policies_serve_all [OF this] show ?thesis by (auto simp: numeral_2_eq_2)
qed

text \<open>Queueing behind a tail pointer that is not in the queue leaves the queue as it is.\<close>

lemma add_behind_dangling_tail:
  assumes "disk_chain s xs" "disk_queue_tail s = z" "z \<noteq> 0" "z \<notin> set xs"
    and "kmem_inv s (f # fs)" "f \<notin> set xs" "raid_map_logical_to_physical (raid_mode s) lb 0 0 = (0, d, b)"
  shows "\<exists>s'. add_disk_request t lb buf p s = Ret (0, s') \<and> disk_chain s' xs \<and> disk_queue_tail s' = f"
proof -
  obtain s1 where s1: "kalloc s = (f, s1)" using kalloc_Cons [OF assms(5)] by blast
  obtain m fl where sh: "s1 = s\<lparr>pmem := m, freelist := fl\<rparr>" using kalloc_shape [of s] s1 by auto
  have f: "f \<noteq> 0" using kmem_inv_nonzero [OF assms(5)] by auto
  let ?h = "(disk_reqs s)(f := make_request t lb d b buf p s1)"
  let ?s' = "enqueue_request f (s1\<lparr>disk_reqs := ?h\<rparr>)"
  have "add_disk_request t lb buf p s = Ret (0, ?s')"
    using s1 sh f assms(7) by (simp add: add_disk_request_def)
  moreover have "disk_chain ?s' xs"
  proof -
    have "req_seg (disk_reqs ?s') (disk_queue_head s) xs 0"
      using assms(1-4,6) sh
      by (subst req_seg_cong [where h' = "disk_reqs s"]) (auto simp: enqueue_request_def disk_chain_def)
    moreover have "disk_queue_head ?s' = disk_queue_head s" "kend ?s' = kend s"
      using assms(2,3) sh by (simp_all add: enqueue_request_def)
    ultimately show ?thesis using assms(1) page_ok_cong [of ?s' s] by (simp add: disk_chain_def)
  qed
  moreover have "disk_queue_tail ?s' = f" by (simp add: enqueue_request_def)
  ultimately show ?thesis by blast
qed

text \<open>
  C17. \<open>schedule_sstf\<close> does not move the tail pointer when it removes the last request of a queue of
  two or more.  The next request is then linked behind the removed one: \<open>add_disk_request\<close> reports
  success, but following the queue from its head never reaches the new request.
\<close>

theorem sstf_loses_next_request:
  assumes "disk_inv s (xs @ [z])" "xs \<noteq> []" "\<forall>x \<in> set xs. better s z x"
    and "kmem_inv s (f # fs)" "f \<notin> set xs"
    and "raid_map_logical_to_physical (raid_mode s) lb 0 0 = (0, d, b)"
  shows "\<exists>s' s''. schedule_sstf s = Ret (z, s') \<and> add_disk_request t lb buf p s' = Ret (0, s'') \<and>
    disk_chain s'' xs \<and> disk_queue_tail s'' = f \<and> f \<notin> set xs"
proof -
  have ch: "disk_chain s (xs @ [z])" and ne: "xs @ [z] \<noteq> []" and tail: "disk_queue_tail s = z"
    using assms(1) by (simp_all add: disk_inv_def)
  have z: "z \<noteq> 0" "z \<notin> set xs" using ch by (auto simp: disk_chain_def)
  obtain us c vs s' where c: "xs @ [z] = us @ c # vs" "sstf_choice s us c vs" "schedule_sstf s = Ret (c, s')"
    "disk_chain s' (us @ vs)" "disk_queue_tail s' = (if us @ vs = [] then 0 else disk_queue_tail s)"
    "pmem s' = pmem s" "freelist s' = freelist s" "kend s' = kend s" "raid_mode s' = raid_mode s"
    using schedule_sstf_chain [OF ch ne] by metis
  have "vs = []"
  proof (rule ccontr)
    assume "vs \<noteq> []"
    then have "z \<in> set vs" "c \<in> set xs" using c(1) by (cases vs rule: rev_cases; auto)+
    then show False using c(2) assms(3) by (auto simp: sstf_choice_def)
  qed
  then have eq: "us = xs" "c = z" "disk_chain s' xs" using c(1,4) by simp_all
  have "kmem_inv s' (f # fs)" using assms(4) c(6-8) kmem_inv_same [of s' s] by simp
  then have "\<exists>s''. add_disk_request t lb buf p s' = Ret (0, s'') \<and> disk_chain s'' xs \<and> disk_queue_tail s'' = f"
    using add_behind_dangling_tail [of s' xs z f fs lb d b t buf p] eq c(5,9) tail assms(2,5,6) z by simp
  then show ?thesis using c(3) eq assms(5) by blast
qed

theorem sstf_loses_next_request_witness:
  "\<exists>s' s''. schedule_sstf (demo_two\<lparr>freelist := 0x80003000\<rparr>) = Ret (0x80006000, s') \<and>
     add_disk_request DISK_READ 7 0x80009000 None s' = Ret (0, s'') \<and>
     disk_chain s'' [0x80005000] \<and> disk_queue_tail s'' = 0x80003000"
proof -
  let ?s = "demo_two\<lparr>freelist := 0x80003000\<rparr>"
  have "disk_inv ?s ([0x80005000] @ [0x80006000])"
    using demo_two_inv disk_inv_same [of ?s demo_two] by simp
  moreover have "[0x80005000 :: addr] \<noteq> []" by simp
  moreover have "\<forall>x \<in> set [0x80005000]. better ?s 0x80006000 x"
    by (simp add: better_def demo_two_def calculate_disk_latency_def)
  moreover have "kmem_inv ?s [0x80003000]"
    by (simp add: demo_two_def kmem_inv_def page_ok_def page_aligned_def)
  moreover have "raid_map_logical_to_physical (raid_mode ?s) 7 0 0 = (0, 3, 1)"
    by (simp add: demo_two_def raid_map_logical_to_physical_def raid0_map_def sdiv_nonneg smod_nonneg)
  moreover have "0x80003000 \<notin> set [0x80005000 :: addr]" by simp
  ultimately show ?thesis
    using sstf_loses_next_request [of ?s "[0x80005000]" "0x80006000" "0x80003000" "[]" 7 3 1 DISK_READ "0x80009000" None]
    by blast
qed

section \<open>RAID address maps\<close>

lemma i32_id: "- (2 ^ 31) \<le> k \<Longrightarrow> k < 2 ^ 31 \<Longrightarrow> i32 k = k"
  by (simp add: i32_def signed_of_int signed_take_bit_int_eq_self)

lemma i32_mult1024:
  assumes "0 \<le> q"
  shows "i32 (q * 1024) = (if q mod 2 ^ 22 < 2 ^ 21 then q mod 2 ^ 22 else q mod 2 ^ 22 - 2 ^ 22) * 1024"
proof -
  have e: "(q * 1024) mod 2 ^ 32 = (q mod 2 ^ 22) * 1024" using mod_mult_mult2 [of q 1024 "2 ^ 22"] by simp
  have "i32 (q * 1024) = signed_take_bit 31 (q * 1024)" by (simp only: i32_def signed_of_int) simp
  also have "\<dots> = ((q * 1024 + 2 ^ 31) mod 2 ^ 32) - 2 ^ 31" by (simp add: signed_take_bit_eq_take_bit_shift take_bit_eq_mod)
  finally have w: "i32 (q * 1024) = ((q * 1024 + 2 ^ 31) mod 2 ^ 32) - 2 ^ 31" .
  have "(q * 1024 + 2 ^ 31) mod 2 ^ 32 = ((q mod 2 ^ 22) * 1024 + 2 ^ 31) mod 2 ^ 32"
    using e by (metis mod_add_left_eq)
  moreover have r: "0 \<le> q mod 2 ^ 22" "q mod 2 ^ 22 < 2 ^ 22" by simp_all
  moreover have "(x * 1024 + 2 ^ 31) mod 2 ^ 32 = (if x < 2 ^ 21 then x * 1024 + 2 ^ 31 else x * 1024 - 2 ^ 31)" if "0 \<le> x" "x < 2 ^ 22" for x :: int
  proof (cases "x < 2 ^ 21")
    case False
    then have "(x * 1024 + 2 ^ 31) mod 2 ^ 32 = x * 1024 + 2 ^ 31 - 2 ^ 32" using that by (intro int_mod_pos_eq [of _ _ 1]) simp_all
    then show ?thesis using False by simp
  qed (use that in \<open>simp add: mod_pos_pos_trivial\<close>)
  ultimately show ?thesis unfolding w by auto
qed

text \<open>
  RAID 0 is a bijection between the logical blocks below 16384 and the blocks of the four disks:
  every such block is accepted, lands on an existing disk and block, and the reverse map recovers
  it; blocks from 16384 on are rejected.
\<close>

theorem raid0_roundtrip:
  assumes "0 \<le> b" "b < 2 ^ 31"
  shows "\<exists>r d k. raid_map_logical_to_physical RAID_MODE_0 b d0 k0 = (r, d, k) \<and>
    (r = 0 \<longleftrightarrow> b < NUM_DISKS * DISK_BLOCKS_PER_DISK) \<and> 0 \<le> d \<and> d < NUM_DISKS \<and>
    (r = 0 \<longrightarrow> 0 \<le> k \<and> k < DISK_BLOCKS_PER_DISK) \<and>
    raid_reverse_map RAID_MODE_0 d k l0 = (0, b)"
proof -
  have "b div 4 < 4096 \<longleftrightarrow> b < 16384" by linarith
  then show ?thesis
    using assms by (auto simp: raid_map_logical_to_physical_def raid0_map_def raid_reverse_map_def i32_id
        sdiv_nonneg smod_nonneg not_le)
qed

text \<open>
  C18. RAID 5 as coded, for every logical block an \<^verbatim>\<open>int\<close> can hold: stripe \<open>n\<close> is placed at block \<open>n * 1024\<close> of
  each disk, computed in 32 bits, so a block is accepted exactly when the stripe number modulo \<open>2 ^ 22\<close> is below 4 or
  at least \<open>2 ^ 21\<close>.  Below logical block 6291456, where nothing overflows, that leaves the first twelve blocks; past it,
  blocks are accepted with a negative block number on disk.  A data block never lands on the parity disk of its stripe,
  and before the overflow the reverse map recovers a block only when it lies before the parity disk of its stripe.
\<close>

theorem raid5_capacity:
  assumes "0 \<le> b" "b < 2 ^ 31"
  shows "\<exists>r d k. raid_map_logical_to_physical RAID_MODE_5 b d0 k0 = (r, d, k) \<and>
    (r = 0 \<longleftrightarrow> (b div 3) mod 2 ^ 22 < 4 \<or> 2 ^ 21 \<le> (b div 3) mod 2 ^ 22) \<and>
    (k < 0 \<longleftrightarrow> 2 ^ 21 \<le> (b div 3) mod 2 ^ 22) \<and> 0 \<le> d \<and> d < NUM_DISKS \<and> d \<noteq> (b div 3) mod NUM_DISKS \<and>
    (b < 6291456 \<longrightarrow> (r = 0 \<longleftrightarrow> b < 12) \<and>
      (raid_reverse_map RAID_MODE_5 d k l0 = (0, b) \<longleftrightarrow> b mod 3 < (b div 3) mod NUM_DISKS))"
proof -
  define q where "q = b div 3" define m where "m = q mod 2 ^ 22"
  define d where "d = (if q mod 4 \<le> b mod 3 then b mod 3 + 1 else b mod 3)"
  define k where "k = (if m < 2 ^ 21 then m else m - 2 ^ 22) * 1024"
  have q: "0 \<le> q" "q < 2 ^ 30" "b = 3 * q + b mod 3" "0 \<le> b mod 3" "b mod 3 < 3" using assms by (auto simp: q_def)
  have m: "0 \<le> m" "m < 2 ^ 22" by (simp_all add: m_def)
  have map5: "raid_map_logical_to_physical RAID_MODE_5 b d0 k0 = (if k \<ge> 4096 then -1 else 0, d, k)"
    using i32_mult1024 [OF q(1)] q(1) assms(1)
    by (simp add: raid_map_logical_to_physical_def raid5_map_def Let_def sdiv_nonneg smod_nonneg k_def d_def m_def q_def)
  have d: "0 \<le> d" "d < 4" "d \<noteq> q mod 4" using q(4,5) by (auto simp: d_def)
  have low: "(4096 \<le> k) = (\<not> b < 12) \<and> (raid_reverse_map RAID_MODE_5 d k l0 = (0, b) \<longleftrightarrow> b mod 3 < q mod 4)" if b: "b < 6291456"
  proof -
    have k: "k = q * 1024" using b q by (simp add: k_def m_def mod_pos_pos_trivial)
    have "raid_reverse_map RAID_MODE_5 d k l0 = (0, q * 3 + d)"
      using b q d by (simp add: raid_reverse_map_def Let_def k sdiv_nonneg i32_id)
    then show ?thesis using q unfolding k d_def by auto
  qed
  have "(4096 \<le> k) = (\<not> (m < 4 \<or> 2 ^ 21 \<le> m))" "(k < 0) = (2 ^ 21 \<le> m)" using m by (auto simp: k_def)
  then show ?thesis unfolding map5 q_def [symmetric] m_def [symmetric] using d low by auto
qed

theorem raid5_capacity_witness:
  "\<exists>r d k r' d' k'. raid_map_logical_to_physical RAID_MODE_5 12 0 0 = (r, d, k) \<and> r \<noteq> 0 \<and>
     raid_map_logical_to_physical RAID_MODE_5 6291456 0 0 = (r', d', k') \<and> r' = 0 \<and> k' < 0"
  using raid5_capacity [of 12 0 0 0] raid5_capacity [of 6291456 0 0 0] by auto

text \<open>
  RAID 1 as coded never rejects a block and uses only half of disk 0 and half of disk 2: logical
  blocks that differ by 4096 share one physical block, and no second copy is addressed.
\<close>

theorem raid1_collides:
  assumes "0 \<le> b"
  shows "\<exists>d k. raid_map_logical_to_physical RAID_MODE_1 b d0 k0 = (0, d, k) \<and>
    raid_map_logical_to_physical RAID_MODE_1 (b + 4096) d0 k0 = (0, d, k) \<and>
    (d = 0 \<or> d = 2) \<and> 0 \<le> k \<and> k < 2048"
proof -
  have "(b + 4096) div 2048 = b div 2048 + 2" "(b + 4096) mod 2048 = b mod 2048"
    using div_mult_self1 [of 2048 b 2] mod_mult_self1 [of b 2 2048] by simp_all
  then show ?thesis
    using assms by (auto simp: raid_map_logical_to_physical_def raid1_map_def Let_def sdiv_nonneg smod_nonneg)
qed

end
