(* ===== verification/Pagetable.thy ===== *)
theory Pagetable
  imports Proc
begin

text \<open>
  Model of \<^verbatim>\<open>kernel/vm.c\<close>, except the page fault handler and the copies between user and kernel
  memory, which are in \<open>Memsys\<close>.  Page tables live in physical memory as the hardware reads them:
  a table is a page of 512 64-bit entries, three levels deep.  A function that changes memory
  returns the new state; \<open>walk\<close> returns the address of an entry, 0 for the null pointer.
\<close>

section \<open>Page table entries\<close>

definition PTE_V :: "64 word" where "PTE_V = 1"
definition PTE_R :: "64 word" where "PTE_R = 2"
definition PTE_W :: "64 word" where "PTE_W = 4"
definition PTE_X :: "64 word" where "PTE_X = 8"
definition PTE_U :: "64 word" where "PTE_U = 16"
definition PTE_A :: "64 word" where "PTE_A = 64"

definition PA2PTE :: "addr \<Rightarrow> 64 word" where
  "PA2PTE pa = push_bit 10 (drop_bit 12 pa)"

definition PTE2PA :: "64 word \<Rightarrow> addr" where
  "PTE2PA pte = push_bit 12 (drop_bit 10 pte)"

definition PTE_FLAGS :: "64 word \<Rightarrow> 64 word" where
  "PTE_FLAGS pte = pte AND 0x3FF"

definition PX :: "nat \<Rightarrow> addr \<Rightarrow> addr" where
  "PX level va = drop_bit (12 + 9 * level) va AND 0x1FF"

abbreviation pte_addr :: "addr \<Rightarrow> addr \<Rightarrow> addr" where
  "pte_addr pagetable i \<equiv> pagetable + 8 * i"

definition MAKE_SATP :: "addr \<Rightarrow> 64 word" where
  "MAKE_SATP pagetable = push_bit 60 8 OR drop_bit 12 pagetable"

section \<open>Walking and mapping\<close>

text \<open>\<open>walk_loop l\<close> is the rest of the loop of \<open>walk\<close> from level \<open>l\<close> on.\<close>

fun walk_loop :: "nat \<Rightarrow> addr \<Rightarrow> addr \<Rightarrow> bool \<Rightarrow> 'z kmem_state_scheme \<Rightarrow> addr \<times> 'z kmem_state_scheme" where
  "walk_loop 0 pagetable va alloc s = (pte_addr pagetable (PX 0 va), s)"
| "walk_loop (Suc l) pagetable va alloc s =
     (let pte = pte_addr pagetable (PX (Suc l) va); v = load64 (pmem s) pte in
      if v AND PTE_V \<noteq> 0 then walk_loop l (PTE2PA v) va alloc s
      else if \<not> alloc then (0, s)
      else let (pt, s1) = kalloc s in
        if pt = 0 then (0, s1)
        else let s2 = s1\<lparr>pmem := memset (pmem s1) pt 0 4096\<rparr>;
                 s3 = s2\<lparr>pmem := store64 (pmem s2) pte (PA2PTE pt OR PTE_V)\<rparr>
             in walk_loop l pt va alloc s3)"

definition walk :: "addr \<Rightarrow> addr \<Rightarrow> bool \<Rightarrow> 'z kmem_state_scheme \<Rightarrow> (addr \<times> 'z kmem_state_scheme) outcome" where
  "walk pagetable va alloc s =
     (if va \<ge> MAXVA then Panic ''walk'' else Ret (walk_loop 2 pagetable va alloc s))"

definition walkaddr :: "addr \<Rightarrow> addr \<Rightarrow> 'z kmem_state_scheme \<Rightarrow> addr outcome" where
  "walkaddr pagetable va s =
     (if va \<ge> MAXVA then Ret 0
      else obind (walk pagetable va False s) (\<lambda>(pte, _).
        if pte = 0 then Ret 0
        else let v = load64 (pmem s) pte in
          if v AND PTE_V = 0 then Ret 0
          else if v AND PTE_U = 0 then Ret 0
          else Ret (PTE2PA v)))"

definition ismapped :: "addr \<Rightarrow> addr \<Rightarrow> 'z kmem_state_scheme \<Rightarrow> int outcome" where
  "ismapped pagetable va s =
     obind (walk pagetable va False s) (\<lambda>(pte, _).
       if pte = 0 then Ret 0
       else if load64 (pmem s) pte AND PTE_V \<noteq> 0 then Ret 1 else Ret 0)"

fun mappages_loop ::
  "nat \<Rightarrow> addr \<Rightarrow> addr \<Rightarrow> addr \<Rightarrow> addr \<Rightarrow> 64 word \<Rightarrow> 'z kmem_state_scheme \<Rightarrow>
   (int \<times> 'z kmem_state_scheme) outcome" where
  "mappages_loop 0 pagetable a lst pa perm s = Hang"
| "mappages_loop (Suc fuel) pagetable a lst pa perm s =
     obind (walk pagetable a True s) (\<lambda>(pte, s1).
       if pte = 0 then Ret (-1, s1)
       else if load64 (pmem s1) pte AND PTE_V \<noteq> 0 then Panic ''mappages: remap''
       else let s2 = s1\<lparr>pmem := store64 (pmem s1) pte (PA2PTE pa OR perm OR PTE_V)\<rparr> in
         if a = lst then Ret (0, s2)
         else mappages_loop fuel pagetable (a + PGSIZE) lst (pa + PGSIZE) perm s2)"

definition mappages ::
  "addr \<Rightarrow> addr \<Rightarrow> addr \<Rightarrow> addr \<Rightarrow> 64 word \<Rightarrow> 'z kmem_state_scheme \<Rightarrow> (int \<times> 'z kmem_state_scheme) outcome" where
  "mappages pagetable va sz pa perm s =
     (if va mod PGSIZE \<noteq> 0 then Panic ''mappages: va not aligned''
      else if sz mod PGSIZE \<noteq> 0 then Panic ''mappages: size not aligned''
      else if sz = 0 then Panic ''mappages: size''
      else mappages_loop (unat sz div 4096) pagetable va (va + sz - PGSIZE) pa perm s)"

section \<open>The kernel page table\<close>

definition UART0 :: addr where "UART0 = 0x10000000"
definition VIRTIO0 :: addr where "VIRTIO0 = 0x10001000"
definition PLIC :: addr where "PLIC = 0x0c000000"

definition kvmmap ::
  "addr \<Rightarrow> addr \<Rightarrow> addr \<Rightarrow> addr \<Rightarrow> 64 word \<Rightarrow> 'z kmem_state_scheme \<Rightarrow> 'z kmem_state_scheme outcome" where
  "kvmmap kpgtbl va pa sz perm s =
     obind (mappages kpgtbl va sz pa perm s) (\<lambda>(r, s1). if r \<noteq> 0 then Panic ''kvmmap'' else Ret s1)"

fun proc_mapstacks_loop :: "nat list \<Rightarrow> addr \<Rightarrow> 'z kmem_state_scheme \<Rightarrow> 'z kmem_state_scheme outcome" where
  "proc_mapstacks_loop [] kpgtbl s = Ret s"
| "proc_mapstacks_loop (p # ps) kpgtbl s =
     (let (pa, s1) = kalloc s in
      if pa = 0 then Panic ''kalloc''
      else obind (kvmmap kpgtbl (KSTACK p) pa PGSIZE (PTE_R OR PTE_W) s1) (proc_mapstacks_loop ps kpgtbl))"

definition proc_mapstacks :: "addr \<Rightarrow> 'z kmem_state_scheme \<Rightarrow> 'z kmem_state_scheme outcome" where
  "proc_mapstacks kpgtbl s = proc_mapstacks_loop [0..<NPROC] kpgtbl s"

definition kvmmake :: "'z kmem_state_scheme \<Rightarrow> (addr \<times> 'z kmem_state_scheme) outcome" where
  "kvmmake s =
     (let (kpgtbl, s1) = kalloc s; s2 = s1\<lparr>pmem := memset (pmem s1) kpgtbl 0 4096\<rparr> in
      obind (kvmmap kpgtbl UART0 UART0 PGSIZE (PTE_R OR PTE_W) s2) (\<lambda>s3.
      obind (kvmmap kpgtbl VIRTIO0 VIRTIO0 PGSIZE (PTE_R OR PTE_W) s3) (\<lambda>s4.
      obind (kvmmap kpgtbl PLIC PLIC 0x4000000 (PTE_R OR PTE_W) s4) (\<lambda>s5.
      obind (kvmmap kpgtbl KERNBASE KERNBASE (etext s5 - KERNBASE) (PTE_R OR PTE_X) s5) (\<lambda>s6.
      obind (kvmmap kpgtbl (etext s6) (etext s6) (PHYSTOP - etext s6) (PTE_R OR PTE_W) s6) (\<lambda>s7.
      obind (kvmmap kpgtbl TRAMPOLINE (trampoline s7) PGSIZE (PTE_R OR PTE_X) s7) (\<lambda>s8.
      obind (proc_mapstacks kpgtbl s8) (\<lambda>s9. Ret (kpgtbl, s9)))))))))"

definition kvminit :: "'z kmem_state_scheme \<Rightarrow> 'z kmem_state_scheme outcome" where
  "kvminit s = obind (kvmmake s) (\<lambda>(kpgtbl, s1). Ret (s1\<lparr>kernel_pagetable := kpgtbl\<rparr>))"

section \<open>User address spaces\<close>

definition uvmcreate :: "'z kmem_state_scheme \<Rightarrow> addr \<times> 'z kmem_state_scheme" where
  "uvmcreate s =
     (let (pagetable, s1) = kalloc s in
      if pagetable = 0 then (0, s1) else (pagetable, s1\<lparr>pmem := memset (pmem s1) pagetable 0 4096\<rparr>))"

fun uvmunmap_loop :: "nat \<Rightarrow> addr \<Rightarrow> addr \<Rightarrow> addr \<Rightarrow> bool \<Rightarrow> 'z kmem_state_scheme \<Rightarrow> 'z kmem_state_scheme outcome" where
  "uvmunmap_loop 0 pagetable a lst do_free s = Hang"
| "uvmunmap_loop (Suc fuel) pagetable a lst do_free s =
     (if a < lst then
        obind (walk pagetable a False s) (\<lambda>(pte, _).
          if pte = 0 then uvmunmap_loop fuel pagetable (a + PGSIZE) lst do_free s
          else if load64 (pmem s) pte AND PTE_V = 0 then uvmunmap_loop fuel pagetable (a + PGSIZE) lst do_free s
          else obind (if do_free then kfree (PTE2PA (load64 (pmem s) pte)) s else Ret s) (\<lambda>s1.
            uvmunmap_loop fuel pagetable (a + PGSIZE) lst do_free (s1\<lparr>pmem := store64 (pmem s1) pte 0\<rparr>)))
      else Ret s)"

definition uvmunmap :: "addr \<Rightarrow> addr \<Rightarrow> addr \<Rightarrow> bool \<Rightarrow> 'z kmem_state_scheme \<Rightarrow> 'z kmem_state_scheme outcome" where
  "uvmunmap pagetable va npages do_free s =
     (if va mod PGSIZE \<noteq> 0 then Panic ''uvmunmap: not aligned''
      else uvmunmap_loop (Suc (unat npages)) pagetable va (va + npages * PGSIZE) do_free s)"

definition uvmdealloc :: "addr \<Rightarrow> addr \<Rightarrow> addr \<Rightarrow> 'z kmem_state_scheme \<Rightarrow> (addr \<times> 'z kmem_state_scheme) outcome" where
  "uvmdealloc pagetable oldsz newsz s =
     (if newsz \<ge> oldsz then Ret (oldsz, s)
      else if PGROUNDUP newsz < PGROUNDUP oldsz then
        let npages = (scast (ucast ((PGROUNDUP oldsz - PGROUNDUP newsz) div PGSIZE) :: 32 word) :: 64 word) in
        obind (uvmunmap pagetable (PGROUNDUP newsz) npages True s) (\<lambda>s1. Ret (newsz, s1))
      else Ret (newsz, s))"

fun uvmalloc_loop ::
  "nat \<Rightarrow> addr \<Rightarrow> addr \<Rightarrow> addr \<Rightarrow> addr \<Rightarrow> 64 word \<Rightarrow> 'z kmem_state_scheme \<Rightarrow>
   (addr \<times> 'z kmem_state_scheme) outcome" where
  "uvmalloc_loop 0 pagetable a oldsz newsz xperm s = Hang"
| "uvmalloc_loop (Suc fuel) pagetable a oldsz newsz xperm s =
     (if a < newsz then
        let (m, s1) = kalloc s in
        if m = 0 then obind (uvmdealloc pagetable a oldsz s1) (\<lambda>(_, s2). Ret (0, s2))
        else let s2 = s1\<lparr>pmem := memset (pmem s1) m 0 4096\<rparr> in
          obind (mappages pagetable a PGSIZE m (PTE_R OR PTE_U OR xperm) s2) (\<lambda>(r, s3).
            if r \<noteq> 0 then
              obind (kfree m s3) (\<lambda>s4. obind (uvmdealloc pagetable a oldsz s4) (\<lambda>(_, s5). Ret (0, s5)))
            else uvmalloc_loop fuel pagetable (a + PGSIZE) oldsz newsz xperm s3)
      else Ret (newsz, s))"

definition uvmalloc :: "addr \<Rightarrow> addr \<Rightarrow> addr \<Rightarrow> 64 word \<Rightarrow> 'z kmem_state_scheme \<Rightarrow> (addr \<times> 'z kmem_state_scheme) outcome" where
  "uvmalloc pagetable oldsz newsz xperm s =
     (if newsz < oldsz then Ret (oldsz, s)
      else let oldsz' = PGROUNDUP oldsz in
        uvmalloc_loop (unat newsz div 4096 + 2) pagetable oldsz' oldsz' newsz xperm s)"

text \<open>
  \<open>freewalk_from\<close> is \<open>freewalk\<close> with the entries still to visit; its first argument bounds the depth of
  the recursion.  A well-formed table has three levels.
\<close>

fun freewalk_from :: "nat \<Rightarrow> nat list \<Rightarrow> addr \<Rightarrow> 'z kmem_state_scheme \<Rightarrow> 'z kmem_state_scheme outcome" where
  "freewalk_from 0 is pagetable s = Hang"
| "freewalk_from (Suc d) [] pagetable s = kfree pagetable s"
| "freewalk_from (Suc d) (i # is) pagetable s =
     (let slot = pte_addr pagetable (of_nat i); pte = load64 (pmem s) slot in
      if pte AND PTE_V \<noteq> 0 \<and> pte AND (PTE_R OR PTE_W OR PTE_X) = 0 then
        obind (freewalk_from d [0..<512] (PTE2PA pte) s) (\<lambda>s1.
          freewalk_from (Suc d) is pagetable (s1\<lparr>pmem := store64 (pmem s1) slot 0\<rparr>))
      else if pte AND PTE_V \<noteq> 0 then Panic ''freewalk: leaf''
      else freewalk_from (Suc d) is pagetable s)"

definition freewalk :: "addr \<Rightarrow> 'z kmem_state_scheme \<Rightarrow> 'z kmem_state_scheme outcome" where
  "freewalk pagetable s = freewalk_from 64 [0..<512] pagetable s"

definition uvmfree :: "addr \<Rightarrow> addr \<Rightarrow> 'z kmem_state_scheme \<Rightarrow> 'z kmem_state_scheme outcome" where
  "uvmfree pagetable sz s =
     obind (if sz > 0 then uvmunmap pagetable 0 (PGROUNDUP sz div PGSIZE) True s else Ret s) (freewalk pagetable)"

fun uvmcopy_loop ::
  "nat \<Rightarrow> addr \<Rightarrow> addr \<Rightarrow> addr \<Rightarrow> addr \<Rightarrow> 'z kmem_state_scheme \<Rightarrow> (int \<times> 'z kmem_state_scheme) outcome" where
  "uvmcopy_loop 0 old new i sz s = Hang"
| "uvmcopy_loop (Suc fuel) old new i sz s =
     (if i < sz then
        obind (walk old i False s) (\<lambda>(pte, _).
          if pte = 0 then uvmcopy_loop fuel old new (i + PGSIZE) sz s
          else let v = load64 (pmem s) pte in
            if v AND PTE_V = 0 then uvmcopy_loop fuel old new (i + PGSIZE) sz s
            else let pa = PTE2PA v; flags = PTE_FLAGS v; (m, s1) = kalloc s in
              if m = 0 then obind (uvmunmap new 0 (i div PGSIZE) True s1) (\<lambda>s2. Ret (-1, s2))
              else let s2 = s1\<lparr>pmem := memmove (pmem s1) m pa 4096\<rparr> in
                obind (mappages new i PGSIZE m flags s2) (\<lambda>(r, s3).
                  if r \<noteq> 0 then
                    obind (kfree m s3) (\<lambda>s4.
                      obind (uvmunmap new 0 (i div PGSIZE) True s4) (\<lambda>s5. Ret (-1, s5)))
                  else uvmcopy_loop fuel old new (i + PGSIZE) sz s3))
      else Ret (0, s))"

definition uvmcopy :: "addr \<Rightarrow> addr \<Rightarrow> addr \<Rightarrow> 'z kmem_state_scheme \<Rightarrow> (int \<times> 'z kmem_state_scheme) outcome" where
  "uvmcopy old new sz s = uvmcopy_loop (unat sz div 4096 + 2) old new 0 sz s"

definition uvmclear :: "addr \<Rightarrow> addr \<Rightarrow> 'z kmem_state_scheme \<Rightarrow> 'z kmem_state_scheme outcome" where
  "uvmclear pagetable va s =
     obind (walk pagetable va False s) (\<lambda>(pte, _).
       if pte = 0 then Panic ''uvmclear''
       else Ret (s\<lparr>pmem := store64 (pmem s) pte (load64 (pmem s) pte AND NOT PTE_U)\<rparr>))"

end
