(* ===== verification/Memsys.thy ===== *)
theory Memsys
  imports Disk_Sched Pagetable
begin

text \<open>
  Model of \<^verbatim>\<open>kernel/memsys.c\<close> (frame table, clock replacement, swapping) and of the rest of
  \<^verbatim>\<open>kernel/vm.c\<close>: the page fault handler and the copies between kernel and user memory.

  A frame table entry is addressed by its index.  The scan of \<open>evict_page\<close> runs until it has a victim;
  \<open>clock_loop\<close> has fuel for two full turns of the hand, which are enough whenever some frame is in
  use (\<open>clock_loop_stops\<close>) and \<open>Hang\<close> is the endless scan when none is.  Kernel buffers that
  \<open>copyout\<close> and \<open>copyin\<close> use are byte lists.
\<close>

section \<open>State\<close>

definition MAX_FRAMES :: nat where "MAX_FRAMES = 32768"
definition MAX_SWAP_DISK_ENTRIES :: nat where "MAX_SWAP_DISK_ENTRIES = 32768"

record frame_entry =
  fr_in_use :: int
  fr_owner :: "nat option"
  fr_vaddr :: addr
  fr_ref_bit :: int
  fr_swapped :: int
  fr_swap_index :: int

record swap_disk_entry =
  sw_in_use :: int
  sw_owner :: "nat option"
  sw_vaddr :: addr
  sw_logical_block :: int
  sw_timestamp :: "64 word"

record mm_state = disk_state +
  frame_table :: "frame_entry list"
  clock_hand :: nat
  swap_disk_table :: "swap_disk_entry list"
  next_swap_block :: int

abbreviation upd_frame :: "nat \<Rightarrow> (frame_entry \<Rightarrow> frame_entry) \<Rightarrow> 'z mm_state_scheme \<Rightarrow> 'z mm_state_scheme" where
  "upd_frame i f s \<equiv> s\<lparr>frame_table := upd_at i f (frame_table s)\<rparr>"

definition frametable_init :: "'z mm_state_scheme \<Rightarrow> 'z mm_state_scheme" where
  "frametable_init s = disk_sched_init (s\<lparr>
     frame_table := map (\<lambda>f. f\<lparr>fr_in_use := 0, fr_owner := None, fr_vaddr := 0, fr_ref_bit := 0,
                               fr_swapped := 0, fr_swap_index := -1\<rparr>) (frame_table s),
     swap_disk_table := map (\<lambda>e. e\<lparr>sw_in_use := 0, sw_owner := None, sw_vaddr := 0,
                               sw_logical_block := -1\<rparr>) (swap_disk_table s)\<rparr>)"

section \<open>The frame table\<close>

text \<open>The index of the entry for a physical address; \<open>None\<close> is the null pointer.\<close>

definition get_frame_entry :: "addr \<Rightarrow> 'z mm_state_scheme \<Rightarrow> nat option" where
  "get_frame_entry pa s =
     (let kernel_end_rounded = PGROUNDUP (kend s) in
      if pa < kernel_end_rounded \<or> pa \<ge> PHYSTOP then None
      else let frame_index = unat ((pa - kernel_end_rounded) div PGSIZE)
           in if frame_index \<ge> MAX_FRAMES then None else Some frame_index)"

definition frame_index_to_pa :: "nat \<Rightarrow> 'z mm_state_scheme \<Rightarrow> addr" where
  "frame_index_to_pa index s = PGROUNDUP (kend s) + of_nat index * PGSIZE"

definition pa_to_frame_index :: "addr \<Rightarrow> 'z mm_state_scheme \<Rightarrow> int" where
  "pa_to_frame_index pa s =
     (let kernel_end_rounded = PGROUNDUP (kend s) in
      if pa < kernel_end_rounded \<or> pa \<ge> PHYSTOP then -1
      else uint ((pa - kernel_end_rounded) div PGSIZE))"

definition set_reference_bit :: "addr \<Rightarrow> 'z mm_state_scheme \<Rightarrow> 'z mm_state_scheme" where
  "set_reference_bit pa s =
     (case get_frame_entry pa s of Some i \<Rightarrow> upd_frame i (\<lambda>f. f\<lparr>fr_ref_bit := 1\<rparr>) s | None \<Rightarrow> s)"

definition clear_reference_bit :: "addr \<Rightarrow> 'z mm_state_scheme \<Rightarrow> 'z mm_state_scheme" where
  "clear_reference_bit pa s =
     (case get_frame_entry pa s of Some i \<Rightarrow> upd_frame i (\<lambda>f. f\<lparr>fr_ref_bit := 0\<rparr>) s | None \<Rightarrow> s)"

definition update_frame_table :: "nat option \<Rightarrow> addr \<Rightarrow> addr \<Rightarrow> 'z mm_state_scheme \<Rightarrow> 'z mm_state_scheme" where
  "update_frame_table p va pa s =
     (case get_frame_entry pa s of
        Some i \<Rightarrow> upd_frame i (\<lambda>f. f\<lparr>fr_in_use := 1, fr_owner := p, fr_vaddr := va, fr_ref_bit := 1,
                                     fr_swapped := 0, fr_swap_index := -1\<rparr>) s
      | None \<Rightarrow> s)"

definition remove_from_frame_table :: "addr \<Rightarrow> 'z mm_state_scheme \<Rightarrow> 'z mm_state_scheme" where
  "remove_from_frame_table pa s =
     (case get_frame_entry pa s of
        Some i \<Rightarrow> upd_frame i (\<lambda>f. f\<lparr>fr_in_use := 0, fr_owner := None, fr_vaddr := 0, fr_ref_bit := 0,
                                     fr_swapped := 0, fr_swap_index := -1\<rparr>) s
      | None \<Rightarrow> s)"

section \<open>Swapping out\<close>

text \<open>Serving one request, as \<open>swap_page_out\<close> and \<open>swap_page_in\<close> do after queueing their own.\<close>

definition serve_request :: "'z mm_state_scheme \<Rightarrow> 'z mm_state_scheme outcome" where
  "serve_request s =
     obind (schedule_next_request s) (\<lambda>(req, s1).
       if req \<noteq> 0 then kfree req (process_disk_request req s1) else Ret s1)"

definition swap_page_out :: "addr \<Rightarrow> 'z mm_state_scheme \<Rightarrow> (int \<times> 'z mm_state_scheme) outcome" where
  "swap_page_out pa s =
     (case get_frame_entry pa s of
        None \<Rightarrow> Ret (-1, s)
      | Some e \<Rightarrow>
          (case fr_owner (frame_table s ! e) of
             None \<Rightarrow> Ret (-1, s)
           | Some p \<Rightarrow>
               (case scan (\<lambda>w. sw_in_use w = 0) (swap_disk_table s) of
                  None \<Rightarrow> Ret (-1, s)
                | Some swap_index \<Rightarrow>
                    let logical_block = next_swap_block s in
                    if logical_block \<ge> NUM_DISKS * DISK_BLOCKS_PER_DISK then Ret (-1, s)
                    else let s1 = s\<lparr>next_swap_block := next_swap_block s + 1\<rparr> in
                    obind (add_disk_request DISK_WRITE logical_block pa (Some p) s1) (\<lambda>(r, s2).
                      if r \<noteq> 0 then Ret (-1, s2)
                      else obind (serve_request s2) (\<lambda>s3.
                        let s4 = s3\<lparr>swap_disk_table := (swap_disk_table s3)[swap_index :=
                                 \<lparr>sw_in_use = 1, sw_owner = fr_owner (frame_table s3 ! e),
                                  sw_vaddr = fr_vaddr (frame_table s3 ! e), sw_logical_block = logical_block,
                                  sw_timestamp = ucast (ticks s3)\<rparr>]\<rparr>;
                            s5 = upd_frame e (\<lambda>f. f\<lparr>fr_swapped := 1, fr_swap_index := int swap_index\<rparr>) s4
                        in obind (walk (p_pagetable (ptable s5 ! p)) (fr_vaddr (frame_table s5 ! e)) False s5) (\<lambda>(pte, s6).
                             if pte \<noteq> 0
                             then Ret (0, s6\<lparr>pmem := store64 (pmem s6) pte
                                     (((load64 (pmem s6) pte) AND NOT PTE_V) OR push_bit 10 (of_nat swap_index))\<rparr>)
                             else Ret (0, s6)))))))"

section \<open>Page replacement\<close>

fun clock_loop ::
  "nat \<Rightarrow> nat \<Rightarrow> nat option \<Rightarrow> int \<Rightarrow> 'z mm_state_scheme \<Rightarrow> (nat option \<times> int \<times> 'z mm_state_scheme) outcome" where
  "clock_loop 0 start_index victim lowest_priority s = Hang"
| "clock_loop (Suc fuel) start_index victim lowest_priority s =
     (let e = frame_table s ! clock_hand s;
          advance = (\<lambda>victim' lowest' s'.
            let s2 = s'\<lparr>clock_hand := (clock_hand s' + 1) mod MAX_FRAMES\<rparr> in
            if clock_hand s2 = start_index \<and> victim' \<noteq> None then Ret (victim', lowest', s2)
            else clock_loop fuel start_index victim' lowest' s2)
      in case fr_owner e of
           Some p \<Rightarrow>
             if fr_in_use e \<noteq> 0 then
               let priority = p_level (ptable s ! p) in
               if fr_ref_bit e = 0 then
                 if lowest_priority = -1 \<or> priority > lowest_priority
                 then if priority = MLFQ_LEVELS - 1 then Ret (Some (clock_hand s), priority, s)
                      else advance (Some (clock_hand s)) priority s
                 else advance victim lowest_priority s
               else advance victim lowest_priority (upd_frame (clock_hand s) (\<lambda>f. f\<lparr>fr_ref_bit := 0\<rparr>) s)
             else advance victim lowest_priority s
         | None \<Rightarrow> advance victim lowest_priority s)"

text \<open>The second scan of \<open>evict_page\<close>, which ignores the reference bits.\<close>

fun rescan_loop :: "nat list \<Rightarrow> nat option \<Rightarrow> int \<Rightarrow> 'z mm_state_scheme \<Rightarrow> nat option \<times> int" where
  "rescan_loop [] victim lowest_priority s = (victim, lowest_priority)"
| "rescan_loop (i # is) victim lowest_priority s =
     (let e = frame_table s ! i in
      case fr_owner e of
        Some p \<Rightarrow>
          if fr_in_use e \<noteq> 0 \<and> (lowest_priority = -1 \<or> p_level (ptable s ! p) > lowest_priority)
          then rescan_loop is (Some i) (p_level (ptable s ! p)) s
          else rescan_loop is victim lowest_priority s
      | None \<Rightarrow> rescan_loop is victim lowest_priority s)"

definition evict_page :: "'z mm_state_scheme \<Rightarrow> (addr \<times> 'z mm_state_scheme) outcome" where
  "evict_page s =
     obind (clock_loop (2 * MAX_FRAMES + 1) (clock_hand s) None (-1) s) (\<lambda>(victim, lowest_priority, s1).
       let (victim', s2) = (case victim of
             None \<Rightarrow> let s2 = s1\<lparr>clock_hand := 0\<rparr> in (fst (rescan_loop [0..<MAX_FRAMES] None lowest_priority s2), s2)
           | Some v \<Rightarrow> (Some v, s1))
       in case victim' of
            None \<Rightarrow> Ret (0, s2)
          | Some index \<Rightarrow>
              let pa = frame_index_to_pa index s2 in
              obind (swap_page_out pa s2) (\<lambda>(r, s3).
                if r \<noteq> 0 then Ret (0, s3)
                else case fr_owner (frame_table s3 ! index) of
                       Some p \<Rightarrow> Ret (pa, upd_proc p (\<lambda>q. q\<lparr>p_pages_evicted := p_pages_evicted q + 1,
                                    p_pages_swapped_out := p_pages_swapped_out q + 1,
                                    p_resident_pages := p_resident_pages q - 1\<rparr>) s3)
                     | None \<Rightarrow> Ret (pa, s3)))"

section \<open>Swapping in\<close>

text \<open>A free page, or a page taken from another process: the null pointer when neither is to be had.\<close>

definition get_page :: "'z mm_state_scheme \<Rightarrow> (addr \<times> 'z mm_state_scheme) outcome" where
  "get_page s = (let (pa, s1) = kalloc s in if pa = 0 then evict_page s1 else Ret (pa, s1))"

definition swap_page_in :: "nat \<Rightarrow> addr \<Rightarrow> 'z mm_state_scheme \<Rightarrow> (int \<times> 'z mm_state_scheme) outcome" where
  "swap_page_in p va s =
     (case scan (\<lambda>w. sw_in_use w \<noteq> 0 \<and> sw_owner w = Some p \<and> sw_vaddr w = va) (swap_disk_table s) of
        None \<Rightarrow> Ret (-1, s)
      | Some swap_index \<Rightarrow>
          let logical_block = sw_logical_block (swap_disk_table s ! swap_index) in
          obind (get_page s) (\<lambda>(new_pa, s1).
            if new_pa = 0 then Ret (-1, s1)
            else obind (add_disk_request DISK_READ logical_block new_pa (Some p) s1) (\<lambda>(r, s2).
              if r \<noteq> 0 then obind (kfree new_pa s2) (\<lambda>s3. Ret (-1, s3))
              else obind (serve_request s2) (\<lambda>s3.
                let s4 = s3\<lparr>swap_disk_table := upd_at swap_index (\<lambda>w. w\<lparr>sw_in_use := 0, sw_owner := None,
                            sw_vaddr := 0, sw_logical_block := -1\<rparr>) (swap_disk_table s3)\<rparr> in
                obind (mappages (p_pagetable (ptable s4 ! p)) va PGSIZE new_pa (PTE_W OR PTE_U OR PTE_R) s4) (\<lambda>(m, s5).
                  if m \<noteq> 0 then obind (kfree new_pa s5) (\<lambda>s6. Ret (-1, s6))
                  else let s6 = update_frame_table (Some p) va new_pa s5
                       in Ret (0, upd_proc p (\<lambda>q. q\<lparr>p_pages_swapped_in := p_pages_swapped_in q + 1,
                                    p_resident_pages := p_resident_pages q + 1\<rparr>) s6))))))"

section \<open>Page faults\<close>

text \<open>
  \<open>vmfault\<close> runs in a process; on a hart without one \<^verbatim>\<open>p->sz\<close> is a load from page 0, which the
  kernel does not map.
\<close>

definition vmfault :: "addr \<Rightarrow> addr \<Rightarrow> 'z mm_state_scheme \<Rightarrow> (addr \<times> 'z mm_state_scheme) outcome" where
  "vmfault pagetable va0 s =
     (case myproc s of
        None \<Rightarrow> Panic ''kerneltrap''
      | Some p \<Rightarrow>
          if va0 \<ge> p_sz (ptable s ! p) then Ret (0, s)
          else let va = PGROUNDDOWN va0 in
            obind (walk pagetable va False s) (\<lambda>(pte, _).
              let v = load64 (pmem s) pte in
              obind (if pte \<noteq> 0 \<and> v AND PTE_V = 0 \<and> v \<noteq> 0 then swap_page_in p va s else Ret (-1, s)) (\<lambda>(r, s1).
                if r = 0 then Ret (0, upd_proc p (\<lambda>q. q\<lparr>p_page_faults := p_page_faults q + 1\<rparr>) s1)
                else obind (ismapped pagetable va s1) (\<lambda>mapped.
                  if mapped \<noteq> 0 then
                    obind (walk pagetable va False s1) (\<lambda>(pte2, _).
                      if pte2 \<noteq> 0 then Ret (0, s1\<lparr>pmem := store64 (pmem s1) pte2 (load64 (pmem s1) pte2 OR PTE_A)\<rparr>)
                      else Ret (0, s1))
                  else
                    let s2 = upd_proc p (\<lambda>q. q\<lparr>p_page_faults := p_page_faults q + 1\<rparr>) s1 in
                    obind (get_page s2) (\<lambda>(m, s3).
                      if m = 0 then Ret (0, s3)
                      else let s4 = s3\<lparr>pmem := memset (pmem s3) m 0 4096\<rparr> in
                        obind (mappages (p_pagetable (ptable s4 ! p)) va PGSIZE m (PTE_W OR PTE_U OR PTE_R) s4) (\<lambda>(e, s5).
                          if e \<noteq> 0 then obind (kfree m s5) (\<lambda>s6. Ret (0, s6))
                          else let s6 = update_frame_table (Some p) va m s5
                               in Ret (m, upd_proc p (\<lambda>q. q\<lparr>p_resident_pages := p_resident_pages q + 1\<rparr>) s6)))))))"

section \<open>Copying between kernel and user memory\<close>

text \<open>
  Every iteration copies at least one byte, so the number of bytes is enough fuel.  A null \<^verbatim>\<open>pte\<close> would
  be dereferenced by \<open>copyout\<close>.
\<close>

fun copyout_loop :: "nat \<Rightarrow> addr \<Rightarrow> addr \<Rightarrow> byte list \<Rightarrow> 'z mm_state_scheme \<Rightarrow> (int \<times> 'z mm_state_scheme) outcome" where
  "copyout_loop 0 pagetable dstva src s = Hang"
| "copyout_loop (Suc fuel) pagetable dstva src s =
     (if src = [] then Ret (0, s)
      else let va0 = PGROUNDDOWN dstva in
        if va0 \<ge> MAXVA then Ret (-1, s)
        else obind (walkaddr pagetable va0 s) (\<lambda>pa.
          obind (if pa = 0 then vmfault pagetable va0 s else Ret (pa, s)) (\<lambda>(pa0, s1).
            if pa0 = 0 then Ret (-1, s1)
            else obind (walk pagetable va0 False s1) (\<lambda>(pte, _).
              if pte = 0 then Panic ''kerneltrap''
              else if load64 (pmem s1) pte AND PTE_W = 0 then Ret (-1, s1)
              else let n = min (unat (PGSIZE - (dstva - va0))) (length src);
                       s2 = s1\<lparr>pmem := write_bytes (pmem s1) (pa0 + (dstva - va0)) (take n src)\<rparr>
                   in copyout_loop fuel pagetable (va0 + PGSIZE) (drop n src) s2))))"

definition copyout :: "addr \<Rightarrow> addr \<Rightarrow> byte list \<Rightarrow> 'z mm_state_scheme \<Rightarrow> (int \<times> 'z mm_state_scheme) outcome" where
  "copyout pagetable dstva src s = copyout_loop (Suc (length src)) pagetable dstva src s"

text \<open>The bytes copied so far come first in the result of \<open>copyin\<close> and \<open>copyinstr\<close>.\<close>

fun copyin_loop ::
  "nat \<Rightarrow> addr \<Rightarrow> addr \<Rightarrow> nat \<Rightarrow> byte list \<Rightarrow> 'z mm_state_scheme \<Rightarrow> (int \<times> byte list \<times> 'z mm_state_scheme) outcome" where
  "copyin_loop 0 pagetable srcva len dst s = Hang"
| "copyin_loop (Suc fuel) pagetable srcva len dst s =
     (if len = 0 then Ret (0, dst, s)
      else let va0 = PGROUNDDOWN srcva in
        obind (walkaddr pagetable va0 s) (\<lambda>pa.
          obind (if pa = 0 then vmfault pagetable va0 s else Ret (pa, s)) (\<lambda>(pa0, s1).
            if pa0 = 0 then Ret (-1, dst, s1)
            else let n = min (unat (PGSIZE - (srcva - va0))) len
                 in copyin_loop fuel pagetable (va0 + PGSIZE) (len - n)
                      (dst @ read_bytes (pmem s1) (pa0 + (srcva - va0)) n) s1)))"

definition copyin :: "addr \<Rightarrow> addr \<Rightarrow> nat \<Rightarrow> 'z mm_state_scheme \<Rightarrow> (int \<times> byte list \<times> 'z mm_state_scheme) outcome" where
  "copyin pagetable srcva len s = copyin_loop (Suc len) pagetable srcva len [] s"

text \<open>The inner loop of \<open>copyinstr\<close>: the bytes up to a null byte, and whether one was found.\<close>

fun copy_until_null :: "byte list \<Rightarrow> byte list \<times> bool" where
  "copy_until_null [] = ([], False)"
| "copy_until_null (b # bs) =
     (if b = 0 then ([0], True) else let (cs, found) = copy_until_null bs in (b # cs, found))"

fun copyinstr_loop ::
  "nat \<Rightarrow> addr \<Rightarrow> addr \<Rightarrow> nat \<Rightarrow> byte list \<Rightarrow> 'z kmem_state_scheme \<Rightarrow> (int \<times> byte list) outcome" where
  "copyinstr_loop 0 pagetable srcva max_len dst s = Hang"
| "copyinstr_loop (Suc fuel) pagetable srcva max_len dst s =
     (if max_len = 0 then Ret (-1, dst)
      else let va0 = PGROUNDDOWN srcva in
        obind (walkaddr pagetable va0 s) (\<lambda>pa0.
          if pa0 = 0 then Ret (-1, dst)
          else let n = min (unat (PGSIZE - (srcva - va0))) max_len;
                   (bs, got_null) = copy_until_null (read_bytes (pmem s) (pa0 + (srcva - va0)) n)
               in if got_null then Ret (0, dst @ bs)
                  else copyinstr_loop fuel pagetable (va0 + PGSIZE) (max_len - n) (dst @ bs) s))"

definition copyinstr :: "addr \<Rightarrow> addr \<Rightarrow> nat \<Rightarrow> 'z kmem_state_scheme \<Rightarrow> (int \<times> byte list) outcome" where
  "copyinstr pagetable srcva max_len s = copyinstr_loop (Suc max_len) pagetable srcva max_len [] s"

text \<open>
  \<open>either_copyout\<close> and \<open>either_copyin\<close>; the pagetable is that of the calling process, which exists.
\<close>

definition either_copyout :: "bool \<Rightarrow> addr \<Rightarrow> byte list \<Rightarrow> 'z mm_state_scheme \<Rightarrow> (int \<times> 'z mm_state_scheme) outcome" where
  "either_copyout user_dst dst src s =
     (if user_dst then
        (case myproc s of
           None \<Rightarrow> Panic ''kerneltrap''
         | Some p \<Rightarrow> copyout (p_pagetable (ptable s ! p)) dst src s)
      else Ret (0, s\<lparr>pmem := write_bytes (pmem s) dst src\<rparr>))"

definition either_copyin :: "bool \<Rightarrow> addr \<Rightarrow> nat \<Rightarrow> 'z mm_state_scheme \<Rightarrow> (int \<times> byte list \<times> 'z mm_state_scheme) outcome" where
  "either_copyin user_src src len s =
     (if user_src then
        (case myproc s of
           None \<Rightarrow> Panic ''kerneltrap''
         | Some p \<Rightarrow> copyin (p_pagetable (ptable s ! p)) src len s)
      else Ret (0, read_bytes (pmem s) src len, s))"

end
