(* ===== verification/Virtio.thy ===== *)
theory Virtio
  imports Memsys Disk_Queue
begin

text \<open>
  The disk driver of \<^verbatim>\<open>kernel/virtio_disk.c\<close> with the structures of \<^verbatim>\<open>kernel/virtio.h\<close>,
  \<^verbatim>\<open>kernel/buf.h\<close> and \<^verbatim>\<open>kernel/sleeplock.h\<close>.

  The descriptor table, the two rings and the driver's book-keeping are lists of length \<open>NUM\<close>.  A
  descriptor holds the address of a kernel object; the three kinds of object the driver passes
  are the constructors of \<open>dma\<close>.

  The device is hardware and a parameter: \<open>blk_dev\<close> is an arbitrary function that answers a request, given its header,
  its three descriptors and the content of its buffer, on a \<open>platter\<close> that holds, at an even sector number, the
  two sectors of one block.  What the virtio specification (5.2.6) promises of it is the predicate \<open>device_ok\<close>, and only about
  requests that are formed as the specification asks: lengths, directions and chaining of the descriptors.
  \<open>device_step\<close> is the transport of 2.6 around it: the device takes the next chain from the available ring and
  puts it into the used ring.  \<open>dev_avail\<close> is the device's own position in the available ring and \<open>dev_writes\<close> the
  history of the blocks it has written, oldest first.

  The process that waits for its buffer sleeps until the interrupt handler wakes it; \<open>await_disk\<close> is this loop with what
  happens during the sleep: the device serves a request, the interrupt handler runs, the process looks again.  A
  process that has to wait for descriptors held by others does not return by itself; the result is \<open>Hang\<close>.
\<close>

section \<open>Sleep locks and buffers\<close>

definition BSIZE :: nat where [simp]: "BSIZE = 1024"
definition NUM :: nat where [simp]: "NUM = 8"

record sleeplock =
  sl_locked :: bool
  sl_pid :: int

record buf =
  b_valid :: bool
  b_disk :: bool
  b_dev :: uint
  b_blockno :: uint
  b_lock :: sleeplock
  b_refcnt :: uint
  b_prev :: nat
  b_next :: nat
  b_data :: "byte list"

section \<open>Descriptors and rings\<close>

datatype dma = NoObj | OpsObj nat | DataObj nat | StatusObj nat

definition VRING_DESC_F_NEXT :: "16 word" where [simp]: "VRING_DESC_F_NEXT = 1"
definition VRING_DESC_F_WRITE :: "16 word" where [simp]: "VRING_DESC_F_WRITE = 2"
definition VIRTIO_BLK_T_IN :: uint where [simp]: "VIRTIO_BLK_T_IN = 0"
definition VIRTIO_BLK_T_OUT :: uint where [simp]: "VIRTIO_BLK_T_OUT = 1"

record virtq_desc =
  d_addr :: dma
  d_len :: uint
  d_flags :: "16 word"
  d_next :: "16 word"

record virtio_blk_req =
  r_type :: uint
  r_reserved :: uint
  r_sector :: "64 word"

record vdisk =
  vd_desc :: "virtq_desc list"
  vd_avail_idx :: "16 word"
  vd_avail_ring :: "16 word list"
  vd_used_ridx :: "16 word"
  vd_used_ring :: "(uint \<times> uint) list"
  vd_free :: "bool list"
  vd_used_idx :: "16 word"
  vd_info_b :: "nat option list"
  vd_info_status :: "byte list"
  vd_ops :: "virtio_blk_req list"

text \<open>The answer of the device: the status byte, the content of the buffer and the content of the disk after the request.\<close>

type_synonym disk_device =
  "virtio_blk_req \<Rightarrow> virtq_desc list \<Rightarrow> byte list \<Rightarrow> (64 word \<Rightarrow> byte list) \<Rightarrow> byte \<times> byte list \<times> (64 word \<Rightarrow> byte list)"

record blk_state = mm_state +
  bcache :: "buf list"
  vdisk :: vdisk
  platter :: "64 word \<Rightarrow> byte list"
  dev_avail :: "16 word"
  dev_writes :: "(64 word \<times> byte list) list"
  blk_dev :: disk_device

abbreviation upd_buf :: "nat \<Rightarrow> (buf \<Rightarrow> buf) \<Rightarrow> 'z blk_state_scheme \<Rightarrow> 'z blk_state_scheme" where
  "upd_buf i f s \<equiv> s\<lparr>bcache := upd_at i f (bcache s)\<rparr>"

abbreviation upd_vd :: "(vdisk \<Rightarrow> vdisk) \<Rightarrow> 'z blk_state_scheme \<Rightarrow> 'z blk_state_scheme" where
  "upd_vd f s \<equiv> s\<lparr>vdisk := f (vdisk s)\<rparr>"

definition alloc_desc :: "vdisk \<Rightarrow> int \<times> vdisk" where
  "alloc_desc v =
     (case scan (\<lambda>f. f) (vd_free v) of
        None \<Rightarrow> (-1, v)
      | Some i \<Rightarrow> (int i, v\<lparr>vd_free := (vd_free v)[i := False]\<rparr>))"

definition free_desc :: "nat \<Rightarrow> 'z blk_state_scheme \<Rightarrow> 'z blk_state_scheme outcome" where
  "free_desc i s =
     (if i \<ge> NUM then Panic ''free_desc 1''
      else if vd_free (vdisk s) ! i then Panic ''free_desc 2''
      else Ret (wakeup ChanDescFree (upd_vd (\<lambda>v. v\<lparr>
             vd_desc := upd_at i (\<lambda>d. d\<lparr>d_addr := NoObj, d_len := 0, d_flags := 0, d_next := 0\<rparr>) (vd_desc v),
             vd_free := (vd_free v)[i := True]\<rparr>) s)))"

fun free_chain :: "nat \<Rightarrow> nat \<Rightarrow> 'z blk_state_scheme \<Rightarrow> 'z blk_state_scheme outcome" where
  "free_chain 0 i s = Hang"
| "free_chain (Suc fuel) i s =
     (let flag = d_flags (vd_desc (vdisk s) ! i);
          nxt = d_next (vd_desc (vdisk s) ! i) in
      obind (free_desc i s) (\<lambda>s1.
        if flag AND VRING_DESC_F_NEXT \<noteq> 0 then free_chain fuel (unat nxt) s1 else Ret s1))"

fun free_descs :: "nat list \<Rightarrow> 'z blk_state_scheme \<Rightarrow> 'z blk_state_scheme outcome" where
  "free_descs [] s = Ret s"
| "free_descs (i # is) s = obind (free_desc i s) (free_descs is)"

fun alloc3_loop :: "nat \<Rightarrow> nat list \<Rightarrow> 'z blk_state_scheme \<Rightarrow> (int \<times> nat list \<times> 'z blk_state_scheme) outcome" where
  "alloc3_loop 0 idx s = Ret (0, idx, s)"
| "alloc3_loop (Suc n) idx s =
     (let (i, v) = alloc_desc (vdisk s); s1 = s\<lparr>vdisk := v\<rparr> in
      if i < 0 then obind (free_descs idx s1) (\<lambda>s2. Ret (-1, idx, s2))
      else alloc3_loop n (idx @ [nat i]) s1)"

definition alloc3_desc :: "'z blk_state_scheme \<Rightarrow> (int \<times> nat list \<times> 'z blk_state_scheme) outcome" where
  "alloc3_desc s = alloc3_loop 3 [] s"

section \<open>The device\<close>

text \<open>A request the device has to serve: a header it reads, a data block it writes exactly for a read request, a status byte it writes.\<close>

fun request_ok :: "virtio_blk_req \<Rightarrow> virtq_desc list \<Rightarrow> bool" where
  "request_ok r [d0, d1, d2] \<longleftrightarrow>
     r_type r \<in> {VIRTIO_BLK_T_IN, VIRTIO_BLK_T_OUT} \<and> r_reserved r = 0 \<and>
     d_len d0 = 16 \<and> d_flags d0 = VRING_DESC_F_NEXT \<and> d_len d1 = of_nat BSIZE \<and>
     d_flags d1 = (if r_type r = VIRTIO_BLK_T_OUT then 0 else VRING_DESC_F_WRITE) OR VRING_DESC_F_NEXT \<and>
     d_len d2 = 1 \<and> d_flags d2 = VRING_DESC_F_WRITE"
| "request_ok r _ \<longleftrightarrow> False"

definition device_ok :: "disk_device \<Rightarrow> bool" where
  "device_ok dev \<longleftrightarrow> (\<forall>r ds bs pl. request_ok r ds \<longrightarrow> length bs = BSIZE \<longrightarrow>
     dev r ds bs pl = (if r_type r = VIRTIO_BLK_T_OUT then (0, bs, pl(r_sector r := bs)) else (0, pl (r_sector r), pl)))"

definition device_step :: "'z blk_state_scheme \<Rightarrow> 'z blk_state_scheme" where
  "device_step s =
     (let v = vdisk s in
      if dev_avail s = vd_avail_idx v then s
      else
        let head = vd_avail_ring v ! (unat (dev_avail s) mod NUM);
            d0 = vd_desc v ! unat head;
            d1 = vd_desc v ! unat (d_next d0);
            d2 = vd_desc v ! unat (d_next d1);
            s1 = s\<lparr>dev_avail := dev_avail s + 1, vdisk := v\<lparr>
                   vd_used_ring := (vd_used_ring v)[unat (vd_used_ridx v) mod NUM := (ucast head, d_len d1)],
                   vd_used_ridx := vd_used_ridx v + 1\<rparr>\<rparr>
        in case (d_addr d0, d_addr d1, d_addr d2) of
             (OpsObj o0, DataObj b, StatusObj k) \<Rightarrow>
               let r = vd_ops v ! o0; bs = b_data (bcache s ! b);
                   (st, data, pl) = blk_dev s r [d0, d1, d2] bs (platter s);
                   s2 = upd_vd (\<lambda>w. w\<lparr>vd_info_status := (vd_info_status w)[k := st]\<rparr>) s1
               in upd_buf b (\<lambda>x. x\<lparr>b_data := data\<rparr>) (s2\<lparr>platter := pl,
                    dev_writes := (if r_type r = VIRTIO_BLK_T_OUT \<and> st = 0 then dev_writes s @ [(r_sector r, bs)] else dev_writes s)\<rparr>)
           | _ \<Rightarrow> s1)"

section \<open>The interrupt handler and the request\<close>

fun intr_loop :: "nat \<Rightarrow> 'z blk_state_scheme \<Rightarrow> 'z blk_state_scheme outcome" where
  "intr_loop 0 s = Hang"
| "intr_loop (Suc fuel) s =
     (let v = vdisk s in
      if vd_used_idx v = vd_used_ridx v then Ret s
      else let id = unat (fst (vd_used_ring v ! (unat (vd_used_idx v) mod NUM))) in
        if vd_info_status v ! id \<noteq> 0 then Panic ''virtio_disk_intr status''
        else case vd_info_b v ! id of
               None \<Rightarrow> Panic ''kerneltrap''
             | Some b \<Rightarrow> intr_loop fuel (upd_vd (\<lambda>w. w\<lparr>vd_used_idx := vd_used_idx w + 1\<rparr>)
                 (wakeup (ChanBuf b) (upd_buf b (\<lambda>x. x\<lparr>b_disk := False\<rparr>) s))))"

definition virtio_disk_intr :: "'z blk_state_scheme \<Rightarrow> 'z blk_state_scheme outcome" where
  "virtio_disk_intr s = intr_loop (Suc NUM) s"

definition format_descs :: "nat list \<Rightarrow> nat \<Rightarrow> bool \<Rightarrow> 64 word \<Rightarrow> vdisk \<Rightarrow> vdisk" where
  "format_descs idx b wr sec v =
     (let i0 = idx ! 0; i1 = idx ! 1; i2 = idx ! 2;
          ops = upd_at i0 (\<lambda>r. r\<lparr>r_type := (if wr then VIRTIO_BLK_T_OUT else VIRTIO_BLK_T_IN),
                  r_reserved := 0, r_sector := sec\<rparr>) (vd_ops v);
          desc0 = upd_at i0 (\<lambda>d. d\<lparr>d_addr := OpsObj i0, d_len := 16,
                  d_flags := VRING_DESC_F_NEXT, d_next := of_nat i1\<rparr>) (vd_desc v);
          desc1 = upd_at i1 (\<lambda>d. d\<lparr>d_addr := DataObj b, d_len := of_nat BSIZE,
                  d_flags := (if wr then 0 else VRING_DESC_F_WRITE) OR VRING_DESC_F_NEXT, d_next := of_nat i2\<rparr>) desc0;
          desc2 = upd_at i2 (\<lambda>d. d\<lparr>d_addr := StatusObj i0, d_len := 1,
                  d_flags := VRING_DESC_F_WRITE, d_next := 0\<rparr>) desc1
      in v\<lparr>vd_ops := ops, vd_desc := desc2, vd_info_status := (vd_info_status v)[i0 := 0xff],
           vd_info_b := (vd_info_b v)[i0 := Some b]\<rparr>)"

definition put_avail :: "nat \<Rightarrow> vdisk \<Rightarrow> vdisk" where
  "put_avail i v = v\<lparr>vd_avail_ring := (vd_avail_ring v)[unat (vd_avail_idx v) mod NUM := of_nat i],
     vd_avail_idx := vd_avail_idx v + 1\<rparr>"

fun await_disk :: "nat \<Rightarrow> nat \<Rightarrow> 'z blk_state_scheme \<Rightarrow> 'z blk_state_scheme outcome" where
  "await_disk 0 b s = Hang"
| "await_disk (Suc fuel) b s =
     (if b_disk (bcache s ! b) then obind (virtio_disk_intr (device_step s)) (await_disk fuel b) else Ret s)"

definition virtio_disk_rw :: "nat \<Rightarrow> bool \<Rightarrow> 'z blk_state_scheme \<Rightarrow> 'z blk_state_scheme outcome" where
  "virtio_disk_rw b wr s =
     (let sec = ucast (b_blockno (bcache s ! b) * 2) in
      obind (alloc3_desc s) (\<lambda>(r, idx, s1).
        if r \<noteq> 0 then Hang
        else
          let s2 = upd_vd (format_descs idx b wr sec) s1;
              s3 = upd_vd (put_avail (idx ! 0)) (upd_buf b (\<lambda>x. x\<lparr>b_disk := True\<rparr>) s2)
          in obind (await_disk (Suc NUM) b s3) (\<lambda>s4.
               free_chain NUM (idx ! 0) (upd_vd (\<lambda>v. v\<lparr>vd_info_b := (vd_info_b v)[idx ! 0 := None]\<rparr>) s4))))"


section \<open>Initialisation\<close>

text \<open>
  \<open>virtio_disk_init\<close> reads the device's registers, whose values are the argument, and returns the
  register writes it makes, in order, as pairs of offset and value.
\<close>

record virtio_regs =
  rg_magic :: uint
  rg_version :: uint
  rg_device_id :: uint
  rg_vendor :: uint
  rg_features :: uint
  rg_status :: uint
  rg_ready :: uint
  rg_num_max :: uint

definition driver_features :: "uint \<Rightarrow> uint" where
  "driver_features f = ucast (fold (\<lambda>k x. x AND NOT (push_bit k 1)) [5, 7, 11, 12, 27, 29, 28] (ucast f :: 64 word))"

definition vdisk_reset :: "vdisk \<Rightarrow> vdisk" where
  "vdisk_reset v = v\<lparr>vd_desc := replicate NUM \<lparr>d_addr = NoObj, d_len = 0, d_flags = 0, d_next = 0\<rparr>,
     vd_avail_idx := 0, vd_avail_ring := replicate NUM 0, vd_used_ridx := 0, vd_used_ring := replicate NUM (0, 0),
     vd_free := replicate NUM True\<rparr>"

definition queue_setup :: "addr \<Rightarrow> addr \<Rightarrow> addr \<Rightarrow> (nat \<times> uint) list" where
  "queue_setup desc avail used =
     [(0x38, of_nat NUM), (0x80, ucast desc), (0x84, ucast (drop_bit 32 desc)),
      (0x90, ucast avail), (0x94, ucast (drop_bit 32 avail)), (0xa0, ucast used), (0xa4, ucast (drop_bit 32 used)),
      (0x44, 1)]"

definition virtio_disk_init ::
  "virtio_regs \<Rightarrow> 'z blk_state_scheme \<Rightarrow> ((nat \<times> uint) list \<times> 'z blk_state_scheme) outcome" where
  "virtio_disk_init r s =
     (if rg_magic r \<noteq> 0x74726976 \<or> rg_version r \<noteq> 2 \<or> rg_device_id r \<noteq> 2 \<or> rg_vendor r \<noteq> 0x554d4551
      then Panic ''could not find virtio disk''
      else if rg_status r AND 8 = 0 then Panic ''virtio disk FEATURES_OK unset''
      else if rg_ready r \<noteq> 0 then Panic ''virtio disk should not be ready''
      else if rg_num_max r = 0 then Panic ''virtio disk has no queue 0''
      else if rg_num_max r < of_nat NUM then Panic ''virtio disk max queue too short''
      else
        let (desc, s1) = kalloc s; (avail, s2) = kalloc s1; (used, s3) = kalloc s2 in
        if desc = 0 \<or> avail = 0 \<or> used = 0 then Panic ''virtio disk kalloc''
        else
          let m1 = memset (pmem s3) desc 0 4096; m2 = memset m1 avail 0 4096; m3 = memset m2 used 0 4096 in
          Ret ([(0x70, 0), (0x70, 1), (0x70, 3), (0x20, driver_features (rg_features r)), (0x70, 11), (0x30, 0)]
               @ queue_setup desc avail used @ [(0x70, rg_status r OR 4)],
               upd_vd vdisk_reset (s3\<lparr>pmem := m3, dev_avail := 0\<rparr>)))"

section \<open>The driver is a synchronous disk\<close>

definition vd_rings :: "vdisk \<Rightarrow> 16 word \<Rightarrow> bool" where
  "vd_rings v a \<longleftrightarrow>
     vd_free v = replicate NUM True \<and> length (vd_desc v) = NUM \<and> length (vd_ops v) = NUM \<and>
     length (vd_avail_ring v) = NUM \<and> length (vd_used_ring v) = NUM \<and> length (vd_info_b v) = NUM \<and>
     length (vd_info_status v) = NUM \<and> vd_used_idx v = vd_used_ridx v \<and> a = vd_avail_idx v"

definition vd_idle :: "'z blk_state_scheme \<Rightarrow> bool" where
  "vd_idle s \<longleftrightarrow> vd_rings (vdisk s) (dev_avail s) \<and> device_ok (blk_dev s)"

lemma alloc3_idle:
  assumes "vd_free (vdisk s) = replicate NUM True"
  shows "alloc3_desc s = Ret (0, [0, 1, 2], upd_vd (\<lambda>v. v\<lparr>vd_free := [False, False, False, True, True, True, True, True]\<rparr>) s)"
  using assms by (simp add: alloc3_desc_def alloc_desc_def eval_nat_numeral)


lemma half_ne [simp]: "(x :: 16 word) + 1 \<noteq> x" "x \<noteq> (x :: 16 word) + 1"
  by simp_all

definition transfer :: "nat \<Rightarrow> bool \<Rightarrow> 'z blk_state_scheme \<Rightarrow> 'z blk_state_scheme" where
  "transfer b wr s =
     (let sec = ucast (b_blockno (bcache s ! b) * 2) in
      if wr
      then s\<lparr>platter := (platter s)(sec := b_data (bcache s ! b)), dev_writes := dev_writes s @ [(sec, b_data (bcache s ! b))],
             bcache := upd_at b (\<lambda>x. x\<lparr>b_disk := False\<rparr>) (bcache s)\<rparr>
      else s\<lparr>bcache := upd_at b (\<lambda>x. x\<lparr>b_data := platter s sec, b_disk := False\<rparr>) (bcache s)\<rparr>)"


text \<open>A request in flight: descriptors 0, 1 and 2 describe the transfer for buffer \<open>b\<close>.\<close>

definition queued :: "nat \<Rightarrow> bool \<Rightarrow> 64 word \<Rightarrow> vdisk \<Rightarrow> bool" where
  "queued b wr sec v \<longleftrightarrow>
     vd_desc v ! 0 = \<lparr>d_addr = OpsObj 0, d_len = 16, d_flags = 1, d_next = 1\<rparr> \<and>
     vd_desc v ! 1 = \<lparr>d_addr = DataObj b, d_len = 1024, d_flags = (if wr then 1 else 3), d_next = 2\<rparr> \<and>
     vd_desc v ! 2 = \<lparr>d_addr = StatusObj 0, d_len = 1, d_flags = 2, d_next = 0\<rparr> \<and>
     vd_ops v ! 0 = \<lparr>r_type = (if wr then 1 else 0), r_reserved = 0, r_sector = sec\<rparr>"

lemma queued_format:
  assumes "length (vd_desc v) = NUM" "length (vd_ops v) = NUM"
  shows "queued b wr sec (put_avail 0 (format_descs [0, 1, 2] b wr sec v))"
  using assms by (simp add: queued_def put_avail_def format_descs_def Let_def nth_upd_at)

text \<open>The request as the device sees it.\<close>

definition sent_header :: "bool \<Rightarrow> 64 word \<Rightarrow> virtio_blk_req" where
  "sent_header wr sec = \<lparr>r_type = (if wr then 1 else 0), r_reserved = 0, r_sector = sec\<rparr>"

definition sent_chain :: "nat \<Rightarrow> bool \<Rightarrow> virtq_desc list" where
  "sent_chain b wr = [\<lparr>d_addr = OpsObj 0, d_len = 16, d_flags = 1, d_next = 1\<rparr>,
     \<lparr>d_addr = DataObj b, d_len = 1024, d_flags = (if wr then 1 else 3), d_next = 2\<rparr>,
     \<lparr>d_addr = StatusObj 0, d_len = 1, d_flags = 2, d_next = 0\<rparr>]"

lemma sent_ok: "request_ok (sent_header wr sec) (sent_chain b wr)"
  by (simp add: sent_header_def sent_chain_def)

lemma device_serves:
  assumes "queued b wr sec (vdisk s)" "vd_avail_idx (vdisk s) = dev_avail s + 1"
    and "vd_avail_ring (vdisk s) ! (unat (dev_avail s) mod 8) = 0"
    and "blk_dev s (sent_header wr sec) (sent_chain b wr) (b_data (bcache s ! b)) (platter s) = (st, data, pl)"
  shows "device_step s = (let v = vdisk s in s\<lparr>dev_avail := dev_avail s + 1, vdisk := v\<lparr>
       vd_used_ring := (vd_used_ring v)[unat (vd_used_ridx v) mod 8 := (0, 1024)],
       vd_used_ridx := vd_used_ridx v + 1, vd_info_status := (vd_info_status v)[0 := st]\<rparr>, platter := pl,
       dev_writes := (if wr \<and> st = 0 then dev_writes s @ [(sec, b_data (bcache s ! b))] else dev_writes s),
       bcache := upd_at b (\<lambda>x. x\<lparr>b_data := data\<rparr>) (bcache s)\<rparr>)"
proof -
  have q: "dev_avail s \<noteq> vd_avail_idx (vdisk s)" "unat (0 :: 16 word) = 0" "unat (1 :: 16 word) = 1" "unat (2 :: 16 word) = 2"
    using assms(2) by simp_all
  note h = assms(1) [unfolded queued_def]
  note d = h [THEN conjunct1] h [THEN conjunct2, THEN conjunct1] h [THEN conjunct2, THEN conjunct2, THEN conjunct1]
    h [THEN conjunct2, THEN conjunct2, THEN conjunct2]
  note r = assms(4) [unfolded sent_header_def sent_chain_def]
  show ?thesis
    by (cases wr) (use r in \<open>simp_all add: device_step_def Let_def q d assms(3) del: One_nat_def\<close>)
qed

lemma intr_idle [simp]: "vd_used_idx (vdisk s) = vd_used_ridx (vdisk s) \<Longrightarrow> 0 < n \<Longrightarrow> intr_loop n s = Ret s"
  by (cases n) simp_all

lemma intr_one:
  assumes "vd_used_ridx (vdisk s) = vd_used_idx (vdisk s) + 1" "vd_used_ring (vdisk s) ! (unat (vd_used_idx (vdisk s)) mod 8) = (0, n)"
    and "vd_info_status (vdisk s) ! 0 = 0" "vd_info_b (vdisk s) ! 0 = Some b"
  shows "virtio_disk_intr s = Ret (upd_vd (\<lambda>w. w\<lparr>vd_used_idx := vd_used_idx w + 1\<rparr>)
                 (wakeup (ChanBuf b) (upd_buf b (\<lambda>x. x\<lparr>b_disk := False\<rparr>) s)))"
proof -
  have n: "Suc NUM = Suc (Suc 7)" by simp
  show ?thesis unfolding virtio_disk_intr_def n intr_loop.simps(2) [of "Suc 7"]
    using assms by (simp add: Let_def wakeup_def)
qed

lemma await_once:
  "b_disk (bcache s ! b) \<Longrightarrow> virtio_disk_intr (device_step s) = Ret t \<Longrightarrow> \<not> b_disk (bcache t ! b) \<Longrightarrow>
   await_disk (Suc (Suc n)) b s = Ret t"
  by simp

definition freed :: "nat \<Rightarrow> 'z blk_state_scheme \<Rightarrow> 'z blk_state_scheme" where
  "freed i s = wakeup ChanDescFree (upd_vd (\<lambda>v. v\<lparr>
     vd_desc := upd_at i (\<lambda>d. d\<lparr>d_addr := NoObj, d_len := 0, d_flags := 0, d_next := 0\<rparr>) (vd_desc v),
     vd_free := (vd_free v)[i := True]\<rparr>) s)"

lemma free_desc_freed: "i < NUM \<Longrightarrow> \<not> vd_free (vdisk s) ! i \<Longrightarrow> free_desc i s = Ret (freed i s)"
  by (simp add: free_desc_def freed_def)

lemma freed_vdisk [simp]:
  "vd_desc (vdisk (freed i s)) = upd_at i (\<lambda>d. d\<lparr>d_addr := NoObj, d_len := 0, d_flags := 0, d_next := 0\<rparr>) (vd_desc (vdisk s))"
  "vd_free (vdisk (freed i s)) = (vd_free (vdisk s))[i := True]"
  by (simp_all add: freed_def wakeup_def)

lemma freed_fields: "\<exists>d f ps. freed i s = s\<lparr>vdisk := (vdisk s)\<lparr>vd_desc := d, vd_free := f\<rparr>, ptable := ps\<rparr> \<and> woken (ptable s) ps"
  unfolding freed_def wakeup_def
  by (intro exI conjI, rule refl) simp

lemma freed_fields3: "\<exists>d f ps. freed k (freed j (freed i s)) = s\<lparr>vdisk := (vdisk s)\<lparr>vd_desc := d, vd_free := f\<rparr>, ptable := ps\<rparr> \<and>
    woken (ptable s) ps"
proof -
  obtain d f ps where 1: "freed i s = s\<lparr>vdisk := (vdisk s)\<lparr>vd_desc := d, vd_free := f\<rparr>, ptable := ps\<rparr>" "woken (ptable s) ps"
    using freed_fields by blast
  obtain d' f' ps' where 2: "freed j (freed i s) = (freed i s)\<lparr>vdisk := (vdisk (freed i s))\<lparr>vd_desc := d', vd_free := f'\<rparr>, ptable := ps'\<rparr>"
    "woken (ptable (freed i s)) ps'"
    using freed_fields by blast
  obtain d'' f'' ps'' where 3: "freed k (freed j (freed i s)) =
      (freed j (freed i s))\<lparr>vdisk := (vdisk (freed j (freed i s)))\<lparr>vd_desc := d'', vd_free := f''\<rparr>, ptable := ps''\<rparr>"
    "woken (ptable (freed j (freed i s))) ps''"
    using freed_fields by blast
  have p: "ptable (freed i s) = ps" "ptable (freed j (freed i s)) = ps'"
    by (subst 1(1), simp) (subst 2(1), simp)
  have "woken (ptable s) ps''" using 1(2) 2(2) 3(2) unfolding p by (blast intro: woken_trans)
  moreover have "freed k (freed j (freed i s)) = s\<lparr>vdisk := (vdisk s)\<lparr>vd_desc := d'', vd_free := f''\<rparr>, ptable := ps''\<rparr>"
    unfolding 3(1) unfolding 2(1) unfolding 1(1) by simp
  ultimately show ?thesis by blast
qed

lemma free_chain_three:
  assumes "queued b wr sec (vdisk s)" "length (vd_desc (vdisk s)) = NUM" 
    "vd_free (vdisk s) = [False, False, False, True, True, True, True, True]"
  shows "free_chain (Suc (Suc (Suc n))) 0 s = Ret (freed 2 (freed 1 (freed 0 s)))"
proof -
  have f: "d_flags (vd_desc (vdisk s) ! 0) = 1" "d_next (vd_desc (vdisk s) ! 0) = 1"
    "d_flags (vd_desc (vdisk s) ! 1) = (if wr then 1 else 3)" "d_next (vd_desc (vdisk s) ! 1) = 2"
    "d_flags (vd_desc (vdisk s) ! 2) = 2"
    using assms(1) by (simp_all add: queued_def)
  show ?thesis using assms(2) by (simp add: free_desc_freed assms(3) f [simplified] Let_def)
qed

text \<open>The state in which the process starts to wait for its request.\<close>

definition submitted :: "nat \<Rightarrow> bool \<Rightarrow> 64 word \<Rightarrow> 'z blk_state_scheme \<Rightarrow> 'z blk_state_scheme" where
  "submitted b wr sec s = s\<lparr>bcache := upd_at b (\<lambda>x. x\<lparr>b_disk := True\<rparr>) (bcache s),
     vdisk := put_avail 0 (format_descs [0, 1, 2] b wr sec ((vdisk s)\<lparr>vd_free := [False, False, False, True, True, True, True, True]\<rparr>))\<rparr>"

lemma submitted_queued:
  assumes "vd_rings (vdisk s) (dev_avail s)"
  shows "queued b wr sec (vdisk (submitted b wr sec s))"
  unfolding submitted_def using assms queued_format [of "(vdisk s)\<lparr>vd_free := _\<rparr>"] by (simp add: vd_rings_def del: One_nat_def)

lemma submitted_vdisk:
  assumes "vd_rings (vdisk s) (dev_avail s)" "v = vdisk (submitted b wr sec s)"
  shows "length (vd_desc v) = 8" "length (vd_ops v) = 8" "length (vd_avail_ring v) = 8" "length (vd_used_ring v) = 8"
    "length (vd_info_b v) = 8" "length (vd_info_status v) = 8" "vd_used_idx v = vd_used_ridx v" "vd_avail_idx v = dev_avail s + 1"
    "vd_free v = [False, False, False, True, True, True, True, True]" "vd_avail_ring v ! (unat (dev_avail s) mod 8) = 0" "vd_info_b v ! 0 = Some b"
  using assms by (simp_all add: submitted_def vd_rings_def put_avail_def format_descs_def Let_def)

lemma submitted_device:
  assumes "vd_rings (vdisk s) (dev_avail s)" "b < length (bcache s)"
    "blk_dev s (sent_header wr sec) (sent_chain b wr) (b_data (bcache s ! b)) (platter s) = (st, data, pl)"
  shows "device_step (submitted b wr sec s) = (let v = vdisk (submitted b wr sec s) in s\<lparr>dev_avail := dev_avail s + 1, vdisk := v\<lparr>
       vd_used_ring := (vd_used_ring v)[unat (vd_used_ridx v) mod 8 := (0, 1024)],
       vd_used_ridx := vd_used_ridx v + 1, vd_info_status := (vd_info_status v)[0 := st]\<rparr>, platter := pl,
       dev_writes := (if wr \<and> st = 0 then dev_writes s @ [(sec, b_data (bcache s ! b))] else dev_writes s),
       bcache := upd_at b (\<lambda>x. x\<lparr>b_disk := True, b_data := data\<rparr>) (bcache s)\<rparr>)"
proof -
  define u where "u = submitted b wr sec s"
  have u: "dev_avail u = dev_avail s" "blk_dev u = blk_dev s" "platter u = platter s" "dev_writes u = dev_writes s"
    "bcache u = upd_at b (\<lambda>x. x\<lparr>b_disk := True\<rparr>) (bcache s)" "b_data (bcache u ! b) = b_data (bcache s ! b)"
    using assms(2) by (simp_all add: u_def submitted_def)
  have q: "queued b wr sec (vdisk u)" using submitted_queued [OF assms(1)] by (simp add: u_def)
  note i = submitted_vdisk [OF assms(1), of "vdisk u" b wr sec, unfolded u_def, OF refl, folded u_def]
  have "device_step u = (let v = vdisk u in u\<lparr>dev_avail := dev_avail s + 1, vdisk := v\<lparr>
       vd_used_ring := (vd_used_ring v)[unat (vd_used_ridx v) mod 8 := (0, 1024)],
       vd_used_ridx := vd_used_ridx v + 1, vd_info_status := (vd_info_status v)[0 := st]\<rparr>, platter := pl,
       dev_writes := (if wr \<and> st = 0 then dev_writes s @ [(sec, b_data (bcache s ! b))] else dev_writes s),
       bcache := upd_at b (\<lambda>x. x\<lparr>b_data := data\<rparr>) (bcache u)\<rparr>)"
    using device_serves [of b wr sec u st data pl, OF q] i assms(3) u by simp
  moreover have "u\<lparr>dev_avail := a, vdisk := v, platter := pl, dev_writes := w, bcache := c\<rparr> =
      s\<lparr>dev_avail := a, vdisk := v, platter := pl, dev_writes := w, bcache := c\<rparr>" for a v w c
    by (simp add: u_def submitted_def)
  moreover have "upd_at b (\<lambda>x. x\<lparr>b_data := data\<rparr>) (bcache u) = upd_at b (\<lambda>x. x\<lparr>b_disk := True, b_data := data\<rparr>) (bcache s)"
    using assms(2) by (simp add: u(5) upd_at_def)
  ultimately show ?thesis unfolding u_def [symmetric] Let_def by (simp only:)
qed

lemma rw_submitted:
  assumes "vd_rings (vdisk s) (dev_avail s)"
  shows "virtio_disk_rw b wr s = obind (await_disk (Suc NUM) b (submitted b wr (ucast (b_blockno (bcache s ! b) * 2)) s))
    (\<lambda>t. free_chain NUM 0 (upd_vd (\<lambda>v. v\<lparr>vd_info_b := (vd_info_b v)[0 := None]\<rparr>) t))"
  unfolding virtio_disk_rw_def Let_def using alloc3_idle [of s] assms by (simp add: vd_rings_def Let_def submitted_def)

lemma device_answer:
  assumes "device_ok (blk_dev s)" "length bs = BSIZE"
  shows "blk_dev s (sent_header wr sec) (sent_chain b wr) bs pl = (0, if wr then bs else pl sec, if wr then pl(sec := bs) else pl)"
  using assms sent_ok [of wr sec b] unfolding device_ok_def by (auto simp: sent_header_def)

text \<open>The interrupt handler panics when the device reports an error.\<close>

lemma intr_error:
  assumes "vd_used_ridx (vdisk s) = vd_used_idx (vdisk s) + 1" "vd_used_ring (vdisk s) ! (unat (vd_used_idx (vdisk s)) mod 8) = (0, n)"
    and "vd_info_status (vdisk s) ! 0 \<noteq> 0"
  shows "virtio_disk_intr s = Panic ''virtio_disk_intr status''"
  unfolding virtio_disk_intr_def intr_loop.simps(2) using assms by (simp add: Let_def)

lemma transfer_eq:
  assumes "vd_idle s" "b < length (bcache s)" "length (b_data (bcache s ! b)) = BSIZE"
  shows "\<exists>t v ps a. virtio_disk_rw b wr s = Ret t \<and> vd_idle t \<and> t = (transfer b wr s)\<lparr>vdisk := v, ptable := ps, dev_avail := a\<rparr> \<and>
    woken (ptable s) ps"
proof -
  have dev: "device_ok (blk_dev s)" and ring: "vd_rings (vdisk s) (dev_avail s)" using assms(1) by (simp_all add: vd_idle_def)
  define sec :: "64 word" where "sec = ucast (b_blockno (bcache s ! b) * 2)"
  define s3 where "s3 = submitted b wr sec s"
  define v3 where "v3 = vdisk s3"
  have q: "queued b wr sec v3" unfolding v3_def s3_def using ring by (rule submitted_queued)
  note i = submitted_vdisk [OF ring v3_def [unfolded s3_def]]
    define s4 where "s4 = device_step s3"
  define v4 where "v4 = v3\<lparr>vd_used_ring := (vd_used_ring v3)[unat (vd_used_ridx v3) mod 8 := (0, 1024)],
       vd_used_ridx := vd_used_ridx v3 + 1, vd_info_status := (vd_info_status v3)[0 := 0]\<rparr>"
  have s4: "s4 = s\<lparr>dev_avail := dev_avail s + 1, vdisk := v4, 
       platter := (if wr then (platter s)(sec := b_data (bcache s ! b)) else platter s), 
       dev_writes := (if wr then dev_writes s @ [(sec, b_data (bcache s ! b))] else dev_writes s),
       bcache := upd_at b (\<lambda>x. x\<lparr>b_disk := True, b_data := if wr then b_data (bcache s ! b) else platter s sec\<rparr>) (bcache s)\<rparr>"
    unfolding s4_def s3_def submitted_device [OF ring assms(2) device_answer [OF dev assms(3)]]
    by (simp add: v4_def v3_def s3_def Let_def)
  define s5 where "s5 = upd_vd (\<lambda>w. w\<lparr>vd_used_idx := vd_used_idx w + 1\<rparr>)
                 (wakeup (ChanBuf b) (upd_buf b (\<lambda>x. x\<lparr>b_disk := False\<rparr>) s4))"
  have b4: "b_disk (bcache s3 ! b)" "length (bcache s4) = length (bcache s)" "vdisk s4 = v4" "ptable s4 = ptable s"
    using assms(2) by (simp_all add: s3_def submitted_def s4)
  have "virtio_disk_intr s4 = Ret s5"
    unfolding s5_def using i q by (intro intr_one) (simp_all add: b4 v4_def queued_def)
  moreover have "\<not> b_disk (bcache s5 ! b)" using b4 assms(2) by (simp add: s5_def wakeup_def)
  ultimately have w: "await_disk (Suc NUM) b s3 = Ret s5"
    using await_once [of s3 b s5 7] b4 by (simp add: s4_def)
  define s6 where "s6 = upd_vd (\<lambda>v. v\<lparr>vd_info_b := (vd_info_b v)[0 := None]\<rparr>) s5"
  have f: "free_chain (Suc (Suc (Suc 5))) 0 s6 = Ret (freed 2 (freed 1 (freed 0 s6)))"
    by (rule free_chain_three [where wr = wr and b = b and sec = sec])
      (use q i in \<open>simp_all add: s6_def s5_def wakeup_def b4 v4_def queued_def\<close>)
  have run: "virtio_disk_rw b wr s = Ret (freed 2 (freed 1 (freed 0 s6)))"
    unfolding rw_submitted [OF ring] sec_def [symmetric] s3_def [symmetric] w using f by (simp add: s6_def)
  have t3: "\<exists>d f ps. freed 2 (freed 1 (freed 0 s6)) = s6\<lparr>vdisk := (vdisk s6)\<lparr>vd_desc := d, vd_free := f\<rparr>, ptable := ps\<rparr> \<and>
      woken (ptable s6) ps"
    by (rule freed_fields3)
  then obtain d f ps where r: "freed 2 (freed 1 (freed 0 s6)) = s6\<lparr>vdisk := (vdisk s6)\<lparr>vd_desc := d, vd_free := f\<rparr>, ptable := ps\<rparr>" 
      "woken (ptable s6) ps" by blast
  have df: "d = vd_desc (vdisk (freed 2 (freed 1 (freed 0 s6))))" "f = vd_free (vdisk (freed 2 (freed 1 (freed 0 s6))))"
    by (simp_all only: r(1)) simp_all
  have v6: "length (vd_desc (vdisk s6)) = 8" "vd_free (vdisk s6) = [False, False, False, True, True, True, True, True]"
    using i by (simp_all add: s6_def s5_def wakeup_def b4 v4_def)
  have "length d = 8" "f = replicate 8 True" unfolding df using v6 by (simp_all add: eval_nat_numeral)
  then have "vd_idle (freed 2 (freed 1 (freed 0 s6)))"
    using i dev unfolding r(1) vd_idle_def vd_rings_def by (simp add: Let_def s6_def s5_def wakeup_def b4 v4_def) (simp add: s4)
  moreover have "woken (ptable s) ps"
    by (rule woken_trans [OF _ r(2)]) (simp add: s6_def s5_def wakeup_def b4)
  moreover have "freed 2 (freed 1 (freed 0 s6)) = (transfer b wr s)
      \<lparr>vdisk := (vdisk s6)\<lparr>vd_desc := d, vd_free := f\<rparr>, ptable := ps, dev_avail := dev_avail s + 1\<rparr>"
    by (subst r(1), cases wr)
      (simp_all add: transfer_def Let_def sec_def [symmetric] s6_def s5_def wakeup_def s4 upd_at_def nth_list_update assms(2))
  ultimately show ?thesis using run by blast
qed


lemma rw_error:
  assumes "vd_rings (vdisk s) (dev_avail s)" "b < length (bcache s)"
    "blk_dev s (sent_header wr (ucast (b_blockno (bcache s ! b) * 2))) (sent_chain b wr) (b_data (bcache s ! b)) (platter s) = (st, data, pl)" "st \<noteq> 0"
  shows "virtio_disk_rw b wr s = Panic ''virtio_disk_intr status''"
proof -
  define sec :: "64 word" where "sec = ucast (b_blockno (bcache s ! b) * 2)"
  define s3 where "s3 = submitted b wr sec s"
  note i = submitted_vdisk [OF assms(1) refl, where b = b and wr = wr and sec = sec]
  note d = submitted_device [OF assms(1,2) assms(3) [folded sec_def]]
  have "virtio_disk_intr (device_step s3) = Panic ''virtio_disk_intr status''"
    by (rule intr_error) (use i assms(4) in \<open>simp_all add: s3_def d Let_def\<close>)
  moreover have "b_disk (bcache s3 ! b)" using assms(2) by (simp add: s3_def submitted_def)
  ultimately show ?thesis unfolding rw_submitted [OF assms(1)] sec_def [symmetric] s3_def [symmetric] await_disk.simps(2) by simp
qed

text \<open>
  C24. The driver is a synchronous disk.  With no request in flight, and with a device that serves the requests formed as the
  virtio specification asks, \<open>virtio_disk_rw\<close> returns: a write stores the buffer as the block's two sectors, a read replaces
  the buffer's data by them, and no other buffer and no other block changes.  All descriptors are free again, both rings
  have been consumed, and apart from that only processes sleeping for the driver have been woken.  The device is given the
  type, the sector and the three descriptors of the request; with a device, correct or not, that answers them with
  a status other than 0 the driver panics.
\<close>

theorem virtio_disk_rw_transfers:
  assumes "vd_rings (vdisk s) (dev_avail s)" "b < length (bcache s)" "length (b_data (bcache s ! b)) = BSIZE"
    and "sec = ucast (b_blockno (bcache s ! b) * 2)"
  shows "(device_ok (blk_dev s) \<longrightarrow> (\<exists>t. virtio_disk_rw b wr s = Ret t \<and> vd_idle t \<and> woken (ptable s) (ptable t) \<and>
    platter t = (if wr then (platter s)(sec := b_data (bcache s ! b)) else platter s) \<and>
    bcache t = upd_at b (\<lambda>x. if wr then x\<lparr>b_disk := False\<rparr> else x\<lparr>b_data := platter s sec, b_disk := False\<rparr>) (bcache s) \<and>
    t\<lparr>ptable := ptable s, bcache := bcache s, vdisk := vdisk s, platter := platter s, dev_avail := dev_avail s, dev_writes := dev_writes s\<rparr> = s)) \<and>
    (fst (blk_dev s (sent_header wr sec) (sent_chain b wr) (b_data (bcache s ! b)) (platter s)) \<noteq> 0 \<longrightarrow>
    virtio_disk_rw b wr s = Panic ''virtio_disk_intr status'')"
proof (intro conjI impI)
  assume "device_ok (blk_dev s)"
  then have "vd_idle s" using assms(1) by (simp add: vd_idle_def)
  from transfer_eq [OF this assms(2,3)] obtain t v ps a where t: "virtio_disk_rw b wr s = Ret t" "vd_idle t" "woken (ptable s) ps"
    "t = (transfer b wr s)\<lparr>vdisk := v, ptable := ps, dev_avail := a\<rparr>" by blast
  show "\<exists>t. virtio_disk_rw b wr s = Ret t \<and> vd_idle t \<and> woken (ptable s) (ptable t) \<and>
    platter t = (if wr then (platter s)(sec := b_data (bcache s ! b)) else platter s) \<and>
    bcache t = upd_at b (\<lambda>x. if wr then x\<lparr>b_disk := False\<rparr> else x\<lparr>b_data := platter s sec, b_disk := False\<rparr>) (bcache s) \<and>
    t\<lparr>ptable := ptable s, bcache := bcache s, vdisk := vdisk s, platter := platter s, dev_avail := dev_avail s, dev_writes := dev_writes s\<rparr> = s"
    by (rule exI [of _ t]) (use t in \<open>simp add: transfer_def Let_def assms(4)\<close>)
next
  assume "fst (blk_dev s (sent_header wr sec) (sent_chain b wr) (b_data (bcache s ! b)) (platter s)) \<noteq> 0"
  then show "virtio_disk_rw b wr s = Panic ''virtio_disk_intr status''"
    using rw_error [OF assms(1,2), of wr] assms(4) by (metis prod.collapse)
qed

text \<open>An example: eight free descriptors, empty rings, a cache of zeroed buffers.\<close>

definition buf0 :: buf where
  "buf0 = \<lparr>b_valid = False, b_disk = False, b_dev = 0, b_blockno = 0, b_lock = \<lparr>sl_locked = False, sl_pid = 0\<rparr>, b_refcnt = 0,
     b_prev = 0, b_next = 0, b_data = replicate BSIZE 0\<rparr>"

definition vdisk0 :: vdisk where
  "vdisk0 = \<lparr>vd_desc = replicate NUM \<lparr>d_addr = NoObj, d_len = 0, d_flags = 0, d_next = 0\<rparr>, vd_avail_idx = 0,
     vd_avail_ring = replicate NUM 0, vd_used_ridx = 0, vd_used_ring = replicate NUM (0, 0), vd_free = replicate NUM True,
     vd_used_idx = 0, vd_info_b = replicate NUM None, vd_info_status = replicate NUM 0,
     vd_ops = replicate NUM \<lparr>r_type = 0, r_reserved = 0, r_sector = 0\<rparr>\<rparr>"

definition demo_device :: disk_device where
  "demo_device r ds bs pl = (if \<not> request_ok r ds then (1, bs, pl)
     else if r_type r = VIRTIO_BLK_T_OUT then (0, bs, pl(r_sector r := bs)) else (0, pl (r_sector r), pl))"

lemma demo_device_ok [simp]: "device_ok demo_device"
  by (simp add: device_ok_def demo_device_def)

definition demo_blk :: blk_state where
  "demo_blk = mm_state.extend
     (disk_state.extend (demo_disk\<lparr>ptable := (ptable demo_disk)[3 := proc0\<lparr>p_pid := 7, p_state := RUNNING\<rparr>],
        cpus := (cpus demo_disk)[0 := Some 3]\<rparr>) (mm_state.fields [] 0 [] 0))
     (blk_state.fields (replicate 31 buf0) vdisk0 (\<lambda>_. replicate BSIZE 1) 0 [] demo_device)"

lemma demo_blk_fields [simp]:
  "bcache demo_blk = replicate 31 buf0" "vdisk demo_blk = vdisk0" "platter demo_blk = (\<lambda>_. replicate BSIZE 1)"
  "dev_avail demo_blk = 0" "myproc demo_blk = Some 3" "length (ptable demo_blk) = NPROC" "blk_dev demo_blk = demo_device"
  by (simp_all add: demo_blk_def demo_disk_def demo_state_def myproc_def proc_state.defs disk_state.defs mm_state.defs blk_state.defs)

lemma demo_blk_idle [simp]: "vd_idle demo_blk"
  by (simp add: vd_idle_def vd_rings_def vdisk0_def)

theorem virtio_disk_rw_transfers_witness:
  "vd_rings (vdisk demo_blk) (dev_avail demo_blk) \<and> device_ok (blk_dev demo_blk) \<and>
   (\<exists>t. virtio_disk_rw 4 True demo_blk = Ret t \<and> platter t = (\<lambda>_. replicate BSIZE 1)(0 := replicate BSIZE 0)) \<and>
   virtio_disk_rw 4 True (demo_blk\<lparr>blk_dev := \<lambda>r ds bs pl. (1, bs, pl)\<rparr>) = Panic ''virtio_disk_intr status''"
proof -
  have r: "vd_rings (vdisk demo_blk) (dev_avail demo_blk)" by (simp add: vd_rings_def vdisk0_def)
  show ?thesis
    using virtio_disk_rw_transfers [of demo_blk 4 0 True]
      virtio_disk_rw_transfers [of "demo_blk\<lparr>blk_dev := \<lambda>r ds bs pl. (1, bs, pl)\<rparr>" 4 0 True] r
    by (auto simp: buf0_def)
qed

end
