(* ===== verification/Bio.thy ===== *)
theory Bio
  imports Virtio
begin

text \<open>
  Sleep locks (\<^verbatim>\<open>kernel/sleeplock.c\<close>) and the buffer cache (\<^verbatim>\<open>kernel/bio.c\<close>).

  \<open>bcache\<close> holds the \<open>NBUF\<close> buffers and, at index \<open>NBUF\<close>, the node \<^verbatim>\<open>bcache.head\<close>; the pointers \<^verbatim>\<open>prev\<close> and
  \<^verbatim>\<open>next\<close> are indices into it.  The walks along the list carry fuel \<open>NBUF + 1\<close>, one more than there are
  buffers.  A process that finds a sleep lock held waits until another process releases it; the
  call by itself does not return and is \<open>Hang\<close>.
\<close>

section \<open>Sleep locks\<close>

definition initsleeplock :: "sleeplock \<Rightarrow> sleeplock" where
  "initsleeplock lk = lk\<lparr>sl_locked := False, sl_pid := 0\<rparr>"

definition acquiresleep :: "'z proc_state_scheme \<Rightarrow> sleeplock \<Rightarrow> sleeplock outcome" where
  "acquiresleep s lk =
     (if sl_locked lk then Hang
      else case myproc s of
             None \<Rightarrow> Panic ''kerneltrap''
           | Some p \<Rightarrow> Ret (lk\<lparr>sl_locked := True, sl_pid := p_pid (ptable s ! p)\<rparr>))"

definition releasesleep :: "chan \<Rightarrow> sleeplock \<Rightarrow> 'z proc_state_scheme \<Rightarrow> sleeplock \<times> 'z proc_state_scheme" where
  "releasesleep c lk s = (lk\<lparr>sl_locked := False, sl_pid := 0\<rparr>, wakeup c s)"

definition holdingsleep :: "'z proc_state_scheme \<Rightarrow> sleeplock \<Rightarrow> bool outcome" where
  "holdingsleep s lk =
     (if sl_locked lk then
        (case myproc s of None \<Rightarrow> Panic ''kerneltrap'' | Some p \<Rightarrow> Ret (sl_pid lk = p_pid (ptable s ! p)))
      else Ret False)"

section \<open>The list of buffers\<close>

definition NBUF :: nat where "NBUF = 30"

definition set_prev :: "nat \<Rightarrow> nat \<Rightarrow> buf list \<Rightarrow> buf list" where
  "set_prev i p bs = upd_at i (\<lambda>b. b\<lparr>b_prev := p\<rparr>) bs"

definition set_next :: "nat \<Rightarrow> nat \<Rightarrow> buf list \<Rightarrow> buf list" where
  "set_next i n bs = upd_at i (\<lambda>b. b\<lparr>b_next := n\<rparr>) bs"

definition push_front :: "nat \<Rightarrow> buf list \<Rightarrow> buf list" where
  "push_front b bs =
     (let bs1 = set_next b (b_next (bs ! NBUF)) bs;
          bs2 = set_prev b NBUF bs1;
          bs3 = set_prev (b_next (bs2 ! NBUF)) b bs2
      in set_next NBUF b bs3)"

definition unlink_buf :: "nat \<Rightarrow> buf list \<Rightarrow> buf list" where
  "unlink_buf b bs =
     (let bs1 = set_prev (b_next (bs ! b)) (b_prev (bs ! b)) bs
      in set_next (b_prev (bs1 ! b)) (b_next (bs1 ! b)) bs1)"

fun binit_loop :: "nat list \<Rightarrow> buf list \<Rightarrow> buf list" where
  "binit_loop [] bs = bs"
| "binit_loop (b # is) bs =
     binit_loop is (push_front b (upd_at b (\<lambda>x. x\<lparr>b_lock := initsleeplock (b_lock x)\<rparr>) bs))"

definition binit :: "'z blk_state_scheme \<Rightarrow> 'z blk_state_scheme" where
  "binit s = s\<lparr>bcache := binit_loop [0..<NBUF] (set_next NBUF NBUF (set_prev NBUF NBUF (bcache s)))\<rparr>"

fun find_cached :: "nat \<Rightarrow> uint \<Rightarrow> uint \<Rightarrow> nat \<Rightarrow> buf list \<Rightarrow> nat option outcome" where
  "find_cached 0 dev blockno b bs = Hang"
| "find_cached (Suc fuel) dev blockno b bs =
     (if b = NBUF then Ret None
      else if b_dev (bs ! b) = dev \<and> b_blockno (bs ! b) = blockno then Ret (Some b)
      else find_cached fuel dev blockno (b_next (bs ! b)) bs)"

fun find_unused :: "nat \<Rightarrow> nat \<Rightarrow> buf list \<Rightarrow> nat option outcome" where
  "find_unused 0 b bs = Hang"
| "find_unused (Suc fuel) b bs =
     (if b = NBUF then Ret None
      else if b_refcnt (bs ! b) = 0 then Ret (Some b)
      else find_unused fuel (b_prev (bs ! b)) bs)"

definition lock_buf :: "nat \<Rightarrow> 'z blk_state_scheme \<Rightarrow> (nat \<times> 'z blk_state_scheme) outcome" where
  "lock_buf b s = obind (acquiresleep s (b_lock (bcache s ! b))) (\<lambda>lk. Ret (b, upd_buf b (\<lambda>x. x\<lparr>b_lock := lk\<rparr>) s))"

definition bget :: "uint \<Rightarrow> uint \<Rightarrow> 'z blk_state_scheme \<Rightarrow> (nat \<times> 'z blk_state_scheme) outcome" where
  "bget dev blockno s =
     obind (find_cached (Suc NBUF) dev blockno (b_next (bcache s ! NBUF)) (bcache s)) (\<lambda>hit.
       case hit of
         Some b \<Rightarrow> lock_buf b (upd_buf b (\<lambda>x. x\<lparr>b_refcnt := b_refcnt x + 1\<rparr>) s)
       | None \<Rightarrow>
           obind (find_unused (Suc NBUF) (b_prev (bcache s ! NBUF)) (bcache s)) (\<lambda>free.
             case free of
               Some b \<Rightarrow> lock_buf b (upd_buf b (\<lambda>x. x\<lparr>b_dev := dev, b_blockno := blockno, b_valid := False, b_refcnt := 1\<rparr>) s)
             | None \<Rightarrow> Panic ''bget: no buffers''))"

definition bread_fill :: "nat \<Rightarrow> 'z blk_state_scheme \<Rightarrow> (nat \<times> 'z blk_state_scheme) outcome" where
  "bread_fill b s =
     (if \<not> b_valid (bcache s ! b)
      then obind (virtio_disk_rw b False s) (\<lambda>s1. Ret (b, upd_buf b (\<lambda>x. x\<lparr>b_valid := True\<rparr>) s1))
      else Ret (b, s))"

definition bread :: "uint \<Rightarrow> uint \<Rightarrow> 'z blk_state_scheme \<Rightarrow> (nat \<times> 'z blk_state_scheme) outcome" where
  "bread dev blockno s =
     obind (bget dev blockno s) (\<lambda>(b, s1). bread_fill b s1)"

definition bwrite :: "nat \<Rightarrow> 'z blk_state_scheme \<Rightarrow> 'z blk_state_scheme outcome" where
  "bwrite b s =
     obind (holdingsleep s (b_lock (bcache s ! b))) (\<lambda>h.
       if \<not> h then Panic ''bwrite'' else virtio_disk_rw b True s)"

definition brelse :: "nat \<Rightarrow> 'z blk_state_scheme \<Rightarrow> 'z blk_state_scheme outcome" where
  "brelse b s =
     obind (holdingsleep s (b_lock (bcache s ! b))) (\<lambda>h.
       if \<not> h then Panic ''brelse''
       else
         let (lk, s1) = releasesleep (ChanBufLock b) (b_lock (bcache s ! b)) s;
             s2 = upd_buf b (\<lambda>x. x\<lparr>b_lock := lk, b_refcnt := b_refcnt x - 1\<rparr>) s1
         in if b_refcnt (bcache s2 ! b) = 0
            then Ret (s2\<lparr>bcache := push_front b (unlink_buf b (bcache s2))\<rparr>)
            else Ret s2)"

definition bpin :: "nat \<Rightarrow> 'z blk_state_scheme \<Rightarrow> 'z blk_state_scheme" where
  "bpin b s = upd_buf b (\<lambda>x. x\<lparr>b_refcnt := b_refcnt x + 1\<rparr>) s"

definition bunpin :: "nat \<Rightarrow> 'z blk_state_scheme \<Rightarrow> 'z blk_state_scheme" where
  "bunpin b s = upd_buf b (\<lambda>x. x\<lparr>b_refcnt := b_refcnt x - 1\<rparr>) s"

end
