(* ===== verification/Bcache.thy ===== *)
theory Bcache
  imports Bio
begin

text \<open>
  The buffer cache as an abstract structure: the linked list of \<^verbatim>\<open>kernel/bio.c\<close> is a permutation of the
  buffers ordered from the most to the least recently released, no block of a device is cached twice,
  and the data of a cached block is the current content of the block.
\<close>

section \<open>The linked list\<close>

fun linked :: "buf list \<Rightarrow> nat list \<Rightarrow> bool" where
  "linked bs (a # b # zs) \<longleftrightarrow> b_next (bs ! a) = b \<and> b_prev (bs ! b) = a \<and> linked bs (b # zs)"
| "linked bs _ \<longleftrightarrow> True"

lemma linked_append: "linked bs (xs @ a # ys) \<longleftrightarrow> linked bs (xs @ [a]) \<and> linked bs (a # ys)"
  by (induction bs xs rule: linked.induct) auto

lemma linked_cong:
  "linked bs zs \<Longrightarrow> (\<And>a. a \<in> set (butlast zs) \<Longrightarrow> b_next (cs ! a) = b_next (bs ! a)) \<Longrightarrow>
   (\<And>a. a \<in> set (tl zs) \<Longrightarrow> b_prev (cs ! a) = b_prev (bs ! a)) \<Longrightarrow> linked cs zs"
  by (induction bs zs rule: linked.induct) (auto split: if_splits)

definition cache_list :: "buf list \<Rightarrow> nat list \<Rightarrow> bool" where
  "cache_list bs xs \<longleftrightarrow> length bs = Suc NBUF \<and> distinct xs \<and> set xs = {..<NBUF} \<and> linked bs (NBUF # xs @ [NBUF])"

lemma cache_list_cong:
  assumes "cache_list bs xs" "length cs = length bs"
    and "\<And>i. i < Suc NBUF \<Longrightarrow> b_next (cs ! i) = b_next (bs ! i) \<and> b_prev (cs ! i) = b_prev (bs ! i)"
  shows "cache_list cs xs"
  using assms by (auto simp: cache_list_def intro!: linked_cong [of bs _ cs] dest!: in_set_butlastD)

lemma links_length [simp]: "length (set_next i n bs) = length bs" "length (set_prev i n bs) = length bs"
  by (simp_all add: set_next_def set_prev_def)

lemma prev_set_next [simp]: "b_prev (set_next i n bs ! j) = b_prev (bs ! j)"
  unfolding set_next_def upd_at_def
  by (cases "i < length bs") (simp_all add: nth_list_update list_update_beyond)

lemma next_set_prev [simp]: "b_next (set_prev i n bs ! j) = b_next (bs ! j)"
  unfolding set_prev_def upd_at_def
  by (cases "i < length bs") (simp_all add: nth_list_update list_update_beyond)

lemma links_at:
  "i < length bs \<Longrightarrow> b_next (set_next i n bs ! j) = (if i = j then n else b_next (bs ! j))"
  "i < length bs \<Longrightarrow> b_prev (set_prev i n bs ! j) = (if i = j then n else b_prev (bs ! j))"
  by (auto simp: set_next_def set_prev_def upd_at_def nth_list_update)

lemma unlink_linked:
  assumes "linked bs (NBUF # ps @ b # qs @ [NBUF])" "distinct (ps @ b # qs)" "set (ps @ b # qs) \<subseteq> {..<NBUF}" "length bs = Suc NBUF"
  shows "linked (unlink_buf b bs) (NBUF # ps @ qs @ [NBUF])"
proof -
  obtain us p where p: "NBUF # ps = us @ [p]" by (metis rev_exhaust list.distinct(1))
  obtain q vs where q: "qs @ [NBUF] = q # vs" by (cases "qs @ [NBUF]") auto
  have l: "linked bs ((us @ [p]) @ b # q # vs)" using assms(1) p q by (metis append_Cons append_assoc)
  then have l1: "linked bs (us @ [p])" "linked bs (q # vs)" "b_prev (bs ! b) = p" "b_next (bs ! b) = q"
    using linked_append [of bs us p "b # q # vs"] by simp_all
  have ran: "p < length bs" "q < length bs" "b < length bs" "q \<noteq> b" "p \<noteq> b"
    using p q assms(2-4) by (auto simp: append_eq_Cons_conv Cons_eq_append_conv)
  have u: "b_next (unlink_buf b bs ! j) = (if p = j then q else b_next (bs ! j))"
    "b_prev (unlink_buf b bs ! j) = (if q = j then p else b_prev (bs ! j))" for j
    using ran by (simp_all add: unlink_buf_def l1 links_at Let_def)
  have d: "distinct (us @ [p])" "distinct (q # vs)" "q \<notin> set (tl (us @ [p]))" "p \<notin> set (butlast (q # vs))"
    unfolding p [symmetric] q [symmetric] using assms(2,3) q p by (auto simp: append_eq_Cons_conv Cons_eq_append_conv)
  have "linked (unlink_buf b bs) (us @ [p])"
    using d by (intro linked_cong [OF l1(1)]) (auto simp: u)
  moreover have "linked (unlink_buf b bs) (q # vs)"
    using d by (intro linked_cong [OF l1(2)]) (auto simp: u)
  ultimately have "linked (unlink_buf b bs) (us @ p # q # vs)"
    using linked_append [of "unlink_buf b bs" us p "q # vs"] by (simp add: u)
  then show ?thesis using p q by (metis append_Cons append_assoc append_Nil)
qed

lemma push_linked:
  assumes "linked bs (NBUF # ys @ [NBUF])" "distinct ys" "set ys \<subseteq> {..<NBUF}" "length bs = Suc NBUF" "b < NBUF" "b \<notin> set ys"
  shows "linked (push_front b bs) (NBUF # b # ys @ [NBUF])"
proof -
  obtain f vs where f: "ys @ [NBUF] = f # vs" by (cases "ys @ [NBUF]") auto
  have l: "b_next (bs ! NBUF) = f" "linked bs (f # vs)" using assms(1) f by simp_all
  have ran: "b < length bs" "f < length bs" "NBUF < length bs" "b \<noteq> f" "b \<noteq> NBUF" "b \<notin> set vs" "f \<notin> set vs"
    using f assms by (auto simp: append_eq_Cons_conv)
  have u: "b_next (push_front b bs ! j) = (if NBUF = j then b else if b = j then f else b_next (bs ! j))"
    "b_prev (push_front b bs ! j) = (if f = j then b else if b = j then NBUF else b_prev (bs ! j))" for j
    using ran by (simp_all add: push_front_def l links_at Let_def)
  have d: "NBUF \<notin> set (butlast (f # vs))" unfolding f [symmetric] using assms(3) by auto
  have "linked (push_front b bs) (f # vs)"
    using d ran by (intro linked_cong [OF l(2)]) (auto simp: u split: if_splits dest: in_set_butlastD)
  then show ?thesis unfolding f using ran by (simp add: u)
qed

lemma unlink_push_length [simp]: "length (unlink_buf b bs) = length bs" "length (push_front b bs) = length bs"
  by (simp_all add: unlink_buf_def push_front_def Let_def)

lemma unlink_front:
  assumes "cache_list bs (ps @ b # qs)"
  shows "cache_list (push_front b (unlink_buf b bs)) (b # ps @ qs)"
proof -
  have c: "length bs = Suc NBUF" "distinct (ps @ b # qs)" "set (ps @ b # qs) = {..<NBUF}"
    "linked bs (NBUF # ps @ b # qs @ [NBUF])"
    using assms by (simp_all add: cache_list_def)
  then have "linked (unlink_buf b bs) (NBUF # (ps @ qs) @ [NBUF])"
    using unlink_linked [of bs ps b qs] by simp
  then have "linked (push_front b (unlink_buf b bs)) (NBUF # b # (ps @ qs) @ [NBUF])"
    by (rule push_linked) (use c in auto)
  moreover have "set (b # ps @ qs) = set (ps @ b # qs)" by auto
  ultimately show ?thesis using c unfolding cache_list_def by simp
qed

section \<open>Everything but the links\<close>

definition strip :: "buf list \<Rightarrow> buf list" where
  "strip bs = map (\<lambda>b. b\<lparr>b_prev := 0, b_next := 0\<rparr>) bs"

lemma strip_links [simp]:
  "strip (set_next i n bs) = strip bs" "strip (set_prev i n bs) = strip bs"
  "strip (push_front b bs) = strip bs" "strip (unlink_buf b bs) = strip bs"
proof -
  show n: "strip (set_next i n bs) = strip bs" "strip (set_prev i n bs) = strip bs" for i n bs
    by (auto simp: strip_def set_next_def set_prev_def intro!: nth_equalityI)
  show "strip (push_front b bs) = strip bs" "strip (unlink_buf b bs) = strip bs"
    by (simp_all add: push_front_def unlink_buf_def Let_def n)
qed

lemma strip_nth:
  assumes "strip cs = strip bs" "i < length bs"
  shows "b_valid (cs ! i) = b_valid (bs ! i)" "b_disk (cs ! i) = b_disk (bs ! i)" "b_dev (cs ! i) = b_dev (bs ! i)"
    "b_blockno (cs ! i) = b_blockno (bs ! i)" "b_lock (cs ! i) = b_lock (bs ! i)" "b_refcnt (cs ! i) = b_refcnt (bs ! i)"
    "b_data (cs ! i) = b_data (bs ! i)"
proof -
  have "length cs = length bs" using assms(1) unfolding strip_def by (metis length_map)
  then have e: "(cs ! i)\<lparr>b_prev := 0, b_next := 0\<rparr> = (bs ! i)\<lparr>b_prev := 0, b_next := 0\<rparr>"
    using assms unfolding strip_def by (metis nth_map)
  show "b_valid (cs ! i) = b_valid (bs ! i)" "b_disk (cs ! i) = b_disk (bs ! i)" "b_dev (cs ! i) = b_dev (bs ! i)"
    "b_blockno (cs ! i) = b_blockno (bs ! i)" "b_lock (cs ! i) = b_lock (bs ! i)" "b_refcnt (cs ! i) = b_refcnt (bs ! i)"
    "b_data (cs ! i) = b_data (bs ! i)"
    using arg_cong [OF e, of b_valid] arg_cong [OF e, of b_disk] arg_cong [OF e, of b_dev] arg_cong [OF e, of b_blockno]
      arg_cong [OF e, of b_lock] arg_cong [OF e, of b_refcnt] arg_cong [OF e, of b_data] by simp_all
qed

lemma binit_list:
  assumes "length (bcache s) = Suc NBUF"
  shows "cache_list (bcache (binit s)) (rev [0..<NBUF])"
proof -
  have loop: "linked (binit_loop [k..<NBUF] bs) (NBUF # rev [0..<NBUF] @ [NBUF]) \<and> length (binit_loop [k..<NBUF] bs) = Suc NBUF"
    if "linked bs (NBUF # rev [0..<k] @ [NBUF])" "k \<le> NBUF" "length bs = Suc NBUF" for k bs
    using that
  proof (induction "NBUF - k" arbitrary: k bs)
    case 0
    then show ?case by simp
  next
    case (Suc n)
    let ?bs = "upd_at k (\<lambda>x. x\<lparr>b_lock := initsleeplock (b_lock x)\<rparr>) bs"
    have k: "k < NBUF" "n = NBUF - Suc k" using Suc.hyps(2) by simp_all
    have "linked ?bs (NBUF # rev [0..<k] @ [NBUF])"
      using Suc.prems k by (intro linked_cong [OF Suc.prems(1)]) (auto dest!: in_set_butlastD)
    then have "linked (push_front k ?bs) (NBUF # k # rev [0..<k] @ [NBUF])"
      using Suc.prems k by (intro push_linked) auto
    then show ?case using Suc.hyps(1) [OF k(2), of "push_front k ?bs"] Suc.prems k by (simp add: upt_conv_Cons)
  qed
  let ?bs = "set_next NBUF NBUF (set_prev NBUF NBUF (bcache s))"
  have "linked ?bs (NBUF # rev [0..<0] @ [NBUF])" using assms by (simp add: links_at)
  then show ?thesis using loop [of ?bs 0] assms by (auto simp: cache_list_def binit_def)
qed


section \<open>The two searches\<close>

lemma find_cached_find:
  assumes "linked bs (xs @ [NBUF])" "NBUF \<notin> set xs" "length xs < fuel"
  shows "find_cached fuel dev k (hd (xs @ [NBUF])) bs = Ret (find (\<lambda>i. b_dev (bs ! i) = dev \<and> b_blockno (bs ! i) = k) xs)"
  using assms
proof (induction xs arbitrary: fuel)
  case Nil
  then show ?case by (cases fuel) simp_all
next
  case (Cons a xs)
  then show ?case by (cases fuel; cases xs) auto
qed

lemma find_unused_find:
  assumes "linked bs (NBUF # xs)" "NBUF \<notin> set xs" "length xs < fuel"
  shows "find_unused fuel (last (NBUF # xs)) bs = Ret (find (\<lambda>i. b_refcnt (bs ! i) = 0) (rev xs))"
  using assms
proof (induction xs arbitrary: fuel rule: rev_induct)
  case Nil
  then show ?case by (cases fuel) simp_all
next
  case (snoc a xs)
  obtain ys y where y: "NBUF # xs = ys @ [y]" by (metis rev_exhaust list.distinct(1))
  have "NBUF # xs @ [a] = ys @ [y, a]" using y by simp
  then have "linked bs (ys @ [y, a])" using snoc.prems(1) by metis
  then have l: "linked bs (NBUF # xs)" "b_prev (bs ! a) = last (NBUF # xs)"
    using linked_append [of bs ys y "[a]"] unfolding y by simp_all
  show ?case using snoc.IH [OF l(1)] snoc.prems(2,3) l(2) by (cases fuel) auto
qed

lemma find_None_iff_all: "find P xs = None \<longleftrightarrow> (\<forall>x \<in> set xs. \<not> P x)"
  by (induction xs) auto

section \<open>The invariant of the cache\<close>

definition sec_of :: "uint \<Rightarrow> 64 word" where
  "sec_of k = ucast (k * 2)"

definition holds :: "buf list \<Rightarrow> uint \<Rightarrow> uint \<Rightarrow> nat \<Rightarrow> bool" where
  "holds bs dev k i \<longleftrightarrow> i < NBUF \<and> b_dev (bs ! i) = dev \<and> b_blockno (bs ! i) = k"

definition bufs_ok :: "buf list \<Rightarrow> bool" where
  "bufs_ok bs \<longleftrightarrow>
     (\<forall>i < NBUF. length (b_data (bs ! i)) = BSIZE \<and> \<not> b_disk (bs ! i) \<and>
        (sl_locked (b_lock (bs ! i)) \<longrightarrow> b_refcnt (bs ! i) \<noteq> 0)) \<and>
     (\<forall>dev k i j. holds bs dev k i \<and> holds bs dev k j \<and> dev \<noteq> 0 \<longrightarrow> i = j)"

lemma holds_unique: "bufs_ok bs \<Longrightarrow> holds bs dev k i \<Longrightarrow> holds bs dev k j \<Longrightarrow> dev \<noteq> 0 \<Longrightarrow> i = j"
  unfolding bufs_ok_def by blast

definition clean :: "buf list \<Rightarrow> (64 word \<Rightarrow> byte list) \<Rightarrow> bool" where
  "clean bs pl \<longleftrightarrow> (\<forall>i < NBUF. b_refcnt (bs ! i) = 0 \<and> b_valid (bs ! i) \<longrightarrow> b_data (bs ! i) = pl (sec_of (b_blockno (bs ! i))))"

definition cache_inv :: "'z blk_state_scheme \<Rightarrow> nat list \<Rightarrow> bool" where
  "cache_inv s xs \<longleftrightarrow> cache_list (bcache s) xs \<and> bufs_ok (bcache s) \<and> clean (bcache s) (platter s) \<and> vd_idle s \<and>
     (\<forall>sec. length (platter s sec) = BSIZE) \<and> (\<exists>p. myproc s = Some p \<and> p < length (ptable s))"

definition block :: "'z blk_state_scheme \<Rightarrow> uint \<Rightarrow> uint \<Rightarrow> byte list" where
  "block s dev k =
     (case scan (\<lambda>b. b_valid b \<and> b_dev b = dev \<and> b_blockno b = k) (take NBUF (bcache s)) of
        Some i \<Rightarrow> b_data (bcache s ! i) | None \<Rightarrow> platter s (sec_of k))"

lemma block_cached:
  assumes "bufs_ok (bcache s)" "length (bcache s) = Suc NBUF" "holds (bcache s) dev k i" "b_valid (bcache s ! i)" "dev \<noteq> 0"
  shows "block s dev k = b_data (bcache s ! i)"
proof -
  let ?P = "\<lambda>b. b_valid b \<and> b_dev b = dev \<and> b_blockno b = k"
  have "scan ?P (take NBUF (bcache s)) = Some i"
  proof (rule scan_first)
    show "i < length (take NBUF (bcache s))" "?P (take NBUF (bcache s) ! i)"
      using assms by (auto simp: holds_def)
    fix j
    assume "j < i"
    then have "\<not> holds (bcache s) dev k j" using holds_unique [OF assms(1,3) _ assms(5), of j] by blast
    then show "\<not> ?P (take NBUF (bcache s) ! j)" using \<open>j < i\<close> assms(3) by (auto simp: holds_def)
  qed
  then show ?thesis by (simp add: block_def)
qed

lemma block_uncached:
  assumes "\<And>i. holds (bcache s) dev k i \<Longrightarrow> \<not> b_valid (bcache s ! i)" "length (bcache s) = Suc NBUF"
  shows "block s dev k = platter s (sec_of k)"
proof -
  have "scan (\<lambda>b. b_valid b \<and> b_dev b = dev \<and> b_blockno b = k) (take NBUF (bcache s)) = None"
    unfolding scan_from_None using assms by (auto simp: in_set_conv_nth holds_def)
  then show ?thesis by (simp add: block_def)
qed


lemma find_Some_in: "find P xs = Some i \<Longrightarrow> i \<in> set xs \<and> P i"
  by (auto simp: find_Some_iff)

lemma cache_searches:
  assumes "cache_list bs xs"
  shows "find_cached (Suc NBUF) dev k (b_next (bs ! NBUF)) bs = Ret (find (\<lambda>i. b_dev (bs ! i) = dev \<and> b_blockno (bs ! i) = k) xs)"
    and "find_unused (Suc NBUF) (b_prev (bs ! NBUF)) bs = Ret (find (\<lambda>i. b_refcnt (bs ! i) = 0) (rev xs))"
proof -
  have c: "distinct xs" "set xs = {..<NBUF}" "linked bs ((NBUF # xs) @ [NBUF])"
    using assms by (simp_all add: cache_list_def)
  have len: "length xs < Suc NBUF" "NBUF \<notin> set xs" using c distinct_card [of xs] by simp_all
  obtain ys y where y: "NBUF # xs = ys @ [y]" by (metis rev_exhaust list.distinct(1))
  have "linked bs (ys @ [y, NBUF])" using c(3) unfolding y by simp
  then have l: "linked bs (NBUF # xs)" "b_prev (bs ! NBUF) = last (NBUF # xs)"
    using linked_append [of bs ys y "[NBUF]"] unfolding y by simp_all
  have f: "linked bs (xs @ [NBUF])" "b_next (bs ! NBUF) = hd (xs @ [NBUF])" using c(3) by (cases xs; simp)+
  show "find_cached (Suc NBUF) dev k (b_next (bs ! NBUF)) bs = Ret (find (\<lambda>i. b_dev (bs ! i) = dev \<and> b_blockno (bs ! i) = k) xs)"
    unfolding f(2) by (rule find_cached_find [OF f(1) len(2,1)])
  show "find_unused (Suc NBUF) (b_prev (bs ! NBUF)) bs = Ret (find (\<lambda>i. b_refcnt (bs ! i) = 0) (rev xs))"
    unfolding l(2) by (rule find_unused_find [OF l(1) len(2,1)])
qed

lemma bget_hit:
  assumes "cache_inv s xs" "holds (bcache s) dev k b" "dev \<noteq> 0"
  shows "bget dev k s = lock_buf b (upd_buf b (\<lambda>x. x\<lparr>b_refcnt := b_refcnt x + 1\<rparr>) s)"
proof -
  have c: "cache_list (bcache s) xs" "bufs_ok (bcache s)" using assms(1) by (simp_all add: cache_inv_def)
  have "\<exists>i. find (\<lambda>i. b_dev (bcache s ! i) = dev \<and> b_blockno (bcache s ! i) = k) xs = Some i"
    using assms(2) c(1) by (auto simp: holds_def cache_list_def find_None_iff_all simp flip: not_None_eq)
  then obtain i where i: "find (\<lambda>i. b_dev (bcache s ! i) = dev \<and> b_blockno (bcache s ! i) = k) xs = Some i" by blast
  have "holds (bcache s) dev k i" using find_Some_in [OF i] c(1) by (auto simp: holds_def cache_list_def)
  then have "i = b" using holds_unique [OF c(2) _ assms(2,3)] by blast
  then show ?thesis using i by (simp add: bget_def cache_searches [OF c(1)] del: find_cached.simps find_unused.simps)
qed

lemma bget_miss:
  assumes "cache_inv s xs" "\<And>i. \<not> holds (bcache s) dev k i"
  shows "bget dev k s =
    (case find (\<lambda>i. b_refcnt (bcache s ! i) = 0) (rev xs) of
       None \<Rightarrow> Panic ''bget: no buffers''
     | Some b \<Rightarrow> lock_buf b (upd_buf b (\<lambda>x. x\<lparr>b_dev := dev, b_blockno := k, b_valid := False, b_refcnt := 1\<rparr>) s))"
proof -
  have c: "cache_list (bcache s) xs" using assms(1) by (simp add: cache_inv_def)
  have "find (\<lambda>i. b_dev (bcache s ! i) = dev \<and> b_blockno (bcache s ! i) = k) xs = None"
    using assms(2) c by (auto simp: find_None_iff_all holds_def cache_list_def)
  then show ?thesis by (simp add: bget_def cache_searches [OF c] del: find_cached.simps find_unused.simps split: option.split)
qed


section \<open>Reading, writing and releasing\<close>

text \<open>\<open>blk_frame s t\<close>: from \<open>s\<close> to \<open>t\<close> only buffers, driver state and sleeping processes have changed.\<close>

definition blk_frame :: "'z blk_state_scheme \<Rightarrow> 'z blk_state_scheme \<Rightarrow> bool" where
  "blk_frame s t \<longleftrightarrow> woken (ptable s) (ptable t) \<and>
     t\<lparr>bcache := bcache s, vdisk := vdisk s, ptable := ptable s, dev_avail := dev_avail s\<rparr> = s"

lemma blk_frame_refl [simp]: "blk_frame s s"
  by (simp add: blk_frame_def)

lemma blk_frame_sel:
  assumes "blk_frame s t"
  shows "platter t = platter s" "dev_writes t = dev_writes s" "myproc t = myproc s" "pmem t = pmem s"
    "length (ptable t) = length (ptable s)" "cpus t = cpus s" "hart t = hart s"
proof -
  have e: "t\<lparr>bcache := bcache s, vdisk := vdisk s, ptable := ptable s, dev_avail := dev_avail s\<rparr> = s"
    using assms by (simp add: blk_frame_def)
  show "platter t = platter s" "dev_writes t = dev_writes s" "myproc t = myproc s" "pmem t = pmem s" "cpus t = cpus s" "hart t = hart s"
    using arg_cong [OF e, of platter] arg_cong [OF e, of dev_writes] arg_cong [OF e, of myproc] arg_cong [OF e, of pmem]
      arg_cong [OF e, of cpus] arg_cong [OF e, of hart]
    by (simp_all add: myproc_def)
  show "length (ptable t) = length (ptable s)" using assms by (simp add: blk_frame_def woken_def)
qed

lemma blk_frame_trans:
  assumes "blk_frame s t" "blk_frame t u"
  shows "blk_frame s u"
proof -
  let ?r = "\<lambda>a. dev_avail_update (\<lambda>_. dev_avail a) \<circ> ptable_update (\<lambda>_. ptable a) \<circ> vdisk_update (\<lambda>_. vdisk a) \<circ>
    bcache_update (\<lambda>_. bcache a)"
  have e: "?r t u = t" "?r s t = s" using assms by (simp_all add: blk_frame_def)
  have "?r s u = ?r s (?r t u)" by simp
  then have "u\<lparr>bcache := bcache s, vdisk := vdisk s, ptable := ptable s, dev_avail := dev_avail s\<rparr> = s"
    unfolding e by simp
  then show ?thesis using assms by (auto simp: blk_frame_def intro: woken_trans)
qed


lemma block_eqI:
  assumes "length (bcache t) = Suc NBUF"
    and "\<And>i. holds (bcache t) dev k i \<Longrightarrow> b_valid (bcache t ! i) \<Longrightarrow> b_data (bcache t ! i) = v"
    and "(\<And>i. holds (bcache t) dev k i \<Longrightarrow> \<not> b_valid (bcache t ! i)) \<Longrightarrow> platter t (sec_of k) = v"
  shows "block t dev k = v"
proof (cases "scan (\<lambda>b. b_valid b \<and> b_dev b = dev \<and> b_blockno b = k) (take NBUF (bcache t))")
  case None
  then have "\<And>i. holds (bcache t) dev k i \<Longrightarrow> \<not> b_valid (bcache t ! i)"
    using assms(1) unfolding scan_from_None by (fastforce simp: holds_def in_set_conv_nth)
  then show ?thesis using assms(3) None by (simp add: block_def)
next
  case (Some i)
  then have "holds (bcache t) dev k i" "b_valid (bcache t ! i)"
    using scan_SomeD [OF Some] assms(1) by (auto simp: holds_def)
  then show ?thesis using assms(2) Some by (simp add: block_def)
qed

lemma scan_from_map: "scan_from P (map f xs) i = scan_from (P \<circ> f) xs i"
  by (induction xs arbitrary: i) simp_all

definition core :: "buf \<Rightarrow> bool \<times> uint \<times> uint \<times> byte list" where
  "core b = (b_valid b, b_dev b, b_blockno b, b_data b)"

lemma block_core:
  "block s dev k = (case scan (\<lambda>(v, d, n, x). v \<and> d = dev \<and> n = k) (take NBUF (map core (bcache s))) of
     Some i \<Rightarrow> (snd \<circ> snd \<circ> snd) (take NBUF (map core (bcache s)) ! i) | None \<Rightarrow> platter s (sec_of k))"
proof -
  have e: "((\<lambda>(v, d, n, x). v \<and> d = dev \<and> n = k) \<circ> core) = (\<lambda>b. b_valid b \<and> b_dev b = dev \<and> b_blockno b = k)"
    by (auto simp: core_def)
  show ?thesis unfolding block_def take_map scan_from_map e
    by (cases "scan (\<lambda>b. b_valid b \<and> b_dev b = dev \<and> b_blockno b = k) (take NBUF (bcache s))")
      (auto simp: core_def dest: scan_SomeD(1))
qed

lemma block_cong:
  "map core (bcache t) = map core (bcache s) \<Longrightarrow> platter t = platter s \<Longrightarrow> block t dev k = block s dev k"
  by (simp only: block_core)

lemma core_upd_at: "core (f (bs ! b)) = core (bs ! b) \<Longrightarrow> map core (upd_at b f bs) = map core bs"
  by (cases "b < length bs") (simp_all add: upd_at_def map_update list_update_beyond, metis list_update_id nth_map)

lemma cache_inv_upd_buf:
  assumes "cache_inv s xs" "b < NBUF" and "y = f (bcache s ! b)"
    and "b_next y = b_next (bcache s ! b)" "b_prev y = b_prev (bcache s ! b)" "length (b_data y) = BSIZE" "\<not> b_disk y"
    and "sl_locked (b_lock y) \<Longrightarrow> b_refcnt y \<noteq> 0"
    and "b_refcnt y = 0 \<Longrightarrow> b_valid y \<Longrightarrow> b_data y = platter s (sec_of (b_blockno y))"
    and "b_dev y = b_dev (bcache s ! b) \<and> b_blockno y = b_blockno (bcache s ! b) \<or> (\<forall>i. \<not> holds (bcache s) (b_dev y) (b_blockno y) i)"
  shows "cache_inv (upd_buf b f s) xs"
proof -
  have c: "cache_list (bcache s) xs" "bufs_ok (bcache s)" "clean (bcache s) (platter s)" "vd_idle s"
    "\<And>sec. length (platter s sec) = BSIZE" "\<exists>p. myproc s = Some p \<and> p < length (ptable s)"
    using assms(1) by (simp_all add: cache_inv_def)
  have len: "length (bcache s) = Suc NBUF" using c(1) by (simp add: cache_list_def)
  let ?bs = "upd_at b f (bcache s)"
  have n: "?bs ! i = (if i = b then y else bcache s ! i)" if "i < Suc NBUF" for i
    using that len assms(3) by simp
  have h: "holds ?bs dev k i \<longleftrightarrow> (if i = b then b_dev y = dev \<and> b_blockno y = k else holds (bcache s) dev k i)" for dev k i
    using assms(2) n [of i] by (auto simp: holds_def)
  have "cache_list ?bs xs"
    by (rule cache_list_cong [OF c(1)]) (use n assms(4,5) in \<open>auto simp del: nth_upd_at\<close>)
  moreover have "bufs_ok ?bs"
    unfolding bufs_ok_def
  proof (intro conjI allI impI)
    fix i
    assume i: "i < NBUF"
    then show "length (b_data (?bs ! i)) = BSIZE" "\<not> b_disk (?bs ! i)" "sl_locked (b_lock (?bs ! i)) \<Longrightarrow> b_refcnt (?bs ! i) \<noteq> 0"
      using c(2) assms(6-8) n [of i] by (auto simp: bufs_ok_def simp del: nth_upd_at)
  next
    fix dev k i j
    assume a: "holds ?bs dev k i \<and> holds ?bs dev k j \<and> dev \<noteq> 0"
    show "i = j"
    proof (rule ccontr)
      assume "i \<noteq> j"
      then consider "i \<noteq> b" "j \<noteq> b" | "holds (bcache s) dev k (if i = b then j else i)" "b_dev y = dev" "b_blockno y = k" "i = b \<or> j = b"
        using a unfolding h by (cases "i = b") auto
      then show False
      proof cases
        case 1
        then show ?thesis using a holds_unique [OF c(2), of dev k i j] \<open>i \<noteq> j\<close> unfolding h by auto
      next
        case 2
        then have "holds (bcache s) dev k b" using assms(2,10) by (auto simp: holds_def)
        then show ?thesis using holds_unique [OF c(2) _ 2(1), of b] a 2(4) \<open>i \<noteq> j\<close> by (auto split: if_splits)
      qed
    qed
  qed
  moreover have "clean ?bs (platter s)"
    using c(3) n assms(9) unfolding clean_def by (auto simp del: nth_upd_at)
  ultimately show ?thesis using c by (auto simp: cache_inv_def vd_idle_def myproc_def)
qed

lemma cache_inv_drv:
  assumes "cache_inv s xs" "t = s\<lparr>vdisk := v, ptable := ps, dev_avail := a\<rparr>" "vd_idle t" "woken (ptable s) ps"
  shows "cache_inv t xs"
  using assms by (auto simp: cache_inv_def myproc_def woken_def)


definition mine :: "'z blk_state_scheme \<Rightarrow> nat \<Rightarrow> bool" where
  "mine s b \<longleftrightarrow> (\<exists>p. myproc s = Some p \<and> b_lock (bcache s ! b) = \<lparr>sl_locked = True, sl_pid = p_pid (ptable s ! p)\<rparr>)"

text \<open>The buffers other than \<open>b\<close> are the same in both caches.\<close>

definition others :: "nat \<Rightarrow> buf list \<Rightarrow> buf list \<Rightarrow> bool" where
  "others b bs cs \<longleftrightarrow> (\<forall>i < NBUF. i \<noteq> b \<longrightarrow> cs ! i = bs ! i)"

definition filled :: "'z blk_state_scheme \<Rightarrow> nat \<Rightarrow> sleeplock \<Rightarrow> buf \<Rightarrow> buf" where
  "filled s b lk x = x\<lparr>b_lock := lk,
     b_data := (if b_valid x then b_data x else platter s (sec_of (b_blockno x))), b_valid := True\<rparr>"

lemma drv_frame:
  "woken (ptable s) ps \<Longrightarrow> blk_frame s (s\<lparr>vdisk := v, ptable := ps, dev_avail := a\<rparr>)"
  "blk_frame s (upd_buf b f s)"
  by (simp_all add: blk_frame_def)

lemma fill_buf:
  assumes "cache_inv s xs" "b < NBUF" "\<not> b_valid (bcache s ! b)" "b_refcnt (bcache s ! b) \<noteq> 0"
  shows "\<exists>t v ps a. virtio_disk_rw b False s = Ret t \<and> cache_inv t xs \<and> woken (ptable s) ps \<and>
    t = (upd_buf b (\<lambda>x. x\<lparr>b_data := platter s (sec_of (b_blockno x))\<rparr>) s)\<lparr>vdisk := v, ptable := ps, dev_avail := a\<rparr>"
proof -
  have len: "b < length (bcache s)" "length (b_data (bcache s ! b)) = BSIZE" "vd_idle s" "\<not> b_disk (bcache s ! b)"
    "\<And>sec. length (platter s sec) = BSIZE" "sl_locked (b_lock (bcache s ! b)) \<Longrightarrow> b_refcnt (bcache s ! b) \<noteq> 0"
    using assms(1,2) by (auto simp: cache_inv_def cache_list_def bufs_ok_def)
  obtain t v ps a where t: "virtio_disk_rw b False s = Ret t" "vd_idle t" "woken (ptable s) ps"
    "t = (transfer b False s)\<lparr>vdisk := v, ptable := ps, dev_avail := a\<rparr>"
    using transfer_eq [OF len(3,1,2), of False] by blast
  let ?u = "upd_buf b (\<lambda>x. x\<lparr>b_data := platter s (sec_of (b_blockno x))\<rparr>) s"
  have e: "transfer b False s = ?u"
    using len(4) by (auto simp: transfer_def Let_def sec_of_def upd_at_def intro!: arg_cong [where f = "\<lambda>y. s\<lparr>bcache := (bcache s)[b := y]\<rparr>"])
  have "cache_inv ?u xs" using assms len by (intro cache_inv_upd_buf [OF assms(1,2) refl]) simp_all
  then have "cache_inv t xs" by (rule cache_inv_drv [OF _ t(4) [unfolded e] t(2)]) (simp add: t(3))
  then show ?thesis using t(1,3,4) e by auto
qed

lemma sleeplock_set: "lk\<lparr>sl_locked := a, sl_pid := c\<rparr> = \<lparr>sl_locked = a, sl_pid = c\<rparr>" for lk :: sleeplock
  by (cases lk) simp

lemma lock_read:
  assumes "cache_inv s xs" "b < NBUF" "\<not> sl_locked (b_lock (bcache s ! b))" "b_refcnt (bcache s ! b) \<noteq> 0"
  shows "\<exists>t lk. obind (lock_buf b s) (\<lambda>(b, s1). bread_fill b s1) = Ret (b, t) \<and> cache_inv t xs \<and> mine t b \<and> blk_frame s t \<and>
     bcache t = upd_at b (filled s b lk) (bcache s)"
proof -
  obtain p where p: "myproc s = Some p" using assms(1) by (auto simp: cache_inv_def)
  define lk where "lk = \<lparr>sl_locked = True, sl_pid = p_pid (ptable s ! p)\<rparr>"
  define s1 where "s1 = upd_buf b (\<lambda>x. x\<lparr>b_lock := lk\<rparr>) s"
  have lb: "lock_buf b s = Ret (b, s1)"
    using assms(3) p by (simp add: lock_buf_def acquiresleep_def s1_def lk_def sleeplock_set)
  have ok: "length (bcache s) = Suc NBUF" "length (b_data (bcache s ! b)) = BSIZE" "\<not> b_disk (bcache s ! b)"
    "\<And>sec. length (platter s sec) = BSIZE"
    using assms(1,2) by (simp_all add: cache_inv_def bufs_ok_def cache_list_def)
  have c1: "cache_inv s1 xs"
    unfolding s1_def using assms(4) ok by (intro cache_inv_upd_buf [OF assms(1,2) refl]) simp_all
  have b: "b < length (bcache s)" using ok assms(2) by simp
  have m: "mine t b" if "myproc t = myproc s" "woken (ptable s) (ptable t)" "b_lock (bcache t ! b) = lk" for t
    using that p assms(1) unfolding mine_def lk_def cache_inv_def woken_def by fastforce
  show ?thesis
  proof (cases "b_valid (bcache s ! b)")
    case True
    then have "bcache s1 = upd_at b (filled s b lk) (bcache s)"
      using b by (auto simp: s1_def upd_at_def filled_def intro!: arg_cong [where f = "\<lambda>y. (bcache s)[b := y]"])
    moreover have "mine s1 b" using b by (intro m) (simp_all add: s1_def myproc_def)
    ultimately show ?thesis using True lb c1 b by (intro exI [of _ s1] exI [of _ lk]) (simp add: s1_def drv_frame filled_def bread_fill_def)
  next
    case False
    have v: "\<not> b_valid (bcache s1 ! b)" "b_refcnt (bcache s1 ! b) \<noteq> 0" "platter s1 = platter s"
      using False assms(4) b by (simp_all add: s1_def)
    obtain u w ps a where u: "virtio_disk_rw b False s1 = Ret u" "cache_inv u xs" "woken (ptable s1) ps"
      "u = (upd_buf b (\<lambda>x. x\<lparr>b_data := platter s1 (sec_of (b_blockno x))\<rparr>) s1)\<lparr>vdisk := w, ptable := ps, dev_avail := a\<rparr>"
      using fill_buf [OF c1 assms(2) v(1,2)] by blast
    define t where "t = upd_buf b (\<lambda>x. x\<lparr>b_valid := True\<rparr>) u"
    have bc: "bcache t = upd_at b (filled s b lk) (bcache s)"
      using b False by (auto simp: t_def u(4) s1_def upd_at_def filled_def)
    have "cache_inv t xs"
      unfolding t_def using assms(4) ok b v(3) by (intro cache_inv_upd_buf [OF u(2) assms(2) refl]) (simp_all add: u(4) s1_def)
    moreover have "blk_frame s t" using u(3) by (simp add: blk_frame_def t_def u(4) s1_def)
    moreover have "mine t b"
      using b u(3) by (intro m) (simp_all add: t_def u(4) s1_def myproc_def)
    ultimately show ?thesis using lb v u(1) bc by (intro exI [of _ t] exI [of _ lk]) (simp add: t_def bread_fill_def)
  qed
qed


text \<open>
  What \<open>bread\<close> does: the buffer it returns holds the block, is locked by the caller and has the
  block's current content; no block has changed.
\<close>

definition read_ok :: "uint \<Rightarrow> uint \<Rightarrow> nat list \<Rightarrow> 'z blk_state_scheme \<Rightarrow> nat \<Rightarrow> 'z blk_state_scheme \<Rightarrow> bool" where
  "read_ok dev k xs s b t \<longleftrightarrow> cache_inv t xs \<and> mine t b \<and> holds (bcache t) dev k b \<and> b_valid (bcache t ! b) \<and>
     b_data (bcache t ! b) = block s dev k \<and> blk_frame s t \<and> others b (bcache s) (bcache t) \<and>
     (\<forall>dev' k'. dev' \<noteq> 0 \<longrightarrow> block t dev' k' = block s dev' k') \<and>
     b_refcnt (bcache t ! b) = (if holds (bcache s) dev k b then b_refcnt (bcache s ! b) + 1 else 1) \<and>
     (holds (bcache s) dev k b \<or> b_refcnt (bcache s ! b) = 0 \<and> find (\<lambda>i. b_refcnt (bcache s ! i) = 0) (rev xs) = Some b)"

lemma filled_block:
  assumes "bcache t = upd_at b (filled s b lk) (bcache s)" "platter t = platter s" "bufs_ok (bcache s)" "length (bcache s) = Suc NBUF"
    "b < NBUF" "dev \<noteq> 0"
  shows "block t dev k = block s dev k"
proof (rule block_eqI)
  show l: "length (bcache t) = Suc NBUF" using assms(1,4) by simp
  have n: "bcache t ! i = (if i = b then filled s b lk (bcache s ! b) else bcache s ! i)" if "i < NBUF" for i
    using that assms(1,4) by simp
  have h: "holds (bcache t) dev k i \<longleftrightarrow> holds (bcache s) dev k i" for i
    using n [of i] by (auto simp: holds_def filled_def)
  show "b_data (bcache t ! i) = block s dev k" if i: "holds (bcache t) dev k i" "b_valid (bcache t ! i)" for i
  proof (cases "b_valid (bcache s ! i)")
    case True
    then have "block s dev k = b_data (bcache s ! i)" using assms(3-6) i h by (intro block_cached) auto
    then show ?thesis using n [of i] i True by (auto simp: holds_def filled_def)
  next
    case False
    have e: "i = b" using i n [of i] False by (auto simp: holds_def split: if_splits)
    have "block s dev k = platter s (sec_of k)"
      using holds_unique [OF assms(3) i(1) [unfolded h] _ assms(6)] False assms(4) by (intro block_uncached) auto
    then show ?thesis using n [of i] i e False by (auto simp: holds_def filled_def)
  qed
  show "platter t (sec_of k) = block s dev k" if "\<And>i. holds (bcache t) dev k i \<Longrightarrow> \<not> b_valid (bcache t ! i)"
  proof -
    have "\<not> b_valid (bcache s ! i)" if "holds (bcache s) dev k i" for i
      using \<open>\<And>i. holds (bcache t) dev k i \<Longrightarrow> \<not> b_valid (bcache t ! i)\<close> [of i] n [of i] that
      by (auto simp: h holds_def filled_def split: if_splits)
    then show ?thesis using block_uncached [of s dev k] assms(2,4) by simp
  qed
qed

lemma read_finish:
  assumes "cache_inv s1 xs" "s1 = upd_buf b g s" "b < NBUF" "dev \<noteq> 0" "holds (bcache s1) dev k b" "length (bcache s) = Suc NBUF"
    and "\<not> sl_locked (b_lock (bcache s1 ! b))" "b_refcnt (bcache s1 ! b) \<noteq> 0"
    and "\<And>dev' k'. dev' \<noteq> 0 \<Longrightarrow> block s1 dev' k' = block s dev' k'"
    and "b_refcnt (bcache s1 ! b) = (if holds (bcache s) dev k b then b_refcnt (bcache s ! b) + 1 else 1)"
    and "holds (bcache s) dev k b \<or> b_refcnt (bcache s ! b) = 0 \<and> find (\<lambda>i. b_refcnt (bcache s ! i) = 0) (rev xs) = Some b"
  shows "\<exists>t. obind (lock_buf b s1) (\<lambda>(b, s). bread_fill b s) = Ret (b, t) \<and> read_ok dev k xs s b t"
proof -
  obtain t lk where t: "obind (lock_buf b s1) (\<lambda>(b, s). bread_fill b s) = Ret (b, t)" "cache_inv t xs" "mine t b" "blk_frame s1 t"
    "bcache t = upd_at b (filled s1 b lk) (bcache s1)"
    using lock_read [OF assms(1,3,7,8)] by auto
  have fr: "blk_frame s t" by (rule blk_frame_trans [OF _ t(4)]) (simp add: assms(2) drv_frame)
  have pl: "platter t = platter s1" using blk_frame_sel [OF t(4)] by simp
  have ok1: "bufs_ok (bcache s1)" "length (bcache s1) = Suc NBUF" using assms(1) by (simp_all add: cache_inv_def cache_list_def)
  have ok: "bufs_ok (bcache t)" "length (bcache t) = Suc NBUF" using t(2) by (simp_all add: cache_inv_def cache_list_def)
  have blk: "block t dev' k' = block s dev' k'" if "dev' \<noteq> 0" for dev' k'
    using filled_block [OF t(5) pl ok1 assms(3) that] assms(9) [OF that] by simp
  have n: "bcache t ! b = filled s1 b lk (bcache s1 ! b)" using t(5) ok1 assms(3) by simp
  have h: "holds (bcache t) dev k b" "b_valid (bcache t ! b)" using assms(5) n by (simp_all add: holds_def filled_def)
  have "b_data (bcache t ! b) = block s dev k" using block_cached [OF ok h assms(4)] blk [OF assms(4)] by simp
  moreover have "others b (bcache s) (bcache t)" using t(5) assms(2,6) by (simp add: others_def)
  moreover have "b_refcnt (bcache t ! b) = b_refcnt (bcache s1 ! b)" using n by (simp add: filled_def)
  ultimately show ?thesis using t(1-3) fr h blk assms(10,11) unfolding read_ok_def by auto
qed

lemma bread_hit:
  assumes "cache_inv s xs" "holds (bcache s) dev k b" "dev \<noteq> 0" "\<not> sl_locked (b_lock (bcache s ! b))"
    and "b_refcnt (bcache s ! b) + 1 \<noteq> 0"
  shows "\<exists>t. bread dev k s = Ret (b, t) \<and> read_ok dev k xs s b t"
proof -
  have b: "b < NBUF" using assms(2) by (simp add: holds_def)
  have ok: "length (bcache s) = Suc NBUF" "length (b_data (bcache s ! b)) = BSIZE" "\<not> b_disk (bcache s ! b)" "bufs_ok (bcache s)"
    using assms(1) b by (simp_all add: cache_inv_def bufs_ok_def cache_list_def)
  define s1 where "s1 = upd_buf b (\<lambda>x. x\<lparr>b_refcnt := b_refcnt x + 1\<rparr>) s"
  have c1: "cache_inv s1 xs"
    unfolding s1_def using assms(4,5) ok by (intro cache_inv_upd_buf [OF assms(1) b refl]) simp_all
  have n1: "bcache s1 ! b = (bcache s ! b)\<lparr>b_refcnt := b_refcnt (bcache s ! b) + 1\<rparr>" using b ok by (simp add: s1_def)
  have "bread dev k s = obind (lock_buf b s1) (\<lambda>(b, s). bread_fill b s)"
    by (simp add: bread_def bget_hit [OF assms(1-3)] s1_def)
  moreover have "block s1 dev' k' = block s dev' k'" for dev' k'
    by (rule block_cong) (simp_all add: s1_def core_upd_at core_def)
  ultimately show ?thesis
    using assms n1 by (simp only:) (intro read_finish [OF c1 s1_def b assms(3) _ ok(1)], simp_all add: holds_def)
qed

lemma bread_miss:
  assumes "cache_inv s xs" "\<And>i. \<not> holds (bcache s) dev k i" "dev \<noteq> 0" "find (\<lambda>i. b_refcnt (bcache s ! i) = 0) (rev xs) = Some b"
  shows "\<exists>t. bread dev k s = Ret (b, t) \<and> read_ok dev k xs s b t"
proof -
  have c: "cache_list (bcache s) xs" "bufs_ok (bcache s)" "clean (bcache s) (platter s)" using assms(1) by (simp_all add: cache_inv_def)
  have b: "b < NBUF" "b_refcnt (bcache s ! b) = 0" using find_Some_in [OF assms(4)] c(1) by (auto simp: cache_list_def)
  have ok: "length (bcache s) = Suc NBUF" "length (b_data (bcache s ! b)) = BSIZE" "\<not> b_disk (bcache s ! b)"
    "\<not> sl_locked (b_lock (bcache s ! b))"
    using c b by (auto simp: bufs_ok_def cache_list_def)
  define s1 where "s1 = upd_buf b (\<lambda>x. x\<lparr>b_dev := dev, b_blockno := k, b_valid := False, b_refcnt := 1\<rparr>) s"
  have c1: "cache_inv s1 xs"
    unfolding s1_def using ok assms(2) by (intro cache_inv_upd_buf [OF assms(1) b(1) refl]) simp_all
  have n1: "bcache s1 ! i = (if i = b then (bcache s ! b)\<lparr>b_dev := dev, b_blockno := k, b_valid := False, b_refcnt := 1\<rparr> else bcache s ! i)"
    if "i < NBUF" for i using that b ok by (simp add: s1_def)
  have "bread dev k s = obind (lock_buf b s1) (\<lambda>(b, s). bread_fill b s)"
    by (simp add: bread_def bget_miss [OF assms(1,2)] assms(4) s1_def)
  moreover have "block s1 dev' k' = block s dev' k'" if d: "dev' \<noteq> 0" for dev' k'
  proof (rule block_eqI)
    show "length (bcache s1) = Suc NBUF" using ok by (simp add: s1_def)
    show "b_data (bcache s1 ! i) = block s dev' k'" if "holds (bcache s1) dev' k' i" "b_valid (bcache s1 ! i)" for i
    proof -
      have "i \<noteq> b" "holds (bcache s) dev' k' i" "b_valid (bcache s ! i)" "bcache s1 ! i = bcache s ! i"
        using that n1 [of i] by (auto simp: holds_def split: if_splits)
      then show ?thesis using block_cached [OF c(2) ok(1) _ _ d] by simp
    qed
    show "platter s1 (sec_of k') = block s dev' k'" if no: "\<And>i. holds (bcache s1) dev' k' i \<Longrightarrow> \<not> b_valid (bcache s1 ! i)"
    proof (cases "holds (bcache s) dev' k' b \<and> b_valid (bcache s ! b)")
      case True
      then show ?thesis
        using block_cached [OF c(2) ok(1) _ _ d] c(3) b unfolding clean_def by (auto simp: s1_def holds_def)
    next
      case False
      then have "\<not> b_valid (bcache s ! i)" if "holds (bcache s) dev' k' i" for i
        using no [of i] n1 [of i] that by (auto simp: holds_def split: if_splits)
      then show ?thesis using block_uncached [OF _ ok(1)] by (simp add: s1_def)
    qed
  qed
  ultimately show ?thesis
    using assms(2) ok n1 [OF b(1)] b by (simp only:) (intro read_finish [OF c1 s1_def b(1) assms(3) _ ok(1)], simp_all add: holds_def assms(4))
qed


lemma bread_full:
  assumes "cache_inv s xs" "\<And>i. \<not> holds (bcache s) dev k i" "\<And>i. i < NBUF \<Longrightarrow> b_refcnt (bcache s ! i) \<noteq> 0"
  shows "bread dev k s = Panic ''bget: no buffers''"
proof -
  have "find (\<lambda>i. b_refcnt (bcache s ! i) = 0) (rev xs) = None"
    using assms(1,3) by (auto simp: find_None_iff_all cache_inv_def cache_list_def)
  then show ?thesis by (simp add: bread_def bget_miss [OF assms(1,2)])
qed

lemma mine_holding: "mine s b \<Longrightarrow> holdingsleep s (b_lock (bcache s ! b)) = Ret True"
  by (auto simp: mine_def holdingsleep_def)

lemma bwrite_spec:
  assumes "cache_inv s xs" "mine s b" "b < NBUF" "b_refcnt (bcache s ! b) \<noteq> 0"
    and "\<And>i. i < NBUF \<Longrightarrow> b_refcnt (bcache s ! i) = 0 \<Longrightarrow> b_valid (bcache s ! i) \<Longrightarrow>
      sec_of (b_blockno (bcache s ! i)) \<noteq> sec_of (b_blockno (bcache s ! b))"
  shows "\<exists>t. bwrite b s = Ret t \<and> cache_inv t xs \<and> bcache t = bcache s \<and>
    blk_frame (s\<lparr>platter := (platter s)(sec_of (b_blockno (bcache s ! b)) := b_data (bcache s ! b)),
       dev_writes := dev_writes s @ [(sec_of (b_blockno (bcache s ! b)), b_data (bcache s ! b))]\<rparr>) t"
proof -
  let ?k = "sec_of (b_blockno (bcache s ! b))" and ?d = "b_data (bcache s ! b)"
  let ?u = "s\<lparr>platter := (platter s)(?k := ?d), dev_writes := dev_writes s @ [(?k, ?d)]\<rparr>"
  have c: "cache_list (bcache s) xs" "bufs_ok (bcache s)" "clean (bcache s) (platter s)" "vd_idle s"
    "\<And>sec. length (platter s sec) = BSIZE" "\<exists>p. myproc s = Some p \<and> p < length (ptable s)"
    using assms(1) by (simp_all add: cache_inv_def)
  have ok: "b < length (bcache s)" "length ?d = BSIZE" "\<not> b_disk (bcache s ! b)"
    using c(1,2) assms(3) by (simp_all add: cache_list_def bufs_ok_def)
  obtain t v ps a where t: "virtio_disk_rw b True s = Ret t" "vd_idle t" "woken (ptable s) ps"
    "t = (transfer b True s)\<lparr>vdisk := v, ptable := ps, dev_avail := a\<rparr>"
    using transfer_eq [OF c(4) ok(1,2), of True] by blast
  have "upd_at b (\<lambda>x. x\<lparr>b_disk := False\<rparr>) (bcache s) = bcache s"
    using ok by (simp add: upd_at_def list_update_same_conv)
  then have e: "transfer b True s = ?u" by (simp add: transfer_def Let_def sec_of_def)
  have "clean (bcache s) (platter ?u)" using c(3) assms(5) by (auto simp: clean_def)
  then have "cache_inv ?u xs" using c ok by (simp add: cache_inv_def vd_idle_def myproc_def)
  then have "cache_inv t xs" by (rule cache_inv_drv [OF _ t(4) [unfolded e] t(2)]) (simp add: t(3))
  moreover have "blk_frame ?u t" unfolding t(4) e by (rule drv_frame) (simp add: t(3))
  moreover have "bcache t = bcache s" unfolding t(4) e by simp
  ultimately show ?thesis using t(1) mine_holding [OF assms(2)] by (simp add: bwrite_def)
qed

lemma cache_inv_strip:
  assumes "cache_inv s xs" "strip bs = strip (bcache s)" "cache_list bs ys"
  shows "cache_inv (s\<lparr>bcache := bs\<rparr>) ys"
proof -
  have c: "cache_list (bcache s) xs" "bufs_ok (bcache s)" "clean (bcache s) (platter s)" "vd_idle s"
    "\<And>sec. length (platter s sec) = BSIZE" "\<exists>p. myproc s = Some p \<and> p < length (ptable s)"
    using assms(1) by (simp_all add: cache_inv_def)
  have n: "i < length (bcache s)" if "i < NBUF" for i using that c(1) by (simp add: cache_list_def)
  note f = strip_nth [OF assms(2) n]
  have h: "holds bs dev k i \<longleftrightarrow> holds (bcache s) dev k i" for dev k i
    using f by (auto simp: holds_def)
  have "bufs_ok bs" using c(2) f unfolding bufs_ok_def h by simp
  moreover have "clean bs (platter s)" using c(3) f unfolding clean_def by simp
  ultimately show ?thesis using assms(3) c by (simp add: cache_inv_def vd_idle_def myproc_def)
qed

lemma brelse_spec:
  assumes "cache_inv s xs" "mine s b" "b < NBUF" "b_refcnt (bcache s ! b) \<noteq> 0" 
    and "b_refcnt (bcache s ! b) = 1 \<Longrightarrow> b_valid (bcache s ! b) \<Longrightarrow> b_data (bcache s ! b) = platter s (sec_of (b_blockno (bcache s ! b)))"
  shows "\<exists>t lk. brelse b s = Ret t \<and> cache_inv t (if b_refcnt (bcache s ! b) = 1 then b # remove1 b xs else xs) \<and>
    blk_frame s t \<and> \<not> sl_locked lk \<and>
    strip (bcache t) = strip (upd_at b (\<lambda>x. x\<lparr>b_lock := lk, b_refcnt := b_refcnt x - 1\<rparr>) (bcache s))"
proof -
  define lk where "lk = (b_lock (bcache s ! b))\<lparr>sl_locked := False, sl_pid := 0\<rparr>"
  define s1 where "s1 = wakeup (ChanBufLock b) s"
  define s2 where "s2 = upd_buf b (\<lambda>x. x\<lparr>b_lock := lk, b_refcnt := b_refcnt x - 1\<rparr>) s1"
  have s1: "bcache s1 = bcache s" "platter s1 = platter s" by (simp_all add: s1_def wakeup_def)
  have ok: "length (bcache s) = Suc NBUF" "length (b_data (bcache s ! b)) = BSIZE" "\<not> b_disk (bcache s ! b)" "cache_list (bcache s) xs"
    using assms(1,3) by (simp_all add: cache_inv_def bufs_ok_def cache_list_def)
  have c1: "cache_inv s1 xs"
    using assms(1) by (simp add: cache_inv_def s1_def wakeup_def vd_idle_def myproc_def)
  have z: "b_refcnt (bcache s ! b) - 1 = 0 \<longleftrightarrow> b_refcnt (bcache s ! b) = 1" by simp
  have c2: "cache_inv s2 xs"
    unfolding s2_def using ok assms(3,5)
    by (intro cache_inv_upd_buf [OF c1 assms(3) refl]) (simp_all add: s1 lk_def z)
  have fr: "blk_frame s s2" by (simp add: blk_frame_def s2_def s1_def wakeup_def)
  have n2: "b_refcnt (bcache s2 ! b) = b_refcnt (bcache s ! b) - 1" using assms(3) ok by (simp add: s2_def s1)
  have run: "brelse b s = (if b_refcnt (bcache s2 ! b) = 0 then Ret (s2\<lparr>bcache := push_front b (unlink_buf b (bcache s2))\<rparr>) else Ret s2)"
    unfolding brelse_def mine_holding [OF assms(2)] by (simp add: releasesleep_def s2_def s1_def lk_def Let_def)
  show ?thesis
  proof (cases "b_refcnt (bcache s ! b) = 1")
    case True
    have l2: "cache_list (bcache s2) xs" using c2 by (simp add: cache_inv_def)
    then have "b \<in> set xs" "distinct xs" using assms(3) by (simp_all add: cache_list_def)
    then obtain ps qs where x: "xs = ps @ b # qs" "b \<notin> set ps" by (meson split_list_first)
    then have rm: "remove1 b xs = ps @ qs" by (simp add: remove1_append)
    let ?bs = "push_front b (unlink_buf b (bcache s2))"
    have "cache_inv (s2\<lparr>bcache := ?bs\<rparr>) (b # ps @ qs)"
      by (rule cache_inv_strip [OF c2]) (use unlink_front l2 x in simp_all)
    moreover have "blk_frame s (s2\<lparr>bcache := ?bs\<rparr>)" using fr by (simp add: blk_frame_def)
    ultimately show ?thesis using True run n2 rm
      by (intro exI [of _ "s2\<lparr>bcache := ?bs\<rparr>"] exI [of _ lk]) (simp add: lk_def s2_def s1)
  next
    case False
    then show ?thesis using run n2 c2 fr z by (intro exI [of _ s2] exI [of _ lk]) (simp add: lk_def s2_def s1)
  qed
qed


section \<open>The cache after initialisation\<close>

lemma strip_binit_loop:
  "(\<And>i. i \<in> set is \<Longrightarrow> i < length bs \<and> b_lock (bs ! i) = \<lparr>sl_locked = False, sl_pid = 0\<rparr>) \<Longrightarrow> strip (binit_loop is bs) = strip bs"
proof (induction "is" arbitrary: bs)
  case Nil
  then show ?case by simp
next
  case (Cons i "is")
  have "(bs ! i)\<lparr>b_lock := initsleeplock (b_lock (bs ! i))\<rparr> = bs ! i"
    using Cons.prems [of i] by (simp add: initsleeplock_def)
  then have e: "upd_at i (\<lambda>x. x\<lparr>b_lock := initsleeplock (b_lock x)\<rparr>) bs = bs"
    by (simp add: upd_at_def)
  have "strip (binit_loop is (push_front i bs)) = strip (push_front i bs)"
    using Cons.prems strip_nth(5) [of "push_front i bs" bs] by (intro Cons.IH) simp
  then show ?case by (simp add: e)
qed

definition boot_bufs :: "buf list \<Rightarrow> bool" where
  "boot_bufs bs \<longleftrightarrow> length bs = Suc NBUF \<and> list_all (\<lambda>b. \<not> b_valid b \<and> \<not> b_disk b \<and> b_dev b = 0 \<and> b_refcnt b = 0 \<and>
     b_lock b = \<lparr>sl_locked = False, sl_pid = 0\<rparr> \<and> length (b_data b) = BSIZE) bs"

lemma binit_strip:
  assumes "boot_bufs (bcache s)"
  shows "strip (bcache (binit s)) = strip (bcache s)"
proof -
  let ?bs = "set_next NBUF NBUF (set_prev NBUF NBUF (bcache s))"
  have b: "length (bcache s) = Suc NBUF" using assms by (simp add: boot_bufs_def)
  have "strip ?bs = strip (bcache s)" by simp
  then have "b_lock (?bs ! i) = b_lock (bcache s ! i)" if "i < NBUF" for i
    using strip_nth(5) [of ?bs "bcache s" i] that b by linarith
  then have "strip (binit_loop [0..<NBUF] ?bs) = strip ?bs"
    using assms by (intro strip_binit_loop) (simp add: boot_bufs_def list_all_length)
  then show ?thesis by (simp add: binit_def)
qed

lemma binit_cache_inv:
  assumes "boot_bufs (bcache s)" "vd_idle s" "\<And>sec. length (platter s sec) = BSIZE" "myproc s = Some p" "p < length (ptable s)"
  shows "cache_inv (binit s) (rev [0..<NBUF])"
proof -
  have b: "length (bcache s) = Suc NBUF" using assms(1) by (simp add: boot_bufs_def)
  note f = strip_nth [OF binit_strip [OF assms(1)]]
  have n: "\<not> b_valid (bcache s ! i) \<and> \<not> b_disk (bcache s ! i) \<and> b_dev (bcache s ! i) = 0 \<and> b_refcnt (bcache s ! i) = 0 \<and>
     b_lock (bcache s ! i) = \<lparr>sl_locked = False, sl_pid = 0\<rparr> \<and> length (b_data (bcache s ! i)) = BSIZE" if "i < NBUF" for i
    using assms(1) that by (simp add: boot_bufs_def list_all_length)
  have "bufs_ok (bcache (binit s))" using f b n by (auto simp: bufs_ok_def holds_def)
  moreover have "clean (bcache (binit s)) (platter s)" using f b n by (auto simp: clean_def)
  ultimately show ?thesis using binit_list [OF b] assms(2-5)
    by (auto simp: cache_inv_def binit_def vd_idle_def myproc_def)
qed


section \<open>Reading a block and releasing it\<close>

lemma release_block:
  assumes "strip (bcache t) = strip (upd_at b (\<lambda>x. x\<lparr>b_lock := lk, b_refcnt := b_refcnt x - 1\<rparr>) (bcache s))" "platter t = platter s"
  shows "block t dev k = block s dev k"
proof (rule block_cong [OF _ assms(2)])
  let ?f = "\<lambda>x. x\<lparr>b_lock := lk, b_refcnt := b_refcnt x - 1\<rparr>"
  have m: "map core bs = map core (strip bs)" for bs by (simp add: strip_def core_def)
  have "map core (bcache t) = map core (upd_at b ?f (bcache s))"
    by (subst (1 2) m) (simp only: assms(1))
  also have "\<dots> = map core (bcache s)" by (rule core_upd_at) (simp add: core_def)
  finally show "map core (bcache t) = map core (bcache s)" .
qed

lemma bread_ok:
  assumes "cache_inv s xs" "dev \<noteq> 0"
    and "\<And>i. holds (bcache s) dev k i \<Longrightarrow> \<not> sl_locked (b_lock (bcache s ! i)) \<and> b_refcnt (bcache s ! i) + 1 \<noteq> 0"
    and "\<exists>i < NBUF. holds (bcache s) dev k i \<or> b_refcnt (bcache s ! i) = 0"
  shows "\<exists>b t. bread dev k s = Ret (b, t) \<and> read_ok dev k xs s b t"
proof (cases "\<exists>i. holds (bcache s) dev k i")
  case True
  then show ?thesis using bread_hit [OF assms(1) _ assms(2)] assms(3) by blast
next
  case False
  then have "\<exists>i \<in> set (rev xs). b_refcnt (bcache s ! i) = 0"
    using assms(1,4) by (auto simp: cache_inv_def cache_list_def)
  then obtain b where "find (\<lambda>i. b_refcnt (bcache s ! i) = 0) (rev xs) = Some b"
    using find_None_iff_all [of _ "rev xs"] by (cases "find (\<lambda>i. b_refcnt (bcache s ! i) = 0) (rev xs)") auto
  then show ?thesis using bread_miss [OF assms(1) _ assms(2)] False by blast
qed

lemma read_clean:
  assumes "cache_inv s xs" "dev \<noteq> 0" "read_ok dev k xs s b t" "b_refcnt (bcache t ! b) = 1"
  shows "block s dev k = platter s (sec_of k)"
proof -
  have ok: "clean (bcache s) (platter s)" "bufs_ok (bcache s)" "length (bcache s) = Suc NBUF" "bufs_ok (bcache t)" "b < NBUF"
    using assms(1,3) by (auto simp: cache_inv_def cache_list_def read_ok_def holds_def)
  have hit: "holds (bcache s) dev k b" if "holds (bcache s) dev k i" for i
  proof (rule ccontr)
    assume no: "\<not> holds (bcache s) dev k b"
    then have "i \<noteq> b" using that by blast
    then have "holds (bcache t) dev k i" using that assms(3) by (simp add: read_ok_def others_def holds_def)
    then show False using holds_unique [OF ok(4) _ _ assms(2)] assms(3) \<open>i \<noteq> b\<close> by (auto simp: read_ok_def)
  qed
  show ?thesis
  proof (cases "holds (bcache s) dev k b \<and> b_valid (bcache s ! b)")
    case True
    then have "b_refcnt (bcache s ! b) = 0" using assms(3,4) by (simp add: read_ok_def)
    then show ?thesis using block_cached [OF ok(2,3) _ _ assms(2)] True ok(1,5) by (auto simp: clean_def holds_def)
  next
    case False
    then show ?thesis using hit holds_unique [OF ok(2) _ _ assms(2)] ok(3) by (intro block_uncached) blast+
  qed
qed

lemma release_read:
  assumes "cache_inv s xs" "dev \<noteq> 0" "read_ok dev k xs s b t"
  shows "\<exists>u lk. brelse b t = Ret u \<and> cache_inv u (if b_refcnt (bcache t ! b) = 1 then b # remove1 b xs else xs) \<and>
    blk_frame s u \<and> \<not> sl_locked lk \<and>
    strip (bcache u) = strip (upd_at b (\<lambda>x. x\<lparr>b_lock := lk, b_refcnt := b_refcnt x - 1\<rparr>) (bcache t)) \<and>
    (\<forall>dev' k'. dev' \<noteq> 0 \<longrightarrow> block u dev' k' = block s dev' k')"
proof -
  have r: "cache_inv t xs" "mine t b" "b < NBUF" "b_data (bcache t ! b) = block s dev k" "blk_frame s t"
    "\<And>dev' k'. dev' \<noteq> 0 \<Longrightarrow> block t dev' k' = block s dev' k'" "b_blockno (bcache t ! b) = k"
    using assms(3) by (auto simp: read_ok_def holds_def)
  have nz: "b_refcnt (bcache t ! b) \<noteq> 0" using r(1-3) by (auto simp: cache_inv_def bufs_ok_def mine_def)
  have "b_data (bcache t ! b) = platter t (sec_of k)" if "b_refcnt (bcache t ! b) = 1"
    using read_clean [OF assms that] r(4) blk_frame_sel(1) [OF r(5)] by simp
  then obtain u lk where u: "brelse b t = Ret u" "cache_inv u (if b_refcnt (bcache t ! b) = 1 then b # remove1 b xs else xs)"
    "blk_frame t u" "\<not> sl_locked lk" "strip (bcache u) = strip (upd_at b (\<lambda>x. x\<lparr>b_lock := lk, b_refcnt := b_refcnt x - 1\<rparr>) (bcache t))"
    using brelse_spec [OF r(1-3) nz] r(7) by blast
  have "block u dev' k' = block s dev' k'" if "dev' \<noteq> 0" for dev' k'
    using release_block [OF u(5), of dev' k'] blk_frame_sel(1) [OF u(3)] r(6) [OF that] by simp
  then show ?thesis using u blk_frame_trans [OF r(5) u(3)] by blast
qed

text \<open>
  C25. The buffer cache is a coherent LRU cache.  \<open>bread\<close> panics exactly when the block is not cached and
  every buffer is in use; otherwise it returns a buffer of its own, locked, that holds the block's
  current content: the one that already held the block, or the least recently released unused one.
  Releasing it with \<open>brelse\<close> moves an unused buffer to the front of the list.  Neither call changes the
  content of any block, and no block is ever cached twice.
\<close>

theorem bread_brelse_lru:
  assumes "cache_inv s xs" "dev \<noteq> 0"
    and "\<And>i. holds (bcache s) dev k i \<Longrightarrow> \<not> sl_locked (b_lock (bcache s ! i)) \<and> b_refcnt (bcache s ! i) + 1 \<noteq> 0"
  shows "if \<forall>i < NBUF. \<not> holds (bcache s) dev k i \<and> b_refcnt (bcache s ! i) \<noteq> 0
    then bread dev k s = Panic ''bget: no buffers''
    else \<exists>b t u. bread dev k s = Ret (b, t) \<and> read_ok dev k xs s b t \<and> brelse b t = Ret u \<and>
      cache_inv u (if b_refcnt (bcache t ! b) = 1 then b # remove1 b xs else xs) \<and>
      (\<forall>dev' k'. dev' \<noteq> 0 \<longrightarrow> block u dev' k' = block s dev' k')"
proof (cases "\<forall>i < NBUF. \<not> holds (bcache s) dev k i \<and> b_refcnt (bcache s ! i) \<noteq> 0")
  case True
  then have "\<not> holds (bcache s) dev k i" for i by (auto simp: holds_def)
  then show ?thesis using True bread_full [OF assms(1)] by simp
next
  case False
  then obtain b t where t: "bread dev k s = Ret (b, t)" "read_ok dev k xs s b t"
    using bread_ok [OF assms] by blast
  then show ?thesis using release_read [OF assms(1,2) t(2)] unfolding if_not_P [OF False] by blast
qed

text \<open>The example cache after \<open>binit\<close>: block 5 is read into the last buffer of the list, number 0.\<close>

lemma demo_cache: "cache_inv (binit demo_blk) (rev [0..<NBUF])"
  by (rule binit_cache_inv [where p = 3]) (simp_all add: boot_bufs_def NBUF_def buf0_def list_all_length)

lemma demo_cache_empty:
  assumes "i < NBUF"
  shows "b_dev (bcache (binit demo_blk) ! i) = 0" "b_refcnt (bcache (binit demo_blk) ! i) = 0"
proof -
  have "strip (bcache (binit demo_blk)) = strip (bcache demo_blk)"
    by (rule binit_strip) (simp add: boot_bufs_def NBUF_def buf0_def list_all_length)
  then show "b_dev (bcache (binit demo_blk) ! i) = 0" "b_refcnt (bcache (binit demo_blk) ! i) = 0"
    using strip_nth(3,6) [of "bcache (binit demo_blk)" "bcache demo_blk" i] assms by (simp_all add: NBUF_def buf0_def)
qed

theorem bread_brelse_lru_witness:
  "\<exists>t u. bread 1 5 (binit demo_blk) = Ret (0, t) \<and> b_data (bcache t ! 0) = replicate BSIZE 1 \<and>
     brelse 0 t = Ret u \<and> cache_inv u (0 # remove1 0 (rev [0..<NBUF]))"
proof -
  let ?s = "binit demo_blk"
  have no: "\<not> holds (bcache ?s) 1 5 i" for i using demo_cache_empty(1) [of i] by (auto simp: holds_def)
  have l: "length (bcache ?s) = Suc NBUF" using demo_cache by (simp add: cache_inv_def cache_list_def)
  have f: "\<not> (\<forall>i < NBUF. \<not> holds (bcache ?s) 1 5 i \<and> b_refcnt (bcache ?s ! i) \<noteq> 0)"
    using demo_cache_empty(2) [of 0] by (auto simp: NBUF_def intro!: exI [of _ 0])
  obtain b t u where t: "bread 1 5 ?s = Ret (b, t)" "read_ok 1 5 (rev [0..<NBUF]) ?s b t" "brelse b t = Ret u"
    "cache_inv u (if b_refcnt (bcache t ! b) = 1 then b # remove1 b (rev [0..<NBUF]) else rev [0..<NBUF])"
    using bread_brelse_lru [OF demo_cache one_neq_zero, of 5] no unfolding if_not_P [OF f] by blast
  have "find (\<lambda>i. b_refcnt (bcache ?s ! i) = 0) [0..<NBUF] = Some 0"
    using demo_cache_empty(2) [of 0] by (simp add: NBUF_def upt_conv_Cons)
  then have "b = 0" "b_refcnt (bcache t ! b) = 1" "b_data (bcache t ! b) = block ?s 1 5"
    using t(2) no by (auto simp: read_ok_def)
  moreover have "block ?s 1 5 = replicate BSIZE 1"
    using block_uncached [of ?s 1 5, OF _ l] no by (simp add: binit_def)
  ultimately show ?thesis using t by auto
qed

end
