(* ===== verification/Bytes.thy ===== *)
theory Bytes
  imports Memory
begin

text \<open>
  Little-endian fields of 16 and 32 bits inside a byte array, as the on-disk structures of \<^verbatim>\<open>kernel/fs.h\<close>
  and \<^verbatim>\<open>kernel/log.c\<close> use them, and replacing part of an array.
\<close>

definition splice :: "'a list \<Rightarrow> nat \<Rightarrow> 'a list \<Rightarrow> 'a list" where
  "splice bs i xs = take i bs @ xs @ drop (i + length xs) bs"

definition slice :: "'a list \<Rightarrow> nat \<Rightarrow> nat \<Rightarrow> 'a list" where
  "slice bs i n = take n (drop i bs)"

definition bytes16 :: "16 word \<Rightarrow> byte list" where
  "bytes16 v = map (\<lambda>i. ucast (drop_bit (8 * i) v)) [0..<2]"

definition get16 :: "byte list \<Rightarrow> nat \<Rightarrow> 16 word" where
  "get16 bs i = word_rcat (rev (slice bs i 2))"

definition get32 :: "byte list \<Rightarrow> nat \<Rightarrow> uint" where
  "get32 bs i = word_rcat (rev (slice bs i 4))"

definition put16 :: "byte list \<Rightarrow> nat \<Rightarrow> 16 word \<Rightarrow> byte list" where
  "put16 bs i v = splice bs i (bytes16 v)"

definition put32 :: "byte list \<Rightarrow> nat \<Rightarrow> uint \<Rightarrow> byte list" where
  "put32 bs i v = splice bs i (bytes32 v)"

lemma length_splice [simp]: "i + length xs \<le> length bs \<Longrightarrow> length (splice bs i xs) = length bs"
  by (simp add: splice_def)

lemma splice_nth:
  "i + length xs \<le> length bs \<Longrightarrow> j < length bs \<Longrightarrow>
   splice bs i xs ! j = (if i \<le> j \<and> j < i + length xs then xs ! (j - i) else bs ! j)"
  by (auto simp: splice_def nth_append min_def)

lemma slice_splice_same [simp]: "i \<le> length bs \<Longrightarrow> slice (splice bs i xs) i (length xs) = xs"
  by (simp add: slice_def splice_def)

lemma slice_splice_other:
  assumes "i + length xs \<le> length bs" "j + n \<le> i \<or> i + length xs \<le> j"
  shows "slice (splice bs i xs) j n = slice bs j n"
  by (rule nth_equalityI) (use assms in \<open>auto simp: slice_def splice_nth\<close>)

lemma length_bytes16 [simp]: "length (bytes16 v) = 2"
  by (simp add: bytes16_def)

lemma length_put [simp]:
  "i + 2 \<le> length bs \<Longrightarrow> length (put16 bs i v) = length bs" "i + 4 \<le> length bs \<Longrightarrow> length (put32 bs i w) = length bs"
  by (simp_all add: put16_def put32_def)

lemma rcat_bytes16 [simp]: "(word_rcat (rev (bytes16 v)) :: 16 word) = v"
proof (rule bit_word_eqI)
  fix n :: nat
  assume n: "n < LENGTH(16)"
  then have "bit (word_rcat (rev (bytes16 v)) :: 16 word) n \<longleftrightarrow> bit (bytes16 v ! (n div 8)) (n mod 8)"
    using bit_horner_sum_uint_exp_iff [of "bytes16 v" n] by (auto simp: word_rcat_def bit_word_of_int_iff)
  also have "\<dots> \<longleftrightarrow> bit v n" using n by (auto simp: bytes16_def bit_simps nth_append less_Suc_eq)
  finally show "bit (word_rcat (rev (bytes16 v)) :: 16 word) n \<longleftrightarrow> bit v n" .
qed

lemma rcat_bytes32 [simp]: "(word_rcat (rev (bytes32 v)) :: uint) = v"
proof (rule bit_word_eqI)
  fix n :: nat
  assume n: "n < LENGTH(32)"
  then have d: "n div 8 < 4" by simp
  have "bit (word_rcat (rev (bytes32 v)) :: uint) n \<longleftrightarrow> bit (bytes32 v ! (n div 8)) (n mod 8)"
    using n bit_horner_sum_uint_exp_iff [of "bytes32 v" n] by (auto simp: word_rcat_def bit_word_of_int_iff)
  also have "\<dots> \<longleftrightarrow> bit v n" using n d by (simp add: bytes32_def bit_simps)
  finally show "bit (word_rcat (rev (bytes32 v)) :: uint) n \<longleftrightarrow> bit v n" .
qed

lemma get_put_same [simp]:
  "i + 2 \<le> length bs \<Longrightarrow> get16 (put16 bs i v) i = v" "i + 4 \<le> length bs \<Longrightarrow> get32 (put32 bs i w) i = w"
  using slice_splice_same [of i bs "bytes16 v"] slice_splice_same [of i bs "bytes32 w"]
  by (simp_all add: get16_def put16_def get32_def put32_def)

lemma get_put_other:
  "i + 2 \<le> length bs \<Longrightarrow> j + 2 \<le> i \<or> i + 2 \<le> j \<Longrightarrow> get16 (put16 bs i v) j = get16 bs j"
  "i + 4 \<le> length bs \<Longrightarrow> j + 2 \<le> i \<or> i + 4 \<le> j \<Longrightarrow> get16 (put32 bs i w) j = get16 bs j"
  "i + 2 \<le> length bs \<Longrightarrow> j + 4 \<le> i \<or> i + 2 \<le> j \<Longrightarrow> get32 (put16 bs i v) j = get32 bs j"
  "i + 4 \<le> length bs \<Longrightarrow> j + 4 \<le> i \<or> i + 4 \<le> j \<Longrightarrow> get32 (put32 bs i w) j = get32 bs j"
  by (simp_all add: get16_def put16_def get32_def put32_def slice_splice_other)

end
