(* ===== verification/Log.thy ===== *)
theory Log
  imports Bcache Bytes
begin

text \<open>
  The write-ahead log of \<^verbatim>\<open>kernel/log.c\<close>.  The fields of \<^verbatim>\<open>struct log\<close> and of its header are fields of the
  state.  On disk the header is the first block of the log: the count at offset 0, the home block of
  the \<open>i\<close>-th logged block at offset \<open>4 + 4 * i\<close>.  A process that \<open>begin_op\<close> puts to sleep does not return by
  itself; the result is \<open>Hang\<close>.
\<close>

section \<open>State\<close>

definition MAXOPBLOCKS :: int where [simp]: "MAXOPBLOCKS = 10"
definition LOGBLOCKS :: nat where [simp]: "LOGBLOCKS = 30"

record log_state = blk_state +
  lg_start :: uint
  lg_outstanding :: int
  lg_committing :: bool
  lg_dev :: uint
  lh_n :: int
  lh_block :: "uint list"

definition logged :: "'z log_state_scheme \<Rightarrow> uint list" where
  "logged s = take (nat (lh_n s)) (lh_block s)"

section \<open>The header\<close>

definition read_head :: "'z log_state_scheme \<Rightarrow> 'z log_state_scheme outcome" where
  "read_head s =
     obind (bread (lg_dev s) (lg_start s) s) (\<lambda>(b, s1).
       let d = b_data (bcache s1 ! b); n = sint (get32 d 0) in
       brelse b (s1\<lparr>lh_n := n,
         lh_block := map (\<lambda>i. get32 d (4 + 4 * i)) [0..<nat n] @ drop (nat n) (lh_block s1)\<rparr>))"

definition encode_head :: "int \<Rightarrow> uint list \<Rightarrow> byte list \<Rightarrow> byte list" where
  "encode_head n blocks d =
     fold (\<lambda>i d. put32 d (4 + 4 * i) (blocks ! i)) [0..<nat n] (put32 d 0 (word_of_int n))"

definition write_head :: "'z log_state_scheme \<Rightarrow> 'z log_state_scheme outcome" where
  "write_head s =
     obind (bread (lg_dev s) (lg_start s) s) (\<lambda>(b, s1).
       obind (bwrite b (upd_buf b (\<lambda>x. x\<lparr>b_data := encode_head (lh_n s1) (lh_block s1) (b_data x)\<rparr>) s1)) (brelse b))"

section \<open>Installing and recovering\<close>

fun install_loop :: "bool \<Rightarrow> nat list \<Rightarrow> 'z log_state_scheme \<Rightarrow> 'z log_state_scheme outcome" where
  "install_loop recovering [] s = Ret s"
| "install_loop recovering (t # ts) s =
     obind (bread (lg_dev s) (lg_start s + of_nat t + 1) s) (\<lambda>(lbuf, s1).
     obind (bread (lg_dev s1) (lh_block s1 ! t) s1) (\<lambda>(dbuf, s2).
     obind (bwrite dbuf (upd_buf dbuf (\<lambda>x. x\<lparr>b_data := b_data (bcache s2 ! lbuf)\<rparr>) s2)) (\<lambda>s3.
       let s4 = (if recovering then s3 else bunpin dbuf s3) in
       obind (brelse lbuf s4) (\<lambda>s5. obind (brelse dbuf s5) (install_loop recovering ts)))))"

definition install_trans :: "bool \<Rightarrow> 'z log_state_scheme \<Rightarrow> 'z log_state_scheme outcome" where
  "install_trans recovering s = install_loop recovering [0..<nat (lh_n s)] s"

definition recover_from_log :: "'z log_state_scheme \<Rightarrow> 'z log_state_scheme outcome" where
  "recover_from_log s =
     obind (read_head s) (\<lambda>s1.
     obind (install_trans True s1) (\<lambda>s2. write_head (s2\<lparr>lh_n := 0\<rparr>)))"

definition initlog :: "uint \<Rightarrow> uint \<Rightarrow> 'z log_state_scheme \<Rightarrow> 'z log_state_scheme outcome" where
  "initlog dev logstart s = recover_from_log (s\<lparr>lg_start := logstart, lg_dev := dev\<rparr>)"

section \<open>Transactions\<close>

definition begin_op :: "'z log_state_scheme \<Rightarrow> 'z log_state_scheme outcome" where
  "begin_op s =
     (if lg_committing s \<or> lh_n s + (lg_outstanding s + 1) * MAXOPBLOCKS > int LOGBLOCKS then Hang
      else Ret (s\<lparr>lg_outstanding := lg_outstanding s + 1\<rparr>))"

fun write_log_loop :: "nat list \<Rightarrow> 'z log_state_scheme \<Rightarrow> 'z log_state_scheme outcome" where
  "write_log_loop [] s = Ret s"
| "write_log_loop (t # ts) s =
     obind (bread (lg_dev s) (lg_start s + of_nat t + 1) s) (\<lambda>(tob, s1).
     obind (bread (lg_dev s1) (lh_block s1 ! t) s1) (\<lambda>(from_b, s2).
     obind (bwrite tob (upd_buf tob (\<lambda>x. x\<lparr>b_data := b_data (bcache s2 ! from_b)\<rparr>) s2)) (\<lambda>s3.
     obind (brelse from_b s3) (\<lambda>s4. obind (brelse tob s4) (write_log_loop ts)))))"

definition write_log :: "'z log_state_scheme \<Rightarrow> 'z log_state_scheme outcome" where
  "write_log s = write_log_loop [0..<nat (lh_n s)] s"

definition commit :: "'z log_state_scheme \<Rightarrow> 'z log_state_scheme outcome" where
  "commit s =
     (if lh_n s > 0 then
        obind (write_log s) (\<lambda>s1.
        obind (write_head s1) (\<lambda>s2.
        obind (install_trans False s2) (\<lambda>s3. write_head (s3\<lparr>lh_n := 0\<rparr>))))
      else Ret s)"

definition end_op :: "'z log_state_scheme \<Rightarrow> 'z log_state_scheme outcome" where
  "end_op s =
     (let s1 = s\<lparr>lg_outstanding := lg_outstanding s - 1\<rparr> in
      if lg_committing s1 then Panic ''log.committing''
      else if lg_outstanding s1 = 0 then
        obind (commit (s1\<lparr>lg_committing := True\<rparr>)) (\<lambda>s2. Ret (wakeup ChanLog (s2\<lparr>lg_committing := False\<rparr>)))
      else Ret (wakeup ChanLog s1))"

definition log_write :: "nat \<Rightarrow> 'z log_state_scheme \<Rightarrow> 'z log_state_scheme outcome" where
  "log_write b s =
     (if lh_n s \<ge> int LOGBLOCKS then Panic ''too big a transaction''
      else if lg_outstanding s < 1 then Panic ''log_write outside of trans''
      else
        let blockno = b_blockno (bcache s ! b) in
        case scan (\<lambda>k. k = blockno) (logged s) of
          Some i \<Rightarrow> Ret (s\<lparr>lh_block := (lh_block s)[i := blockno]\<rparr>)
        | None \<Rightarrow> Ret (bpin b (s\<lparr>lh_block := (lh_block s)[nat (lh_n s) := blockno], lh_n := lh_n s + 1\<rparr>)))"

end
