(* ===== verification/Fs.thy ===== *)
theory Fs
  imports Log
begin

text \<open>
  The file system of \<^verbatim>\<open>kernel/fs.c\<close> with the on-disk format of \<^verbatim>\<open>kernel/fs.h\<close>: the block allocator, the
  inodes and their table, file contents, directories and path names.

  An inode pointer is an index into the inode table, \<open>None\<close> for the null pointer.  A block, an inode on
  disk and a directory entry are byte sequences, read and written field by field.  The destination of
  \<open>readi\<close> is user memory, a kernel address, or a local variable of the caller; the bytes read are part of
  the result, so that a caller with a local destination takes them from there.  A path is the string up
  to its null byte.
\<close>

section \<open>On-disk format\<close>

definition ROOTDEV :: uint where [simp]: "ROOTDEV = 1"
definition ROOTINO :: uint where [simp]: "ROOTINO = 1"
definition NINODE :: nat where [simp]: "NINODE = 50"
definition FSMAGIC :: uint where [simp]: "FSMAGIC = 0x10203040"
definition NDIRECT :: nat where [simp]: "NDIRECT = 12"
definition NINDIRECT :: nat where [simp]: "NINDIRECT = 256"
definition MAXFILE :: nat where [simp]: "MAXFILE = 268"
definition IPB :: nat where [simp]: "IPB = 16"
definition BPB :: nat where [simp]: "BPB = 8192"
definition DIRSIZ :: nat where [simp]: "DIRSIZ = 14"
definition T_DIR :: "16 word" where [simp]: "T_DIR = 1"
definition T_FILE :: "16 word" where [simp]: "T_FILE = 2"
definition T_DEVICE :: "16 word" where [simp]: "T_DEVICE = 3"

record superblock =
  sb_magic :: uint
  sb_size :: uint
  sb_nblocks :: uint
  sb_ninodes :: uint
  sb_nlog :: uint
  sb_logstart :: uint
  sb_inodestart :: uint
  sb_bmapstart :: uint

record dinode =
  di_type :: "16 word"
  di_major :: "16 word"
  di_minor :: "16 word"
  di_nlink :: "16 word"
  di_size :: uint
  di_addrs :: "uint list"

record inode =
  i_dev :: uint
  i_inum :: uint
  i_ref :: int
  i_lock :: sleeplock
  i_valid :: bool
  i_type :: "16 word"
  i_major :: "16 word"
  i_minor :: "16 word"
  i_nlink :: "16 word"
  i_size :: uint
  i_addrs :: "uint list"

record fs_state = log_state +
  sb :: superblock
  itable :: "inode list"

abbreviation upd_inode :: "nat \<Rightarrow> (inode \<Rightarrow> inode) \<Rightarrow> 'z fs_state_scheme \<Rightarrow> 'z fs_state_scheme" where
  "upd_inode i f s \<equiv> s\<lparr>itable := upd_at i f (itable s)\<rparr>"

definition get_dinode :: "byte list \<Rightarrow> nat \<Rightarrow> dinode" where
  "get_dinode d o0 = \<lparr>di_type = get16 d o0, di_major = get16 d (o0 + 2), di_minor = get16 d (o0 + 4), di_nlink = get16 d (o0 + 6),
     di_size = get32 d (o0 + 8), di_addrs = map (\<lambda>i. get32 d (o0 + 12 + 4 * i)) [0..<NDIRECT + 1]\<rparr>"

definition put_addrs :: "nat \<Rightarrow> uint list \<Rightarrow> byte list \<Rightarrow> byte list" where
  "put_addrs o0 as d = fold (\<lambda>i d. put32 d (o0 + 4 * i) (as ! i)) [0..<NDIRECT + 1] d"

definition put_dinode :: "byte list \<Rightarrow> nat \<Rightarrow> dinode \<Rightarrow> byte list" where
  "put_dinode d o0 x =
     (let d1 = put16 d o0 (di_type x); d2 = put16 d1 (o0 + 2) (di_major x); d3 = put16 d2 (o0 + 4) (di_minor x);
          d4 = put16 d3 (o0 + 6) (di_nlink x); d5 = put32 d4 (o0 + 8) (di_size x)
      in put_addrs (o0 + 12) (di_addrs x) d5)"

definition IBLOCK :: "uint \<Rightarrow> superblock \<Rightarrow> uint" where
  "IBLOCK i b = i div of_nat IPB + sb_inodestart b"

definition inode_off :: "uint \<Rightarrow> nat" where
  "inode_off i = 64 * (unat i mod IPB)"

definition BBLOCK :: "uint \<Rightarrow> superblock \<Rightarrow> uint" where
  "BBLOCK k b = k div of_nat BPB + sb_bmapstart b"

section \<open>The super block and the block allocator\<close>

definition readsb :: "uint \<Rightarrow> 'z fs_state_scheme \<Rightarrow> 'z fs_state_scheme outcome" where
  "readsb dev s =
     obind (bread dev 1 s) (\<lambda>(b, s1).
       let d = b_data (bcache s1 ! b) in
       brelse b (s1\<lparr>sb := \<lparr>sb_magic = get32 d 0, sb_size = get32 d 4, sb_nblocks = get32 d 8, sb_ninodes = get32 d 12,
         sb_nlog = get32 d 16, sb_logstart = get32 d 20, sb_inodestart = get32 d 24, sb_bmapstart = get32 d 28\<rparr>\<rparr>))"

definition bzero :: "uint \<Rightarrow> uint \<Rightarrow> 'z fs_state_scheme \<Rightarrow> 'z fs_state_scheme outcome" where
  "bzero dev bno s =
     obind (bread dev bno s) (\<lambda>(b, s1).
     obind (log_write b (upd_buf b (\<lambda>x. x\<lparr>b_data := replicate BSIZE 0\<rparr>) s1)) (brelse b))"

definition bit_free :: "byte list \<Rightarrow> nat \<Rightarrow> bool" where
  "bit_free d bi \<longleftrightarrow> d ! (bi div 8) AND push_bit (bi mod 8) 1 = 0"

definition set_used :: "nat \<Rightarrow> byte list \<Rightarrow> byte list" where
  "set_used bi d = d[bi div 8 := d ! (bi div 8) OR push_bit (bi mod 8) 1]"

definition set_free :: "nat \<Rightarrow> byte list \<Rightarrow> byte list" where
  "set_free bi d = d[bi div 8 := d ! (bi div 8) AND NOT (push_bit (bi mod 8) 1)]"

fun balloc_loop :: "uint \<Rightarrow> nat list \<Rightarrow> 'z fs_state_scheme \<Rightarrow> (uint \<times> 'z fs_state_scheme) outcome" where
  "balloc_loop dev [] s = Ret (0, s)"
| "balloc_loop dev (b0 # bs) s =
     obind (bread dev (BBLOCK (of_nat b0) (sb s)) s) (\<lambda>(b, s1).
       case scan (bit_free (b_data (bcache s1 ! b))) [0..<min BPB (unat (sb_size (sb s1)) - b0)] of
         Some bi \<Rightarrow>
           obind (log_write b (upd_buf b (\<lambda>x. x\<lparr>b_data := set_used bi (b_data x)\<rparr>) s1)) (\<lambda>s2.
           obind (brelse b s2) (\<lambda>s3.
           obind (bzero dev (of_nat (b0 + bi)) s3) (\<lambda>s4. Ret (of_nat (b0 + bi), s4))))
       | None \<Rightarrow> obind (brelse b s1) (balloc_loop dev bs))"

definition balloc :: "uint \<Rightarrow> 'z fs_state_scheme \<Rightarrow> (uint \<times> 'z fs_state_scheme) outcome" where
  "balloc dev s = balloc_loop dev (map (\<lambda>i. i * BPB) [0..<(unat (sb_size (sb s)) + BPB - 1) div BPB]) s"

definition bfree :: "uint \<Rightarrow> uint \<Rightarrow> 'z fs_state_scheme \<Rightarrow> 'z fs_state_scheme outcome" where
  "bfree dev k s =
     obind (bread dev (BBLOCK k (sb s)) s) (\<lambda>(b, s1).
       let bi = unat k mod BPB in
       if bit_free (b_data (bcache s1 ! b)) bi then Panic ''freeing free block''
       else obind (log_write b (upd_buf b (\<lambda>x. x\<lparr>b_data := set_free bi (b_data x)\<rparr>) s1)) (brelse b))"

section \<open>Inodes\<close>

definition iinit :: "'z fs_state_scheme \<Rightarrow> 'z fs_state_scheme" where
  "iinit s = s\<lparr>itable := map (\<lambda>ip. ip\<lparr>i_lock := initsleeplock (i_lock ip)\<rparr>) (itable s)\<rparr>"

definition iget :: "uint \<Rightarrow> uint \<Rightarrow> 'z fs_state_scheme \<Rightarrow> (nat \<times> 'z fs_state_scheme) outcome" where
  "iget dev inum s =
     (case scan (\<lambda>ip. i_ref ip > 0 \<and> i_dev ip = dev \<and> i_inum ip = inum) (itable s) of
        Some i \<Rightarrow> Ret (i, upd_inode i (\<lambda>ip. ip\<lparr>i_ref := i_ref ip + 1\<rparr>) s)
      | None \<Rightarrow>
          (case scan (\<lambda>ip. i_ref ip = 0) (itable s) of
             None \<Rightarrow> Panic ''iget: no inodes''
           | Some i \<Rightarrow> Ret (i, upd_inode i (\<lambda>ip. ip\<lparr>i_dev := dev, i_inum := inum, i_ref := 1, i_valid := False\<rparr>) s)))"

definition idup :: "nat \<Rightarrow> 'z fs_state_scheme \<Rightarrow> 'z fs_state_scheme" where
  "idup ip s = upd_inode ip (\<lambda>x. x\<lparr>i_ref := i_ref x + 1\<rparr>) s"

fun ialloc_loop :: "uint \<Rightarrow> 16 word \<Rightarrow> nat list \<Rightarrow> 'z fs_state_scheme \<Rightarrow> (nat option \<times> 'z fs_state_scheme) outcome" where
  "ialloc_loop dev type [] s = Ret (None, s)"
| "ialloc_loop dev type (inum # is) s =
     obind (bread dev (IBLOCK (of_nat inum) (sb s)) s) (\<lambda>(b, s1).
       let o0 = inode_off (of_nat inum) in
       if di_type (get_dinode (b_data (bcache s1 ! b)) o0) = 0 then
         let fresh = \<lparr>di_type = type, di_major = 0, di_minor = 0, di_nlink = 0, di_size = 0, di_addrs = replicate (NDIRECT + 1) 0\<rparr> in
         obind (log_write b (upd_buf b (\<lambda>x. x\<lparr>b_data := put_dinode (b_data x) o0 fresh\<rparr>) s1)) (\<lambda>s2.
         obind (brelse b s2) (\<lambda>s3.
         obind (iget dev (of_nat inum) s3) (\<lambda>(ip, s4). Ret (Some ip, s4))))
       else obind (brelse b s1) (ialloc_loop dev type is))"

definition ialloc :: "uint \<Rightarrow> 16 word \<Rightarrow> 'z fs_state_scheme \<Rightarrow> (nat option \<times> 'z fs_state_scheme) outcome" where
  "ialloc dev type s = ialloc_loop dev type [1..<unat (sb_ninodes (sb s))] s"

definition to_dinode :: "inode \<Rightarrow> dinode" where
  "to_dinode ip = \<lparr>di_type = i_type ip, di_major = i_major ip, di_minor = i_minor ip, di_nlink = i_nlink ip,
     di_size = i_size ip, di_addrs = i_addrs ip\<rparr>"

definition from_dinode :: "dinode \<Rightarrow> inode \<Rightarrow> inode" where
  "from_dinode d ip = ip\<lparr>i_type := di_type d, i_major := di_major d, i_minor := di_minor d, i_nlink := di_nlink d,
     i_size := di_size d, i_addrs := di_addrs d\<rparr>"

definition iupdate :: "nat \<Rightarrow> 'z fs_state_scheme \<Rightarrow> 'z fs_state_scheme outcome" where
  "iupdate i s =
     (let ip = itable s ! i in
      obind (bread (i_dev ip) (IBLOCK (i_inum ip) (sb s)) s) (\<lambda>(b, s1).
      obind (log_write b (upd_buf b (\<lambda>x. x\<lparr>b_data := put_dinode (b_data x) (inode_off (i_inum ip)) (to_dinode ip)\<rparr>) s1)) (brelse b)))"

definition ilock :: "nat option \<Rightarrow> 'z fs_state_scheme \<Rightarrow> 'z fs_state_scheme outcome" where
  "ilock ip s =
     (case ip of
        None \<Rightarrow> Panic ''ilock''
      | Some i \<Rightarrow>
          if i_ref (itable s ! i) < 1 then Panic ''ilock''
          else obind (acquiresleep s (i_lock (itable s ! i))) (\<lambda>lk.
            let s1 = upd_inode i (\<lambda>x. x\<lparr>i_lock := lk\<rparr>) s in
            if i_valid (itable s1 ! i) then Ret s1
            else obind (bread (i_dev (itable s1 ! i)) (IBLOCK (i_inum (itable s1 ! i)) (sb s1)) s1) (\<lambda>(b, s2).
              let d = get_dinode (b_data (bcache s2 ! b)) (inode_off (i_inum (itable s2 ! i))) in
              obind (brelse b (upd_inode i (from_dinode d) s2)) (\<lambda>s3.
                let s4 = upd_inode i (\<lambda>x. x\<lparr>i_valid := True\<rparr>) s3 in
                if i_type (itable s4 ! i) = 0 then Panic ''ilock: no type'' else Ret s4))))"

definition iunlock :: "nat option \<Rightarrow> 'z fs_state_scheme \<Rightarrow> 'z fs_state_scheme outcome" where
  "iunlock ip s =
     (case ip of
        None \<Rightarrow> Panic ''iunlock''
      | Some i \<Rightarrow>
          obind (holdingsleep s (i_lock (itable s ! i))) (\<lambda>h.
            if \<not> h \<or> i_ref (itable s ! i) < 1 then Panic ''iunlock''
            else let (lk, s1) = releasesleep (ChanInodeLock i) (i_lock (itable s ! i)) s in
              Ret (upd_inode i (\<lambda>x. x\<lparr>i_lock := lk\<rparr>) s1)))"

text \<open>The two loops of \<open>itrunc\<close>, over the direct blocks and over the entries of the indirect block.\<close>

fun itrunc_direct :: "nat \<Rightarrow> nat list \<Rightarrow> 'z fs_state_scheme \<Rightarrow> 'z fs_state_scheme outcome" where
  "itrunc_direct i [] s = Ret s"
| "itrunc_direct i (j # js) s =
     (let a = i_addrs (itable s ! i) ! j in
      if a \<noteq> 0 then
        obind (bfree (i_dev (itable s ! i)) a s) (\<lambda>s1.
          itrunc_direct i js (upd_inode i (\<lambda>x. x\<lparr>i_addrs := (i_addrs x)[j := 0]\<rparr>) s1))
      else itrunc_direct i js s)"

fun itrunc_indirect :: "nat \<Rightarrow> nat \<Rightarrow> nat list \<Rightarrow> 'z fs_state_scheme \<Rightarrow> 'z fs_state_scheme outcome" where
  "itrunc_indirect i b [] s = Ret s"
| "itrunc_indirect i b (j # js) s =
     (let a = get32 (b_data (bcache s ! b)) (4 * j) in
      if a \<noteq> 0 then obind (bfree (i_dev (itable s ! i)) a s) (itrunc_indirect i b js)
      else itrunc_indirect i b js s)"

definition itrunc :: "nat \<Rightarrow> 'z fs_state_scheme \<Rightarrow> 'z fs_state_scheme outcome" where
  "itrunc i s =
     obind (itrunc_direct i [0..<NDIRECT] s) (\<lambda>s1.
       let ind = i_addrs (itable s1 ! i) ! NDIRECT; dev = i_dev (itable s1 ! i) in
       obind (if ind \<noteq> 0 then
                obind (bread dev ind s1) (\<lambda>(b, s2).
                obind (itrunc_indirect i b [0..<NINDIRECT] s2) (\<lambda>s3.
                obind (brelse b s3) (\<lambda>s4.
                obind (bfree dev ind s4) (\<lambda>s5.
                  Ret (upd_inode i (\<lambda>x. x\<lparr>i_addrs := (i_addrs x)[NDIRECT := 0]\<rparr>) s5)))))
              else Ret s1) (\<lambda>s6.
         iupdate i (upd_inode i (\<lambda>x. x\<lparr>i_size := 0\<rparr>) s6)))"

definition iput :: "nat \<Rightarrow> 'z fs_state_scheme \<Rightarrow> 'z fs_state_scheme outcome" where
  "iput i s =
     (let ip = itable s ! i in
      obind (if i_ref ip = 1 \<and> i_valid ip \<and> i_nlink ip = 0 then
               obind (acquiresleep s (i_lock ip)) (\<lambda>lk.
               obind (itrunc i (upd_inode i (\<lambda>x. x\<lparr>i_lock := lk\<rparr>) s)) (\<lambda>s1.
               obind (iupdate i (upd_inode i (\<lambda>x. x\<lparr>i_type := 0\<rparr>) s1)) (\<lambda>s2.
                 let s3 = upd_inode i (\<lambda>x. x\<lparr>i_valid := False\<rparr>) s2;
                     (lk', s4) = releasesleep (ChanInodeLock i) (i_lock (itable s3 ! i)) s3
                 in Ret (upd_inode i (\<lambda>x. x\<lparr>i_lock := lk'\<rparr>) s4))))
             else Ret s) (\<lambda>s5.
        Ret (upd_inode i (\<lambda>x. x\<lparr>i_ref := i_ref x - 1\<rparr>) s5)))"

definition iunlockput :: "nat \<Rightarrow> 'z fs_state_scheme \<Rightarrow> 'z fs_state_scheme outcome" where
  "iunlockput i s = obind (iunlock (Some i) s) (iput i)"

fun ireclaim_loop :: "uint \<Rightarrow> nat list \<Rightarrow> 'z fs_state_scheme \<Rightarrow> 'z fs_state_scheme outcome" where
  "ireclaim_loop dev [] s = Ret s"
| "ireclaim_loop dev (inum # is) s =
     obind (bread dev (IBLOCK (of_nat inum) (sb s)) s) (\<lambda>(b, s1).
       let d = get_dinode (b_data (bcache s1 ! b)) (inode_off (of_nat inum)) in
       if di_type d \<noteq> 0 \<and> di_nlink d = 0 then
         obind (iget dev (of_nat inum) s1) (\<lambda>(ip, s2).
         obind (brelse b s2) (\<lambda>s3.
         obind (begin_op s3) (\<lambda>s4.
         obind (ilock (Some ip) s4) (\<lambda>s5.
         obind (iunlock (Some ip) s5) (\<lambda>s6.
         obind (iput ip s6) (\<lambda>s7.
         obind (end_op s7) (ireclaim_loop dev is)))))))
       else obind (brelse b s1) (ireclaim_loop dev is))"

definition ireclaim :: "uint \<Rightarrow> 'z fs_state_scheme \<Rightarrow> 'z fs_state_scheme outcome" where
  "ireclaim dev s = ireclaim_loop dev [1..<unat (sb_ninodes (sb s))] s"

definition fsinit :: "uint \<Rightarrow> 'z fs_state_scheme \<Rightarrow> 'z fs_state_scheme outcome" where
  "fsinit dev s =
     obind (readsb dev s) (\<lambda>s1.
       if sb_magic (sb s1) \<noteq> FSMAGIC then Panic ''invalid file system''
       else obind (initlog dev (sb_logstart (sb s1)) s1) (ireclaim dev))"

section \<open>File contents\<close>

definition bmap :: "nat \<Rightarrow> uint \<Rightarrow> 'z fs_state_scheme \<Rightarrow> (uint \<times> 'z fs_state_scheme) outcome" where
  "bmap i bn0 s =
     (let dev = i_dev (itable s ! i) in
      if bn0 < of_nat NDIRECT then
        let a = i_addrs (itable s ! i) ! unat bn0 in
        if a = 0 then
          obind (balloc dev s) (\<lambda>(a1, s1).
            if a1 = 0 then Ret (0, s1)
            else Ret (a1, upd_inode i (\<lambda>x. x\<lparr>i_addrs := (i_addrs x)[unat bn0 := a1]\<rparr>) s1))
        else Ret (a, s)
      else
        let bn = bn0 - of_nat NDIRECT in
        if bn < of_nat NINDIRECT then
          let a = i_addrs (itable s ! i) ! NDIRECT in
          obind (if a = 0 then
                   obind (balloc dev s) (\<lambda>(a1, s1).
                     if a1 = 0 then Ret (0, s1)
                     else Ret (a1, upd_inode i (\<lambda>x. x\<lparr>i_addrs := (i_addrs x)[NDIRECT := a1]\<rparr>) s1))
                 else Ret (a, s)) (\<lambda>(ind, s2).
            if ind = 0 then Ret (0, s2)
            else obind (bread dev ind s2) (\<lambda>(b, s3).
              let a2 = get32 (b_data (bcache s3 ! b)) (4 * unat bn) in
              if a2 = 0 then
                obind (balloc dev s3) (\<lambda>(a3, s4).
                  if a3 \<noteq> 0 then
                    obind (log_write b (upd_buf b (\<lambda>x. x\<lparr>b_data := put32 (b_data x) (4 * unat bn) a3\<rparr>) s4)) (\<lambda>s5.
                    obind (brelse b s5) (\<lambda>s6. Ret (a3, s6)))
                  else obind (brelse b s4) (\<lambda>s5. Ret (a3, s5)))
              else obind (brelse b s3) (\<lambda>s4. Ret (a2, s4))))
        else Panic ''bmap: out of range'')"

record stat =
  st_dev :: uint
  st_ino :: uint
  st_type :: "16 word"
  st_nlink :: "16 word"
  st_size :: "64 word"

definition stati :: "nat \<Rightarrow> 'z fs_state_scheme \<Rightarrow> stat" where
  "stati i s = (let ip = itable s ! i in
     \<lparr>st_dev = i_dev ip, st_ino = i_inum ip, st_type = i_type ip, st_nlink = i_nlink ip, st_size = ucast (i_size ip)\<rparr>)"

text \<open>Where \<open>readi\<close> puts the bytes it reads, and where \<open>writei\<close> takes the bytes it writes.\<close>

datatype dest = UserDst addr | KernDst addr | LocalDst
datatype source = UserSrc addr | LocalSrc "byte list"

definition copy_to :: "dest \<Rightarrow> uint \<Rightarrow> byte list \<Rightarrow> 'z mm_state_scheme \<Rightarrow> (int \<times> 'z mm_state_scheme) outcome" where
  "copy_to d tot bs s =
     (case d of
        UserDst a \<Rightarrow> either_copyout True (a + ucast tot) bs s
      | KernDst a \<Rightarrow> either_copyout False (a + ucast tot) bs s
      | LocalDst \<Rightarrow> Ret (0, s))"

definition copy_from :: "source \<Rightarrow> uint \<Rightarrow> nat \<Rightarrow> 'z mm_state_scheme \<Rightarrow> (int \<times> byte list \<times> 'z mm_state_scheme) outcome" where
  "copy_from d tot m s =
     (case d of
        UserSrc a \<Rightarrow> either_copyin True (a + ucast tot) m s
      | LocalSrc bs \<Rightarrow> Ret (0, slice bs (unat tot) m, s))"

definition chunk :: "uint \<Rightarrow> uint \<Rightarrow> uint \<Rightarrow> uint" where
  "chunk n tot off = min (n - tot) (of_nat BSIZE - off mod of_nat BSIZE)"

fun readi_loop ::
  "nat \<Rightarrow> nat \<Rightarrow> dest \<Rightarrow> uint \<Rightarrow> uint \<Rightarrow> uint \<Rightarrow> byte list \<Rightarrow> 'z fs_state_scheme \<Rightarrow> (int \<times> byte list \<times> 'z fs_state_scheme) outcome" where
  "readi_loop 0 i d off n tot acc s = Hang"
| "readi_loop (Suc fuel) i d off n tot acc s =
     (if tot < n then
        obind (bmap i (off div of_nat BSIZE) s) (\<lambda>(a, s1).
          if a = 0 then Ret (sint tot, acc, s1)
          else obind (bread (i_dev (itable s1 ! i)) a s1) (\<lambda>(b, s2).
            let m = chunk n tot off;
                bs = slice (b_data (bcache s2 ! b)) (unat off mod BSIZE) (unat m)
            in obind (copy_to d tot bs s2) (\<lambda>(r, s3).
                 if r = -1 then obind (brelse b s3) (\<lambda>s4. Ret (-1, acc, s4))
                 else obind (brelse b s3) (readi_loop fuel i d (off + m) n (tot + m) (acc @ bs)))))
      else Ret (sint tot, acc, s))"

definition readi ::
  "nat \<Rightarrow> dest \<Rightarrow> uint \<Rightarrow> uint \<Rightarrow> 'z fs_state_scheme \<Rightarrow> (int \<times> byte list \<times> 'z fs_state_scheme) outcome" where
  "readi i d off n s =
     (let sz = i_size (itable s ! i) in
      if off > sz \<or> off + n < off then Ret (0, [], s)
      else let n1 = (if off + n > sz then sz - off else n) in
        readi_loop (Suc (unat n1)) i d off n1 0 [] s)"

fun writei_loop ::
  "nat \<Rightarrow> nat \<Rightarrow> source \<Rightarrow> uint \<Rightarrow> uint \<Rightarrow> uint \<Rightarrow> 'z fs_state_scheme \<Rightarrow> (uint \<times> uint \<times> 'z fs_state_scheme) outcome" where
  "writei_loop 0 i d off n tot s = Hang"
| "writei_loop (Suc fuel) i d off n tot s =
     (if tot < n then
        obind (bmap i (off div of_nat BSIZE) s) (\<lambda>(a, s1).
          if a = 0 then Ret (tot, off, s1)
          else obind (bread (i_dev (itable s1 ! i)) a s1) (\<lambda>(b, s2).
            let m = chunk n tot off in
            obind (copy_from d tot (unat m) s2) (\<lambda>(r, bs, s3).
              let s4 = upd_buf b (\<lambda>x. x\<lparr>b_data := splice (b_data x) (unat off mod BSIZE) bs\<rparr>) s3 in
              if r = -1 then obind (brelse b s4) (\<lambda>s5. Ret (tot, off, s5))
              else obind (log_write b s4) (\<lambda>s5.
                   obind (brelse b s5) (writei_loop fuel i d (off + m) n (tot + m))))))
      else Ret (tot, off, s))"

definition writei :: "nat \<Rightarrow> source \<Rightarrow> uint \<Rightarrow> uint \<Rightarrow> 'z fs_state_scheme \<Rightarrow> (int \<times> 'z fs_state_scheme) outcome" where
  "writei i d off n s =
     (if off > i_size (itable s ! i) \<or> off + n < off then Ret (-1, s)
      else if unat (off + n) > MAXFILE * BSIZE then Ret (-1, s)
      else obind (writei_loop (Suc (unat n)) i d off n 0 s) (\<lambda>(tot, off1, s1).
        let s2 = (if off1 > i_size (itable s1 ! i) then upd_inode i (\<lambda>x. x\<lparr>i_size := off1\<rparr>) s1 else s1) in
        obind (iupdate i s2) (\<lambda>s3. Ret (sint tot, s3))))"

section \<open>Directories\<close>

fun strncmp_bytes :: "nat \<Rightarrow> byte list \<Rightarrow> byte list \<Rightarrow> int" where
  "strncmp_bytes 0 p q = 0"
| "strncmp_bytes (Suc n) p q =
     (let a = (case p of [] \<Rightarrow> 0 | x # _ \<Rightarrow> x); b = (case q of [] \<Rightarrow> 0 | x # _ \<Rightarrow> x) in
      if a \<noteq> 0 \<and> a = b then strncmp_bytes n (tl p) (tl q) else uint a - uint b)"

definition namecmp :: "byte list \<Rightarrow> byte list \<Rightarrow> int" where
  "namecmp p q = strncmp_bytes DIRSIZ p q"

definition de_inum :: "byte list \<Rightarrow> 16 word" where "de_inum de = get16 de 0"
definition de_name :: "byte list \<Rightarrow> byte list" where "de_name de = slice de 2 DIRSIZ"

definition make_dirent :: "byte list \<Rightarrow> uint \<Rightarrow> byte list" where
  "make_dirent name inum = bytes16 (ucast inum) @ take DIRSIZ (takeWhile (\<lambda>b. b \<noteq> 0) name @ replicate DIRSIZ 0)"

fun dirlookup_loop ::
  "nat \<Rightarrow> nat \<Rightarrow> byte list \<Rightarrow> uint \<Rightarrow> 'z fs_state_scheme \<Rightarrow> ((nat \<times> uint) option \<times> 'z fs_state_scheme) outcome" where
  "dirlookup_loop 0 dp name off s = Hang"
| "dirlookup_loop (Suc fuel) dp name off s =
     (if off < i_size (itable s ! dp) then
        obind (readi dp LocalDst off 16 s) (\<lambda>(r, de, s1).
          if r \<noteq> 16 then Panic ''dirlookup read''
          else if de_inum de \<noteq> 0 \<and> namecmp name (de_name de) = 0 then
            obind (iget (i_dev (itable s1 ! dp)) (ucast (de_inum de)) s1) (\<lambda>(ip, s2). Ret (Some (ip, off), s2))
          else dirlookup_loop fuel dp name (off + 16) s1)
      else Ret (None, s))"

definition dirlookup ::
  "nat \<Rightarrow> byte list \<Rightarrow> 'z fs_state_scheme \<Rightarrow> ((nat \<times> uint) option \<times> 'z fs_state_scheme) outcome" where
  "dirlookup dp name s =
     (if i_type (itable s ! dp) \<noteq> T_DIR then Panic ''dirlookup not DIR''
      else dirlookup_loop (Suc (unat (i_size (itable s ! dp)))) dp name 0 s)"

fun dirlink_loop :: "nat \<Rightarrow> nat \<Rightarrow> uint \<Rightarrow> 'z fs_state_scheme \<Rightarrow> (uint \<times> 'z fs_state_scheme) outcome" where
  "dirlink_loop 0 dp off s = Hang"
| "dirlink_loop (Suc fuel) dp off s =
     (if off < i_size (itable s ! dp) then
        obind (readi dp LocalDst off 16 s) (\<lambda>(r, de, s1).
          if r \<noteq> 16 then Panic ''dirlink read''
          else if de_inum de = 0 then Ret (off, s1)
          else dirlink_loop fuel dp (off + 16) s1)
      else Ret (off, s))"

definition dirlink :: "nat \<Rightarrow> byte list \<Rightarrow> uint \<Rightarrow> 'z fs_state_scheme \<Rightarrow> (int \<times> 'z fs_state_scheme) outcome" where
  "dirlink dp name inum s =
     obind (dirlookup dp name s) (\<lambda>(found, s1).
       case found of
         Some (ip, _) \<Rightarrow> obind (iput ip s1) (\<lambda>s2. Ret (-1, s2))
       | None \<Rightarrow>
           obind (dirlink_loop (Suc (unat (i_size (itable s1 ! dp)))) dp 0 s1) (\<lambda>(off, s2).
           obind (writei dp (LocalSrc (make_dirent name inum)) off 16 s2) (\<lambda>(r, s3).
             Ret (if r \<noteq> 16 then -1 else 0, s3))))"

section \<open>Path names\<close>

definition SLASH :: byte where [simp]: "SLASH = 47"

definition skipelem :: "byte list \<Rightarrow> (byte list \<times> byte list) option" where
  "skipelem path =
     (let p = dropWhile (\<lambda>c. c = SLASH) path in
      if p = [] then None
      else let elem = takeWhile (\<lambda>c. c \<noteq> SLASH) p; rest = dropWhile (\<lambda>c. c \<noteq> SLASH) p in
        Some (dropWhile (\<lambda>c. c = SLASH) rest, take DIRSIZ elem))"

fun namex_loop ::
  "nat \<Rightarrow> nat \<Rightarrow> byte list \<Rightarrow> bool \<Rightarrow> byte list \<Rightarrow> 'z fs_state_scheme \<Rightarrow> (nat option \<times> byte list \<times> 'z fs_state_scheme) outcome" where
  "namex_loop 0 ip path parent name s = Hang"
| "namex_loop (Suc fuel) ip path parent name s =
     (case skipelem path of
        None \<Rightarrow> if parent then obind (iput ip s) (\<lambda>s1. Ret (None, name, s1)) else Ret (Some ip, name, s)
      | Some (path1, name1) \<Rightarrow>
          obind (ilock (Some ip) s) (\<lambda>s1.
            if i_type (itable s1 ! ip) \<noteq> T_DIR then obind (iunlockput ip s1) (\<lambda>s2. Ret (None, name1, s2))
            else if parent \<and> path1 = [] then obind (iunlock (Some ip) s1) (\<lambda>s2. Ret (Some ip, name1, s2))
            else obind (dirlookup ip name1 s1) (\<lambda>(found, s2).
              case found of
                None \<Rightarrow> obind (iunlockput ip s2) (\<lambda>s3. Ret (None, name1, s3))
              | Some (nxt, _) \<Rightarrow> obind (iunlockput ip s2) (namex_loop fuel nxt path1 parent name1))))"

definition namex :: "byte list \<Rightarrow> bool \<Rightarrow> 'z fs_state_scheme \<Rightarrow> (nat option \<times> byte list \<times> 'z fs_state_scheme) outcome" where
  "namex path parent s =
     obind (if path \<noteq> [] \<and> hd path = SLASH then iget ROOTDEV ROOTINO s
            else case myproc s of
                   None \<Rightarrow> Panic ''kerneltrap''
                 | Some p \<Rightarrow> (case p_cwd (ptable s ! p) of None \<Rightarrow> Panic ''kerneltrap'' | Some ip \<Rightarrow> Ret (ip, idup ip s)))
       (\<lambda>(ip, s1). namex_loop (Suc (length path)) ip path parent [] s1)"

definition namei :: "byte list \<Rightarrow> 'z fs_state_scheme \<Rightarrow> (nat option \<times> 'z fs_state_scheme) outcome" where
  "namei path s = obind (namex path False s) (\<lambda>(ip, _, s1). Ret (ip, s1))"

definition nameiparent :: "byte list \<Rightarrow> 'z fs_state_scheme \<Rightarrow> (nat option \<times> byte list \<times> 'z fs_state_scheme) outcome" where
  "nameiparent path s = namex path True s"

end
