(* ===== verification/Ulib.thy ===== *)
theory Ulib
  imports Kstring
begin

text \<open>
  The C library of the user programs (\<^verbatim>\<open>user/ulib.c\<close>).  A string argument is the list of its bytes before the terminator;
  the routines that write to memory work on byte memory and share the copying loops of the kernel.
\<close>

definition hd0 :: "byte list \<Rightarrow> byte" where
  "hd0 s = (case s of [] \<Rightarrow> 0 | c # _ \<Rightarrow> c)"

lemma hd0_simps [simp]: "hd0 [] = 0" "hd0 (c # s) = c"
  by (simp_all add: hd0_def)

section \<open>Strings\<close>

partial_function (option) strcpy :: "mem \<Rightarrow> addr \<Rightarrow> addr \<Rightarrow> mem option" where
  "strcpy m s t = (let m1 = m(s := m t) in if m t \<noteq> 0 then strcpy m1 (s + 1) (t + 1) else Some m1)"

fun strcmp :: "byte list \<Rightarrow> byte list \<Rightarrow> int" where
  "strcmp [] q = - uint (hd0 q)"
| "strcmp (c # p) q = (if c \<noteq> 0 \<and> c = hd0 q then strcmp p (tl q) else uint c - uint (hd0 q))"

fun strchr :: "byte list \<Rightarrow> byte \<Rightarrow> nat option" where
  "strchr [] c = None"
| "strchr (x # s) c =
     (if x = 0 then None else if x = c then Some 0 else map_option Suc (strchr s c))"

text \<open>\<open>gets\<close>: \<open>room\<close> is \<^verbatim>\<open>max - 1 - i\<close>; a read at the end of the input returns nothing.\<close>

fun gets_loop :: "nat \<Rightarrow> byte list \<Rightarrow> byte list \<times> byte list" where
  "gets_loop 0 inp = ([], inp)"
| "gets_loop (Suc room) [] = ([], [])"
| "gets_loop (Suc room) (c # inp) =
     (if c = 10 \<or> c = 13 then ([c], inp)
      else let (line, rest) = gets_loop room inp in (c # line, rest))"

definition gets :: "int \<Rightarrow> byte list \<Rightarrow> byte list \<times> byte list" where
  "gets mx inp = gets_loop (nat (mx - 1)) inp"

fun atoi_loop :: "uint \<Rightarrow> byte list \<Rightarrow> uint" where
  "atoi_loop n [] = n"
| "atoi_loop n (c # s) = (if 48 \<le> c \<and> c \<le> 57 then atoi_loop (n * 10 + ucast c - 48) s else n)"

definition atoi :: "byte list \<Rightarrow> int" where
  "atoi s = sint (atoi_loop 0 s)"

section \<open>Memory\<close>

definition u_memset :: "mem \<Rightarrow> addr \<Rightarrow> int \<Rightarrow> uint \<Rightarrow> mem" where
  "u_memset m dst c n = memset_loop m dst (word_of_int c) (unat n)"

definition u_memmove :: "mem \<Rightarrow> addr \<Rightarrow> addr \<Rightarrow> int \<Rightarrow> mem" where
  "u_memmove m dst src n =
     (if src > dst then copy_up m dst src (nat n)
      else copy_down m (dst + of_int n) (src + of_int n) (nat n))"

definition u_memcmp :: "mem \<Rightarrow> addr \<Rightarrow> addr \<Rightarrow> uint \<Rightarrow> int" where
  "u_memcmp m s1 s2 n = memcmp_loop m s1 s2 (unat n)"

definition u_memcpy :: "mem \<Rightarrow> addr \<Rightarrow> addr \<Rightarrow> uint \<Rightarrow> mem" where
  "u_memcpy m dst src n = u_memmove m dst src (sint n)"

section \<open>What they compute\<close>

lemma strcmp_eq_0:
  assumes "0 \<notin> set p" "0 \<notin> set q"
  shows "strcmp p q = 0 \<longleftrightarrow> p = q"
  using assms
proof (induction p q rule: strcmp.induct)
  case (1 q)
  then show ?case by (cases q) (auto simp: uint_0_iff)
next
  case (2 c p q)
  then show ?case by (cases q) (auto simp: uint_0_iff simp flip: word_uint_eq_iff)
qed

lemma strchr_less: "strchr s c = Some i \<Longrightarrow> i < length s"
  by (induction s arbitrary: i) (auto split: if_splits)

lemma strchr_Some:
  assumes "0 \<notin> set s"
  shows "strchr s c = Some i \<longleftrightarrow> i < length s \<and> s ! i = c \<and> c \<notin> set (take i s)"
  using assms
proof (induction s arbitrary: i)
  case (Cons x s)
  then show ?case by (cases i) auto
qed simp

lemma strchr_None: "0 \<notin> set s \<Longrightarrow> strchr s c = None \<longleftrightarrow> c \<notin> set s"
  by (induction s) auto

text \<open>The two directions of the copy are chosen by the order of the addresses only; the result is that of the kernel's routine.\<close>

lemma u_memmove_memmove:
  assumes "0 \<le> n" "unat dst + nat n < 2 ^ 64" "unat src + nat n < 2 ^ 64" "n < 2 ^ 32"
  shows "u_memmove m dst src n = memmove m dst src (word_of_int n)"
proof -
  have un: "unat (word_of_int n :: uint) = nat n"
    using assms(1,4) by (simp add: unsigned_of_int take_bit_int_eq_self nat_less_iff)
  have w: "of_int n = (of_nat (nat n) :: addr)" using assms(1) by simp
  have n: "nat n \<le> 2 ^ 64" using assms(2) by simp
  have u: "unat (dst + of_nat i) = unat dst + i" "unat (src + of_nat i) = unat src + i" if "i \<le> nat n" for i
    using assms that by (auto intro!: unat_add_small)
  have "u_memmove m dst src n = write_bytes m dst (read_bytes m src (nat n))"
  proof (cases "src > dst")
    case True
    have "dst + of_nat i \<noteq> src + of_nat j" if "i < j" "j < nat n" for i j
      using True that u(1) [of i] u(2) [of j] by (auto simp: word_less_nat_alt)
    then show ?thesis using True copy_up_eq [OF n] by (simp add: u_memmove_def)
  next
    case False
    have "dst + of_nat j \<noteq> src + of_nat i" if "i < j" "j < nat n" for i j
      using False that u(1) [of j] u(2) [of i] by (auto simp: word_less_nat_alt)
    then show ?thesis using False copy_down_eq [OF n] by (simp add: u_memmove_def w)
  qed
  then show ?thesis using memmove_eq [of dst "word_of_int n" src] assms(2,3) un by simp
qed

lemma gets_loop_splits:
  "gets_loop room inp = (line, rest) \<Longrightarrow> line @ rest = inp \<and> length line \<le> room \<and> 10 \<notin> set (butlast line) \<and> 13 \<notin> set (butlast line)"
  by (induction room inp arbitrary: line rule: gets_loop.induct) (auto split: if_splits prod.splits)

end
