(* ===== verification/Console.thy ===== *)
theory Console
  imports Fs Ulib
begin

text \<open>
  The console of \<^verbatim>\<open>kernel/console.c\<close> on the serial port of \<^verbatim>\<open>kernel/uart.c\<close>: a ring of \<open>INPUT_BUF_SIZE\<close>
  characters with the read, write and edit indices of \<^verbatim>\<open>cons\<close>, which are 32-bit counters that wrap.

  \<open>uart_out\<close> is the sequence of characters stored into the transmit register.  A sender that finds the
  port busy sleeps until the transmit interrupt; \<open>uart_tx_done\<close> is that interrupt, and \<open>uartwrite\<close> runs it
  where the source waits for it.  A reader that finds no input sleeps; the result of \<open>consoleread\<close> is
  then \<open>Inl\<close> of the position it will resume from, and \<open>Inr\<close> of the return value otherwise.  The kernel's
  \<open>printf\<close> is here too, since control-P makes the input handler print the list of processes.
\<close>

section \<open>State\<close>

definition INPUT_BUF_SIZE :: nat where [simp]: "INPUT_BUF_SIZE = 128"
definition BACKSPACE :: int where [simp]: "BACKSPACE = 0x100"

record cons_state = fs_state +
  cons_buf :: "byte list"
  cons_r :: uint
  cons_w :: uint
  cons_e :: uint
  uart_out :: "byte list"
  tx_busy :: bool

section \<open>The serial port\<close>

definition uartputc_sync :: "int \<Rightarrow> 'z cons_state_scheme \<Rightarrow> 'z cons_state_scheme" where
  "uartputc_sync c s = s\<lparr>uart_out := uart_out s @ [word_of_int c]\<rparr>"

definition uart_tx_done :: "'z cons_state_scheme \<Rightarrow> 'z cons_state_scheme" where
  "uart_tx_done s = wakeup ChanUartTx (s\<lparr>tx_busy := False\<rparr>)"

fun uartwrite :: "byte list \<Rightarrow> 'z cons_state_scheme \<Rightarrow> 'z cons_state_scheme" where
  "uartwrite [] s = s"
| "uartwrite (c # cs) s =
     (let s1 = (if tx_busy s then uart_tx_done s else s) in
      uartwrite cs (s1\<lparr>uart_out := uart_out s1 @ [c], tx_busy := True\<rparr>))"

section \<open>Output\<close>

definition consputc :: "int \<Rightarrow> 'z cons_state_scheme \<Rightarrow> 'z cons_state_scheme" where
  "consputc c s =
     (if c = BACKSPACE then uartputc_sync 8 (uartputc_sync 32 (uartputc_sync 8 s)) else uartputc_sync c s)"

section \<open>Formatted output\<close>

text \<open>
  \<open>printf\<close> of \<^verbatim>\<open>kernel/printf.c\<close>.  The arguments after the format are the 64-bit words \<open>ap 0\<close>, \<open>ap 1\<close>, and so on; \<open>str a\<close> is
  the string at address \<open>a\<close>.
\<close>

definition digits :: "byte list" where
  "digits = [48, 49, 50, 51, 52, 53, 54, 55, 56, 57, 97, 98, 99, 100, 101, 102]"

text \<open>The loop that fills \<^verbatim>\<open>buf\<close>, least digit first; 64 turns are enough for a 64-bit number in any base from 2 on.\<close>

fun digit_loop :: "nat \<Rightarrow> byte list \<Rightarrow> 64 word \<Rightarrow> 64 word \<Rightarrow> byte list" where
  "digit_loop 0 ds x base = []"
| "digit_loop (Suc fuel) ds x base =
     ds ! unat (x mod base) # (if x div base \<noteq> 0 then digit_loop fuel ds (x div base) base else [])"

definition printint :: "byte list \<Rightarrow> 64 word \<Rightarrow> 64 word \<Rightarrow> bool \<Rightarrow> byte list" where
  "printint ds xx base sign =
     (let neg = (sign \<and> sint xx < 0); x = (if neg then - xx else xx);
          buf = digit_loop 64 ds x base @ (if neg then [45] else [])
      in rev buf)"

fun printptr_loop :: "nat \<Rightarrow> byte list \<Rightarrow> 64 word \<Rightarrow> byte list" where
  "printptr_loop 0 ds x = []"
| "printptr_loop (Suc n) ds x = ds ! unat (drop_bit 60 x) # printptr_loop n ds (push_bit 4 x)"

definition printptr :: "byte list \<Rightarrow> 64 word \<Rightarrow> byte list" where
  "printptr ds x = [48, 120] @ printptr_loop 16 ds x"

definition arg_int :: "64 word \<Rightarrow> 64 word" where
  "arg_int w = word_of_int (sint (ucast w :: uint))"

definition arg_uint32 :: "64 word \<Rightarrow> 64 word" where
  "arg_uint32 w = ucast (ucast w :: uint)"

definition null_text :: "byte list" where
  "null_text = [40, 110, 117, 108, 108, 41]"

definition arg_str :: "(addr \<Rightarrow> byte list) \<Rightarrow> 64 word \<Rightarrow> byte list" where
  "arg_str str w = (if w = 0 then null_text else str w)"

text \<open>The characters given to \<open>consputc\<close>, as the \<^verbatim>\<open>int\<close> values it receives.\<close>

definition chars_of :: "byte list \<Rightarrow> int list" where
  "chars_of bs = map uint bs"

function (sequential) printf_loop ::
  "byte list \<Rightarrow> (addr \<Rightarrow> byte list) \<Rightarrow> (nat \<Rightarrow> 64 word) \<Rightarrow> byte list \<Rightarrow> nat \<Rightarrow> int list" where
  "printf_loop ds str ap [] k = []"
| "printf_loop ds str ap (cx # fmt) k =
     (if cx \<noteq> 37 then uint cx # printf_loop ds str ap fmt k
      else
        let c0 = hd0 fmt; c1 = (if c0 \<noteq> 0 then hd0 (tl fmt) else 0); c2 = (if c1 \<noteq> 0 then hd0 (tl (tl fmt)) else 0) in
        if c0 = 100 then chars_of (printint ds (arg_int (ap k)) 10 True) @ printf_loop ds str ap (drop 1 fmt) (Suc k)
        else if c0 = 108 \<and> c1 = 100 then chars_of (printint ds (ap k) 10 True) @ printf_loop ds str ap (drop 2 fmt) (Suc k)
        else if c0 = 108 \<and> c1 = 108 \<and> c2 = 100 then chars_of (printint ds (ap k) 10 True) @ printf_loop ds str ap (drop 3 fmt) (Suc k)
        else if c0 = 117 then chars_of (printint ds (arg_uint32 (ap k)) 10 False) @ printf_loop ds str ap (drop 1 fmt) (Suc k)
        else if c0 = 108 \<and> c1 = 117 then chars_of (printint ds (ap k) 10 False) @ printf_loop ds str ap (drop 2 fmt) (Suc k)
        else if c0 = 108 \<and> c1 = 108 \<and> c2 = 117 then chars_of (printint ds (ap k) 10 False) @ printf_loop ds str ap (drop 3 fmt) (Suc k)
        else if c0 = 120 then chars_of (printint ds (arg_uint32 (ap k)) 16 False) @ printf_loop ds str ap (drop 1 fmt) (Suc k)
        else if c0 = 108 \<and> c1 = 120 then chars_of (printint ds (ap k) 16 False) @ printf_loop ds str ap (drop 2 fmt) (Suc k)
        else if c0 = 108 \<and> c1 = 108 \<and> c2 = 120 then chars_of (printint ds (ap k) 16 False) @ printf_loop ds str ap (drop 3 fmt) (Suc k)
        else if c0 = 112 then chars_of (printptr ds (ap k)) @ printf_loop ds str ap (drop 1 fmt) (Suc k)
        else if c0 = 99 then sint (ucast (ap k) :: uint) # printf_loop ds str ap (drop 1 fmt) (Suc k)
        else if c0 = 115 then chars_of (arg_str str (ap k)) @ printf_loop ds str ap (drop 1 fmt) (Suc k)
        else if c0 = 37 then 37 # printf_loop ds str ap (drop 1 fmt) k
        else if c0 = 0 then []
        else 37 # uint c0 # printf_loop ds str ap (drop 1 fmt) k)"
  by pat_completeness auto
termination
  by (relation "measure (\<lambda>(ds, str, ap, fmt, k). length fmt)") auto

definition printf :: "(addr \<Rightarrow> byte list) \<Rightarrow> (nat \<Rightarrow> 64 word) \<Rightarrow> byte list \<Rightarrow> 'z cons_state_scheme \<Rightarrow> 'z cons_state_scheme" where
  "printf str ap fmt s = fold consputc (printf_loop digits str ap fmt 0) s"

definition panic_output :: "byte list \<Rightarrow> 'z cons_state_scheme \<Rightarrow> 'z cons_state_scheme" where
  "panic_output msg s =
     printf (\<lambda>_. msg) (\<lambda>_. 1) [37, 115, 10] (printf (\<lambda>_. []) (\<lambda>_. 0) [112, 97, 110, 105, 99, 58, 32] s)"

text \<open>
  \<open>procdump\<close>, the process list of control-P: a line with pid, state and name for each slot in use.  The two string
  arguments are passed as the addresses 1 and 2.
\<close>

fun state_text :: "procstate \<Rightarrow> byte list" where
  "state_text UNUSED = [117, 110, 117, 115, 101, 100]"
| "state_text USED = [117, 115, 101, 100]"
| "state_text SLEEPING = [115, 108, 101, 101, 112, 32]"
| "state_text RUNNABLE = [114, 117, 110, 98, 108, 101]"
| "state_text RUNNING = [114, 117, 110, 32, 32, 32]"
| "state_text ZOMBIE = [122, 111, 109, 98, 105, 101]"

fun procdump_loop :: "proc list \<Rightarrow> 'z cons_state_scheme \<Rightarrow> 'z cons_state_scheme" where
  "procdump_loop [] s = s"
| "procdump_loop (p # ps) s =
     (if p_state p = UNUSED then procdump_loop ps s
      else
        let str = (\<lambda>a. if a = 1 then state_text (p_state p) else takeWhile (\<lambda>b. b \<noteq> 0) (p_name p));
            s1 = printf str (\<lambda>k. if k = 0 then word_of_int (p_pid p) else of_nat k) [37, 100, 32, 37, 115, 32, 37, 115] s
        in procdump_loop ps (printf (\<lambda>_. []) (\<lambda>_. 0) [10] s1))"

definition procdump :: "'z cons_state_scheme \<Rightarrow> 'z cons_state_scheme" where
  "procdump s = procdump_loop (ptable s) (printf (\<lambda>_. []) (\<lambda>_. 0) [10] s)"

section \<open>The console device\<close>

fun consolewrite_loop ::
  "nat \<Rightarrow> bool \<Rightarrow> addr \<Rightarrow> int \<Rightarrow> int \<Rightarrow> 'z cons_state_scheme \<Rightarrow> (int \<times> 'z cons_state_scheme) outcome" where
  "consolewrite_loop 0 user_src src i n s = Hang"
| "consolewrite_loop (Suc fuel) user_src src i n s =
     (if i < n then
        let nn = (if 32 > n - i then n - i else 32) in
        obind (either_copyin user_src (src + of_int i) (nat nn) s) (\<lambda>(r, bs, s1).
          if r = -1 then Ret (i, s1)
          else consolewrite_loop fuel user_src src (i + nn) n (uartwrite bs s1))
      else Ret (i, s))"

definition consolewrite :: "bool \<Rightarrow> addr \<Rightarrow> int \<Rightarrow> 'z cons_state_scheme \<Rightarrow> (int \<times> 'z cons_state_scheme) outcome" where
  "consolewrite user_src src n s = consolewrite_loop (Suc (nat n)) user_src src 0 n s"

section \<open>Input\<close>

fun consoleread_loop ::
  "nat \<Rightarrow> bool \<Rightarrow> nat \<Rightarrow> addr \<Rightarrow> int \<Rightarrow> int \<Rightarrow> 'z cons_state_scheme \<Rightarrow> (((addr \<times> int) + int) \<times> 'z cons_state_scheme) outcome" where
  "consoleread_loop 0 user_dst p dst n target s = Hang"
| "consoleread_loop (Suc fuel) user_dst p dst n target s =
     (if n > 0 then
        if cons_r s = cons_w s then
          if killed p s \<noteq> 0 then Ret (Inr (-1), s)
          else obind (sleep p ChanCons s) (\<lambda>s1. Ret (Inl (dst, n), s1))
        else
          let c = cons_buf s ! (unat (cons_r s) mod INPUT_BUF_SIZE);
              s1 = s\<lparr>cons_r := cons_r s + 1\<rparr>
          in if c = 4 then Ret (Inr (target - n), if n < target then s1\<lparr>cons_r := cons_r s1 - 1\<rparr> else s1)
             else obind (either_copyout user_dst dst [c] s1) (\<lambda>(r, s2).
               if r = -1 then Ret (Inr (target - n), s2)
               else if c = 10 then Ret (Inr (target - (n - 1)), s2)
               else consoleread_loop fuel user_dst p (dst + 1) (n - 1) target s2)
      else Ret (Inr (target - n), s))"

definition consoleread ::
  "bool \<Rightarrow> addr \<Rightarrow> int \<Rightarrow> 'z cons_state_scheme \<Rightarrow> (((addr \<times> int) + int) \<times> 'z cons_state_scheme) outcome" where
  "consoleread user_dst dst n s =
     (case myproc s of
        None \<Rightarrow> Panic ''kerneltrap''
      | Some p \<Rightarrow> consoleread_loop (Suc (nat n)) user_dst p dst n n s)"

fun kill_line :: "nat \<Rightarrow> 'z cons_state_scheme \<Rightarrow> 'z cons_state_scheme outcome" where
  "kill_line 0 s = Hang"
| "kill_line (Suc fuel) s =
     (if cons_e s \<noteq> cons_w s \<and> cons_buf s ! (unat (cons_e s - 1) mod INPUT_BUF_SIZE) \<noteq> 10
      then kill_line fuel (consputc BACKSPACE (s\<lparr>cons_e := cons_e s - 1\<rparr>))
      else Ret s)"

definition consoleintr :: "int \<Rightarrow> 'z cons_state_scheme \<Rightarrow> 'z cons_state_scheme outcome" where
  "consoleintr c0 s =
     (if c0 = 16 then Ret (procdump s)
      else if c0 = 21 then kill_line (Suc INPUT_BUF_SIZE) s
      else if c0 = 8 \<or> c0 = 127 then
        Ret (if cons_e s \<noteq> cons_w s then consputc BACKSPACE (s\<lparr>cons_e := cons_e s - 1\<rparr>) else s)
      else if c0 \<noteq> 0 \<and> cons_e s - cons_r s < of_nat INPUT_BUF_SIZE then
        let c = (if c0 = 13 then 10 else c0);
            s1 = consputc c s;
            s2 = s1\<lparr>cons_buf := (cons_buf s1)[unat (cons_e s1) mod INPUT_BUF_SIZE := word_of_int c], cons_e := cons_e s1 + 1\<rparr>
        in if c = 10 \<or> c = 4 \<or> cons_e s2 - cons_r s2 = of_nat INPUT_BUF_SIZE
           then Ret (wakeup ChanCons (s2\<lparr>cons_w := cons_e s2\<rparr>))
           else Ret s2
      else Ret s)"

text \<open>\<open>uartintr\<close>: the transmit part when the port is idle, then every character the port has received.\<close>

fun uart_rx :: "int list \<Rightarrow> 'z cons_state_scheme \<Rightarrow> 'z cons_state_scheme outcome" where
  "uart_rx [] s = Ret s"
| "uart_rx (c # cs) s = obind (consoleintr c s) (uart_rx cs)"

definition uartintr :: "bool \<Rightarrow> int list \<Rightarrow> 'z cons_state_scheme \<Rightarrow> 'z cons_state_scheme outcome" where
  "uartintr tx_idle received s = uart_rx received (if tx_idle then uart_tx_done s else s)"

end
