(* ===== verification/File.thy ===== *)
theory File
  imports Console
begin

text \<open>
  Pipes (\<^verbatim>\<open>kernel/pipe.c\<close>) and the table of open files (\<^verbatim>\<open>kernel/file.c\<close>).

  A pipe lives in a page of its own; \<open>pipes\<close> maps the page's address to its contents.  A call that puts
  its process to sleep ends there: the result is then \<open>Inl\<close> of the number of bytes written so far, from
  which the call goes on after it is woken, and \<open>Inr\<close> of the return value otherwise.  The device table can
  hold only the console's functions.  A read or write on a pipe or device that has to wait is \<open>Hang\<close> as a
  call of \<open>fileread\<close> and \<open>filewrite\<close>.
\<close>

section \<open>State\<close>

definition PIPESIZE :: nat where [simp]: "PIPESIZE = 512"
definition NFILE :: nat where [simp]: "NFILE = 100"
definition NDEV :: nat where [simp]: "NDEV = 10"
definition CONSOLE :: nat where [simp]: "CONSOLE = 1"

record pipe =
  pi_data :: "byte list"
  pi_nread :: uint
  pi_nwrite :: uint
  pi_readopen :: bool
  pi_writeopen :: bool

datatype file_type = FD_NONE | FD_PIPE | FD_INODE | FD_DEVICE

record ofile =
  f_type :: file_type
  f_ref :: int
  f_readable :: bool
  f_writable :: bool
  f_pipe :: addr
  f_ip :: "nat option"
  f_off :: uint
  f_major :: "16 word"

datatype devfn = NoDev | ConsoleDev

record file_state = cons_state +
  ftable :: "ofile list"
  pipes :: "addr \<Rightarrow> pipe"
  devsw :: "(devfn \<times> devfn) list"

abbreviation upd_file :: "nat \<Rightarrow> (ofile \<Rightarrow> ofile) \<Rightarrow> 'z file_state_scheme \<Rightarrow> 'z file_state_scheme" where
  "upd_file i f s \<equiv> s\<lparr>ftable := upd_at i f (ftable s)\<rparr>"

abbreviation upd_pipe :: "addr \<Rightarrow> (pipe \<Rightarrow> pipe) \<Rightarrow> 'z file_state_scheme \<Rightarrow> 'z file_state_scheme" where
  "upd_pipe a f s \<equiv> s\<lparr>pipes := (pipes s)(a := f (pipes s a))\<rparr>"

definition consoleinit :: "'z file_state_scheme \<Rightarrow> 'z file_state_scheme" where
  "consoleinit s = s\<lparr>devsw := (devsw s)[CONSOLE := (ConsoleDev, ConsoleDev)]\<rparr>"

section \<open>Pipes\<close>

fun pipewrite_loop ::
  "nat \<Rightarrow> nat \<Rightarrow> addr \<Rightarrow> addr \<Rightarrow> int \<Rightarrow> int \<Rightarrow> 'z file_state_scheme \<Rightarrow> ((int + int) \<times> 'z file_state_scheme) outcome" where
  "pipewrite_loop 0 pr pi addr i n s = Hang"
| "pipewrite_loop (Suc fuel) pr pi addr i n s =
     (if i < n then
        if \<not> pi_readopen (pipes s pi) \<or> killed pr s \<noteq> 0 then Ret (Inr (-1), s)
        else if pi_nwrite (pipes s pi) = pi_nread (pipes s pi) + of_nat PIPESIZE then
          obind (sleep pr (ChanPipeWrite pi) (wakeup (ChanPipeRead pi) s)) (\<lambda>s1. Ret (Inl i, s1))
        else
          obind (copyin (p_pagetable (ptable s ! pr)) (addr + of_int i) 1 s) (\<lambda>(r, bs, s1).
            if r = -1 then Ret (Inr i, wakeup (ChanPipeRead pi) s1)
            else pipewrite_loop fuel pr pi addr (i + 1) n (upd_pipe pi (\<lambda>q. q\<lparr>
                   pi_data := (pi_data q)[unat (pi_nwrite q) mod PIPESIZE := hd bs],
                   pi_nwrite := pi_nwrite q + 1\<rparr>) s1))
      else Ret (Inr i, wakeup (ChanPipeRead pi) s))"

definition pipewrite ::
  "addr \<Rightarrow> addr \<Rightarrow> int \<Rightarrow> int \<Rightarrow> 'z file_state_scheme \<Rightarrow> ((int + int) \<times> 'z file_state_scheme) outcome" where
  "pipewrite pi addr i n s =
     (case myproc s of
        None \<Rightarrow> Panic ''kerneltrap''
      | Some pr \<Rightarrow> pipewrite_loop (Suc (nat (n - i))) pr pi addr i n s)"

fun piperead_loop ::
  "nat \<Rightarrow> nat \<Rightarrow> addr \<Rightarrow> addr \<Rightarrow> int \<Rightarrow> int \<Rightarrow> 'z file_state_scheme \<Rightarrow> (int \<times> 'z file_state_scheme) outcome" where
  "piperead_loop 0 pr pi addr i n s = Hang"
| "piperead_loop (Suc fuel) pr pi addr i n s =
     (if i < n \<and> pi_nread (pipes s pi) \<noteq> pi_nwrite (pipes s pi) then
        let ch = pi_data (pipes s pi) ! (unat (pi_nread (pipes s pi)) mod PIPESIZE) in
        obind (copyout (p_pagetable (ptable s ! pr)) (addr + of_int i) [ch] s) (\<lambda>(r, s1).
          if r = -1 then Ret (if i = 0 then -1 else i, s1)
          else piperead_loop fuel pr pi addr (i + 1) n (upd_pipe pi (\<lambda>q. q\<lparr>pi_nread := pi_nread q + 1\<rparr>) s1))
      else Ret (i, s))"

definition piperead :: "addr \<Rightarrow> addr \<Rightarrow> int \<Rightarrow> 'z file_state_scheme \<Rightarrow> ((unit + int) \<times> 'z file_state_scheme) outcome" where
  "piperead pi addr n s =
     (case myproc s of
        None \<Rightarrow> Panic ''kerneltrap''
      | Some pr \<Rightarrow>
          if pi_nread (pipes s pi) = pi_nwrite (pipes s pi) \<and> pi_writeopen (pipes s pi) then
            if killed pr s \<noteq> 0 then Ret (Inr (-1), s)
            else obind (sleep pr (ChanPipeRead pi) s) (\<lambda>s1. Ret (Inl (), s1))
          else obind (piperead_loop (Suc (nat n)) pr pi addr 0 n s) (\<lambda>(i, s1).
            Ret (Inr i, wakeup (ChanPipeWrite pi) s1)))"

definition pipeclose :: "addr \<Rightarrow> bool \<Rightarrow> 'z file_state_scheme \<Rightarrow> 'z file_state_scheme outcome" where
  "pipeclose pi writable s =
     (let s1 = (if writable
                then wakeup (ChanPipeRead pi) (upd_pipe pi (\<lambda>q. q\<lparr>pi_writeopen := False\<rparr>) s)
                else wakeup (ChanPipeWrite pi) (upd_pipe pi (\<lambda>q. q\<lparr>pi_readopen := False\<rparr>) s))
      in if \<not> pi_readopen (pipes s1 pi) \<and> \<not> pi_writeopen (pipes s1 pi) then kfree pi s1 else Ret s1)"

section \<open>Open files\<close>

definition filealloc :: "'z file_state_scheme \<Rightarrow> nat option \<times> 'z file_state_scheme" where
  "filealloc s =
     (case scan (\<lambda>f. f_ref f = 0) (ftable s) of
        None \<Rightarrow> (None, s)
      | Some i \<Rightarrow> (Some i, upd_file i (\<lambda>f. f\<lparr>f_ref := 1\<rparr>) s))"

definition filedup :: "nat \<Rightarrow> 'z file_state_scheme \<Rightarrow> 'z file_state_scheme outcome" where
  "filedup i s =
     (if f_ref (ftable s ! i) < 1 then Panic ''filedup''
      else Ret (upd_file i (\<lambda>f. f\<lparr>f_ref := f_ref f + 1\<rparr>) s))"

definition fileclose :: "nat \<Rightarrow> 'z file_state_scheme \<Rightarrow> 'z file_state_scheme outcome" where
  "fileclose i s =
     (let ff = ftable s ! i in
      if f_ref ff < 1 then Panic ''fileclose''
      else if f_ref ff - 1 > 0 then Ret (upd_file i (\<lambda>f. f\<lparr>f_ref := f_ref f - 1\<rparr>) s)
      else
        let s1 = upd_file i (\<lambda>f. f\<lparr>f_ref := 0, f_type := FD_NONE\<rparr>) s in
        case f_type ff of
          FD_PIPE \<Rightarrow> pipeclose (f_pipe ff) (f_writable ff) s1
        | FD_NONE \<Rightarrow> Ret s1
        | _ \<Rightarrow>
            obind (begin_op s1) (\<lambda>s2.
            obind (case f_ip ff of None \<Rightarrow> Panic ''kerneltrap'' | Some ip \<Rightarrow> iput ip s2) end_op))"

text \<open>\<^verbatim>\<open>struct stat\<close> in memory; its four bytes of padding, which the source leaves undefined, are zero here.\<close>

definition stat_bytes :: "stat \<Rightarrow> byte list" where
  "stat_bytes st = bytes32 (st_dev st) @ bytes32 (st_ino st) @ bytes16 (st_type st) @ bytes16 (st_nlink st)
     @ replicate 4 0 @ bytes64 (st_size st)"

definition filestat :: "nat \<Rightarrow> addr \<Rightarrow> 'z file_state_scheme \<Rightarrow> (int \<times> 'z file_state_scheme) outcome" where
  "filestat i addr s =
     (let f = ftable s ! i in
      if f_type f = FD_INODE \<or> f_type f = FD_DEVICE then
        case (myproc s, f_ip f) of
          (Some p, Some ip) \<Rightarrow>
            obind (ilock (Some ip) s) (\<lambda>s1.
              let st = stati ip s1 in
              obind (iunlock (Some ip) s1) (\<lambda>s2.
              obind (copyout (p_pagetable (ptable s2 ! p)) addr (stat_bytes st) s2) (\<lambda>(r, s3).
                Ret (if r < 0 then -1 else 0, s3))))
        | _ \<Rightarrow> Panic ''kerneltrap''
      else Ret (-1, s))"

definition returned :: "(('a + int) \<times> 's) outcome \<Rightarrow> (int \<times> 's) outcome" where
  "returned r = obind r (\<lambda>(x, s). case x of Inl _ \<Rightarrow> Hang | Inr v \<Rightarrow> Ret (v, s))"

definition dev_of :: "ofile \<Rightarrow> 'z file_state_scheme \<Rightarrow> devfn \<times> devfn" where
  "dev_of f s =
     (if sint (f_major f) < 0 \<or> sint (f_major f) \<ge> int NDEV then (NoDev, NoDev) else devsw s ! nat (sint (f_major f)))"

definition fileread :: "nat \<Rightarrow> addr \<Rightarrow> int \<Rightarrow> 'z file_state_scheme \<Rightarrow> (int \<times> 'z file_state_scheme) outcome" where
  "fileread i addr n s =
     (let f = ftable s ! i in
      if \<not> f_readable f then Ret (-1, s)
      else case f_type f of
        FD_PIPE \<Rightarrow> returned (piperead (f_pipe f) addr n s)
      | FD_DEVICE \<Rightarrow>
          (case fst (dev_of f s) of NoDev \<Rightarrow> Ret (-1, s) | ConsoleDev \<Rightarrow> returned (consoleread True addr n s))
      | FD_INODE \<Rightarrow>
          obind (ilock (f_ip f) s) (\<lambda>s1.
          obind (readi (the (f_ip f)) (UserDst addr) (f_off f) (word_of_int n) s1) (\<lambda>(r, _, s2).
            let s3 = (if r > 0 then upd_file i (\<lambda>g. g\<lparr>f_off := f_off g + word_of_int r\<rparr>) s2 else s2) in
            obind (iunlock (f_ip f) s3) (\<lambda>s4. Ret (r, s4))))
      | FD_NONE \<Rightarrow> Panic ''fileread'')"

definition write_max :: int where [simp]: "write_max = 3 * 1024"

fun filewrite_loop :: "nat \<Rightarrow> nat \<Rightarrow> addr \<Rightarrow> int \<Rightarrow> int \<Rightarrow> 'z file_state_scheme \<Rightarrow> (int \<times> 'z file_state_scheme) outcome" where
  "filewrite_loop 0 f addr i n s = Hang"
| "filewrite_loop (Suc fuel) f addr i n s =
     (if i < n then
        let n1 = (if n - i > write_max then write_max else n - i); ip = f_ip (ftable s ! f) in
        obind (begin_op s) (\<lambda>s1.
        obind (ilock ip s1) (\<lambda>s2.
        obind (writei (the ip) (UserSrc (addr + of_int i)) (f_off (ftable s2 ! f)) (word_of_int n1) s2) (\<lambda>(r, s3).
          let s4 = (if r > 0 then upd_file f (\<lambda>g. g\<lparr>f_off := f_off g + word_of_int r\<rparr>) s3 else s3) in
          obind (iunlock ip s4) (\<lambda>s5.
          obind (end_op s5) (\<lambda>s6.
            if r \<noteq> n1 then Ret (i, s6) else filewrite_loop fuel f addr (i + r) n s6)))))
      else Ret (i, s))"

definition filewrite :: "nat \<Rightarrow> addr \<Rightarrow> int \<Rightarrow> 'z file_state_scheme \<Rightarrow> (int \<times> 'z file_state_scheme) outcome" where
  "filewrite f addr n s =
     (let g = ftable s ! f in
      if \<not> f_writable g then Ret (-1, s)
      else case f_type g of
        FD_PIPE \<Rightarrow> returned (pipewrite (f_pipe g) addr 0 n s)
      | FD_DEVICE \<Rightarrow> (case snd (dev_of g s) of NoDev \<Rightarrow> Ret (-1, s) | ConsoleDev \<Rightarrow> consolewrite True addr n s)
      | FD_INODE \<Rightarrow> obind (filewrite_loop (Suc (nat n)) f addr 0 n s) (\<lambda>(i, s1). Ret (if i = n then n else -1, s1))
      | FD_NONE \<Rightarrow> Panic ''filewrite'')"

definition pipealloc :: "'z file_state_scheme \<Rightarrow> (int \<times> (nat \<times> nat) option \<times> 'z file_state_scheme) outcome" where
  "pipealloc s =
     (case filealloc s of
        (None, s1) \<Rightarrow> Ret (-1, None, s1)
      | (Some f0, s1) \<Rightarrow>
          (case filealloc s1 of
             (None, s2) \<Rightarrow> obind (fileclose f0 s2) (\<lambda>s3. Ret (-1, None, s3))
           | (Some f1, s2) \<Rightarrow>
               let (pi, s3) = kalloc s2 in
               if pi = 0 then
                 obind (fileclose f0 s3) (\<lambda>s4. obind (fileclose f1 s4) (\<lambda>s5. Ret (-1, None, s5)))
               else
                 let s4 = upd_pipe pi (\<lambda>q. q\<lparr>pi_readopen := True, pi_writeopen := True, pi_nwrite := 0, pi_nread := 0\<rparr>) s3;
                     s5 = upd_file f0 (\<lambda>f. f\<lparr>f_type := FD_PIPE, f_readable := True, f_writable := False, f_pipe := pi\<rparr>) s4;
                     s6 = upd_file f1 (\<lambda>f. f\<lparr>f_type := FD_PIPE, f_readable := False, f_writable := True, f_pipe := pi\<rparr>) s5
                 in Ret (0, Some (f0, f1), s6)))"

end
