(* ===== verification/Life.thy ===== *)
theory Life
  imports File
begin

text \<open>
  The life of a process: the part of \<^verbatim>\<open>kernel/proc.c\<close> that creates, grows and ends processes, and the
  system calls of \<^verbatim>\<open>kernel/sysproc.c\<close> built on it.

  The trapframe is a page of physical memory; the register at offset \<open>k\<close> of \<^verbatim>\<open>struct trapframe\<close> is the
  64-bit word at that offset.  \<open>kwait\<close> and \<open>sys_pause\<close> are loops around a sleep; \<open>kwait_round\<close> and \<open>pause_round\<close>
  are one turn, with result \<open>Inl\<close> when the process went to sleep and \<open>Inr\<close> of the return value otherwise.
\<close>

section \<open>Page tables of processes\<close>

definition TF_SIZE :: nat where [simp]: "TF_SIZE = 288"
definition TF_A0 :: addr where [simp]: "TF_A0 = 112"

definition proc_pagetable :: "nat \<Rightarrow> 'z proc_state_scheme \<Rightarrow> (addr \<times> 'z proc_state_scheme) outcome" where
  "proc_pagetable i s =
     (let (pagetable, s1) = uvmcreate s in
      if pagetable = 0 then Ret (0, s1)
      else obind (mappages pagetable TRAMPOLINE PGSIZE (trampoline s1) (PTE_R OR PTE_X) s1) (\<lambda>(r, s2).
        if r < 0 then obind (uvmfree pagetable 0 s2) (\<lambda>s3. Ret (0, s3))
        else obind (mappages pagetable TRAPFRAME PGSIZE (p_trapframe (ptable s2 ! i)) (PTE_R OR PTE_W) s2) (\<lambda>(r', s3).
          if r' < 0 then
            obind (uvmunmap pagetable TRAMPOLINE 1 False s3) (\<lambda>s4. obind (uvmfree pagetable 0 s4) (\<lambda>s5. Ret (0, s5)))
          else Ret (pagetable, s3))))"

definition proc_freepagetable :: "addr \<Rightarrow> addr \<Rightarrow> 'z kmem_state_scheme \<Rightarrow> 'z kmem_state_scheme outcome" where
  "proc_freepagetable pagetable sz s =
     obind (uvmunmap pagetable TRAMPOLINE 1 False s) (\<lambda>s1.
     obind (uvmunmap pagetable TRAPFRAME 1 False s1) (uvmfree pagetable sz))"

definition cleared :: "proc \<Rightarrow> proc" where
  "cleared p = p\<lparr>p_pagetable := 0, p_sz := 0, p_pid := 0, p_parent := None, p_name := (p_name p)[0 := 0], p_chan := NoChan,
     p_killed := 0, p_xstate := 0, p_state := UNUSED\<rparr>"

definition freeproc :: "nat \<Rightarrow> 'z proc_state_scheme \<Rightarrow> 'z proc_state_scheme outcome" where
  "freeproc i s =
     obind (if p_trapframe (ptable s ! i) \<noteq> 0 then kfree (p_trapframe (ptable s ! i)) s else Ret s) (\<lambda>s1.
       let s2 = upd_proc i (\<lambda>p. p\<lparr>p_trapframe := 0\<rparr>) s1; p = ptable s2 ! i in
       obind (if p_pagetable p \<noteq> 0 then proc_freepagetable (p_pagetable p) (p_sz p) s2 else Ret s2) (\<lambda>s3.
         Ret (upd_proc i cleared s3)))"

definition allocproc :: "'z proc_state_scheme \<Rightarrow> (nat option \<times> 'z proc_state_scheme) outcome" where
  "allocproc s =
     (case scan (\<lambda>p. p_state p = UNUSED) (ptable s) of
        None \<Rightarrow> Ret (None, s)
      | Some i \<Rightarrow>
          let (pid, s1) = allocpid s;
              s2 = upd_proc i (allocproc_init pid) s1;
              (tf, s3) = kalloc s2;
              s4 = upd_proc i (\<lambda>p. p\<lparr>p_trapframe := tf\<rparr>) s3
          in if tf = 0 then obind (freeproc i s4) (\<lambda>s5. Ret (None, s5))
             else obind (proc_pagetable i s4) (\<lambda>(pt, s5).
               let s6 = upd_proc i (\<lambda>p. p\<lparr>p_pagetable := pt\<rparr>) s5 in
               if pt = 0 then obind (freeproc i s6) (\<lambda>s7. Ret (None, s7))
               else Ret (Some i, upd_proc i (\<lambda>p. p\<lparr>p_context := \<lparr>ctx_ra = sym_forkret s6, ctx_sp = p_kstack p + PGSIZE,
                      ctx_s = replicate 12 0\<rparr>\<rparr>) s6)))"

definition userinit :: "'z fs_state_scheme \<Rightarrow> 'z fs_state_scheme outcome" where
  "userinit s =
     obind (allocproc s) (\<lambda>(p, s1).
       case p of
         None \<Rightarrow> Panic ''kerneltrap''
       | Some i \<Rightarrow>
           obind (namei [SLASH] (s1\<lparr>initproc := Some i\<rparr>)) (\<lambda>(ip, s2).
             Ret (upd_proc i (\<lambda>q. q\<lparr>p_cwd := ip, p_state := RUNNABLE\<rparr>) s2)))"

definition growproc :: "int \<Rightarrow> 'z proc_state_scheme \<Rightarrow> (int \<times> 'z proc_state_scheme) outcome" where
  "growproc n s =
     (case myproc s of
        None \<Rightarrow> Panic ''kerneltrap''
      | Some i \<Rightarrow>
          let p = ptable s ! i; sz = p_sz p in
          if n > 0 then
            if sz + of_int n > TRAPFRAME then Ret (-1, s)
            else obind (uvmalloc (p_pagetable p) sz (sz + of_int n) PTE_W s) (\<lambda>(sz1, s1).
              if sz1 = 0 then Ret (-1, s1) else Ret (0, upd_proc i (\<lambda>q. q\<lparr>p_sz := sz1\<rparr>) s1))
          else if n < 0 then
            obind (uvmdealloc (p_pagetable p) sz (sz + of_int n) s) (\<lambda>(sz1, s1).
              Ret (0, upd_proc i (\<lambda>q. q\<lparr>p_sz := sz1\<rparr>) s1))
          else Ret (0, upd_proc i (\<lambda>q. q\<lparr>p_sz := sz\<rparr>) s))"

section \<open>Fork, exit and wait\<close>

fun fork_files :: "nat option list \<Rightarrow> nat \<Rightarrow> nat \<Rightarrow> 'z file_state_scheme \<Rightarrow> 'z file_state_scheme outcome" where
  "fork_files [] np k s = Ret s"
| "fork_files (None # fs) np k s = fork_files fs np (Suc k) s"
| "fork_files (Some f # fs) np k s =
     obind (filedup f s) (\<lambda>s1. fork_files fs np (Suc k) (upd_proc np (\<lambda>q. q\<lparr>p_ofile := (p_ofile q)[k := Some f]\<rparr>) s1))"

definition safestrcpy_name :: "byte list \<Rightarrow> byte list \<Rightarrow> byte list" where
  "safestrcpy_name dst src = (let cs = takeWhile (\<lambda>b. b \<noteq> 0) (take 15 src) in splice dst 0 (cs @ [0]))"

definition kfork :: "'z file_state_scheme \<Rightarrow> (int \<times> 'z file_state_scheme) outcome" where
  "kfork s =
     (case myproc s of
        None \<Rightarrow> Panic ''kerneltrap''
      | Some i \<Rightarrow>
          obind (allocproc s) (\<lambda>(r, s1).
            case r of
              None \<Rightarrow> Ret (-1, s1)
            | Some np \<Rightarrow>
                let p = ptable s1 ! i in
                obind (uvmcopy (p_pagetable p) (p_pagetable (ptable s1 ! np)) (p_sz p) s1) (\<lambda>(c, s2).
                  if c < 0 then obind (freeproc np s2) (\<lambda>s3. Ret (-1, s3))
                  else
                    let s3 = upd_proc np (\<lambda>q. q\<lparr>p_sz := p_sz p\<rparr>) s2;
                        tf = p_trapframe (ptable s3 ! np);
                        m1 = write_bytes (pmem s3) tf (read_bytes (pmem s3) (p_trapframe p) TF_SIZE);
                        s4 = s3\<lparr>pmem := store64 m1 (tf + TF_A0) 0\<rparr>
                    in obind (fork_files (p_ofile p) np 0 s4) (\<lambda>s5.
                         case p_cwd p of
                           None \<Rightarrow> Panic ''kerneltrap''
                         | Some ip \<Rightarrow>
                             let s6 = upd_proc np (\<lambda>q. q\<lparr>p_cwd := Some ip, p_name := safestrcpy_name (p_name q) (p_name p),
                                        p_parent := Some i, p_state := RUNNABLE\<rparr>) (idup ip s5)
                             in Ret (p_pid (ptable s6 ! np), s6)))))"

fun exit_files :: "nat \<Rightarrow> nat list \<Rightarrow> 'z file_state_scheme \<Rightarrow> 'z file_state_scheme outcome" where
  "exit_files i [] s = Ret s"
| "exit_files i (fd # fds) s =
     (case p_ofile (ptable s ! i) ! fd of
        None \<Rightarrow> exit_files i fds s
      | Some f \<Rightarrow>
          obind (fileclose f s) (\<lambda>s1.
            exit_files i fds (upd_proc i (\<lambda>p. p\<lparr>p_ofile := (p_ofile p)[fd := None]\<rparr>) s1)))"

definition kexit :: "int \<Rightarrow> 'z file_state_scheme \<Rightarrow> 'z file_state_scheme outcome" where
  "kexit status s =
     (case myproc s of
        None \<Rightarrow> Panic ''kerneltrap''
      | Some i \<Rightarrow>
          if initproc s = Some i then Panic ''init exiting''
          else
            obind (exit_files i [0..<NOFILE] s) (\<lambda>s1.
            obind (begin_op s1) (\<lambda>s2.
            obind (case p_cwd (ptable s2 ! i) of None \<Rightarrow> Panic ''kerneltrap'' | Some ip \<Rightarrow> iput ip s2) (\<lambda>s3.
            obind (end_op s3) (\<lambda>s4.
              let s5 = reparent i (upd_proc i (\<lambda>p. p\<lparr>p_cwd := None\<rparr>) s4);
                  s6 = wakeup (case p_parent (ptable s5 ! i) of Some k \<Rightarrow> ChanProc k | None \<Rightarrow> NoChan) s5
              in exit_sched status i s6)))))"

definition kwait_round :: "addr \<Rightarrow> 'z file_state_scheme \<Rightarrow> ((unit + int) \<times> 'z file_state_scheme) outcome" where
  "kwait_round addr s =
     (case myproc s of
        None \<Rightarrow> Panic ''kerneltrap''
      | Some i \<Rightarrow>
          (case scan (\<lambda>pp. p_parent pp = Some i \<and> p_state pp = ZOMBIE) (ptable s) of
             Some j \<Rightarrow>
               let pid = p_pid (ptable s ! j) in
               obind (if addr \<noteq> 0 then copyout (p_pagetable (ptable s ! i)) addr (bytes32 (word_of_int (p_xstate (ptable s ! j)))) s
                      else Ret (0, s)) (\<lambda>(r, s1).
                 if r < 0 then Ret (Inr (-1), s1)
                 else obind (freeproc j s1) (\<lambda>s2. Ret (Inr pid, s2)))
           | None \<Rightarrow>
               if \<not> list_ex (\<lambda>pp. p_parent pp = Some i) (ptable s) \<or> killed i s \<noteq> 0 then Ret (Inr (-1), s)
               else obind (sleep i (ChanProc i) s) (\<lambda>s1. Ret (Inl (), s1))))"

section \<open>System calls\<close>

definition sys_sbrk :: "int \<Rightarrow> int \<Rightarrow> 'z proc_state_scheme \<Rightarrow> (addr \<times> 'z proc_state_scheme) outcome" where
  "sys_sbrk n t s =
     (case myproc s of
        None \<Rightarrow> Panic ''kerneltrap''
      | Some i \<Rightarrow>
          let a = p_sz (ptable s ! i) in
          if t = 1 \<or> n < 0 then
            obind (growproc n s) (\<lambda>(r, s1). Ret (if r < 0 then -1 else a, s1))
          else if a + of_int n < a then Ret (-1, s)
          else if a + of_int n > TRAPFRAME then Ret (-1, s)
          else Ret (a, upd_proc i (\<lambda>p. p\<lparr>p_sz := p_sz p + of_int n\<rparr>) s))"

definition pause_round :: "uint \<Rightarrow> int \<Rightarrow> 'z proc_state_scheme \<Rightarrow> ((unit + int) \<times> 'z proc_state_scheme) outcome" where
  "pause_round ticks0 n0 s =
     (case myproc s of
        None \<Rightarrow> Panic ''kerneltrap''
      | Some i \<Rightarrow>
          let n = (if n0 < 0 then 0 else n0) in
          if ticks s - ticks0 < word_of_int n then
            if killed i s \<noteq> 0 then Ret (Inr (-1), s)
            else obind (sleep i ChanTicks s) (\<lambda>s1. Ret (Inl (), s1))
          else Ret (Inr 0, s))"

definition find_pid :: "int \<Rightarrow> 'z proc_state_scheme \<Rightarrow> nat option" where
  "find_pid pid s = scan (\<lambda>p. p_pid p = pid \<and> p_state p \<noteq> UNUSED) (ptable s)"

definition copyout_info :: "addr \<Rightarrow> byte list \<Rightarrow> 'z mm_state_scheme \<Rightarrow> (int \<times> 'z mm_state_scheme) outcome" where
  "copyout_info uaddr bs s =
     (case myproc s of
        None \<Rightarrow> Panic ''kerneltrap''
      | Some i \<Rightarrow> obind (copyout (p_pagetable (ptable s ! i)) uaddr bs s) (\<lambda>(r, s1). Ret (if r < 0 then -1 else 0, s1)))"

definition sys_getmlfqinfo :: "int \<Rightarrow> addr \<Rightarrow> 'z mm_state_scheme \<Rightarrow> (int \<times> 'z mm_state_scheme) outcome" where
  "sys_getmlfqinfo pid uaddr s =
     (case find_pid pid s of
        None \<Rightarrow> Ret (-1, s)
      | Some j \<Rightarrow>
          let p = ptable s ! j in
          copyout_info uaddr (concat (map (\<lambda>x. bytes32 (word_of_int x))
            (p_level p # p_ticks p @ [p_times_scheduled p, p_syscall_count p]))) s)"

definition sys_getvmstats :: "int \<Rightarrow> addr \<Rightarrow> 'z mm_state_scheme \<Rightarrow> (int \<times> 'z mm_state_scheme) outcome" where
  "sys_getvmstats pid uaddr s =
     (case find_pid pid s of
        None \<Rightarrow> Ret (-1, s)
      | Some j \<Rightarrow>
          let p = ptable s ! j in
          copyout_info uaddr (concat (map (\<lambda>x. bytes64 (word_of_int x))
            [p_page_faults p, p_pages_evicted p, p_pages_swapped_out p, p_pages_swapped_in p, p_resident_pages p])) s)"

end
