(* ===== verification/Sysfile.thy ===== *)
theory Sysfile
  imports Life
begin

text \<open>
  Fetching system call arguments (the first half of \<^verbatim>\<open>kernel/syscall.c\<close>) and the file system calls of
  \<^verbatim>\<open>kernel/sysfile.c\<close>.  A path argument is the string up to its null byte; the \<^verbatim>\<open>bad\<close> and \<^verbatim>\<open>fail\<close> labels of
  the source are definitions of their own.
\<close>

section \<open>Arguments\<close>

definition MAXPATH :: nat where [simp]: "MAXPATH = 128"
definition MAXARG :: nat where [simp]: "MAXARG = 32"

definition word64_of :: "byte list \<Rightarrow> 64 word" where
  "word64_of bs = word_rcat (rev bs)"

definition fetchaddr :: "addr \<Rightarrow> 'z mm_state_scheme \<Rightarrow> (int \<times> 64 word \<times> 'z mm_state_scheme) outcome" where
  "fetchaddr a s =
     (case myproc s of
        None \<Rightarrow> Panic ''kerneltrap''
      | Some i \<Rightarrow>
          let p = ptable s ! i in
          if a \<ge> p_sz p \<or> a + 8 > p_sz p then Ret (-1, 0, s)
          else obind (copyin (p_pagetable p) a 8 s) (\<lambda>(r, bs, s1).
            if r \<noteq> 0 then Ret (-1, 0, s1) else Ret (0, word64_of bs, s1)))"

definition fetchstr :: "addr \<Rightarrow> nat \<Rightarrow> 'z proc_state_scheme \<Rightarrow> (int \<times> byte list) outcome" where
  "fetchstr a mx s =
     (case myproc s of
        None \<Rightarrow> Panic ''kerneltrap''
      | Some i \<Rightarrow>
          obind (copyinstr (p_pagetable (ptable s ! i)) a mx s) (\<lambda>(r, bs).
            if r < 0 then Ret (-1, bs)
            else Ret (int (length (takeWhile (\<lambda>b. b \<noteq> 0) bs)), bs)))"

definition argraw :: "nat \<Rightarrow> 'z proc_state_scheme \<Rightarrow> 64 word outcome" where
  "argraw n s =
     (case myproc s of
        None \<Rightarrow> Panic ''kerneltrap''
      | Some i \<Rightarrow> if n \<le> 5 then Ret (load64 (pmem s) (p_trapframe (ptable s ! i) + TF_A0 + 8 * of_nat n)) else Panic ''argraw'')"

definition argint :: "nat \<Rightarrow> 'z proc_state_scheme \<Rightarrow> int outcome" where
  "argint n s = obind (argraw n s) (\<lambda>v. Ret (sint (ucast v :: uint)))"

definition argaddr :: "nat \<Rightarrow> 'z proc_state_scheme \<Rightarrow> addr outcome" where
  "argaddr n s = argraw n s"

definition argstr :: "nat \<Rightarrow> nat \<Rightarrow> 'z proc_state_scheme \<Rightarrow> (int \<times> byte list) outcome" where
  "argstr n mx s = obind (argaddr n s) (\<lambda>a. obind (fetchstr a mx s) (\<lambda>(r, bs). Ret (r, takeWhile (\<lambda>b. b \<noteq> 0) bs)))"

definition argfd :: "nat \<Rightarrow> 'z proc_state_scheme \<Rightarrow> (nat \<times> nat) option outcome" where
  "argfd n s =
     obind (argint n s) (\<lambda>fd.
       case myproc s of
         None \<Rightarrow> Panic ''kerneltrap''
       | Some i \<Rightarrow>
           if fd < 0 \<or> fd \<ge> int NOFILE then Ret None
           else Ret (case p_ofile (ptable s ! i) ! nat fd of None \<Rightarrow> None | Some f \<Rightarrow> Some (nat fd, f)))"

definition fdalloc :: "nat \<Rightarrow> 'z proc_state_scheme \<Rightarrow> (int \<times> 'z proc_state_scheme) outcome" where
  "fdalloc f s =
     (case myproc s of
        None \<Rightarrow> Panic ''kerneltrap''
      | Some i \<Rightarrow>
          Ret (case scan (\<lambda>x. x = None) (p_ofile (ptable s ! i)) of
                 None \<Rightarrow> (-1, s)
               | Some fd \<Rightarrow> (int fd, upd_proc i (\<lambda>p. p\<lparr>p_ofile := (p_ofile p)[fd := Some f]\<rparr>) s)))"

definition clear_fd :: "nat \<Rightarrow> 'z proc_state_scheme \<Rightarrow> 'z proc_state_scheme" where
  "clear_fd fd s = (case myproc s of None \<Rightarrow> s | Some i \<Rightarrow> upd_proc i (\<lambda>p. p\<lparr>p_ofile := (p_ofile p)[fd := None]\<rparr>) s)"

section \<open>Calls on open files\<close>

definition sys_dup :: "'z file_state_scheme \<Rightarrow> (int \<times> 'z file_state_scheme) outcome" where
  "sys_dup s =
     obind (argfd 0 s) (\<lambda>a.
       case a of
         None \<Rightarrow> Ret (-1, s)
       | Some (_, f) \<Rightarrow>
           obind (fdalloc f s) (\<lambda>(fd, s1).
             if fd < 0 then Ret (-1, s1) else obind (filedup f s1) (\<lambda>s2. Ret (fd, s2))))"

definition sys_read :: "'z file_state_scheme \<Rightarrow> (int \<times> 'z file_state_scheme) outcome" where
  "sys_read s =
     obind (argaddr 1 s) (\<lambda>p. obind (argint 2 s) (\<lambda>n. obind (argfd 0 s) (\<lambda>a.
       case a of None \<Rightarrow> Ret (-1, s) | Some (_, f) \<Rightarrow> fileread f p n s)))"

definition sys_write :: "'z file_state_scheme \<Rightarrow> (int \<times> 'z file_state_scheme) outcome" where
  "sys_write s =
     obind (argaddr 1 s) (\<lambda>p. obind (argint 2 s) (\<lambda>n. obind (argfd 0 s) (\<lambda>a.
       case a of None \<Rightarrow> Ret (-1, s) | Some (_, f) \<Rightarrow> filewrite f p n s)))"

definition sys_close :: "'z file_state_scheme \<Rightarrow> (int \<times> 'z file_state_scheme) outcome" where
  "sys_close s =
     obind (argfd 0 s) (\<lambda>a.
       case a of
         None \<Rightarrow> Ret (-1, s)
       | Some (fd, f) \<Rightarrow> obind (fileclose f (clear_fd fd s)) (\<lambda>s1. Ret (0, s1)))"

definition sys_fstat :: "'z file_state_scheme \<Rightarrow> (int \<times> 'z file_state_scheme) outcome" where
  "sys_fstat s =
     obind (argaddr 1 s) (\<lambda>st. obind (argfd 0 s) (\<lambda>a.
       case a of None \<Rightarrow> Ret (-1, s) | Some (_, f) \<Rightarrow> filestat f st s))"

section \<open>Links and directories\<close>

definition fail_op :: "'z log_state_scheme \<Rightarrow> (int \<times> 'z log_state_scheme) outcome" where
  "fail_op s = obind (end_op s) (\<lambda>s1. Ret (-1, s1))"

definition link_bad :: "nat \<Rightarrow> 'z fs_state_scheme \<Rightarrow> (int \<times> 'z fs_state_scheme) outcome" where
  "link_bad ip s =
     obind (ilock (Some ip) s) (\<lambda>s1.
     obind (iupdate ip (upd_inode ip (\<lambda>x. x\<lparr>i_nlink := i_nlink x - 1\<rparr>) s1)) (\<lambda>s2.
     obind (iunlockput ip s2) fail_op))"

definition sys_link :: "'z fs_state_scheme \<Rightarrow> (int \<times> 'z fs_state_scheme) outcome" where
  "sys_link s =
     obind (argstr 0 MAXPATH s) (\<lambda>(r0, old).
       if r0 < 0 then Ret (-1, s)
       else obind (argstr 1 MAXPATH s) (\<lambda>(r1, new).
         if r1 < 0 then Ret (-1, s)
         else obind (begin_op s) (\<lambda>s1.
           obind (namei old s1) (\<lambda>(ipo, s2).
             case ipo of
               None \<Rightarrow> fail_op s2
             | Some ip \<Rightarrow>
                 obind (ilock (Some ip) s2) (\<lambda>s3.
                   if i_type (itable s3 ! ip) = T_DIR then obind (iunlockput ip s3) fail_op
                   else
                     obind (iupdate ip (upd_inode ip (\<lambda>x. x\<lparr>i_nlink := i_nlink x + 1\<rparr>) s3)) (\<lambda>s4.
                     obind (iunlock (Some ip) s4) (\<lambda>s5.
                     obind (nameiparent new s5) (\<lambda>(dpo, name, s6).
                       case dpo of
                         None \<Rightarrow> link_bad ip s6
                       | Some dp \<Rightarrow>
                           obind (ilock (Some dp) s6) (\<lambda>s7.
                           obind (if i_dev (itable s7 ! dp) \<noteq> i_dev (itable s7 ! ip) then Ret (-1, s7)
                                  else dirlink dp name (i_inum (itable s7 ! ip)) s7) (\<lambda>(r, s8).
                             if r < 0 then obind (iunlockput dp s8) (link_bad ip)
                             else obind (iunlockput dp s8) (\<lambda>s9.
                                  obind (iput ip s9) (\<lambda>s10.
                                  obind (end_op s10) (\<lambda>s11. Ret (0, s11))))))))))))))"

fun isdirempty_loop :: "nat \<Rightarrow> nat \<Rightarrow> uint \<Rightarrow> 'z fs_state_scheme \<Rightarrow> (int \<times> 'z fs_state_scheme) outcome" where
  "isdirempty_loop 0 dp off s = Hang"
| "isdirempty_loop (Suc fuel) dp off s =
     (if off < i_size (itable s ! dp) then
        obind (readi dp LocalDst off 16 s) (\<lambda>(r, de, s1).
          if r \<noteq> 16 then Panic ''isdirempty: readi''
          else if de_inum de \<noteq> 0 then Ret (0, s1)
          else isdirempty_loop fuel dp (off + 16) s1)
      else Ret (1, s))"

definition isdirempty :: "nat \<Rightarrow> 'z fs_state_scheme \<Rightarrow> (int \<times> 'z fs_state_scheme) outcome" where
  "isdirempty dp s = isdirempty_loop (Suc (unat (i_size (itable s ! dp)))) dp 32 s"

definition unlink_bad :: "nat \<Rightarrow> 'z fs_state_scheme \<Rightarrow> (int \<times> 'z fs_state_scheme) outcome" where
  "unlink_bad dp s = obind (iunlockput dp s) fail_op"

definition unlink_entry :: "nat \<Rightarrow> nat \<Rightarrow> uint \<Rightarrow> 'z fs_state_scheme \<Rightarrow> (int \<times> 'z fs_state_scheme) outcome" where
  "unlink_entry dp ip off s =
     obind (writei dp (LocalSrc (replicate 16 0)) off 16 s) (\<lambda>(r, s1).
       if r \<noteq> 16 then Panic ''unlink: writei''
       else
         obind (if i_type (itable s1 ! ip) = T_DIR
                then iupdate dp (upd_inode dp (\<lambda>x. x\<lparr>i_nlink := i_nlink x - 1\<rparr>) s1) else Ret s1) (\<lambda>s2.
         obind (iunlockput dp s2) (\<lambda>s3.
         obind (iupdate ip (upd_inode ip (\<lambda>x. x\<lparr>i_nlink := i_nlink x - 1\<rparr>) s3)) (\<lambda>s4.
         obind (iunlockput ip s4) (\<lambda>s5.
         obind (end_op s5) (\<lambda>s6. Ret (0, s6)))))))"

definition sys_unlink :: "'z fs_state_scheme \<Rightarrow> (int \<times> 'z fs_state_scheme) outcome" where
  "sys_unlink s =
     obind (argstr 0 MAXPATH s) (\<lambda>(r, path).
       if r < 0 then Ret (-1, s)
       else obind (begin_op s) (\<lambda>s1.
         obind (nameiparent path s1) (\<lambda>(dpo, name, s2).
           case dpo of
             None \<Rightarrow> fail_op s2
           | Some dp \<Rightarrow>
               obind (ilock (Some dp) s2) (\<lambda>s3.
                 if namecmp name [46] = 0 \<or> namecmp name [46, 46] = 0 then unlink_bad dp s3
                 else obind (dirlookup dp name s3) (\<lambda>(found, s4).
                   case found of
                     None \<Rightarrow> unlink_bad dp s4
                   | Some (ip, off) \<Rightarrow>
                       obind (ilock (Some ip) s4) (\<lambda>s5.
                         if sint (i_nlink (itable s5 ! ip)) < 1 then Panic ''unlink: nlink < 1''
                         else
                           obind (if i_type (itable s5 ! ip) = T_DIR then isdirempty ip s5 else Ret (1, s5)) (\<lambda>(e, s6).
                             if e = 0 then obind (iunlockput ip s6) (unlink_bad dp)
                             else unlink_entry dp ip off s6)))))))"

section \<open>Creating and opening\<close>

definition create_fail :: "nat \<Rightarrow> nat \<Rightarrow> 'z fs_state_scheme \<Rightarrow> (nat option \<times> 'z fs_state_scheme) outcome" where
  "create_fail ip dp s =
     obind (iupdate ip (upd_inode ip (\<lambda>x. x\<lparr>i_nlink := 0\<rparr>) s)) (\<lambda>s1.
     obind (iunlockput ip s1) (\<lambda>s2.
     obind (iunlockput dp s2) (\<lambda>s3. Ret (None, s3))))"

definition create_new ::
  "nat \<Rightarrow> byte list \<Rightarrow> 16 word \<Rightarrow> 16 word \<Rightarrow> 16 word \<Rightarrow> 'z fs_state_scheme \<Rightarrow> (nat option \<times> 'z fs_state_scheme) outcome" where
  "create_new dp name type major minor s =
     obind (ialloc (i_dev (itable s ! dp)) type s) (\<lambda>(ipo, s1).
       case ipo of
         None \<Rightarrow> obind (iunlockput dp s1) (\<lambda>s2. Ret (None, s2))
       | Some ip \<Rightarrow>
           obind (ilock (Some ip) s1) (\<lambda>s2.
           obind (iupdate ip (upd_inode ip (\<lambda>x. x\<lparr>i_major := major, i_minor := minor, i_nlink := 1\<rparr>) s2)) (\<lambda>s3.
           obind (if type = T_DIR then
                    obind (dirlink ip [46] (i_inum (itable s3 ! ip)) s3) (\<lambda>(r, s4).
                      if r < 0 then Ret (r, s4) else dirlink ip [46, 46] (i_inum (itable s4 ! dp)) s4)
                  else Ret (0, s3)) (\<lambda>(r, s5).
             if r < 0 then create_fail ip dp s5
             else obind (dirlink dp name (i_inum (itable s5 ! ip)) s5) (\<lambda>(r', s6).
               if r' < 0 then create_fail ip dp s6
               else
                 obind (if type = T_DIR then iupdate dp (upd_inode dp (\<lambda>x. x\<lparr>i_nlink := i_nlink x + 1\<rparr>) s6) else Ret s6) (\<lambda>s7.
                 obind (iunlockput dp s7) (\<lambda>s8. Ret (Some ip, s8))))))))"

definition create ::
  "byte list \<Rightarrow> 16 word \<Rightarrow> 16 word \<Rightarrow> 16 word \<Rightarrow> 'z fs_state_scheme \<Rightarrow> (nat option \<times> 'z fs_state_scheme) outcome" where
  "create path type major minor s =
     obind (nameiparent path s) (\<lambda>(dpo, name, s1).
       case dpo of
         None \<Rightarrow> Ret (None, s1)
       | Some dp \<Rightarrow>
           obind (ilock (Some dp) s1) (\<lambda>s2.
           obind (dirlookup dp name s2) (\<lambda>(found, s3).
             case found of
               Some (ip, _) \<Rightarrow>
                 obind (iunlockput dp s3) (\<lambda>s4.
                 obind (ilock (Some ip) s4) (\<lambda>s5.
                   if type = T_FILE \<and> (i_type (itable s5 ! ip) = T_FILE \<or> i_type (itable s5 ! ip) = T_DEVICE)
                   then Ret (Some ip, s5)
                   else obind (iunlockput ip s5) (\<lambda>s6. Ret (None, s6))))
             | None \<Rightarrow> create_new dp name type major minor s3)))"

definition O_WRONLY :: uint where [simp]: "O_WRONLY = 1"
definition O_RDWR :: uint where [simp]: "O_RDWR = 2"
definition O_CREATE :: uint where [simp]: "O_CREATE = 0x200"
definition O_TRUNC :: uint where [simp]: "O_TRUNC = 0x400"

definition open_inode :: "byte list \<Rightarrow> uint \<Rightarrow> 'z fs_state_scheme \<Rightarrow> (nat option \<times> 'z fs_state_scheme) outcome" where
  "open_inode path omode s =
     (if omode AND O_CREATE \<noteq> 0 then create path T_FILE 0 0 s
      else obind (namei path s) (\<lambda>(ipo, s1).
        case ipo of
          None \<Rightarrow> Ret (None, s1)
        | Some ip \<Rightarrow>
            obind (ilock (Some ip) s1) (\<lambda>s2.
              if i_type (itable s2 ! ip) = T_DIR \<and> omode \<noteq> 0
              then obind (iunlockput ip s2) (\<lambda>s3. Ret (None, s3))
              else Ret (Some ip, s2))))"

definition open_file :: "nat \<Rightarrow> uint \<Rightarrow> 'z file_state_scheme \<Rightarrow> (int \<times> 'z file_state_scheme) outcome" where
  "open_file ip omode s =
     (let bad = (\<lambda>s. obind (iunlockput ip s) fail_op) in
      case filealloc s of
        (None, s1) \<Rightarrow> bad s1
      | (Some f, s1) \<Rightarrow>
          obind (fdalloc f s1) (\<lambda>(fd, s2).
            if fd < 0 then obind (fileclose f s2) bad
            else
              let x = itable s2 ! ip;
                  s3 = (if i_type x = T_DEVICE then upd_file f (\<lambda>g. g\<lparr>f_type := FD_DEVICE, f_major := i_major x\<rparr>) s2
                        else upd_file f (\<lambda>g. g\<lparr>f_type := FD_INODE, f_off := 0\<rparr>) s2);
                  s4 = upd_file f (\<lambda>g. g\<lparr>f_ip := Some ip, f_readable := (omode AND O_WRONLY = 0),
                         f_writable := (omode AND O_WRONLY \<noteq> 0 \<or> omode AND O_RDWR \<noteq> 0)\<rparr>) s3
              in obind (if omode AND O_TRUNC \<noteq> 0 \<and> i_type x = T_FILE then itrunc ip s4 else Ret s4) (\<lambda>s5.
                 obind (iunlock (Some ip) s5) (\<lambda>s6.
                 obind (end_op s6) (\<lambda>s7. Ret (fd, s7))))))"

definition sys_open :: "'z file_state_scheme \<Rightarrow> (int \<times> 'z file_state_scheme) outcome" where
  "sys_open s =
     obind (argraw 1 s) (\<lambda>om.
     obind (argstr 0 MAXPATH s) (\<lambda>(r, path).
       if r < 0 then Ret (-1, s)
       else
         obind (begin_op s) (\<lambda>s1.
         obind (open_inode path (ucast om) s1) (\<lambda>(ipo, s2).
           case ipo of
             None \<Rightarrow> fail_op s2
           | Some ip \<Rightarrow>
               let x = itable s2 ! ip in
               if i_type x = T_DEVICE \<and> (sint (i_major x) < 0 \<or> sint (i_major x) \<ge> int NDEV)
               then obind (iunlockput ip s2) fail_op
               else open_file ip (ucast om) s2))))"

definition finish_create :: "(nat option \<times> 'z fs_state_scheme) outcome \<Rightarrow> (int \<times> 'z fs_state_scheme) outcome" where
  "finish_create r =
     obind r (\<lambda>(ipo, s).
       case ipo of
         None \<Rightarrow> fail_op s
       | Some ip \<Rightarrow> obind (iunlockput ip s) (\<lambda>s1. obind (end_op s1) (\<lambda>s2. Ret (0, s2))))"

definition sys_mkdir :: "'z fs_state_scheme \<Rightarrow> (int \<times> 'z fs_state_scheme) outcome" where
  "sys_mkdir s =
     obind (begin_op s) (\<lambda>s1.
     obind (argstr 0 MAXPATH s1) (\<lambda>(r, path).
       if r < 0 then fail_op s1 else finish_create (create path T_DIR 0 0 s1)))"

definition sys_mknod :: "'z fs_state_scheme \<Rightarrow> (int \<times> 'z fs_state_scheme) outcome" where
  "sys_mknod s =
     obind (begin_op s) (\<lambda>s1.
     obind (argint 1 s1) (\<lambda>major.
     obind (argint 2 s1) (\<lambda>minor.
     obind (argstr 0 MAXPATH s1) (\<lambda>(r, path).
       if r < 0 then fail_op s1
       else finish_create (create path T_DEVICE (word_of_int major) (word_of_int minor) s1)))))"

definition sys_chdir :: "'z fs_state_scheme \<Rightarrow> (int \<times> 'z fs_state_scheme) outcome" where
  "sys_chdir s =
     obind (begin_op s) (\<lambda>s1.
     obind (argstr 0 MAXPATH s1) (\<lambda>(r, path).
       if r < 0 then fail_op s1
       else obind (namei path s1) (\<lambda>(ipo, s2).
         case ipo of
           None \<Rightarrow> fail_op s2
         | Some ip \<Rightarrow>
             obind (ilock (Some ip) s2) (\<lambda>s3.
               if i_type (itable s3 ! ip) \<noteq> T_DIR then obind (iunlockput ip s3) fail_op
               else
                 obind (iunlock (Some ip) s3) (\<lambda>s4.
                   case myproc s4 of
                     None \<Rightarrow> Panic ''kerneltrap''
                   | Some i \<Rightarrow>
                       obind (case p_cwd (ptable s4 ! i) of None \<Rightarrow> Panic ''kerneltrap'' | Some c \<Rightarrow> iput c s4) (\<lambda>s5.
                       obind (end_op s5) (\<lambda>s6. Ret (0, upd_proc i (\<lambda>p. p\<lparr>p_cwd := Some ip\<rparr>) s6))))))))"

definition close_both :: "nat \<Rightarrow> nat \<Rightarrow> 'z file_state_scheme \<Rightarrow> (int \<times> 'z file_state_scheme) outcome" where
  "close_both rfl wfl s = obind (fileclose rfl s) (\<lambda>s1. obind (fileclose wfl s1) (\<lambda>s2. Ret (-1, s2)))"

definition sys_pipe :: "'z file_state_scheme \<Rightarrow> (int \<times> 'z file_state_scheme) outcome" where
  "sys_pipe s =
     obind (argaddr 0 s) (\<lambda>fdarray.
     obind (pipealloc s) (\<lambda>(r, fs, s1).
       case (fs, myproc s) of
         (Some (rfl, wfl), Some i) \<Rightarrow>
           obind (fdalloc rfl s1) (\<lambda>(fd0, s2).
             if fd0 < 0 then close_both rfl wfl s2
             else obind (fdalloc wfl s2) (\<lambda>(fd1, s3).
               if fd1 < 0 then close_both rfl wfl (clear_fd (nat fd0) s3)
               else
                 let pt = p_pagetable (ptable s3 ! i) in
                 obind (copyout pt fdarray (bytes32 (word_of_int fd0)) s3) (\<lambda>(c0, s4).
                 obind (if c0 < 0 then Ret (c0, s4) else copyout pt (fdarray + 4) (bytes32 (word_of_int fd1)) s4) (\<lambda>(c1, s5).
                   if c1 < 0 then close_both rfl wfl (clear_fd (nat fd1) (clear_fd (nat fd0) s5))
                   else Ret (0, s5)))))
       | (None, _) \<Rightarrow> Ret (-1, s1)
       | _ \<Rightarrow> Panic ''kerneltrap''))"

end
