(* ===== verification/Exec.thy ===== *)
theory Exec
  imports Sysfile
begin

text \<open>
  Running a program: \<^verbatim>\<open>kernel/exec.c\<close> with the ELF structures of \<^verbatim>\<open>kernel/elf.h\<close>, and \<open>sys_exec\<close> of
  \<^verbatim>\<open>kernel/sysfile.c\<close>.  The ELF headers are the bytes \<open>readi\<close> returns, read at the offsets of the C structures.
  \<open>kexec_bad\<close> is the label \<^verbatim>\<open>bad\<close>; its first argument is the inode that is still locked, if any.
\<close>

section \<open>Loading segments\<close>

definition get64 :: "byte list \<Rightarrow> nat \<Rightarrow> 64 word" where
  "get64 bs i = word64_of (slice bs i 8)"

definition flags2perm :: "uint \<Rightarrow> 64 word" where
  "flags2perm flags =
     (let perm = (if flags AND 1 \<noteq> 0 then PTE_X else 0) in
      if flags AND 2 \<noteq> 0 then perm OR PTE_W else perm)"

fun loadseg_loop ::
  "nat \<Rightarrow> addr \<Rightarrow> addr \<Rightarrow> nat \<Rightarrow> uint \<Rightarrow> uint \<Rightarrow> uint \<Rightarrow> 'z fs_state_scheme \<Rightarrow> (int \<times> 'z fs_state_scheme) outcome" where
  "loadseg_loop 0 pagetable va ip offset sz i s = Hang"
| "loadseg_loop (Suc fuel) pagetable va ip offset sz i s =
     (if i < sz then
        obind (walkaddr pagetable (va + ucast i) s) (\<lambda>pa.
          if pa = 0 then Panic ''loadseg: address should exist''
          else
            let n = (if sz - i < 4096 then sz - i else 4096) in
            obind (readi ip (KernDst pa) (offset + i) n s) (\<lambda>(r, _, s1).
              if word_of_int r \<noteq> n then Ret (-1, s1)
              else loadseg_loop fuel pagetable va ip offset sz (i + 4096) s1))
      else Ret (0, s))"

definition loadseg :: "addr \<Rightarrow> addr \<Rightarrow> nat \<Rightarrow> uint \<Rightarrow> uint \<Rightarrow> 'z fs_state_scheme \<Rightarrow> (int \<times> 'z fs_state_scheme) outcome" where
  "loadseg pagetable va ip offset sz s = loadseg_loop (Suc (Suc (unat sz div 4096))) pagetable va ip offset sz 0 s"

definition ELF_MAGIC :: uint where [simp]: "ELF_MAGIC = 0x464C457F"
definition ELF_PROG_LOAD :: uint where [simp]: "ELF_PROG_LOAD = 1"

text \<open>
  The program headers: \<open>Inl sz\<close> when the source jumps to \<^verbatim>\<open>bad\<close> with that size, \<open>Inr sz\<close> when all segments are
  loaded.
\<close>

fun load_segments ::
  "nat \<Rightarrow> addr \<Rightarrow> nat \<Rightarrow> uint \<Rightarrow> addr \<Rightarrow> 'z fs_state_scheme \<Rightarrow> ((addr + addr) \<times> 'z fs_state_scheme) outcome" where
  "load_segments 0 pagetable ip off sz s = Ret (Inr sz, s)"
| "load_segments (Suc n) pagetable ip off sz s =
     obind (readi ip LocalDst off 56 s) (\<lambda>(r, ph, s1).
       let vaddr = get64 ph 16; filesz = get64 ph 32; memsz = get64 ph 40 in
       if r \<noteq> 56 then Ret (Inl sz, s1)
       else if get32 ph 0 \<noteq> ELF_PROG_LOAD then load_segments n pagetable ip (off + 56) sz s1
       else if memsz < filesz \<or> vaddr + memsz < vaddr \<or> vaddr mod PGSIZE \<noteq> 0 then Ret (Inl sz, s1)
       else obind (uvmalloc pagetable sz (vaddr + memsz) (flags2perm (get32 ph 4)) s1) (\<lambda>(sz1, s2).
         if sz1 = 0 then Ret (Inl sz, s2)
         else obind (loadseg pagetable vaddr ip (ucast (get64 ph 8)) (ucast filesz) s2) (\<lambda>(l, s3).
           if l < 0 then Ret (Inl sz1, s3)
           else load_segments n pagetable ip (off + 56) sz1 s3)))"

section \<open>The stack\<close>

fun push_args ::
  "byte list list \<Rightarrow> nat \<Rightarrow> addr \<Rightarrow> addr \<Rightarrow> addr \<Rightarrow> addr list \<Rightarrow> 'z mm_state_scheme \<Rightarrow> ((addr \<times> addr list) option \<times> 'z mm_state_scheme) outcome" where
  "push_args [] argc pagetable stackbase sp ustack s = Ret (Some (sp, ustack), s)"
| "push_args (a # as) argc pagetable stackbase sp ustack s =
     (if argc \<ge> MAXARG then Ret (None, s)
      else
        let sp1 = sp - of_nat (length a + 1); sp2 = sp1 - sp1 mod 16 in
        if sp2 < stackbase then Ret (None, s)
        else obind (copyout pagetable sp2 (a @ [0]) s) (\<lambda>(r, s1).
          if r < 0 then Ret (None, s1)
          else push_args as (Suc argc) pagetable stackbase sp2 (ustack @ [sp2]) s1))"

definition kexec_bad :: "nat option \<Rightarrow> addr \<Rightarrow> addr \<Rightarrow> 'z fs_state_scheme \<Rightarrow> (int \<times> 'z fs_state_scheme) outcome" where
  "kexec_bad ip pagetable sz s =
     obind (if pagetable \<noteq> 0 then proc_freepagetable pagetable sz s else Ret s) (\<lambda>s1.
       case ip of
         None \<Rightarrow> Ret (-1, s1)
       | Some i \<Rightarrow> obind (iunlockput i s1) (\<lambda>s2. obind (end_op s2) (\<lambda>s3. Ret (-1, s3))))"

definition base_name :: "byte list \<Rightarrow> byte list" where
  "base_name path = rev (takeWhile (\<lambda>c. c \<noteq> SLASH) (rev path))"

definition kexec_commit ::
  "nat \<Rightarrow> byte list \<Rightarrow> addr \<Rightarrow> addr \<Rightarrow> addr \<Rightarrow> addr \<Rightarrow> addr \<Rightarrow> int \<Rightarrow> 'z fs_state_scheme \<Rightarrow> (int \<times> 'z fs_state_scheme) outcome" where
  "kexec_commit i path pagetable sz sp entry oldsz argc s =
     (let p = ptable s ! i; tf = p_trapframe p;
          s1 = s\<lparr>pmem := store64 (pmem s) (tf + 120) sp\<rparr>;
          s2 = upd_proc i (\<lambda>q. q\<lparr>p_name := safestrcpy_name (p_name q) (base_name path), p_pagetable := pagetable, p_sz := sz\<rparr>) s1;
          s3 = s2\<lparr>pmem := store64 (store64 (pmem s2) (tf + 24) entry) (tf + 48) sp\<rparr>
      in obind (proc_freepagetable (p_pagetable p) oldsz s3) (\<lambda>s4. Ret (argc, s4)))"

definition kexec_stack ::
  "nat \<Rightarrow> byte list \<Rightarrow> byte list list \<Rightarrow> addr \<Rightarrow> addr \<Rightarrow> addr \<Rightarrow> 'z fs_state_scheme \<Rightarrow> (int \<times> 'z fs_state_scheme) outcome" where
  "kexec_stack i path argv entry pagetable sz0 s =
     (let oldsz = p_sz (ptable s ! i); sz = PGROUNDUP sz0 in
      obind (uvmalloc pagetable sz (sz + 2 * PGSIZE) PTE_W s) (\<lambda>(sz1, s1).
        if sz1 = 0 then kexec_bad None pagetable sz s1
        else
          obind (uvmclear pagetable (sz1 - 2 * PGSIZE) s1) (\<lambda>s2.
            let stackbase = sz1 - PGSIZE in
            obind (push_args argv 0 pagetable stackbase sz1 [] s2) (\<lambda>(r, s3).
              case r of
                None \<Rightarrow> kexec_bad None pagetable sz1 s3
              | Some (sp, ustack) \<Rightarrow>
                  let argc = length ustack; sp1 = sp - of_nat ((argc + 1) * 8); sp2 = sp1 - sp1 mod 16 in
                  if sp2 < stackbase then kexec_bad None pagetable sz1 s3
                  else obind (copyout pagetable sp2 (concat (map bytes64 (ustack @ [0]))) s3) (\<lambda>(c, s4).
                    if c < 0 then kexec_bad None pagetable sz1 s4
                    else kexec_commit i path pagetable sz1 sp2 entry oldsz (int argc) s4)))))"

definition kexec :: "byte list \<Rightarrow> byte list list \<Rightarrow> 'z fs_state_scheme \<Rightarrow> (int \<times> 'z fs_state_scheme) outcome" where
  "kexec path argv s =
     (case myproc s of
        None \<Rightarrow> Panic ''kerneltrap''
      | Some i \<Rightarrow>
          obind (begin_op s) (\<lambda>s1.
          obind (namei path s1) (\<lambda>(ipo, s2).
            case ipo of
              None \<Rightarrow> fail_op s2
            | Some ip \<Rightarrow>
                obind (ilock (Some ip) s2) (\<lambda>s3.
                obind (readi ip LocalDst 0 64 s3) (\<lambda>(r, elf, s4).
                  if r \<noteq> 64 \<or> get32 elf 0 \<noteq> ELF_MAGIC then kexec_bad (Some ip) 0 0 s4
                  else obind (proc_pagetable i s4) (\<lambda>(pagetable, s5).
                    if pagetable = 0 then kexec_bad (Some ip) 0 0 s5
                    else
                      obind (load_segments (unat (get16 elf 56)) pagetable ip (ucast (get64 elf 32)) 0 s5) (\<lambda>(l, s6).
                        case l of
                          Inl sz \<Rightarrow> kexec_bad (Some ip) pagetable sz s6
                        | Inr sz \<Rightarrow>
                            obind (iunlockput ip s6) (\<lambda>s7.
                            obind (end_op s7) (kexec_stack i path argv (get64 elf 24) pagetable sz)))))))))"

section \<open>The system call\<close>

fun free_args :: "addr list \<Rightarrow> 'z kmem_state_scheme \<Rightarrow> 'z kmem_state_scheme outcome" where
  "free_args [] s = Ret s"
| "free_args (a # as) s = obind (kfree a s) (free_args as)"

text \<open>
  Copying in the argument vector: the pages allocated so far, and the strings when the vector is
  complete (\<open>None\<close> when the source jumps to \<^verbatim>\<open>bad\<close>).
\<close>

fun fetch_args ::
  "nat \<Rightarrow> nat \<Rightarrow> addr \<Rightarrow> addr list \<Rightarrow> byte list list \<Rightarrow> 'z mm_state_scheme \<Rightarrow> (addr list \<times> byte list list option \<times> 'z mm_state_scheme) outcome" where
  "fetch_args 0 i uargv pages args s = Ret (pages, None, s)"
| "fetch_args (Suc n) i uargv pages args s =
     obind (fetchaddr (uargv + 8 * of_nat i) s) (\<lambda>(r, uarg, s1).
       if r < 0 then Ret (pages, None, s1)
       else if uarg = 0 then Ret (pages, Some args, s1)
       else
         let (pg, s2) = kalloc s1 in
         if pg = 0 then Ret (pages, None, s2)
         else obind (fetchstr uarg 4096 s2) (\<lambda>(r', bs).
           let s3 = s2\<lparr>pmem := write_bytes (pmem s2) pg bs\<rparr> in
           if r' < 0 then Ret (pages @ [pg], None, s3)
           else fetch_args n (Suc i) uargv (pages @ [pg]) (args @ [takeWhile (\<lambda>b. b \<noteq> 0) bs]) s3))"

definition sys_exec :: "'z fs_state_scheme \<Rightarrow> (int \<times> 'z fs_state_scheme) outcome" where
  "sys_exec s =
     obind (argaddr 1 s) (\<lambda>uargv.
     obind (argstr 0 MAXPATH s) (\<lambda>(r, path).
       if r < 0 then Ret (-1, s)
       else obind (fetch_args MAXARG 0 uargv [] [] s) (\<lambda>(pages, args, s1).
         case args of
           None \<Rightarrow> obind (free_args pages s1) (\<lambda>s2. Ret (-1, s2))
         | Some argv \<Rightarrow>
             obind (kexec path argv s1) (\<lambda>(ret, s2).
             obind (free_args pages s2) (\<lambda>s3. Ret (ret, s3))))))"

end
