(* ===== verification/Trap.thy ===== *)
theory Trap
  imports Exec
begin

text \<open>
  System call dispatch (the second half of \<^verbatim>\<open>kernel/syscall.c\<close>) and the trap handlers of \<^verbatim>\<open>kernel/trap.c\<close>.

  The control registers a handler reads, the interrupt number the PLIC reports and the state of the
  serial port are arguments, collected in \<open>trap_regs\<close>.  A system call that ends the process or puts it to
  sleep does not return a value: \<open>kexit\<close> gives \<open>None\<close>, a call that sleeps gives \<open>Hang\<close>.  The end of a trap is
  \<open>ToUser satp\<close> when the handler returns to user space with that page table, \<open>Gone\<close> when the process has
  exited, and \<open>Switched\<close> when it has yielded; a process that yielded runs \<open>prepare_return\<close> when it is resumed.
\<close>

section \<open>Dispatch\<close>

definition ret_int :: "(int \<times> 's) outcome \<Rightarrow> (addr option \<times> 's) outcome" where
  "ret_int r = obind r (\<lambda>(v, s). Ret (Some (of_int v), s))"

definition do_syscall :: "int \<Rightarrow> nat \<Rightarrow> 'z file_state_scheme \<Rightarrow> (addr option \<times> 'z file_state_scheme) outcome" where
  "do_syscall num i s =
     (if num = 1 then ret_int (kfork s)
      else if num = 2 then obind (argint 0 s) (\<lambda>n. obind (kexit n s) (\<lambda>s1. Ret (None, s1)))
      else if num = 3 then obind (argaddr 0 s) (\<lambda>a. ret_int (returned (kwait_round a s)))
      else if num = 4 then ret_int (sys_pipe s)
      else if num = 5 then ret_int (sys_read s)
      else if num = 6 then obind (argint 0 s) (\<lambda>pid. ret_int (Ret (sys_kill pid s)))
      else if num = 7 then ret_int (sys_exec s)
      else if num = 8 then ret_int (sys_fstat s)
      else if num = 9 then ret_int (sys_chdir s)
      else if num = 10 then ret_int (sys_dup s)
      else if num = 11 then ret_int (Ret (sys_getpid i s, s))
      else if num = 12 then obind (argint 0 s) (\<lambda>n. obind (argint 1 s) (\<lambda>t.
        obind (sys_sbrk n t s) (\<lambda>(a, s1). Ret (Some a, s1))))
      else if num = 13 then obind (argint 0 s) (\<lambda>n. ret_int (returned (pause_round (ticks s) n s)))
      else if num = 14 then Ret (Some (ucast (sys_uptime s)), s)
      else if num = 15 then ret_int (sys_open s)
      else if num = 16 then ret_int (sys_write s)
      else if num = 17 then ret_int (sys_mknod s)
      else if num = 18 then ret_int (sys_unlink s)
      else if num = 19 then ret_int (sys_link s)
      else if num = 20 then ret_int (sys_mkdir s)
      else if num = 21 then ret_int (sys_close s)
      else if num = 22 then Ret (Some 0, s)
      else if num = 23 then ret_int (Ret (sys_getpid2 i s, s))
      else if num = 24 then ret_int (obind (sys_getppid i s) (\<lambda>v. Ret (v, s)))
      else if num = 25 then ret_int (Ret (sys_getnumchild i s, s))
      else if num = 26 then ret_int (Ret (sys_getsyscount i s, s))
      else if num = 27 then obind (argint 0 s) (\<lambda>c. ret_int (Ret (sys_getchildsyscount i c s, s)))
      else if num = 28 then ret_int (Ret (sys_getlevel i s, s))
      else if num = 29 then obind (argint 0 s) (\<lambda>pid. obind (argaddr 1 s) (\<lambda>a. ret_int (sys_getmlfqinfo pid a s)))
      else if num = 30 then obind (argint 0 s) (\<lambda>pid. obind (argaddr 1 s) (\<lambda>a. ret_int (sys_getvmstats pid a s)))
      else obind (argint 0 s) (\<lambda>pol. ret_int (Ret (sys_setdisksched pol s))))"

text \<open>The first component of the result tells whether the call returns to its caller.\<close>

definition syscall :: "'z file_state_scheme \<Rightarrow> (bool \<times> 'z file_state_scheme) outcome" where
  "syscall s =
     (case myproc s of
        None \<Rightarrow> Panic ''kerneltrap''
      | Some i \<Rightarrow>
          let tf = p_trapframe (ptable s ! i); num = sint (ucast (load64 (pmem s) (tf + 168)) :: uint) in
          if 0 < num \<and> num < 32 then
            obind (do_syscall num i (upd_proc i (\<lambda>p. p\<lparr>p_syscall_count := p_syscall_count p + 1\<rparr>) s)) (\<lambda>(r, s1).
              case r of
                None \<Rightarrow> Ret (False, s1)
              | Some v \<Rightarrow> Ret (True, s1\<lparr>pmem := store64 (pmem s1) (p_trapframe (ptable s1 ! i) + TF_A0) v\<rparr>))
          else Ret (True, s\<lparr>pmem := store64 (pmem s) (tf + TF_A0) (-1)\<rparr>))"

section \<open>Interrupts\<close>

record trap_regs =
  tr_sstatus :: "64 word"
  tr_scause :: "64 word"
  tr_sepc :: addr
  tr_stval :: addr
  tr_irq :: int
  tr_tx_idle :: bool
  tr_received :: "int list"
  tr_intr_on :: bool
  tr_satp :: "64 word"
  tr_usertrap :: addr

definition UART0_IRQ :: int where [simp]: "UART0_IRQ = 10"
definition VIRTIO0_IRQ :: int where [simp]: "VIRTIO0_IRQ = 1"

definition devintr :: "trap_regs \<Rightarrow> 'z cons_state_scheme \<Rightarrow> (int \<times> 'z cons_state_scheme) outcome" where
  "devintr r s =
     (if tr_scause r = 0x8000000000000009 then
        obind (if tr_irq r = UART0_IRQ then uartintr (tr_tx_idle r) (tr_received r) s
               else if tr_irq r = VIRTIO0_IRQ then virtio_disk_intr s
               else Ret s) (\<lambda>s1. Ret (1, s1))
      else if tr_scause r = 0x8000000000000005 then Ret (2, clockintr s)
      else Ret (0, s))"

definition kerneltrap :: "trap_regs \<Rightarrow> 'z cons_state_scheme \<Rightarrow> 'z cons_state_scheme outcome" where
  "kerneltrap r s =
     (if tr_sstatus r AND 0x100 = 0 then Panic ''kerneltrap: not from supervisor mode''
      else if tr_intr_on r then Panic ''kerneltrap: interrupts enabled''
      else obind (devintr r s) (\<lambda>(which_dev, s1).
        if which_dev = 0 then Panic ''kerneltrap''
        else if which_dev = 2 then trap_yield s1
        else Ret s1))"

section \<open>Traps from user space\<close>

definition prepare_return :: "trap_regs \<Rightarrow> nat \<Rightarrow> 'z proc_state_scheme \<Rightarrow> 'z proc_state_scheme" where
  "prepare_return r i s =
     (let p = ptable s ! i; tf = p_trapframe p;
          m1 = store64 (pmem s) tf (tr_satp r);
          m2 = store64 m1 (tf + 8) (p_kstack p + PGSIZE);
          m3 = store64 m2 (tf + 16) (tr_usertrap r);
          m4 = store64 m3 (tf + 32) (of_nat (hart s))
      in s\<lparr>pmem := m4\<rparr>)"

datatype 's trap_end = ToUser addr 's | Gone 's | Switched 's

definition usertrap_finish :: "trap_regs \<Rightarrow> nat \<Rightarrow> int \<Rightarrow> 'z file_state_scheme \<Rightarrow> 'z file_state_scheme trap_end outcome" where
  "usertrap_finish r i which_dev s =
     (if killed i s \<noteq> 0 then obind (kexit (-1) s) (\<lambda>s1. Ret (Gone s1))
      else if which_dev = 2 \<and> p_time_slice_expired (ptable s ! i) then obind (yield i s) (\<lambda>s1. Ret (Switched s1))
      else let s1 = prepare_return r i s in Ret (ToUser (MAKE_SATP (p_pagetable (ptable s1 ! i))) s1))"

definition usertrap :: "trap_regs \<Rightarrow> 'z file_state_scheme \<Rightarrow> 'z file_state_scheme trap_end outcome" where
  "usertrap r s =
     (if tr_sstatus r AND 0x100 \<noteq> 0 then Panic ''usertrap: not from user mode''
      else case myproc s of
        None \<Rightarrow> Panic ''kerneltrap''
      | Some i \<Rightarrow>
          let tf = p_trapframe (ptable s ! i); s1 = s\<lparr>pmem := store64 (pmem s) (tf + 24) (tr_sepc r)\<rparr> in
          if tr_scause r = 8 then
            if killed i s1 \<noteq> 0 then obind (kexit (-1) s1) (\<lambda>s2. Ret (Gone s2))
            else obind (syscall (s1\<lparr>pmem := store64 (pmem s1) (tf + 24) (tr_sepc r + 4)\<rparr>)) (\<lambda>(back, s2).
              if back then usertrap_finish r i 0 s2 else Ret (Gone s2))
          else obind (devintr r s1) (\<lambda>(which_dev, s2).
            if which_dev \<noteq> 0 then usertrap_finish r i which_dev s2
            else if tr_scause r = 15 \<or> tr_scause r = 13 then
              obind (vmfault (p_pagetable (ptable s2 ! i)) (tr_stval r) s2) (\<lambda>(pa, s3).
                usertrap_finish r i 0 (if pa \<noteq> 0 then s3 else setkilled i s3))
            else usertrap_finish r i 0 (setkilled i s2)))"

text \<open>
  The first return to user space of a process: the first process of all initialises the file system and
  runs \<^verbatim>\<open>/init\<close>.
\<close>

definition init_path :: "byte list" where "init_path = [47, 105, 110, 105, 116]"

definition forkret :: "trap_regs \<Rightarrow> bool \<Rightarrow> 'z file_state_scheme \<Rightarrow> 'z file_state_scheme trap_end outcome" where
  "forkret r first s =
     (case myproc s of
        None \<Rightarrow> Panic ''kerneltrap''
      | Some i \<Rightarrow>
          obind (if first then
                   obind (fsinit ROOTDEV s) (\<lambda>s1.
                   obind (kexec init_path [init_path] s1) (\<lambda>(v, s2).
                     let s3 = s2\<lparr>pmem := store64 (pmem s2) (p_trapframe (ptable s2 ! i) + TF_A0) (of_int v)\<rparr> in
                     if v = -1 then Panic ''exec'' else Ret s3))
                 else Ret s) (\<lambda>s4.
            let s5 = prepare_return r i s4 in Ret (ToUser (MAKE_SATP (p_pagetable (ptable s5 ! i))) s5)))"

end
