(* ===== verification/Blocks.thy ===== *)
theory Blocks
  imports Bcache
begin

text \<open>
  The buffer cache as its clients use it.  \<open>binv dev P H s\<close> says that the blocks in \<open>P\<close> are pinned, that the
  caller holds exactly the buffers in \<open>H\<close>, and that nothing else is in use; \<open>block\<close> is the content of a block
  as a reader sees it.  Each operation of \<^verbatim>\<open>kernel/bio.c\<close> is described by what it does to \<open>P\<close>, \<open>H\<close>, the
  contents and the disk.
\<close>

definition sane :: "uint \<Rightarrow> buf list \<Rightarrow> bool" where
  "sane dev bs \<longleftrightarrow> dev \<noteq> 0 \<and> (\<forall>i < NBUF. b_dev (bs ! i) \<noteq> 0 \<longrightarrow> b_dev (bs ! i) = dev \<and> b_blockno (bs ! i) < 0x80000000) \<and>
     (\<forall>i < NBUF. b_valid (bs ! i) \<longrightarrow> b_dev (bs ! i) = dev)"

definition pins :: "uint \<Rightarrow> uint set \<Rightarrow> buf \<Rightarrow> uint" where
  "pins dev P b = (if b_dev b = dev \<and> b_blockno b \<in> P then 1 else 0)"

definition binv :: "uint \<Rightarrow> uint set \<Rightarrow> nat set \<Rightarrow> 'z blk_state_scheme \<Rightarrow> bool" where
  "binv dev P H s \<longleftrightarrow> (\<exists>xs. cache_inv s xs) \<and> sane dev (bcache s) \<and> H \<subseteq> {..<NBUF} \<and>
     (\<forall>i < NBUF. b_refcnt (bcache s ! i) = pins dev P (bcache s ! i) + (if i \<in> H then 1 else 0)) \<and>
     (\<forall>i < NBUF. sl_locked (b_lock (bcache s ! i)) \<longleftrightarrow> i \<in> H) \<and>
     (\<forall>i \<in> H. mine s i \<and> b_valid (bcache s ! i)) \<and>
     (\<forall>k \<in> P. \<exists>i. holds (bcache s) dev k i \<and> b_valid (bcache s ! i)) \<and> finite P"

lemma binvD:
  assumes "binv dev P H s"
  shows "\<exists>xs. cache_inv s xs" "sane dev (bcache s)" "H \<subseteq> {..<NBUF}"
    "\<And>i. i < NBUF \<Longrightarrow> b_refcnt (bcache s ! i) = pins dev P (bcache s ! i) + (if i \<in> H then 1 else 0)"
    "\<And>i. i < NBUF \<Longrightarrow> sl_locked (b_lock (bcache s ! i)) \<longleftrightarrow> i \<in> H"
    "\<And>i. i \<in> H \<Longrightarrow> mine s i" "\<And>i. i \<in> H \<Longrightarrow> b_valid (bcache s ! i)"
    "\<And>k. k \<in> P \<Longrightarrow> \<exists>i. holds (bcache s) dev k i \<and> b_valid (bcache s ! i)" "finite P"
  using assms unfolding binv_def by blast+

lemma binv_basic:
  assumes "binv dev P H s"
  shows "length (bcache s) = Suc NBUF" "bufs_ok (bcache s)" "clean (bcache s) (platter s)" "dev \<noteq> 0"
    "\<And>sec. length (platter s sec) = BSIZE"
    "\<And>i. i < NBUF \<Longrightarrow> length (b_data (bcache s ! i)) = BSIZE"
    "\<And>i. i < NBUF \<Longrightarrow> b_dev (bcache s ! i) \<noteq> 0 \<Longrightarrow> b_dev (bcache s ! i) = dev \<and> b_blockno (bcache s ! i) < 0x80000000"
    "\<And>i. i \<in> H \<Longrightarrow> i < NBUF" "finite H"
proof -
  obtain xs where c: "cache_inv s xs" using binvD(1) [OF assms] by blast
  show "length (bcache s) = Suc NBUF" "bufs_ok (bcache s)" "clean (bcache s) (platter s)" "\<And>sec. length (platter s sec) = BSIZE"
    using c by (simp_all add: cache_inv_def cache_list_def)
  then show "\<And>i. i < NBUF \<Longrightarrow> length (b_data (bcache s ! i)) = BSIZE" by (simp add: bufs_ok_def)
  show "dev \<noteq> 0" "\<And>i. i < NBUF \<Longrightarrow> b_dev (bcache s ! i) \<noteq> 0 \<Longrightarrow> b_dev (bcache s ! i) = dev \<and> b_blockno (bcache s ! i) < 0x80000000"
    using binvD(2) [OF assms] unfolding sane_def by blast+
  show "\<And>i. i \<in> H \<Longrightarrow> i < NBUF" using binvD(3) [OF assms] by blast
  show "finite H" using binvD(3) [OF assms] finite_subset by blast
qed

lemma held_block:
  assumes "binv dev P H s" "b \<in> H"
  shows "holds (bcache s) dev (b_blockno (bcache s ! b)) b" "block s dev (b_blockno (bcache s ! b)) = b_data (bcache s ! b)"
    "b_blockno (bcache s ! b) < 0x80000000"
proof -
  have b: "b < NBUF" "b_valid (bcache s ! b)" using assms binv_basic(8) binvD(7) by blast+
  have d: "b_dev (bcache s ! b) = dev" using b binvD(2) [OF assms(1)] unfolding sane_def by blast
  show h: "holds (bcache s) dev (b_blockno (bcache s ! b)) b" using b d unfolding holds_def by blast
  show "block s dev (b_blockno (bcache s ! b)) = b_data (bcache s ! b)"
    by (rule block_cached [OF binv_basic(2,1) [OF assms(1)] h b(2) binv_basic(4) [OF assms(1)]])
  show "b_blockno (bcache s ! b) < 0x80000000" using binv_basic(7) [OF assms(1) b(1)] d binv_basic(4) [OF assms(1)] by simp
qed

lemma sec_of_inj: "a < 0x80000000 \<Longrightarrow> b < 0x80000000 \<Longrightarrow> sec_of a = sec_of b \<longleftrightarrow> a = b"
proof -
  assume a: "a < 0x80000000" "b < 0x80000000"
  have u: "unat (sec_of x) = 2 * unat x" if "x < 0x80000000" for x
  proof -
    have "unat x < 0x80000000" using that by (simp add: word_less_nat_alt)
    then have "unat (x * 2) = 2 * unat x" by (simp add: unat_word_ariths)
    moreover have "unat (ucast (x * 2) :: 64 word) = unat (x * 2)"
      using unsigned_less [of "x * 2", where ?'a = nat] by (simp add: unsigned_ucast_eq take_bit_nat_eq_self_iff)
    ultimately show ?thesis by (simp add: sec_of_def)
  qed
  have "sec_of a = sec_of b \<Longrightarrow> unat a = unat b" using u [OF a(1)] u [OF a(2)] by simp
  then show ?thesis using word_unat_eq_iff by blast
qed

definition kept :: "nat set \<Rightarrow> 'z blk_state_scheme \<Rightarrow> 'z blk_state_scheme \<Rightarrow> bool" where
  "kept H s t \<longleftrightarrow> (\<forall>i \<in> H. b_data (bcache t ! i) = b_data (bcache s ! i) \<and> b_blockno (bcache t ! i) = b_blockno (bcache s ! i))"

lemma mine_woken:
  assumes "cache_inv s xs" "mine s i" "myproc t = myproc s" "woken (ptable s) (ptable t)" "b_lock (bcache t ! i) = b_lock (bcache s ! i)"
  shows "mine t i"
proof -
  obtain p where p: "myproc s = Some p" "p < length (ptable s)" using assms(1) by (auto simp: cache_inv_def)
  have "ptable t ! p = ptable s ! p \<or> ptable t ! p = (ptable s ! p)\<lparr>p_state := RUNNABLE\<rparr>"
    using assms(4) p(2) unfolding woken_def by blast
  then have "p_pid (ptable t ! p) = p_pid (ptable s ! p)" by auto
  then show ?thesis using assms(2,3,5) p(1) unfolding mine_def by simp
qed

lemma mine_frame:
  assumes "cache_inv s xs" "mine s i" "blk_frame s t" "b_lock (bcache t ! i) = b_lock (bcache s ! i)"
  shows "mine t i"
  using mine_woken [OF assms(1,2) blk_frame_sel(3) [OF assms(3)] _ assms(4)] assms(3) unfolding blk_frame_def by blast

lemma free_buffer:
  assumes "binv dev P H s" "card P + card H < NBUF"
  shows "\<exists>i < NBUF. b_refcnt (bcache s ! i) = 0"
proof (rule ccontr)
  assume "\<not> ?thesis"
  then have nz: "\<And>i. i < NBUF \<Longrightarrow> b_refcnt (bcache s ! i) \<noteq> 0" by blast
  let ?Q = "{i. i < NBUF \<and> b_dev (bcache s ! i) = dev \<and> b_blockno (bcache s ! i) \<in> P}"
  have "i \<in> ?Q \<union> H" if "i < NBUF" for i
    using nz [OF that] binvD(4) [OF assms(1) that] that by (auto simp: pins_def split: if_splits)
  then have "{..<NBUF} \<subseteq> ?Q \<union> H" by blast
  then have "NBUF \<le> card (?Q \<union> H)" using card_mono [of "?Q \<union> H" "{..<NBUF}"] binv_basic(9) [OF assms(1)] by simp
  also have "\<dots> \<le> card ?Q + card H" by (rule card_Un_le)
  finally have "NBUF \<le> card ?Q + card H" .
  moreover have "card ?Q \<le> card P"
  proof (rule card_inj_on_le)
    show "inj_on (\<lambda>i. b_blockno (bcache s ! i)) ?Q"
      using holds_unique [OF binv_basic(2) [OF assms(1)] _ _ binv_basic(4) [OF assms(1)]] by (auto simp: inj_on_def holds_def)
  qed (use binvD(9) [OF assms(1)] in auto)
  ultimately show False using assms(2) by simp
qed


lemma bread_binv:
  assumes "binv dev P H s" "\<And>i. i \<in> H \<Longrightarrow> b_blockno (bcache s ! i) \<noteq> k" "k < 0x80000000" "k \<in> P \<or> card P + card H < NBUF"
  shows "\<exists>b t. bread dev k s = Ret (b, t) \<and> binv dev P (insert b H) t \<and> b \<notin> H \<and> b_blockno (bcache t ! b) = k \<and>
    b_data (bcache t ! b) = block s dev k \<and> (\<forall>k'. block t dev k' = block s dev k') \<and> blk_frame s t \<and> kept H s t"
proof -
  note I = assms(1)
  note B = binv_basic [OF I]
  obtain xs where c: "cache_inv s xs" using binvD(1) [OF I] by blast
  have un: "\<not> sl_locked (b_lock (bcache s ! i)) \<and> b_refcnt (bcache s ! i) + 1 \<noteq> 0" if "holds (bcache s) dev k i" for i
  proof -
    have "i < NBUF" "i \<notin> H" using that assms(2) unfolding holds_def by blast+
    then show ?thesis using binvD(4,5) [OF I, of i] by (auto simp: pins_def)
  qed
  obtain b t where t: "bread dev k s = Ret (b, t)" "read_ok dev k xs s b t"
    using bread_ok [OF c B(4) un] free_buffer [OF I] binvD(8) [OF I, of k] assms(4) unfolding holds_def by blast
  have r: "cache_inv t xs" "mine t b" "holds (bcache t) dev k b" "b_valid (bcache t ! b)" "b_data (bcache t ! b) = block s dev k"
    "blk_frame s t" "others b (bcache s) (bcache t)" "\<forall>dev' k'. dev' \<noteq> 0 \<longrightarrow> block t dev' k' = block s dev' k'"
    "b_refcnt (bcache t ! b) = (if holds (bcache s) dev k b then b_refcnt (bcache s ! b) + 1 else 1)"
    "holds (bcache s) dev k b \<or> b_refcnt (bcache s ! b) = 0"
    using t(2) unfolding read_ok_def by blast+
  have b: "b < NBUF" "b_dev (bcache t ! b) = dev" "b_blockno (bcache t ! b) = k" using r(3) unfolding holds_def by blast+
  have o: "bcache t ! i = bcache s ! i" if "i < NBUF" "i \<noteq> b" for i using r(7) that unfolding others_def by blast
  have nb: "b \<notin> H"
  proof
    assume "b \<in> H"
    then have "\<not> holds (bcache s) dev k b" "b_refcnt (bcache s ! b) \<noteq> 0"
      using assms(2) [of b] binvD(4) [OF I b(1)] unfolding holds_def pins_def by auto
    then show False using r(10) by blast
  qed
  have okt: "bufs_ok (bcache t)" using r(1) unfolding cache_inv_def by blast
  have uniq: "i = b" if "holds (bcache t) dev k i" for i using holds_unique [OF okt that r(3) B(4)] .
  have hit: "holds (bcache s) dev k b" if "holds (bcache s) dev k i" for i
  proof (cases "i = b")
    case True
    then show ?thesis using that by blast
  next
    case False
    have "holds (bcache t) dev k i" using that o [OF _ False] unfolding holds_def by metis
    then show ?thesis using uniq False by blast
  qed
  have pin: "b_refcnt (bcache t ! b) = pins dev P (bcache t ! b) + 1"
  proof (cases "holds (bcache s) dev k b")
    case True
    then have "pins dev P (bcache t ! b) = pins dev P (bcache s ! b)" using b unfolding holds_def pins_def by simp
    then show ?thesis using True r(9) binvD(4) [OF I b(1)] nb by simp
  next
    case False
    then have "k \<notin> P" using binvD(8) [OF I, of k] hit by blast
    then show ?thesis using False r(9) b by (simp add: pins_def)
  qed
  have "binv dev P (insert b H) t"
    unfolding binv_def
  proof (intro conjI allI ballI impI)
    show "\<exists>xs. cache_inv t xs" "finite P" "insert b H \<subseteq> {..<NBUF}" using r(1) binvD(9,3) [OF I] b(1) by blast+
    show "sane dev (bcache t)"
      using binvD(2) [OF I] o b B(4) assms(3) unfolding sane_def by metis
  next
    fix i
    assume i: "i < NBUF"
    show "b_refcnt (bcache t ! i) = pins dev P (bcache t ! i) + (if i \<in> insert b H then 1 else 0)"
      using pin o [OF i] binvD(4) [OF I i] by (cases "i = b") simp_all
    have "sl_locked (b_lock (bcache t ! b))" using r(2) unfolding mine_def by auto
    then show "sl_locked (b_lock (bcache t ! i)) \<longleftrightarrow> i \<in> insert b H" using o [OF i] binvD(5) [OF I i] by (cases "i = b") simp_all
  next
    fix i
    assume i: "i \<in> insert b H"
    then show "mine t i" "b_valid (bcache t ! i)"
      using r(2,4) mine_frame [OF c binvD(6) [OF I] r(6)] o [OF B(8)] binvD(7) [OF I] nb by (cases "i = b"; force)+
  next
    fix k'
    assume k': "k' \<in> P"
    then obtain i where i: "holds (bcache s) dev k' i" "b_valid (bcache s ! i)" using binvD(8) [OF I] by blast
    show "\<exists>i. holds (bcache t) dev k' i \<and> b_valid (bcache t ! i)"
    proof (cases "i = b")
      case True
      then have "b_refcnt (bcache s ! b) \<noteq> 0" using i k' nb binvD(4) [OF I b(1)] unfolding holds_def pins_def by auto
      then have "k' = k" using r(10) i True unfolding holds_def by blast
      then show ?thesis using r(3,4) by blast
    next
      case False
      then show ?thesis using i o [of i] unfolding holds_def by metis
    qed
  qed
  moreover have "kept H s t" using o B(8) nb unfolding kept_def by metis
  ultimately show ?thesis using t(1) nb b(3) r(5,6,8) B(4) by blast
qed


lemma brelse_binv:
  assumes "binv dev P H s" "b \<in> H"
    and "b_blockno (bcache s ! b) \<notin> P \<Longrightarrow> b_data (bcache s ! b) = platter s (sec_of (b_blockno (bcache s ! b)))"
  shows "\<exists>t. brelse b s = Ret t \<and> binv dev P (H - {b}) t \<and> (\<forall>k. block t dev k = block s dev k) \<and> blk_frame s t \<and> kept H s t"
proof -
  note I = assms(1)
  note B = binv_basic [OF I]
  obtain xs where c: "cache_inv s xs" using binvD(1) [OF I] by blast
  have b: "b < NBUF" "mine s b" using B(8) assms(2) binvD(6) [OF I] by blast+
  have rc: "b_refcnt (bcache s ! b) = pins dev P (bcache s ! b) + 1" using binvD(4) [OF I b(1)] assms(2) by simp
  have d: "b_dev (bcache s ! b) = dev" using held_block(1) [OF I assms(2)] unfolding holds_def by blast
  have nz: "b_refcnt (bcache s ! b) \<noteq> 0" using rc by (simp add: pins_def split: if_splits)
  have cl: "b_refcnt (bcache s ! b) = 1 \<Longrightarrow> b_data (bcache s ! b) = platter s (sec_of (b_blockno (bcache s ! b)))"
    using rc d assms(3) by (auto simp: pins_def split: if_splits)
  obtain t lk ys where t: "brelse b s = Ret t" "cache_inv t ys" "blk_frame s t" "\<not> sl_locked lk"
    "strip (bcache t) = strip (upd_at b (\<lambda>x. x\<lparr>b_lock := lk, b_refcnt := b_refcnt x - 1\<rparr>) (bcache s))"
    using brelse_spec [OF c b(2,1) nz] cl by blast
  let ?y = "(bcache s ! b)\<lparr>b_lock := lk, b_refcnt := b_refcnt (bcache s ! b) - 1\<rparr>"
  have n: "upd_at b (\<lambda>x. x\<lparr>b_lock := lk, b_refcnt := b_refcnt x - 1\<rparr>) (bcache s) ! i = (if i = b then ?y else bcache s ! i)"
    if "i < NBUF" for i using that B(1) by simp
  have len: "i < length (upd_at b (\<lambda>x. x\<lparr>b_lock := lk, b_refcnt := b_refcnt x - 1\<rparr>) (bcache s))" if "i < NBUF" for i
    using that B(1) by simp
  have f: "b_valid (bcache t ! i) = b_valid (bcache s ! i)" "b_dev (bcache t ! i) = b_dev (bcache s ! i)"
    "b_blockno (bcache t ! i) = b_blockno (bcache s ! i)" "b_data (bcache t ! i) = b_data (bcache s ! i)"
    "b_refcnt (bcache t ! i) = (if i = b then b_refcnt (bcache s ! b) - 1 else b_refcnt (bcache s ! i))"
    "b_lock (bcache t ! i) = (if i = b then lk else b_lock (bcache s ! i))" if "i < NBUF" for i
    using strip_nth [OF t(5) len [OF that]] n [OF that] by simp_all
  have h: "holds (bcache t) dev k i \<longleftrightarrow> holds (bcache s) dev k i" for k i using f(2,3) [of i] unfolding holds_def by auto
  have "binv dev P (H - {b}) t"
    unfolding binv_def h
  proof (intro conjI allI ballI impI)
    show "\<exists>xs. cache_inv t xs" "finite P" "H - {b} \<subseteq> {..<NBUF}" using t(2) binvD(9,3) [OF I] by blast+
    show "sane dev (bcache t)" using binvD(2) [OF I] f(1-3) unfolding sane_def by metis
  next
    fix i
    assume i: "i < NBUF"
    have "pins dev P (bcache t ! i) = pins dev P (bcache s ! i)" using f(2,3) [OF i] by (simp add: pins_def)
    then show "b_refcnt (bcache t ! i) = pins dev P (bcache t ! i) + (if i \<in> H - {b} then 1 else 0)"
      using rc f(5) [OF i] binvD(4) [OF I i] by (cases "i = b") simp_all
    show "sl_locked (b_lock (bcache t ! i)) \<longleftrightarrow> i \<in> H - {b}" using f(6) [OF i] t(4) binvD(5) [OF I i] by (cases "i = b") simp_all
  next
    fix i
    assume i: "i \<in> H - {b}"
    then show "mine t i" using mine_frame [OF c binvD(6) [OF I] t(3)] f(6) [OF B(8)] by simp
    show "b_valid (bcache t ! i)" using i f(1) [OF B(8)] binvD(7) [OF I] by simp
  next
    fix k
    assume "k \<in> P"
    then obtain i where "holds (bcache s) dev k i" "b_valid (bcache s ! i)" using binvD(8) [OF I] by blast
    then show "\<exists>i. holds (bcache s) dev k i \<and> b_valid (bcache t ! i)" using f(1) [of i] unfolding holds_def by blast
  qed
  moreover have "kept H s t" using f(3,4) B(8) unfolding kept_def by blast
  moreover have "block t dev k = block s dev k" for k by (rule release_block [OF t(5) blk_frame_sel(1) [OF t(3)]])
  ultimately show ?thesis using t(1,3) by blast
qed


lemma bwrite_binv:
  assumes "binv dev P H s" "b \<in> H"
  shows "\<exists>t. bwrite b s = Ret t \<and> binv dev P H t \<and> bcache t = bcache s \<and>
    blk_frame (s\<lparr>platter := (platter s)(sec_of (b_blockno (bcache s ! b)) := b_data (bcache s ! b)),
       dev_writes := dev_writes s @ [(sec_of (b_blockno (bcache s ! b)), b_data (bcache s ! b))]\<rparr>) t \<and>
    (\<forall>k < 0x80000000. block t dev k = block s dev k)"
proof -
  note I = assms(1)
  note B = binv_basic [OF I]
  let ?k = "b_blockno (bcache s ! b)" and ?d = "b_data (bcache s ! b)"
  let ?u = "s\<lparr>platter := (platter s)(sec_of ?k := ?d), dev_writes := dev_writes s @ [(sec_of ?k, ?d)]\<rparr>"
  obtain xs where c: "cache_inv s xs" using binvD(1) [OF I] by blast
  have b: "b < NBUF" "mine s b" using B(8) assms(2) binvD(6) [OF I] by blast+
  have nz: "b_refcnt (bcache s ! b) \<noteq> 0" using binvD(4) [OF I b(1)] assms(2) by (simp add: pins_def split: if_splits)
  note hb = held_block [OF I assms(2)]
  have "sec_of (b_blockno (bcache s ! i)) \<noteq> sec_of ?k"
    if i: "i < NBUF" "b_refcnt (bcache s ! i) = 0" "b_valid (bcache s ! i)" for i
  proof
    assume e: "sec_of (b_blockno (bcache s ! i)) = sec_of ?k"
    have d: "b_dev (bcache s ! i) = dev" using binvD(2) [OF I] i unfolding sane_def by blast
    then have "b_blockno (bcache s ! i) < 0x80000000" using B(7) [OF i(1)] B(4) by blast
    then have "b_blockno (bcache s ! i) = ?k" using e sec_of_inj hb(3) by blast
    then have "holds (bcache s) dev ?k i" using d i(1) unfolding holds_def by blast
    then have "i = b" using holds_unique [OF B(2) _ hb(1) B(4)] by blast
    then show False using i(2) nz by blast
  qed
  then obtain t where t: "bwrite b s = Ret t" "cache_inv t xs" "bcache t = bcache s" "blk_frame ?u t"
    using bwrite_spec [OF c b(2,1) nz] by blast
  have my: "myproc t = myproc s" using blk_frame_sel(3) [OF t(4)] by (simp add: myproc_def)
  have "woken (ptable s) (ptable t)" using t(4) by (simp add: blk_frame_def)
  then have "mine t i" if "i \<in> H" for i using mine_woken [OF c binvD(6) [OF I that] my] t(3) by simp
  then have "binv dev P H t" using I t(2,3) unfolding binv_def by auto
  moreover have "block t dev k = block s dev k" if k: "k < 0x80000000" for k
  proof (cases "k = ?k")
    case True
    then show ?thesis using held_block(2) [OF \<open>binv dev P H t\<close> assms(2)] hb(2) t(3) by simp
  next
    case False
    then have "sec_of k \<noteq> sec_of ?k" using sec_of_inj [OF k hb(3)] by blast
    then have "platter t (sec_of k) = platter s (sec_of k)" using blk_frame_sel(1) [OF t(4)] by simp
    then show ?thesis unfolding block_def t(3) by (auto split: option.split)
  qed
  ultimately show ?thesis using t by blast
qed

lemma binv_upd_buf:
  assumes "binv dev P H s" "b < NBUF" "y = f (bcache s ! b)"
    and "b_next y = b_next (bcache s ! b)" "b_prev y = b_prev (bcache s ! b)" "b_disk y = b_disk (bcache s ! b)"
      "b_dev y = b_dev (bcache s ! b)" "b_blockno y = b_blockno (bcache s ! b)" "b_valid y = b_valid (bcache s ! b)"
      "b_lock y = b_lock (bcache s ! b)" "length (b_data y) = BSIZE"
    and "b_refcnt y = pins dev Q (bcache s ! b) + (if b \<in> H then 1 else 0)" "b \<in> H"
    and "finite Q" "Q = P \<or> P \<union> Q - P \<inter> Q = {b_blockno (bcache s ! b)}"
  shows "binv dev Q H (upd_buf b f s)"
proof -
  note I = assms(1)
  note B = binv_basic [OF I]
  obtain xs where c: "cache_inv s xs" using binvD(1) [OF I] by blast
  note hb = held_block [OF I assms(13)]
  have dev: "b_dev (bcache s ! b) = dev" using hb(1) unfolding holds_def by blast
  have nz: "b_refcnt y \<noteq> 0" using assms(12,13) by (simp add: pins_def)
  have "\<not> b_disk (bcache s ! b)" using B(2) assms(2) unfolding bufs_ok_def by blast
  then have c2: "cache_inv (upd_buf b f s) xs"
    using nz assms(4-11) by (intro cache_inv_upd_buf [where f = f, OF c assms(2,3)]) simp_all
  have n: "bcache (upd_buf b f s) ! i = (if i = b then y else bcache s ! i)" if "i < NBUF" for i
    using that B(1) assms(3) by simp
  have h: "holds (bcache (upd_buf b f s)) dev k i \<longleftrightarrow> holds (bcache s) dev k i" for k i
    using n [of i] assms(7,8) unfolding holds_def by auto
  have f: "b_dev (bcache (upd_buf b f s) ! i) = b_dev (bcache s ! i)" "b_blockno (bcache (upd_buf b f s) ! i) = b_blockno (bcache s ! i)"
    "b_valid (bcache (upd_buf b f s) ! i) = b_valid (bcache s ! i)" "b_lock (bcache (upd_buf b f s) ! i) = b_lock (bcache s ! i)"
    if "i < NBUF" for i using n [OF that] assms(7-10) by simp_all
  show ?thesis
    unfolding binv_def h
  proof (intro conjI allI ballI impI)
    show "\<exists>xs. cache_inv (upd_buf b f s) xs" "H \<subseteq> {..<NBUF}" "finite Q" using c2 binvD(3) [OF I] assms(14) by blast+
    show "sane dev (bcache (upd_buf b f s))" using binvD(2) [OF I] f(1-3) unfolding sane_def by metis
  next
    fix i
    assume i: "i < NBUF"
    show "sl_locked (b_lock (bcache (upd_buf b f s) ! i)) \<longleftrightarrow> i \<in> H" using f(4) [OF i] binvD(5) [OF I i] by simp
    show "b_refcnt (bcache (upd_buf b f s) ! i) = pins dev Q (bcache (upd_buf b f s) ! i) + (if i \<in> H then 1 else 0)"
    proof (cases "i = b")
      case True
      then show ?thesis using n [OF i] assms(7,8,12) by (simp add: pins_def)
    next
      case False
      then have "\<not> holds (bcache s) dev (b_blockno (bcache s ! b)) i" using holds_unique [OF B(2) _ hb(1) B(4)] by blast
      then have "pins dev Q (bcache s ! i) = pins dev P (bcache s ! i)" using assms(15) i unfolding pins_def holds_def by auto
      then show ?thesis using n [OF i] binvD(4) [OF I i] False by simp
    qed
  next
    fix i
    assume "i \<in> H"
    then show "mine (upd_buf b f s) i" "b_valid (bcache (upd_buf b f s) ! i)"
      using binvD(6,7) [OF I] f(3,4) [OF B(8)] unfolding mine_def myproc_def by simp_all
  next
    fix k
    assume "k \<in> Q"
    then have "\<exists>i. holds (bcache s) dev k i \<and> b_valid (bcache s ! i)"
      using assms(15) binvD(8) [OF I, of k] hb(1) binvD(7) [OF I assms(13)] by blast
    then show "\<exists>i. holds (bcache s) dev k i \<and> b_valid (bcache (upd_buf b f s) ! i)" using f(3) unfolding holds_def by blast
  qed
qed


lemma binv_data:
  assumes "binv dev P H s" "b \<in> H" "length (F (bcache s ! b)) = BSIZE" "t = upd_buf b (\<lambda>x. x\<lparr>b_data := F x\<rparr>) s"
  shows "binv dev P H t" "b_data (bcache t ! b) = F (bcache s ! b)"
    "block t dev k = (if k = b_blockno (bcache s ! b) then F (bcache s ! b) else block s dev k)" "blk_frame s t"
    "b_blockno (bcache t ! i) = b_blockno (bcache s ! i)" "kept (H - {b}) s t"
proof -
  note I = assms(1)
  note B = binv_basic [OF I]
  have b: "b < NBUF" using B(8) assms(2) .
  have n: "bcache t ! i = (if i = b then (bcache s ! b)\<lparr>b_data := F (bcache s ! b)\<rparr> else bcache s ! i)" if "i < NBUF" for i
    using that B(1) by (simp add: assms(4))
  show i: "binv dev P H t"
    unfolding assms(4)
    by (rule binv_upd_buf [OF I b refl]) (use binvD(4,9) [OF I] b assms(2,3) in simp_all)
  show d: "b_data (bcache t ! b) = F (bcache s ! b)" using n [OF b] by simp
  show bn: "b_blockno (bcache t ! i) = b_blockno (bcache s ! i)" for i
    using b B(1) by (cases "i = b") (simp_all add: assms(4) upd_at_def)
  show "blk_frame s t" by (simp add: assms(4) drv_frame)
  show "kept (H - {b}) s t" unfolding kept_def using n B(8) by simp
  show "block t dev k = (if k = b_blockno (bcache s ! b) then F (bcache s ! b) else block s dev k)"
  proof (cases "k = b_blockno (bcache s ! b)")
    case True
    then show ?thesis using held_block(2) [OF i assms(2)] bn d by simp
  next
    case False
    have "block t dev k = block s dev k"
    proof (rule block_eqI [OF binv_basic(1) [OF i]])
      fix j
      assume j: "holds (bcache t) dev k j" "b_valid (bcache t ! j)"
      then have "j \<noteq> b" "j < NBUF" using False bn [of b] unfolding holds_def by auto
      then show "b_data (bcache t ! j) = block s dev k"
        using block_cached [OF B(2,1) _ _ B(4), of k j] n [of j] j unfolding holds_def by simp
    next
      assume a: "\<And>i. holds (bcache t) dev k i \<Longrightarrow> \<not> b_valid (bcache t ! i)"
      have "holds (bcache s) dev k j \<Longrightarrow> \<not> b_valid (bcache s ! j)" for j
        using a [of j] n [of j] False unfolding holds_def by (cases "j = b") auto
      then show "platter t (sec_of k) = block s dev k" using block_uncached [OF _ B(1)] by (simp add: assms(4))
    qed
    then show ?thesis using False by simp
  qed
qed

lemma binv_ref:
  assumes "binv dev P H s" "b \<in> H" "t = upd_buf b (\<lambda>x. x\<lparr>b_refcnt := F x\<rparr>) s" "finite Q"
    and "F (bcache s ! b) = pins dev Q (bcache s ! b) + 1" "P \<union> Q - P \<inter> Q = {b_blockno (bcache s ! b)}"
  shows "binv dev Q H t" "block t dev k = block s dev k" "blk_frame s t" "kept H s t"
proof -
  note B = binv_basic [OF assms(1)]
  have b: "b < NBUF" using B(8) assms(2) .
  show "binv dev Q H t"
    unfolding assms(3)
    by (rule binv_upd_buf [OF assms(1) b refl]) (use B(6) [OF b] assms(2,4-6) in simp_all)
  show "block t dev k = block s dev k"
    by (rule block_cong) (simp_all add: assms(3) core_upd_at core_def)
  show "blk_frame s t" by (simp add: assms(3) drv_frame)
  have "i < length (bcache s)" if "i \<in> H" for i using B(1) B(8) [OF that] by simp
  then show "kept H s t" unfolding kept_def by (simp add: assms(3))
qed

lemma bunpin_binv:
  assumes "binv dev P H s" "b \<in> H" "b_blockno (bcache s ! b) \<in> P" "Q = P - {b_blockno (bcache s ! b)}" "t = bunpin b s"
  shows "binv dev Q H t" "block t dev k = block s dev k" "blk_frame s t" "kept H s t"
proof -
  have b: "b < NBUF" using binv_basic(8) assms(1,2) .
  have d: "b_dev (bcache s ! b) = dev" using held_block(1) [OF assms(1,2)] unfolding holds_def by blast
  have e: "t = upd_buf b (\<lambda>x. x\<lparr>b_refcnt := b_refcnt x - 1\<rparr>) s" by (simp add: assms(5) bunpin_def)
  have f: "finite Q" using binvD(9) [OF assms(1)] assms(4) by simp
  have r: "b_refcnt (bcache s ! b) - 1 = pins dev Q (bcache s ! b) + 1"
    using binvD(4) [OF assms(1) b] assms(2-4) d by (simp add: pins_def)
  have s: "P \<union> Q - P \<inter> Q = {b_blockno (bcache s ! b)}" using assms(3,4) by auto
  show "binv dev Q H t" "block t dev k = block s dev k" "blk_frame s t" "kept H s t"
    using binv_ref [OF assms(1,2) e f r s] by blast+
qed

lemma bpin_binv:
  assumes "binv dev P H s" "b \<in> H" "b_blockno (bcache s ! b) \<notin> P" "Q = insert (b_blockno (bcache s ! b)) P" "t = bpin b s"
  shows "binv dev Q H t" "block t dev k = block s dev k" "blk_frame s t" "kept H s t"
proof -
  have b: "b < NBUF" using binv_basic(8) assms(1,2) .
  have d: "b_dev (bcache s ! b) = dev" using held_block(1) [OF assms(1,2)] unfolding holds_def by blast
  have e: "t = upd_buf b (\<lambda>x. x\<lparr>b_refcnt := b_refcnt x + 1\<rparr>) s" by (simp add: assms(5) bpin_def)
  have f: "finite Q" using binvD(9) [OF assms(1)] assms(4) by simp
  have r: "b_refcnt (bcache s ! b) + 1 = pins dev Q (bcache s ! b) + 1"
    using binvD(4) [OF assms(1) b] assms(2-4) d by (simp add: pins_def)
  have s: "P \<union> Q - P \<inter> Q = {b_blockno (bcache s ! b)}" using assms(3,4) by auto
  show "binv dev Q H t" "block t dev k = block s dev k" "blk_frame s t" "kept H s t"
    using binv_ref [OF assms(1,2) e f r s] by blast+
qed


text \<open>A block that is neither pinned nor held has its current content on the disk.\<close>

lemma block_clean:
  assumes "binv dev P H s" "k \<notin> P" "\<And>i. i \<in> H \<Longrightarrow> b_blockno (bcache s ! i) \<noteq> k"
  shows "block s dev k = platter s (sec_of k)"
proof (rule block_eqI [OF binv_basic(1) [OF assms(1)]])
  fix i
  assume h: "holds (bcache s) dev k i" "b_valid (bcache s ! i)"
  then have i: "i < NBUF" "b_blockno (bcache s ! i) = k" unfolding holds_def by blast+
  then have "i \<notin> H" using assms(3) by blast
  then have "b_refcnt (bcache s ! i) = 0" using binvD(4) [OF assms(1) i(1)] i(2) assms(2) by (simp add: pins_def)
  then show "b_data (bcache s ! i) = platter s (sec_of k)"
    using binv_basic(3) [OF assms(1)] h(2) i unfolding clean_def by blast
qed simp

section \<open>Sequences of disk writes\<close>

type_synonym disk = "64 word \<Rightarrow> byte list"

definition apply_writes :: "disk \<Rightarrow> (64 word \<times> byte list) list \<Rightarrow> disk" where
  "apply_writes pl ws = fold (\<lambda>(a, d) p. p(a := d)) ws pl"

lemma apply_writes_simps [simp]:
  "apply_writes pl [] = pl" "apply_writes pl (w # ws) = apply_writes (pl(fst w := snd w)) ws"
  "apply_writes pl (us @ ws) = apply_writes (apply_writes pl us) ws"
  by (simp_all add: apply_writes_def split_beta)

lemma apply_writes_other: "a \<notin> fst ` set ws \<Longrightarrow> apply_writes pl ws a = pl a"
  by (induction ws arbitrary: pl) auto

lemma apply_writes_in: "distinct (map fst ws) \<Longrightarrow> (a, d) \<in> set ws \<Longrightarrow> apply_writes pl ws a = d"
proof (induction ws arbitrary: pl)
  case (Cons w ws)
  then show ?case
  proof (cases "w = (a, d)")
    case True
    then have "a \<notin> fst ` set ws" using Cons.prems by auto
    then show ?thesis using True by (simp add: apply_writes_other)
  qed auto
qed simp

text \<open>\<open>wrote ws s t\<close>: from \<open>s\<close> to \<open>t\<close> the device has performed the writes \<open>ws\<close> in this order; otherwise only buffers,
  driver state and sleeping processes have changed.\<close>

definition wrote :: "(64 word \<times> byte list) list \<Rightarrow> 'z blk_state_scheme \<Rightarrow> 'z blk_state_scheme \<Rightarrow> bool" where
  "wrote ws s t \<longleftrightarrow> woken (ptable s) (ptable t) \<and> platter t = apply_writes (platter s) ws \<and> dev_writes t = dev_writes s @ ws \<and>
     t\<lparr>bcache := bcache s, vdisk := vdisk s, ptable := ptable s, dev_avail := dev_avail s,
       platter := platter s, dev_writes := dev_writes s\<rparr> = s"

lemma wrote_frame: "blk_frame s t \<Longrightarrow> wrote [] s t"
proof -
  assume f: "blk_frame s t"
  then have "t\<lparr>bcache := bcache s, vdisk := vdisk s, ptable := ptable s, dev_avail := dev_avail s\<rparr> = s" by (simp add: blk_frame_def)
  then have "t\<lparr>bcache := bcache s, vdisk := vdisk s, ptable := ptable s, dev_avail := dev_avail s\<rparr>\<lparr>platter := platter s, dev_writes := dev_writes s\<rparr> = s"
    by simp
  then show ?thesis using f blk_frame_sel(1,2) [OF f] by (simp add: wrote_def blk_frame_def)
qed

lemma wrote_write:
  assumes "blk_frame (s\<lparr>platter := (platter s)(a := d), dev_writes := dev_writes s @ [(a, d)]\<rparr>) t"
  shows "wrote [(a, d)] s t"
proof -
  let ?u = "s\<lparr>platter := (platter s)(a := d), dev_writes := dev_writes s @ [(a, d)]\<rparr>"
  have "t\<lparr>bcache := bcache s, vdisk := vdisk s, ptable := ptable s, dev_avail := dev_avail s\<rparr> = ?u"
    using assms by (simp add: blk_frame_def)
  then have "t\<lparr>bcache := bcache s, vdisk := vdisk s, ptable := ptable s, dev_avail := dev_avail s\<rparr>\<lparr>platter := platter s, dev_writes := dev_writes s\<rparr> = s"
    by simp
  then show ?thesis using assms blk_frame_sel(1,2) [OF assms] by (simp add: wrote_def blk_frame_def)
qed

lemma wrote_trans:
  assumes "wrote ws s t" "wrote us t u"
  shows "wrote (ws @ us) s u"
proof -
  let ?r = "\<lambda>a. dev_writes_update (\<lambda>_. dev_writes a) \<circ> platter_update (\<lambda>_. platter a) \<circ> dev_avail_update (\<lambda>_. dev_avail a) \<circ>
    ptable_update (\<lambda>_. ptable a) \<circ> vdisk_update (\<lambda>_. vdisk a) \<circ> bcache_update (\<lambda>_. bcache a)"
  have e: "?r t u = t" "?r s t = s" using assms by (simp_all add: wrote_def)
  have "?r s u = ?r s (?r t u)" by simp
  then have "?r s u = s" unfolding e .
  then show ?thesis using assms by (auto simp: wrote_def intro: woken_trans)
qed

lemma wrote_sel:
  assumes "wrote ws s t"
  shows "platter t = apply_writes (platter s) ws" "dev_writes t = dev_writes s @ ws" "pmem t = pmem s" "cpus t = cpus s"
    "length (ptable t) = length (ptable s)" "myproc t = myproc s"
proof -
  have e: "t\<lparr>bcache := bcache s, vdisk := vdisk s, ptable := ptable s, dev_avail := dev_avail s,
       platter := platter s, dev_writes := dev_writes s\<rparr> = s" using assms by (simp add: wrote_def)
  show "pmem t = pmem s" "cpus t = cpus s" "myproc t = myproc s"
    using arg_cong [OF e, of pmem] arg_cong [OF e, of cpus] arg_cong [OF e, of myproc] by (simp_all add: myproc_def)
  show "platter t = apply_writes (platter s) ws" "dev_writes t = dev_writes s @ ws" "length (ptable t) = length (ptable s)"
    using assms by (simp_all add: wrote_def woken_def)
qed


section \<open>The cache after boot\<close>

lemma binit_binv:
  assumes "boot_bufs (bcache s)" "vd_idle s" "\<And>sec. length (platter s sec) = BSIZE" "myproc s = Some p" "p < length (ptable s)" "dev \<noteq> 0"
  shows "binv dev {} {} (binit s)" "block (binit s) dev k = platter s (sec_of k)"
proof -
  have b: "length (bcache s) = Suc NBUF" using assms(1) by (simp add: boot_bufs_def)
  have n: "b_dev (bcache (binit s) ! i) = 0" "b_refcnt (bcache (binit s) ! i) = 0" "\<not> b_valid (bcache (binit s) ! i)"
    "\<not> sl_locked (b_lock (bcache (binit s) ! i))" if "i < NBUF" for i
    using strip_nth [OF binit_strip [OF assms(1)]] assms(1) that by (simp_all add: boot_bufs_def list_all_length)
  have "cache_inv (binit s) (rev [0..<NBUF])" by (rule binit_cache_inv [OF assms(1-5)])
  then show i: "binv dev {} {} (binit s)" using n assms(6) by (auto simp: binv_def sane_def pins_def)
  show "block (binit s) dev k = platter s (sec_of k)" using block_clean [OF i] by (simp add: binit_def)
qed

end
