(* ===== verification/Log_Txn.thy ===== *)
theory Log_Txn
  imports Log Blocks
begin

text \<open>
  The operations of \<^verbatim>\<open>kernel/log.c\<close> and of its clients by what they do to the contents of blocks, to the pinned
  blocks and to the disk.
\<close>

section \<open>Copying one block to another\<close>

lemma copy_mid:
  assumes "binv dev P {x, y} s" "x \<noteq> y" "b_blockno (bcache s ! x) = a" "b_blockno (bcache s ! y) = c"
    and "a \<notin> P \<Longrightarrow> block s dev a = platter s (sec_of a)" "c \<in> P \<longleftrightarrow> unpin" "Q = (if unpin then P - {c} else P)" "a \<noteq> c"
  shows "\<exists>u. obind (bwrite y (upd_buf y (\<lambda>z. z\<lparr>b_data := b_data (bcache s ! x)\<rparr>) s)) (\<lambda>s3.
       let s4 = (if unpin then bunpin y s3 else s3) in obind (brelse x s4) (\<lambda>s5. obind (brelse y s5) K)) = K u \<and>
     binv dev Q {} u \<and> wrote [(sec_of c, block s dev a)] s u \<and>
     (\<forall>k < 0x80000000. block u dev k = (if k = c then block s dev a else block s dev k))"
proof -
  define d where "d = block s dev a"
  have x: "b_data (bcache s ! x) = d" using held_block(2) [OF assms(1), of x] assms(3) d_def by simp
  have ac: "a < 0x80000000" "c < 0x80000000"
    using held_block(3) [OF assms(1), of x] held_block(3) [OF assms(1), of y] assms(3,4) by simp_all
  have len: "length (b_data (bcache s ! x)) = BSIZE" using binv_basic(6,8) [OF assms(1)] by simp
  define s2 where "s2 = upd_buf y (\<lambda>z. z\<lparr>b_data := b_data (bcache s ! x)\<rparr>) s"
  note S2 = binv_data [where F = "\<lambda>_. b_data (bcache s ! x)", OF assms(1) _ len s2_def, simplified]
  have k2: "b_data (bcache s2 ! x) = d" "b_blockno (bcache s2 ! x) = a" "b_blockno (bcache s2 ! y) = c" "b_data (bcache s2 ! y) = d"
    using S2(6) S2(2) S2(5) assms(2-4) x by (auto simp: kept_def)
  obtain s3 where s3: "bwrite y s2 = Ret s3" "binv dev P {x, y} s3" "bcache s3 = bcache s2"
    "blk_frame (s2\<lparr>platter := (platter s2)(sec_of c := d), dev_writes := dev_writes s2 @ [(sec_of c, d)]\<rparr>) s3"
    "\<forall>k < 0x80000000. block s3 dev k = block s2 dev k"
    using bwrite_binv [OF S2(1), of y] k2 by auto
  have w3: "wrote [(sec_of c, d)] s s3"
    using wrote_trans [OF wrote_frame [OF S2(4)] wrote_write [OF s3(4)]] by simp
  define s4 where "s4 = (if unpin then bunpin y s3 else s3)"
  have "binv dev Q {x, y} s4 \<and> blk_frame s3 s4 \<and> kept {x, y} s3 s4 \<and> (\<forall>k. block s4 dev k = block s3 dev k)"
  proof (cases unpin)
    case True
    then have "b_blockno (bcache s3 ! y) \<in> P" "Q = P - {b_blockno (bcache s3 ! y)}" "s4 = bunpin y s3"
      using k2 assms(6,7) by (simp_all add: s4_def s3(3))
    note U = bunpin_binv [OF s3(2) _ this]
    show ?thesis using U by blast
  qed (use s3(2) assms(7) in \<open>simp add: s4_def kept_def\<close>)
  then have s4: "binv dev Q {x, y} s4" "blk_frame s3 s4" "kept {x, y} s3 s4" "\<forall>k. block s4 dev k = block s3 dev k"
    by blast+
  have w4: "wrote [(sec_of c, d)] s s4" using wrote_trans [OF w3 wrote_frame [OF s4(2)]] by simp
  have k4: "b_data (bcache s4 ! x) = d" "b_blockno (bcache s4 ! x) = a" "b_blockno (bcache s4 ! y) = c" "b_data (bcache s4 ! y) = d"
    using s4(3) k2 by (auto simp: kept_def s3(3))
  have p4: "platter s4 (sec_of c) = d" "platter s4 (sec_of a) = platter s (sec_of a)"
    using wrote_sel(1) [OF w4] sec_of_inj [OF ac] assms(8) by auto
  have "a \<notin> Q \<Longrightarrow> d = platter s4 (sec_of a)" using assms(5,7,8) p4(2) d_def by (auto split: if_splits)
  then obtain s5 where s5: "brelse x s4 = Ret s5" "binv dev Q ({x, y} - {x}) s5" "\<forall>k. block s5 dev k = block s4 dev k"
    "blk_frame s4 s5" "kept {x, y} s4 s5"
    using brelse_binv [OF s4(1), of x] k4 by auto
  have xy: "{x, y} - {x} = {y}" using assms(2) by auto
  have "c \<notin> Q" using assms(6,7) by auto
  then obtain u where u: "brelse y s5 = Ret u" "binv dev Q ({y} - {y}) u" "\<forall>k. block u dev k = block s5 dev k" "blk_frame s5 u"
    using brelse_binv [OF s5(2) [unfolded xy], of y] s5(5) k4 p4(1) blk_frame_sel(1) [OF s5(4)] by (auto simp: kept_def)
  have "wrote [(sec_of c, d)] s u"
    using wrote_trans [OF w4 wrote_frame [OF blk_frame_trans [OF s5(4) u(4)]]] by simp
  moreover have "block u dev k = (if k = c then d else block s dev k)" if "k < 0x80000000" for k
    using u(3) s5(3) s4(4) s3(5) S2(3) assms(4) x that by simp
  ultimately show ?thesis using s3(1) s5(1) u(1,2) unfolding s2_def [symmetric] s4_def [symmetric] d_def [symmetric]
    by (intro exI [of _ u]) (simp add: s4_def [symmetric] Let_def)
qed


lemma wrote_log:
  assumes "wrote ws s t"
  shows "lg_dev t = lg_dev s" "lg_start t = lg_start s" "lh_n t = lh_n s" "lh_block t = lh_block s"
    "lg_outstanding t = lg_outstanding s" "lg_committing t = lg_committing s"
proof -
  have e: "t\<lparr>bcache := bcache s, vdisk := vdisk s, ptable := ptable s, dev_avail := dev_avail s,
       platter := platter s, dev_writes := dev_writes s\<rparr> = s" using assms by (simp add: wrote_def)
  show "lg_dev t = lg_dev s" "lg_start t = lg_start s" "lh_n t = lh_n s" "lh_block t = lh_block s"
    "lg_outstanding t = lg_outstanding s" "lg_committing t = lg_committing s"
    using arg_cong [OF e, of lg_dev] arg_cong [OF e, of lg_start] arg_cong [OF e, of lh_n] arg_cong [OF e, of lh_block]
      arg_cong [OF e, of lg_outstanding] arg_cong [OF e, of lg_committing] by simp_all
qed

lemmas frame_log = wrote_log [OF wrote_frame]

text \<open>What lies above the log in the state is not touched.\<close>

lemma frame_more: "blk_frame s t \<Longrightarrow> log_state.more t = log_state.more s"
proof -
  assume "blk_frame s t"
  then have "t\<lparr>bcache := bcache s, vdisk := vdisk s, ptable := ptable s, dev_avail := dev_avail s\<rparr> = s" by (simp add: blk_frame_def)
  from arg_cong [OF this, of log_state.more] show ?thesis by simp
qed

lemma log_write_more: "log_write b s = Ret t \<Longrightarrow> log_state.more t = log_state.more s"
  by (auto simp: log_write_def bpin_def Let_def split: if_splits option.splits)

text \<open>Two reads, of blocks \<open>j\<close> and \<open>k\<close>, leave their two buffers held.\<close>

lemma read_two:
  assumes "binv dev P {} s" "j < 0x80000000" "k < 0x80000000" "j \<noteq> k" "card P < NBUF" "k \<in> P \<or> card P + 1 < NBUF"
  shows "\<exists>b s1 c s2. bread dev j s = Ret (b, s1) \<and> bread dev k s1 = Ret (c, s2) \<and> b \<noteq> c \<and> binv dev P {b, c} s2 \<and>
     b_blockno (bcache s2 ! b) = j \<and> b_blockno (bcache s2 ! c) = k \<and> blk_frame s s1 \<and> blk_frame s s2 \<and> (\<forall>k. block s2 dev k = block s dev k)"
proof -
  obtain b s1 where b: "bread dev j s = Ret (b, s1)" "binv dev P {b} s1" "b_blockno (bcache s1 ! b) = j" "\<forall>k. block s1 dev k = block s dev k"
    "blk_frame s s1" using bread_binv [OF assms(1) _ assms(2)] assms(5) by auto
  then obtain c s2 where c: "bread dev k s1 = Ret (c, s2)" "binv dev P {c, b} s2" "c \<noteq> b" "b_blockno (bcache s2 ! c) = k"
    "\<forall>k. block s2 dev k = block s1 dev k" "blk_frame s1 s2" "kept {b} s1 s2"
    using bread_binv [OF b(2) _ assms(3)] assms(4,6) by auto
  have "b_blockno (bcache s2 ! b) = j" using c(7) b(3) by (simp add: kept_def)
  moreover have "{b, c} = {c, b}" by blast
  ultimately show ?thesis using b c blk_frame_trans [OF b(5) c(6)] by (metis (no_types, lifting))
qed

lemma write_log_step:
  assumes "binv (lg_dev s) P {} s" "j = lg_start s + of_nat t + 1" "k = lh_block s ! t"
    and "j < 0x80000000" "k < 0x80000000" "j \<notin> P" "k \<in> P" "card P < NBUF"
  shows "\<exists>u. write_log_loop (t # ts) s = write_log_loop ts u \<and> binv (lg_dev s) P {} u \<and>
     wrote [(sec_of j, block s (lg_dev s) k)] s u \<and>
     (\<forall>i < 0x80000000. block u (lg_dev s) i = (if i = j then block s (lg_dev s) k else block s (lg_dev s) i))"
proof -
  obtain b s1 c s2 where r: "bread (lg_dev s) j s = Ret (b, s1)" "bread (lg_dev s) k s1 = Ret (c, s2)" "b \<noteq> c"
    "binv (lg_dev s) P {b, c} s2" "b_blockno (bcache s2 ! b) = j" "b_blockno (bcache s2 ! c) = k" "blk_frame s s1" "blk_frame s s2"
    "\<forall>k. block s2 (lg_dev s) k = block s (lg_dev s) k"
    using read_two [OF assms(1,4,5)] assms(6-8) by blast
  have cb: "{b, c} = {c, b}" by blast
  obtain u where u: "obind (bwrite b (upd_buf b (\<lambda>z. z\<lparr>b_data := b_data (bcache s2 ! c)\<rparr>) s2)) (\<lambda>s3.
       let s4 = (if False then bunpin b s3 else s3) in obind (brelse c s4) (\<lambda>s5. obind (brelse b s5) (write_log_loop ts))) = write_log_loop ts u"
    "binv (lg_dev s) P {} u" "wrote [(sec_of j, block s2 (lg_dev s) k)] s2 u"
    "\<forall>i < 0x80000000. block u (lg_dev s) i = (if i = j then block s2 (lg_dev s) k else block s2 (lg_dev s) i)"
    using copy_mid [OF r(4) [unfolded cb] _ r(6,5), of False P "write_log_loop ts"] r(3) assms(6,7) by (auto simp: Let_def)
  have "write_log_loop (t # ts) s = write_log_loop ts u"
    using r(1,2) u(1) frame_log [OF r(7)] assms(2,3) by (simp add: Let_def)
  then show ?thesis using u(2-4) r(9) wrote_trans [OF wrote_frame [OF r(8)] u(3)] by (intro exI [of _ u]) simp
qed

lemma install_step:
  assumes "binv (lg_dev s) P {} s" "j = lg_start s + of_nat t + 1" "k = lh_block s ! t"
    and "j < 0x80000000" "k < 0x80000000" "j \<notin> P" "k \<in> P \<longleftrightarrow> \<not> rec" "card P + 1 < NBUF \<or> \<not> rec \<and> card P < NBUF" "j \<noteq> k"
  shows "\<exists>u. install_loop rec (t # ts) s = install_loop rec ts u \<and> binv (lg_dev s) (P - {k}) {} u \<and>
     wrote [(sec_of k, block s (lg_dev s) j)] s u \<and>
     (\<forall>i < 0x80000000. block u (lg_dev s) i = (if i = k then block s (lg_dev s) j else block s (lg_dev s) i))"
proof -
  obtain b s1 c s2 where r: "bread (lg_dev s) j s = Ret (b, s1)" "bread (lg_dev s) k s1 = Ret (c, s2)" "b \<noteq> c"
    "binv (lg_dev s) P {b, c} s2" "b_blockno (bcache s2 ! b) = j" "b_blockno (bcache s2 ! c) = k" "blk_frame s s1" "blk_frame s s2"
    "\<forall>k. block s2 (lg_dev s) k = block s (lg_dev s) k"
    using read_two [OF assms(1,4,5,9)] assms(7,8) by fastforce
  have cl: "block s2 (lg_dev s) j = platter s2 (sec_of j)"
    using block_clean [OF assms(1,6)] r(9) blk_frame_sel(1) [OF r(8)] by simp
  have q: "P - {k} = (if \<not> rec then P - {k} else P)" using assms(7) by auto
  have ite: "(if rec then x else y) = (if \<not> rec then y else x)" for x y :: "'a log_state_scheme" by simp
  obtain u where u: "obind (bwrite c (upd_buf c (\<lambda>z. z\<lparr>b_data := b_data (bcache s2 ! b)\<rparr>) s2)) (\<lambda>s3.
       let s4 = (if \<not> rec then bunpin c s3 else s3) in obind (brelse b s4) (\<lambda>s5. obind (brelse c s5) (install_loop rec ts))) = install_loop rec ts u"
    "binv (lg_dev s) (P - {k}) {} u" "wrote [(sec_of k, block s2 (lg_dev s) j)] s2 u"
    "\<forall>i < 0x80000000. block u (lg_dev s) i = (if i = k then block s2 (lg_dev s) j else block s2 (lg_dev s) i)"
    using copy_mid [OF r(4) r(3) r(5,6) cl assms(7) q assms(9), of "install_loop rec ts"] by blast
  have "install_loop rec (t # ts) s = install_loop rec ts u"
    unfolding install_loop.simps ite using r(1,2) u(1) frame_log [OF r(7)] assms(2,3) by simp
  then show ?thesis using u(2-4) r(9) wrote_trans [OF wrote_frame [OF r(8)] u(3)] by (intro exI [of _ u]) simp
qed


section \<open>The log area\<close>

definition logblk :: "'z log_state_scheme \<Rightarrow> nat \<Rightarrow> uint" where
  "logblk s t = lg_start s + of_nat t + 1"

definition log_area :: "'z log_state_scheme \<Rightarrow> bool" where
  "log_area s \<longleftrightarrow> unat (lg_start s) + LOGBLOCKS < 0x80000000"

definition home :: "'z log_state_scheme \<Rightarrow> uint \<Rightarrow> bool" where
  "home s k \<longleftrightarrow> k < 0x80000000 \<and> k \<noteq> lg_start s \<and> (\<forall>t < LOGBLOCKS. k \<noteq> logblk s t)"

lemma unat_logblk: "log_area s \<Longrightarrow> t < LOGBLOCKS \<Longrightarrow> unat (logblk s t) = unat (lg_start s) + t + 1"
  by (simp add: logblk_def log_area_def unat_word_ariths unat_of_nat)

lemma logblk_facts:
  assumes "log_area s" "t < LOGBLOCKS"
  shows "logblk s t < 0x80000000" "logblk s t \<noteq> lg_start s" "lg_start s < 0x80000000"
    "\<And>t'. t' < LOGBLOCKS \<Longrightarrow> logblk s t = logblk s t' \<longleftrightarrow> t = t'"
proof -
  note u = unat_logblk [OF assms(1)]
  show "logblk s t < 0x80000000" "lg_start s < 0x80000000"
    using u [OF assms(2)] assms by (simp_all add: word_less_nat_alt log_area_def)
  show "logblk s t \<noteq> lg_start s" using u [OF assms(2)] by auto
  show "logblk s t = logblk s t' \<longleftrightarrow> t = t'" if "t' < LOGBLOCKS" for t'
  proof
    assume "logblk s t = logblk s t'"
    then have "unat (logblk s t) = unat (logblk s t')" by simp
    then show "t = t'" using u [OF assms(2)] u [OF that] by simp
  qed simp
qed

lemma homeD: "home s k \<Longrightarrow> t < LOGBLOCKS \<Longrightarrow> k < 0x80000000 \<and> k \<noteq> lg_start s \<and> k \<noteq> logblk s t"
  unfolding home_def by blast

lemma area_cong:
  assumes "wrote ws s t"
  shows "logblk t = logblk s" "home t = home s" "log_area t = log_area s"
  using wrote_log(2) [OF assms] by (auto simp: fun_eq_iff logblk_def home_def log_area_def)

lemma write_log_loop_ok:
  assumes "binv (lg_dev s) P {} s" "log_area s" "\<And>t. t \<in> set ts \<Longrightarrow> t < LOGBLOCKS \<and> lh_block s ! t \<in> P" "\<And>k. k \<in> P \<Longrightarrow> home s k"
    and "card P < NBUF" "distinct ts"
  shows "\<exists>u. write_log_loop ts s = Ret u \<and> binv (lg_dev s) P {} u \<and>
     wrote (map (\<lambda>t. (sec_of (logblk s t), block s (lg_dev s) (lh_block s ! t))) ts) s u \<and>
     (\<forall>k < 0x80000000. k \<notin> logblk s ` set ts \<longrightarrow> block u (lg_dev s) k = block s (lg_dev s) k) \<and>
     (\<forall>t \<in> set ts. block u (lg_dev s) (logblk s t) = block s (lg_dev s) (lh_block s ! t))"
  using assms
proof (induction ts arbitrary: s)
  case Nil
  then show ?case by (auto intro: wrote_frame)
next
  case (Cons t ts)
  let ?d = "lg_dev s" and ?k = "lh_block s ! t"
  have t: "t < LOGBLOCKS" "?k \<in> P" using Cons.prems(3) [of t] by simp_all
  note L = logblk_facts [OF Cons.prems(2) t(1)]
  have k: "?k < 0x80000000" "?k \<noteq> logblk s t" using homeD [OF Cons.prems(4) [OF t(2)] t(1)] by blast+
  have lP: "logblk s t' \<notin> P" if "t' < LOGBLOCKS" for t' using homeD [OF Cons.prems(4) that] by blast
  obtain s1 where s1: "write_log_loop (t # ts) s = write_log_loop ts s1" "binv ?d P {} s1"
    "wrote [(sec_of (logblk s t), block s ?d ?k)] s s1"
    "\<forall>i < 0x80000000. block s1 ?d i = (if i = logblk s t then block s ?d ?k else block s ?d i)"
    using write_log_step [OF Cons.prems(1) logblk_def refl L(1) k(1) lP [OF t(1)] t(2) Cons.prems(5)] by blast
  note lg = wrote_log [OF s1(3)] area_cong [OF s1(3)]
  obtain u where u: "write_log_loop ts s1 = Ret u" "binv ?d P {} u"
     "wrote (map (\<lambda>t. (sec_of (logblk s t), block s1 ?d (lh_block s ! t))) ts) s1 u"
     "\<forall>k < 0x80000000. k \<notin> logblk s ` set ts \<longrightarrow> block u ?d k = block s1 ?d k"
     "\<forall>t \<in> set ts. block u ?d (logblk s t) = block s1 ?d (lh_block s ! t)"
    using Cons.IH [of s1, unfolded lg, OF s1(2) Cons.prems(2)] Cons.prems(3-6) by auto
  have e: "block s1 ?d (lh_block s ! t') = block s ?d (lh_block s ! t')" if "t' \<in> set ts" for t'
    using homeD [OF Cons.prems(4) t(1)] Cons.prems(3) [of t'] that s1(4) by simp
  then have m: "map (\<lambda>t. (sec_of (logblk s t), block s1 ?d (lh_block s ! t))) ts = map (\<lambda>t. (sec_of (logblk s t), block s ?d (lh_block s ! t))) ts"
    by simp
  have "logblk s t \<notin> logblk s ` set ts"
  proof
    assume "logblk s t \<in> logblk s ` set ts"
    then obtain t' where "t' \<in> set ts" "logblk s t = logblk s t'" by blast
    then show False using L(4) [of t'] Cons.prems(3) [of t'] Cons.prems(6) by auto
  qed
  then have "block u ?d (logblk s t) = block s ?d ?k" using u(4) s1(4) L(1) by simp
  then show ?case using s1(1,4) u wrote_trans [OF s1(3) u(3) [unfolded m]] e by (intro exI [of _ u]) auto
qed

lemma install_loop_ok:
  assumes "binv (lg_dev s) P {} s" "log_area s" "\<And>t. t \<in> set ts \<Longrightarrow> t < LOGBLOCKS \<and> home s (lh_block s ! t)"
    and "distinct (map (\<lambda>t. lh_block s ! t) ts)" "P = (if rec then {} else (\<lambda>t. lh_block s ! t) ` set ts)" "card P < NBUF"
  shows "\<exists>u. install_loop rec ts s = Ret u \<and> binv (lg_dev s) {} {} u \<and>
     wrote (map (\<lambda>t. (sec_of (lh_block s ! t), block s (lg_dev s) (logblk s t))) ts) s u \<and>
     (\<forall>k < 0x80000000. k \<notin> (\<lambda>t. lh_block s ! t) ` set ts \<longrightarrow> block u (lg_dev s) k = block s (lg_dev s) k) \<and>
     (\<forall>t \<in> set ts. block u (lg_dev s) (lh_block s ! t) = block s (lg_dev s) (logblk s t))"
  using assms
proof (induction ts arbitrary: s P)
  case Nil
  then show ?case by (auto intro: wrote_frame split: if_splits)
next
  case (Cons t ts)
  let ?d = "lg_dev s" and ?k = "lh_block s ! t" and ?b = "\<lambda>t. lh_block s ! t"
  have t: "t < LOGBLOCKS" "home s ?k" using Cons.prems(3) [of t] by simp_all
  note L = logblk_facts [OF Cons.prems(2) t(1)]
  have k: "?k < 0x80000000" "logblk s t \<noteq> ?k" using homeD [OF t(2,1)] by auto
  have lP: "logblk s t \<notin> P" using homeD [OF _ t(1)] Cons.prems(3,5) by (force split: if_splits)
  have kP: "?k \<in> P \<longleftrightarrow> \<not> rec" using Cons.prems(5) by simp
  have c: "card P + 1 < NBUF \<or> \<not> rec \<and> card P < NBUF" using Cons.prems(5,6) by (auto simp: NBUF_def)
  obtain s1 where s1: "install_loop rec (t # ts) s = install_loop rec ts s1" "binv ?d (P - {?k}) {} s1"
    "wrote [(sec_of ?k, block s ?d (logblk s t))] s s1"
    "\<forall>i < 0x80000000. block s1 ?d i = (if i = ?k then block s ?d (logblk s t) else block s ?d i)"
    using install_step [OF Cons.prems(1) logblk_def refl L(1) k(1) lP kP c k(2)] by blast
  note lg = wrote_log [OF s1(3)] area_cong [OF s1(3)]
  have P: "P - {?k} = (if rec then {} else ?b ` set ts)" using Cons.prems(4,5) by auto
  have cP: "card (P - {?k}) < NBUF" using Cons.prems(6) card_Diff1_le [of P ?k] by linarith
  obtain u where u: "install_loop rec ts s1 = Ret u" "binv ?d {} {} u"
     "wrote (map (\<lambda>t. (sec_of (?b t), block s1 ?d (logblk s t))) ts) s1 u"
     "\<forall>k < 0x80000000. k \<notin> ?b ` set ts \<longrightarrow> block u ?d k = block s1 ?d k"
     "\<forall>t \<in> set ts. block u ?d (?b t) = block s1 ?d (logblk s t)"
    using Cons.IH [of s1, unfolded lg, OF s1(2) Cons.prems(2) _ _ P cP] Cons.prems(3,4) by auto
  have e: "block s1 ?d (logblk s t') = block s ?d (logblk s t')" if "t' \<in> set ts" for t'
    using Cons.prems(3) [of t'] homeD [OF t(2), of t'] logblk_facts(1) [OF Cons.prems(2), of t'] that s1(4) by auto
  then have m: "map (\<lambda>t. (sec_of (?b t), block s1 ?d (logblk s t))) ts = map (\<lambda>t. (sec_of (?b t), block s ?d (logblk s t))) ts"
    by simp
  have "block u ?d ?k = block s ?d (logblk s t)" using u(4) s1(4) k(1) Cons.prems(4) by auto
  then show ?case using s1(1,4) u wrote_trans [OF s1(3) u(3) [unfolded m]] e by (intro exI [of _ u]) auto
qed


section \<open>The header block\<close>

lemma encode_head_fields:
  assumes "length d = BSIZE" "0 \<le> n" "n \<le> int LOGBLOCKS"
  shows "length (encode_head n bl d) = BSIZE" "get32 (encode_head n bl d) 0 = word_of_int n"
    "i < nat n \<Longrightarrow> get32 (encode_head n bl d) (4 + 4 * i) = bl ! i"
proof -
  let ?f = "\<lambda>i d. put32 d (4 + 4 * i) (bl ! i)"
  have loop: "length (fold ?f [0..<m] d') = BSIZE \<and> get32 (fold ?f [0..<m] d') 0 = get32 d' 0 \<and>
      (\<forall>i < m. get32 (fold ?f [0..<m] d') (4 + 4 * i) = bl ! i)" if "length d' = BSIZE" "m \<le> 30" for m d'
    using that(2)
  proof (induction m)
    case 0
    then show ?case using that(1) by simp
  next
    case (Suc m)
    then have I: "length (fold ?f [0..<m] d') = BSIZE" "get32 (fold ?f [0..<m] d') 0 = get32 d' 0"
      "\<forall>i < m. get32 (fold ?f [0..<m] d') (4 + 4 * i) = bl ! i" by simp_all
    then show ?case using Suc.prems by (auto simp: get_put_other less_Suc_eq)
  qed
  have m: "nat n \<le> 30" using assms by simp
  have p: "length (put32 d 0 (word_of_int n)) = BSIZE" using assms(1) by simp
  note l = loop [OF p m]
  show "length (encode_head n bl d) = BSIZE" "get32 (encode_head n bl d) 0 = word_of_int n"
    using l assms(1) by (simp_all add: encode_head_def)
  show "i < nat n \<Longrightarrow> get32 (encode_head n bl d) (4 + 4 * i) = bl ! i"
    using l by (simp add: encode_head_def)
qed

lemma write_head_ok:
  assumes "binv (lg_dev s) P {} s" "log_area s" "0 \<le> lh_n s" "lh_n s \<le> int LOGBLOCKS" "lg_start s \<notin> P" "card P < NBUF"
    and "h = encode_head (lh_n s) (lh_block s) (block s (lg_dev s) (lg_start s))"
  shows "\<exists>u. write_head s = Ret u \<and> binv (lg_dev s) P {} u \<and> wrote [(sec_of (lg_start s), h)] s u \<and>
     (\<forall>k < 0x80000000. block u (lg_dev s) k = (if k = lg_start s then h else block s (lg_dev s) k))"
proof -
  let ?d = "lg_dev s" and ?k = "lg_start s"
  have k: "?k < 0x80000000" using assms(2) by (simp add: word_less_nat_alt log_area_def)
  obtain b s1 where b: "bread ?d ?k s = Ret (b, s1)" "binv ?d P {b} s1" "b_blockno (bcache s1 ! b) = ?k"
    "b_data (bcache s1 ! b) = block s ?d ?k" "\<forall>k. block s1 ?d k = block s ?d k" "blk_frame s s1"
    using bread_binv [OF assms(1) _ k] assms(6) by auto
  note lg = frame_log [OF b(6)]
  have len: "length (block s ?d ?k) = BSIZE" using binv_basic(6,8) [OF b(2)] b(4) by force
  have fl: "length (encode_head (lh_n s1) (lh_block s1) (b_data (bcache s1 ! b))) = BSIZE"
    using encode_head_fields(1) [OF len] assms(3,4) b(4) lg by simp
  define s2 where "s2 = upd_buf b (\<lambda>x. x\<lparr>b_data := encode_head (lh_n s1) (lh_block s1) (b_data x)\<rparr>) s1"
  note S2 = binv_data [OF b(2) _ fl s2_def, simplified]
  have d2: "b_data (bcache s2 ! b) = h" "b_blockno (bcache s2 ! b) = ?k" using S2(2) S2(5) b(3,4) lg assms(7) by simp_all
  obtain s3 where s3: "bwrite b s2 = Ret s3" "binv ?d P {b} s3" "bcache s3 = bcache s2"
    "blk_frame (s2\<lparr>platter := (platter s2)(sec_of ?k := h), dev_writes := dev_writes s2 @ [(sec_of ?k, h)]\<rparr>) s3"
    "\<forall>k < 0x80000000. block s3 ?d k = block s2 ?d k"
    using bwrite_binv [OF S2(1), of b] d2 by auto
  have w3: "wrote [(sec_of ?k, h)] s s3"
    using wrote_trans [OF wrote_frame [OF blk_frame_trans [OF b(6) S2(4)]] wrote_write [OF s3(4)]] by simp
  have "h = platter s3 (sec_of ?k)" using wrote_sel(1) [OF w3] by simp
  then obtain u where u: "brelse b s3 = Ret u" "binv ?d P ({b} - {b}) u" "\<forall>k. block u ?d k = block s3 ?d k" "blk_frame s3 u"
    using brelse_binv [OF s3(2), of b] d2 by (auto simp: s3(3))
  have "write_head s = Ret u" using b(1) s3(1) u(1) by (simp add: write_head_def s2_def)
  moreover have "block u ?d k = (if k = ?k then h else block s ?d k)" if "k < 0x80000000" for k
    using u(3) s3(5) S2(3) b(3-5) lg assms(7) that by simp
  ultimately show ?thesis using u(2) wrote_trans [OF w3 wrote_frame [OF u(4)]] by (intro exI [of _ u]) simp
qed

lemma read_head_ok:
  assumes "binv (lg_dev s) P {} s" "lg_start s < 0x80000000" "lg_start s \<notin> P" "card P < NBUF"
    and "h = block s (lg_dev s) (lg_start s)" "n = sint (get32 h 0)"
  shows "\<exists>u. read_head s = Ret u \<and> binv (lg_dev s) P {} u \<and> (\<forall>k. block u (lg_dev s) k = block s (lg_dev s) k) \<and>
     platter u = platter s \<and> dev_writes u = dev_writes s \<and> lg_dev u = lg_dev s \<and> lg_start u = lg_start s \<and>
     lh_n u = n \<and> lh_block u = map (\<lambda>i. get32 h (4 + 4 * i)) [0..<nat n] @ drop (nat n) (lh_block s)"
proof -
  let ?d = "lg_dev s" and ?k = "lg_start s"
  obtain b s1 where b: "bread ?d ?k s = Ret (b, s1)" "binv ?d P {b} s1" "b_blockno (bcache s1 ! b) = ?k"
    "b_data (bcache s1 ! b) = h" "\<forall>k. block s1 ?d k = block s ?d k" "blk_frame s s1"
    using bread_binv [OF assms(1) _ assms(2)] assms(4,5) by auto
  note lg = frame_log [OF b(6)]
  let ?bl = "map (\<lambda>i. get32 h (4 + 4 * i)) [0..<nat n] @ drop (nat n) (lh_block s)"
  define s2 where "s2 = s1\<lparr>lh_n := n, lh_block := ?bl\<rparr>"
  have i2: "binv ?d P {b} s2"
    using b(2) by (simp add: s2_def binv_def cache_inv_def mine_def myproc_def vd_idle_def)
  have "h = platter s2 (sec_of ?k)"
    using block_clean [OF assms(1,3)] assms(5) blk_frame_sel(1) [OF b(6)] by (simp add: s2_def)
  moreover have "b_data (bcache s2 ! b) = h" "b_blockno (bcache s2 ! b) = ?k" using b(3,4) by (simp_all add: s2_def)
  ultimately obtain u where u: "brelse b s2 = Ret u" "binv ?d P ({b} - {b}) u" "\<forall>k. block u ?d k = block s2 ?d k" "blk_frame s2 u"
    using brelse_binv [OF i2, of b] by auto
  have "read_head s = Ret u" using b(1,4) u(1) lg assms(6) by (simp add: read_head_def s2_def Let_def)
  moreover have "block s2 ?d k = block s1 ?d k" for k by (rule block_cong) (simp_all add: s2_def)
  then have "block u ?d k = block s ?d k" for k using u(3) b(5) by simp
  ultimately show ?thesis using u(2) blk_frame_sel(1,2) [OF u(4)] blk_frame_sel(1,2) [OF b(6)] frame_log [OF u(4)] lg
    by (intro exI [of _ u]) (simp add: s2_def)
qed


lemma binv_log_fields:
  "binv dev P H (s\<lparr>lh_n := n\<rparr>) = binv dev P H s" "block (s\<lparr>lh_n := n\<rparr>) dev k = block s dev k"
  "binv dev P H (s\<lparr>lg_start := a, lg_dev := d\<rparr>) = binv dev P H s" "block (s\<lparr>lg_start := a, lg_dev := d\<rparr>) dev k = block s dev k"
  by (simp_all add: binv_def cache_inv_def mine_def myproc_def vd_idle_def) (rule block_cong; simp)+

section \<open>Transactions\<close>

text \<open>
  A transaction under way: its blocks are distinct, pinned in the cache and outside the log area, the
  running process holds the buffers \<open>H\<close>, and the header on disk is empty.
\<close>

definition txn :: "nat set \<Rightarrow> 'z log_state_scheme \<Rightarrow> bool" where
  "txn H s \<longleftrightarrow> binv (lg_dev s) (set (logged s)) H s \<and> log_area s \<and> 0 \<le> lh_n s \<and> lh_n s \<le> int LOGBLOCKS \<and>
     length (lh_block s) = LOGBLOCKS \<and> distinct (logged s) \<and> (\<forall>k \<in> set (logged s). home s k) \<and>
     get32 (platter s (sec_of (lg_start s))) 0 = 0"

lemma log_write_txn:
  assumes "txn H s" "b \<in> H" "lh_n s < int LOGBLOCKS" "1 \<le> lg_outstanding s" "k = b_blockno (bcache s ! b)" "home s k"
  shows "\<exists>t. log_write b s = Ret t \<and> txn H t \<and> (\<forall>k. block t (lg_dev s) k = block s (lg_dev s) k) \<and> kept H s t \<and>
    platter t = platter s \<and> dev_writes t = dev_writes s \<and> lg_dev t = lg_dev s \<and> lg_start t = lg_start s \<and>
    lg_outstanding t = lg_outstanding s \<and> lg_committing t = lg_committing s \<and> ptable t = ptable s \<and>
    logged t = (if k \<in> set (logged s) then logged s else logged s @ [k]) \<and> lh_n t = int (length (logged t))"
proof -
  have T: "binv (lg_dev s) (set (logged s)) H s" "log_area s" "0 \<le> lh_n s" "lh_n s \<le> int LOGBLOCKS" "length (lh_block s) = LOGBLOCKS"
    "distinct (logged s)" "\<forall>k \<in> set (logged s). home s k" "get32 (platter s (sec_of (lg_start s))) 0 = 0"
    using assms(1) by (auto simp: txn_def)
  have ll: "length (logged s) = nat (lh_n s)" using T(4,5) by (simp add: logged_def)
  show ?thesis
  proof (cases "scan (\<lambda>x. x = k) (logged s)")
    case (Some i)
    then have i: "i < length (logged s)" "logged s ! i = k" using scan_SomeD by fastforce+
    then have "lh_block s ! i = k" by (simp add: logged_def)
    then have "(lh_block s)[i := k] = lh_block s" by auto
    then have "log_write b s = Ret s" using Some assms(3-5) by (simp add: log_write_def Let_def)
    moreover have "k \<in> set (logged s)" using i by auto
    ultimately show ?thesis using assms(1) ll T(3) by (intro exI [of _ s]) (simp add: kept_def)
  next
    case None
    then have kn: "k \<notin> set (logged s)" by (auto simp: scan_from_None)
    define s1 where "s1 = s\<lparr>lh_block := (lh_block s)[nat (lh_n s) := k], lh_n := lh_n s + 1\<rparr>"
    define t where "t = bpin b s1"
    have run: "log_write b s = Ret t" using None assms(3-5) by (simp add: log_write_def Let_def t_def s1_def)
    have n: "nat (lh_n s) < length (lh_block s)" using assms(3) T(3,5) by simp
    have lg1: "logged s1 = logged s @ [k]"
      using n T(3) by (simp add: logged_def s1_def nat_add_distrib take_Suc_conv_app_nth)
    have i1: "binv (lg_dev s) (set (logged s)) H s1"
      using T(1) by (simp add: s1_def binv_def cache_inv_def mine_def myproc_def vd_idle_def)
    have k1: "b_blockno (bcache s1 ! b) \<notin> set (logged s)" "set (logged s1) = insert (b_blockno (bcache s1 ! b)) (set (logged s))"
      using kn assms(5) lg1 by (simp_all add: s1_def)
    note P = bpin_binv [OF i1 assms(2) k1 t_def]
    have "block s1 (lg_dev s) k = block s (lg_dev s) k" for k by (rule block_cong) (simp_all add: s1_def)
    then have bl: "block t (lg_dev s) k = block s (lg_dev s) k" for k using P(2) by simp
    have f: "lg_dev t = lg_dev s" "lg_start t = lg_start s" "lh_n t = lh_n s + 1" "lh_block t = lh_block s1" "platter t = platter s"
      "dev_writes t = dev_writes s" "lg_outstanding t = lg_outstanding s" "lg_committing t = lg_committing s" "ptable t = ptable s"
      by (simp_all add: t_def s1_def bpin_def)
    have lg: "logged t = logged s @ [k]" using lg1 f(3,4) by (simp add: logged_def s1_def)
    have area: "log_area t = log_area s" "home t = home s" using f(2) by (auto simp: log_area_def home_def logblk_def fun_eq_iff)
    have "txn H t"
      using P(1) T assms(3,6) kn f lg lg1 area by (simp add: txn_def s1_def)
    moreover have "kept H s t" using P(4) by (simp add: kept_def s1_def)
    ultimately show ?thesis using run bl f lg kn ll T(3) by (intro exI [of _ t]) simp
  qed
qed


lemma txn_frame:
  assumes "txn H s" "blk_frame s t" "binv (lg_dev s) (set (logged s)) H' t"
  shows "txn H' t" "logged t = logged s" "home t = home s"
proof -
  note f = frame_log [OF assms(2)] area_cong [OF wrote_frame [OF assms(2)]]
  show l: "logged t = logged s" "home t = home s" using f by (simp_all add: logged_def)
  show "txn H' t" using assms(1,3) f l blk_frame_sel(1) [OF assms(2)] by (simp add: txn_def)
qed

lemma bread_txn:
  assumes "txn H s" "\<And>i. i \<in> H \<Longrightarrow> b_blockno (bcache s ! i) \<noteq> k" "k < 0x80000000" "k \<in> set (logged s) \<or> lh_n s + int (card H) < int NBUF"
    "dev = lg_dev s"
  shows "\<exists>b t. bread dev k s = Ret (b, t) \<and> txn (insert b H) t \<and> b \<notin> H \<and> b_blockno (bcache t ! b) = k \<and>
    b_data (bcache t ! b) = block s dev k \<and> (\<forall>k'. block t dev k' = block s dev k') \<and> blk_frame s t \<and> kept H s t"
proof -
  have I: "binv dev (set (logged s)) H s" using assms(1,5) by (simp add: txn_def)
  have "card (set (logged s)) \<le> nat (lh_n s)" using card_length [of "logged s"] by (simp add: logged_def)
  moreover have "0 \<le> lh_n s" using assms(1) by (simp add: txn_def)
  ultimately have "k \<in> set (logged s) \<or> card (set (logged s)) + card H < NBUF" using assms(4) by linarith
  then obtain b t where t: "bread dev k s = Ret (b, t)" "binv dev (set (logged s)) (insert b H) t" "b \<notin> H" "b_blockno (bcache t ! b) = k"
    "b_data (bcache t ! b) = block s dev k" "\<forall>k'. block t dev k' = block s dev k'" "blk_frame s t" "kept H s t"
    using bread_binv [OF I assms(2,3)] by blast
  then show ?thesis using txn_frame(1) [OF assms(1) t(7)] assms(5) by blast
qed

lemma data_txn:
  assumes "txn H s" "b \<in> H" "length (F (bcache s ! b)) = BSIZE" "t = upd_buf b (\<lambda>x. x\<lparr>b_data := F x\<rparr>) s" "dev = lg_dev s"
  shows "txn H t" "b_data (bcache t ! b) = F (bcache s ! b)" "b_blockno (bcache t ! i) = b_blockno (bcache s ! i)"
    "block t dev k = (if k = b_blockno (bcache s ! b) then F (bcache s ! b) else block s dev k)" "blk_frame s t" "kept (H - {b}) s t"
proof -
  have I: "binv dev (set (logged s)) H s" using assms(1,5) by (simp add: txn_def)
  note D = binv_data [OF I assms(2-4)]
  show "txn H t" using txn_frame(1) [OF assms(1) D(4)] D(1) assms(5) by blast
  show "b_data (bcache t ! b) = F (bcache s ! b)" "b_blockno (bcache t ! i) = b_blockno (bcache s ! i)"
    "block t dev k = (if k = b_blockno (bcache s ! b) then F (bcache s ! b) else block s dev k)" "blk_frame s t" "kept (H - {b}) s t"
    using D(2-6) by blast+
qed

lemma brelse_txn:
  assumes "txn H s" "b \<in> H" "dev = lg_dev s"
    and "b_blockno (bcache s ! b) \<notin> set (logged s) \<Longrightarrow> b_data (bcache s ! b) = platter s (sec_of (b_blockno (bcache s ! b)))"
  shows "\<exists>t. brelse b s = Ret t \<and> txn (H - {b}) t \<and> (\<forall>k. block t dev k = block s dev k) \<and> blk_frame s t \<and> kept H s t"
proof -
  have I: "binv dev (set (logged s)) H s" using assms(1,3) by (simp add: txn_def)
  obtain t where t: "brelse b s = Ret t" "binv dev (set (logged s)) (H - {b}) t" "\<forall>k. block t dev k = block s dev k"
    "blk_frame s t" "kept H s t" using brelse_binv [OF I assms(2,4)] by blast
  then show ?thesis using txn_frame(1) [OF assms(1) t(4)] assms(3) by blast
qed

text \<open>Reading a block, changing it, logging it and releasing it, as every update in \<^verbatim>\<open>kernel/fs.c\<close> does.\<close>

lemma update_txn:
  assumes "txn H s" "\<And>i. i \<in> H \<Longrightarrow> b_blockno (bcache s ! i) \<noteq> k" "home s k" "lh_n s < int LOGBLOCKS" "1 \<le> lg_outstanding s"
    and "k \<in> set (logged s) \<or> lh_n s + int (card H) < int NBUF" "dev = lg_dev s" "length (F (block s dev k)) = BSIZE"
  shows "\<exists>t. obind (bread dev k s) (\<lambda>(b, s1). obind (log_write b (upd_buf b (\<lambda>x. x\<lparr>b_data := F (b_data x)\<rparr>) s1)) (brelse b)) = Ret t \<and>
    txn H t \<and> (\<forall>j. block t dev j = (if j = k then F (block s dev k) else block s dev j)) \<and> kept H s t \<and>
    logged t = (if k \<in> set (logged s) then logged s else logged s @ [k]) \<and> lh_n t = int (length (logged t)) \<and>
    platter t = platter s \<and> dev_writes t = dev_writes s \<and> lg_dev t = dev \<and> lg_start t = lg_start s \<and> lg_outstanding t = lg_outstanding s \<and>
    lg_committing t = lg_committing s \<and> log_state.more t = log_state.more s"
proof -
  have k: "k < 0x80000000" using assms(3) by (simp add: home_def)
  obtain b s1 where b: "bread dev k s = Ret (b, s1)" "txn (insert b H) s1" "b \<notin> H" "b_blockno (bcache s1 ! b) = k"
    "b_data (bcache s1 ! b) = block s dev k" "\<forall>k'. block s1 dev k' = block s dev k'" "blk_frame s s1" "kept H s s1"
    using bread_txn [OF assms(1,2) k assms(6,7)] by blast
  note f1 = frame_log [OF b(7)] blk_frame_sel(1,2) [OF b(7)] area_cong(2) [OF wrote_frame [OF b(7)]]
  define s2 where "s2 = upd_buf b (\<lambda>x. x\<lparr>b_data := F (b_data x)\<rparr>) s1"
  have len: "length (F (b_data (bcache s1 ! b))) = BSIZE" using assms(8) b(5) by simp
  have d1: "dev = lg_dev s1" using assms(7) f1 by simp
  note D = data_txn [OF b(2) insertI1 len s2_def d1]
  note f2 = frame_log [OF D(5)] blk_frame_sel(1,2) [OF D(5)] area_cong(2) [OF wrote_frame [OF D(5)]]
  have lg2: "logged s2 = logged s" using f1 f2 by (simp add: logged_def)
  have k2: "b_blockno (bcache s2 ! b) = k" using D(3) b(4) by simp
  obtain s3 where s3: "log_write b s2 = Ret s3" "txn (insert b H) s3" "\<forall>k. block s3 dev k = block s2 dev k" "kept (insert b H) s2 s3"
    "platter s3 = platter s2" "dev_writes s3 = dev_writes s2" "lg_dev s3 = lg_dev s2" "lg_start s3 = lg_start s2"
    "lg_outstanding s3 = lg_outstanding s2" "lg_committing s3 = lg_committing s2"
    "logged s3 = (if k \<in> set (logged s) then logged s else logged s @ [k])" "lh_n s3 = int (length (logged s3))"
    using log_write_txn [OF D(1) insertI1 _ _ k2 [symmetric]] assms(3-5,7) f1 f2 lg2 by auto
  have "k \<in> set (logged s3)" using s3(11) by simp
  then obtain t where t: "brelse b s3 = Ret t" "txn (insert b H - {b}) t" "\<forall>k. block t dev k = block s3 dev k" "blk_frame s3 t"
    "kept (insert b H) s3 t"
    using brelse_txn [OF s3(2) insertI1, of dev] s3(4,7) k2 d1 f2 by (auto simp: kept_def)
  note f4 = frame_log [OF t(4)] blk_frame_sel(1,2) [OF t(4)]
  have "kept H s t"
    using b(3,8) D(6) s3(4) t(5) by (auto simp: kept_def)
  moreover have "logged t = logged s3" using f4 by (simp add: logged_def)
  moreover have "log_state.more t = log_state.more s"
    using frame_more [OF b(7)] frame_more [OF D(5)] log_write_more [OF s3(1)] frame_more [OF t(4)] by simp
  ultimately show ?thesis
    using b(1,3) s3 t D(4) b(4-6) f1 f2 f4 d1 by (intro exI [of _ t]) (simp add: s2_def)
qed

end
