(* ===== verification/Log_Crash.thy ===== *)
theory Log_Crash
  imports Log_Txn
begin

text \<open>
  Crash safety of the log.  A commit and a recovery are described by the device writes they perform; a
  crash keeps a prefix of them.
\<close>

section \<open>Committing\<close>

text \<open>A transaction is ready to commit when no buffer is held and fewer than \<open>NBUF\<close> buffers are pinned.\<close>

definition log_ready :: "'z log_state_scheme \<Rightarrow> bool" where
  "log_ready s \<longleftrightarrow> txn {} s \<and> 0 < lh_n s \<and> lh_n s < int NBUF"

text \<open>The device writes of a commit: the blocks to the log, the header, the blocks to their homes, the empty header.\<close>

definition log_phase :: "'z log_state_scheme \<Rightarrow> (64 word \<times> byte list) list" where
  "log_phase s = map (\<lambda>t. (sec_of (logblk s t), block s (lg_dev s) (lh_block s ! t))) [0..<nat (lh_n s)]"

definition home_phase :: "'z log_state_scheme \<Rightarrow> (64 word \<times> byte list) list" where
  "home_phase s = map (\<lambda>t. (sec_of (lh_block s ! t), block s (lg_dev s) (lh_block s ! t))) [0..<nat (lh_n s)]"

definition full_head :: "'z log_state_scheme \<Rightarrow> byte list" where
  "full_head s = encode_head (lh_n s) (lh_block s) (block s (lg_dev s) (lg_start s))"

definition commit_writes :: "'z log_state_scheme \<Rightarrow> (64 word \<times> byte list) list" where
  "commit_writes s = log_phase s @ [(sec_of (lg_start s), full_head s)] @ home_phase s @
     [(sec_of (lg_start s), encode_head 0 (lh_block s) (full_head s))]"

lemma log_readyD:
  assumes "log_ready s"
  shows "binv (lg_dev s) (set (logged s)) {} s" "log_area s" "0 < lh_n s" "lh_n s \<le> int LOGBLOCKS" "distinct (logged s)"
    "\<And>t. t < nat (lh_n s) \<Longrightarrow> t < LOGBLOCKS \<and> lh_block s ! t \<in> set (logged s) \<and> home s (lh_block s ! t)"
    "card (set (logged s)) < NBUF" "logged s = map (\<lambda>t. lh_block s ! t) [0..<nat (lh_n s)]"
    "lg_start s \<notin> set (logged s)" "get32 (platter s (sec_of (lg_start s))) 0 = 0" "\<And>k. k \<in> set (logged s) \<Longrightarrow> home s k"
proof -
  show g: "binv (lg_dev s) (set (logged s)) {} s" "log_area s" "0 < lh_n s" "lh_n s \<le> int LOGBLOCKS" "distinct (logged s)"
    "get32 (platter s (sec_of (lg_start s))) 0 = 0" "\<And>k. k \<in> set (logged s) \<Longrightarrow> home s k"
    using assms by (auto simp: log_ready_def txn_def NBUF_def)
  have l: "length (lh_block s) = LOGBLOCKS" "\<forall>k \<in> set (logged s). home s k" "lh_n s < int NBUF" using assms by (auto simp: log_ready_def txn_def)
  show m: "logged s = map (\<lambda>t. lh_block s ! t) [0..<nat (lh_n s)]"
    using l(1) g(4) by (auto simp: logged_def intro!: nth_equalityI)
  then show "t < LOGBLOCKS \<and> lh_block s ! t \<in> set (logged s) \<and> home s (lh_block s ! t)" if "t < nat (lh_n s)" for t
    using that g(4) l(2) by auto
  have "card (set (logged s)) \<le> nat (lh_n s)" using card_length [of "logged s"] by (simp add: m)
  then show "card (set (logged s)) < NBUF" using l(3) g(3) by linarith
  show "lg_start s \<notin> set (logged s)" using l(2) by (auto simp: home_def)
qed

lemma commit_ok:
  assumes "log_ready s"
  shows "\<exists>t. commit s = Ret t \<and> binv (lg_dev s) {} {} t \<and> dev_writes t = dev_writes s @ commit_writes s \<and>
    platter t = apply_writes (platter s) (commit_writes s) \<and> lh_n t = 0 \<and>
    (\<forall>k. home s k \<longrightarrow> block t (lg_dev s) k = block s (lg_dev s) k)"
proof -
  let ?d = "lg_dev s" and ?n = "nat (lh_n s)" and ?P = "set (logged s)"
  note R = log_readyD [OF assms]
  obtain s1 where s1: "write_log_loop [0..<?n] s = Ret s1" "binv ?d ?P {} s1" "wrote (log_phase s) s s1"
     "\<forall>k < 0x80000000. k \<notin> logblk s ` set [0..<?n] \<longrightarrow> block s1 ?d k = block s ?d k"
     "\<forall>t \<in> set [0..<?n]. block s1 ?d (logblk s t) = block s ?d (lh_block s ! t)"
    using write_log_loop_ok [OF R(1,2), of "[0..<?n]"] R(6,7,11) by (auto simp: log_phase_def)
  note l1 = wrote_log [OF s1(3)] area_cong [OF s1(3)]
  have st: "lg_start s < 0x80000000" using R(2) by (simp add: word_less_nat_alt log_area_def)
  have "logblk s t \<noteq> lg_start s" if "t < ?n" for t using logblk_facts(2) [OF R(2)] R(6) [OF that] by blast
  then have sn: "lg_start s \<notin> logblk s ` set [0..<?n]" by force
  have h1: "full_head s = encode_head (lh_n s1) (lh_block s1) (block s1 (lg_dev s1) (lg_start s1))"
    using s1(4) st sn l1 by (simp add: full_head_def)
  obtain s2 where s2: "write_head s1 = Ret s2" "binv ?d ?P {} s2" "wrote [(sec_of (lg_start s), full_head s)] s1 s2"
     "\<forall>k < 0x80000000. block s2 ?d k = (if k = lg_start s then full_head s else block s1 ?d k)"
    using write_head_ok [of s1 ?P, unfolded h1 [symmetric], OF _ _ _ _ _ R(7) refl] s1(2) R(2-4,9) l1 by auto
  note l2 = wrote_log [OF s2(3)] area_cong [OF s2(3)]
  have b2: "block s2 ?d (logblk s t) = block s ?d (lh_block s ! t)" if "t < ?n" for t
    using s2(4) s1(5) logblk_facts(1,2) [OF R(2), of t] R(6) [OF that] that by auto
  have P: "?P = (if False then {} else (\<lambda>t. lh_block s2 ! t) ` set [0..<?n])"
    using R(8) l1 l2 by simp
  have dst: "distinct (map (\<lambda>t. lh_block s2 ! t) [0..<?n])" using R(5,8) l1 l2 by simp
  obtain s3 where s3: "install_loop False [0..<?n] s2 = Ret s3" "binv ?d {} {} s3"
     "wrote (map (\<lambda>t. (sec_of (lh_block s ! t), block s2 ?d (logblk s t))) [0..<?n]) s2 s3"
     "\<forall>k < 0x80000000. k \<notin> (\<lambda>t. lh_block s ! t) ` set [0..<?n] \<longrightarrow> block s3 ?d k = block s2 ?d k"
     "\<forall>t \<in> set [0..<?n]. block s3 ?d (lh_block s ! t) = block s2 ?d (logblk s t)"
    using install_loop_ok [OF _ _ _ dst P R(7)] s2(2) R(2,6) l1 l2 by auto
  have "map (\<lambda>t. (sec_of (lh_block s ! t), block s2 ?d (logblk s t))) [0..<?n] = home_phase s"
    using b2 by (simp add: home_phase_def)
  then have w3: "wrote (home_phase s) s2 s3" using s3(3) by simp
  note l3 = wrote_log [OF s3(3)] area_cong [OF s3(3)]
  let ?s3 = "s3\<lparr>lh_n := 0\<rparr>"
  have st3: "lg_start s \<notin> (\<lambda>t. lh_block s ! t) ` set [0..<?n]" using R(9) unfolding R(8) by simp
  have h3: "encode_head 0 (lh_block s) (full_head s) = encode_head (lh_n ?s3) (lh_block ?s3) (block ?s3 (lg_dev ?s3) (lg_start ?s3))"
    using s3(4) s2(4) st st3 l1 l2 l3 by (simp add: binv_log_fields)
  obtain t where t: "write_head ?s3 = Ret t" "binv ?d {} {} t"
     "wrote [(sec_of (lg_start s), encode_head 0 (lh_block s) (full_head s))] ?s3 t"
     "\<forall>k < 0x80000000. block t ?d k = (if k = lg_start s then encode_head 0 (lh_block s) (full_head s) else block s3 ?d k)"
    using write_head_ok [of ?s3 "{}", unfolded h3 [symmetric], OF _ _ _ _ _ _ refl] s3(2) R(2) l1 l2 l3
    by (auto simp: binv_log_fields NBUF_def log_area_def)
  have run: "commit s = Ret t"
    using R(3) s1(1) s2(1) s3(1) t(1) l1 l2 by (simp add: commit_def write_log_def install_trans_def)
  have w: "wrote (log_phase s @ [(sec_of (lg_start s), full_head s)] @ home_phase s) s s3"
    using wrote_trans [OF s1(3) wrote_trans [OF s2(3) w3]] by simp
  have "dev_writes t = dev_writes s @ commit_writes s" "platter t = apply_writes (platter s) (commit_writes s)" "lh_n t = 0"
    using wrote_sel(1,2) [OF w] wrote_sel(1,2) [OF t(3)] wrote_log(3) [OF t(3)] by (simp_all add: commit_writes_def)
  moreover have "block t ?d k = block s ?d k" if k: "home s k" for k
  proof -
    have kb: "k < 0x80000000" "k \<noteq> lg_start s" using k by (auto simp: home_def)
    have "k \<noteq> logblk s t" if "t < ?n" for t using homeD [OF k] R(6) [OF that] by blast
    then have "k \<notin> logblk s ` set [0..<?n]" by (simp add: image_iff)
    then have b1: "block s2 ?d k = block s ?d k" using s1(4) s2(4) kb by simp
    show ?thesis
    proof (cases "k \<in> (\<lambda>t. lh_block s ! t) ` set [0..<?n]")
      case True
      then obtain i where "i < ?n" "k = lh_block s ! i" by auto
      then show ?thesis using s3(5) b2 t(4) kb by simp
    next
      case False
      then show ?thesis using s3(4) b1 t(4) kb by simp
    qed
  qed
  ultimately show ?thesis using run t(2) by blast
qed


section \<open>Recovering\<close>

lemma recover_ok:
  assumes "binv (lg_dev r) {} {} r" "log_area r" "h = platter r (sec_of (lg_start r))" "n = sint (get32 h 0)" "0 \<le> n" "n \<le> int LOGBLOCKS"
    and "\<And>i. i < nat n \<Longrightarrow> home r (get32 h (4 + 4 * i))" "distinct (map (\<lambda>i. get32 h (4 + 4 * i)) [0..<nat n])"
  shows "\<exists>u. recover_from_log r = Ret u \<and> binv (lg_dev r) {} {} u \<and>
    (\<forall>i < nat n. platter u (sec_of (get32 h (4 + 4 * i))) = platter r (sec_of (logblk r i))) \<and>
    (\<forall>k. home r k \<and> k \<notin> set (map (\<lambda>i. get32 h (4 + 4 * i)) [0..<nat n]) \<longrightarrow> platter u (sec_of k) = platter r (sec_of k))"
proof -
  let ?d = "lg_dev r" and ?b = "\<lambda>i. get32 h (4 + 4 * i)"
  have c: "block s ?d k = platter s (sec_of k)" if "binv ?d {} {} s" for s :: "'a log_state_scheme" and k using block_clean [OF that] by simp
  have st: "lg_start r < 0x80000000" using assms(2) by (simp add: word_less_nat_alt log_area_def)
  have nb: "card {} < NBUF" by (simp add: NBUF_def)
  obtain s where s: "read_head r = Ret s" "binv ?d {} {} s" "\<forall>k. block s ?d k = block r ?d k" "platter s = platter r"
    "lg_dev s = lg_dev r" "lg_start s = lg_start r" "lh_n s = n" "lh_block s = map ?b [0..<nat n] @ drop (nat n) (lh_block r)"
    using read_head_ok [OF assms(1) st _ nb refl refl] c [OF assms(1)] assms(3,4) by auto
  have area: "log_area s" "home s = home r" "logblk s = logblk r"
    using assms(2) s(6) by (auto simp: log_area_def home_def logblk_def fun_eq_iff)
  have bl: "lh_block s ! i = ?b i" if "i < nat n" for i using that s(8) by (simp add: nth_append)
  have mb: "map (\<lambda>t. lh_block s ! t) [0..<nat n] = map ?b [0..<nat n]" using bl by simp
  then have dst: "distinct (map (\<lambda>t. lh_block s ! t) [0..<nat n])" using assms(8) by metis
  have pre: "t < LOGBLOCKS \<and> home s (lh_block s ! t)" if "t \<in> set [0..<nat n]" for t
    using that assms(6,7) bl area(2) by auto
  obtain t where t: "install_loop True [0..<nat n] s = Ret t" "binv ?d {} {} t"
     "wrote (map (\<lambda>t. (sec_of (lh_block s ! t), block s ?d (logblk r t))) [0..<nat n]) s t"
     "\<forall>k < 0x80000000. k \<notin> (\<lambda>t. lh_block s ! t) ` set [0..<nat n] \<longrightarrow> block t ?d k = block s ?d k"
     "\<forall>i \<in> set [0..<nat n]. block t ?d (lh_block s ! i) = block s ?d (logblk r i)"
    using install_loop_ok [where rec = True, OF s(2) [folded s(5)] area(1) pre dst _ nb] unfolding s(5) area(3) by auto
  note l = wrote_log [OF t(3)] area_cong [OF t(3)]
  let ?t = "t\<lparr>lh_n := 0\<rparr>"
  obtain u where u: "write_head ?t = Ret u" "binv ?d {} {} u"
    "\<forall>k < 0x80000000. k \<noteq> lg_start r \<longrightarrow> block u ?d k = block t ?d k"
    using write_head_ok [of ?t "{}", OF _ _ _ _ _ nb refl] t(2) l s(5,6) area(1)
    by (auto simp: binv_log_fields log_area_def)
  have run: "recover_from_log r = Ret u"
    using s(1,7) t(1) u(1) by (simp add: recover_from_log_def install_trans_def)
  have ub: "platter u (sec_of k) = block t ?d k" if "home r k" for k using u(3) c [OF u(2)] that by (simp add: home_def)
  have "platter u (sec_of (?b i)) = platter r (sec_of (logblk r i))" if i: "i < nat n" for i
    using ub [OF assms(7) [OF i]] bspec [OF t(5), of i, unfolded bl [OF i]] i c [OF s(2)] s(4) by simp
  moreover have "platter u (sec_of k) = platter r (sec_of k)" if k: "home r k" "k \<notin> set (map ?b [0..<nat n])" for k
  proof -
    have "k \<notin> (\<lambda>t. lh_block s ! t) ` set [0..<nat n]" using k(2) bl by auto
    then show ?thesis using ub [OF k(1)] t(4) k(1) c [OF s(2)] s(4) by (simp add: home_def)
  qed
  ultimately show ?thesis using run u(2) by blast
qed


text \<open>The sectors the phases of a commit write.\<close>

lemma phase_sectors:
  assumes "log_ready s"
  shows "length (log_phase s) = nat (lh_n s)" "length (home_phase s) = nat (lh_n s)"
    "home s k \<Longrightarrow> sec_of k \<notin> fst ` set (log_phase s) \<and> sec_of k \<noteq> sec_of (lg_start s)"
    "t < LOGBLOCKS \<Longrightarrow> sec_of (logblk s t) \<notin> fst ` set (home_phase s) \<and> sec_of (logblk s t) \<noteq> sec_of (lg_start s)"
    "sec_of (lg_start s) \<notin> fst ` set (log_phase s) \<union> fst ` set (home_phase s)"
    "home s k \<Longrightarrow> k \<notin> set (logged s) \<Longrightarrow> sec_of k \<notin> fst ` set (home_phase s)"
    "distinct (map fst (log_phase s))" "distinct (map fst (home_phase s))"
proof -
  note R = log_readyD [OF assms]
  show "length (log_phase s) = nat (lh_n s)" "length (home_phase s) = nat (lh_n s)" by (simp_all add: log_phase_def home_phase_def)
  have st: "lg_start s < 0x80000000" using R(2) by (simp add: word_less_nat_alt log_area_def)
  have lf: "fst ` set (log_phase s) = (\<lambda>t. sec_of (logblk s t)) ` {..<nat (lh_n s)}"
    by (simp add: log_phase_def image_image atLeast0LessThan)
  have hf: "fst ` set (home_phase s) = sec_of ` set (logged s)" by (simp add: home_phase_def R(8) image_image)
  have L: "logblk s t < 0x80000000" "logblk s t \<noteq> lg_start s" if "t < nat (lh_n s)" for t
    using logblk_facts(1,2) [OF R(2)] R(6) [OF that] by blast+
  have S: "sec_of a = sec_of b \<longleftrightarrow> a = b" if "a < 0x80000000" "b < 0x80000000" for a b using sec_of_inj [OF that] .
  have H: "k < 0x80000000" "k \<noteq> lg_start s" "t < LOGBLOCKS \<Longrightarrow> k \<noteq> logblk s t" if "home s k" for k t
    using that unfolding home_def by blast+
  show "sec_of k \<notin> fst ` set (log_phase s) \<and> sec_of k \<noteq> sec_of (lg_start s)" if k: "home s k"
  proof -
    have "sec_of k \<noteq> sec_of (logblk s t)" if "t < nat (lh_n s)" for t using S [OF H(1) [OF k] L(1) [OF that]] H(3) [OF k] R(6) [OF that] by blast
    then show ?thesis unfolding lf using S [OF H(1) [OF k] st] H(2) [OF k] by (simp add: image_iff)
  qed
  show "sec_of (logblk s t) \<notin> fst ` set (home_phase s) \<and> sec_of (logblk s t) \<noteq> sec_of (lg_start s)" if t: "t < LOGBLOCKS"
  proof -
    note F = logblk_facts [OF R(2) t]
    have "sec_of (logblk s t) \<noteq> sec_of k" if "k \<in> set (logged s)" for k
      using S [OF F(1) H(1) [OF R(11) [OF that]]] H(3) [OF R(11) [OF that] t] by metis
    then show ?thesis unfolding hf using S [OF F(1) st] F(2) by (simp add: image_iff)
  qed
  have "sec_of (lg_start s) \<noteq> sec_of (logblk s t)" if "t < nat (lh_n s)" for t using S [OF st L(1) [OF that]] L(2) [OF that] by metis
  moreover have "sec_of (lg_start s) \<noteq> sec_of k" if "k \<in> set (logged s)" for k
    using S [OF st H(1) [OF R(11) [OF that]]] H(2) [OF R(11) [OF that]] by metis
  ultimately show "sec_of (lg_start s) \<notin> fst ` set (log_phase s) \<union> fst ` set (home_phase s)"
    unfolding lf hf by (simp add: image_iff)
  have inj: "inj_on sec_of (set (logged s))" using S H(1) R(11) by (auto simp: inj_on_def)
  show "sec_of k \<notin> fst ` set (home_phase s)" if "home s k" "k \<notin> set (logged s)"
  proof -
    have "sec_of k \<noteq> sec_of k'" if k': "k' \<in> set (logged s)" for k'
      using S [OF H(1) [OF \<open>home s k\<close>] H(1) [OF R(11) [OF k']]] \<open>k \<notin> set (logged s)\<close> k' by metis
    then show ?thesis unfolding hf by (simp add: image_iff)
  qed
  show "distinct (map fst (home_phase s))"
    using R(5) inj by (simp add: home_phase_def R(8) comp_def distinct_map inj_on_def)
  have "logblk s x = logblk s y \<longleftrightarrow> x = y" if "x < nat (lh_n s)" "y < nat (lh_n s)" for x y
    using logblk_facts(4) [OF R(2)] R(6) [OF that(1)] R(6) [OF that(2)] by blast
  then show "distinct (map fst (log_phase s))"
    using S L(1) by (simp add: log_phase_def comp_def distinct_map inj_on_def)
qed


text \<open>What the disk holds when the device stops after \<open>j\<close> of the writes of a commit.\<close>

abbreviation stopped :: "'z log_state_scheme \<Rightarrow> nat \<Rightarrow> disk" where
  "stopped s j \<equiv> apply_writes (platter s) (take j (commit_writes s))"

lemma in_take_fst: "a \<notin> fst ` set ws \<Longrightarrow> a \<notin> fst ` set (take j ws)"
  using set_take_subset [of j ws] by blast

lemma stopped_early:
  assumes "log_ready s" "j \<le> nat (lh_n s)"
  shows "stopped s j (sec_of (lg_start s)) = platter s (sec_of (lg_start s))" "home s k \<Longrightarrow> stopped s j (sec_of k) = platter s (sec_of k)"
proof -
  have e: "take j (commit_writes s) = take j (log_phase s)" using assms phase_sectors(1) [OF assms(1)] by (simp add: commit_writes_def)
  show "stopped s j (sec_of (lg_start s)) = platter s (sec_of (lg_start s))"
    unfolding e using phase_sectors(5) [OF assms(1)] by (intro apply_writes_other in_take_fst) blast
  show "stopped s j (sec_of k) = platter s (sec_of k)" if "home s k"
    unfolding e using phase_sectors(3) [OF assms(1) that] by (intro apply_writes_other in_take_fst) blast
qed

lemma stopped_late:
  assumes "log_ready s" "nat (lh_n s) < j"
  shows "\<exists>us. take j (commit_writes s) = log_phase s @ [(sec_of (lg_start s), full_head s)] @ us \<and>
    (j < 2 * nat (lh_n s) + 2 \<longrightarrow> us = take (j - nat (lh_n s) - 1) (home_phase s)) \<and>
    (\<not> j < 2 * nat (lh_n s) + 2 \<longrightarrow> us = home_phase s @ [(sec_of (lg_start s), encode_head 0 (lh_block s) (full_head s))])"
proof -
  note l = phase_sectors(1,2) [OF assms(1)]
  define m where "m = j - nat (lh_n s) - 1"
  have j: "j = Suc (nat (lh_n s) + m)" using assms(2) by (simp add: m_def)
  let ?e = "[(sec_of (lg_start s), encode_head 0 (lh_block s) (full_head s))]"
  have "take j (commit_writes s) = log_phase s @ [(sec_of (lg_start s), full_head s)] @ take m (home_phase s @ ?e)"
    using l by (simp add: commit_writes_def j)
  then show ?thesis using l by (intro exI [of _ "take m (home_phase s @ ?e)"]) (simp add: m_def)
qed

lemma stopped_late_blocks:
  assumes "log_ready s" "nat (lh_n s) < j"
  shows "t < nat (lh_n s) \<Longrightarrow> stopped s j (sec_of (logblk s t)) = block s (lg_dev s) (lh_block s ! t)"
    "home s k \<Longrightarrow> k \<notin> set (logged s) \<Longrightarrow> stopped s j (sec_of k) = platter s (sec_of k)"
    "stopped s j (sec_of (lg_start s)) = (if j < 2 * nat (lh_n s) + 2 then full_head s else encode_head 0 (lh_block s) (full_head s))"
    "2 * nat (lh_n s) + 2 \<le> j \<Longrightarrow> t < nat (lh_n s) \<Longrightarrow> stopped s j (sec_of (lh_block s ! t)) = block s (lg_dev s) (lh_block s ! t)"
proof -
  note R = log_readyD [OF assms(1)] and S = phase_sectors [OF assms(1)]
  let ?h = "sec_of (lg_start s)"
  obtain us where us: "take j (commit_writes s) = log_phase s @ [(?h, full_head s)] @ us"
    "j < 2 * nat (lh_n s) + 2 \<longrightarrow> us = take (j - nat (lh_n s) - 1) (home_phase s)"
    "\<not> j < 2 * nat (lh_n s) + 2 \<longrightarrow> us = home_phase s @ [(?h, encode_head 0 (lh_block s) (full_head s))]"
    using stopped_late [OF assms] by blast
  have sub: "fst ` set us \<subseteq> insert ?h (fst ` set (home_phase s))"
    using us(2,3) set_take_subset [of "j - nat (lh_n s) - 1" "home_phase s"] by (cases "j < 2 * nat (lh_n s) + 2") auto
  have st: "stopped s j = apply_writes ((apply_writes (platter s) (log_phase s))(?h := full_head s)) us" by (simp add: us(1))
  show "stopped s j (sec_of (logblk s t)) = block s (lg_dev s) (lh_block s ! t)" if t: "t < nat (lh_n s)"
  proof -
    have n: "sec_of (logblk s t) \<notin> fst ` set us" "sec_of (logblk s t) \<noteq> ?h" using S(4) R(6) [OF t] sub by blast+
    have "(sec_of (logblk s t), block s (lg_dev s) (lh_block s ! t)) \<in> set (log_phase s)" using t by (auto simp: log_phase_def)
    then show ?thesis unfolding st apply_writes_other [OF n(1)] using n(2) apply_writes_in [OF S(7)] by simp
  qed
  show "stopped s j (sec_of k) = platter s (sec_of k)" if k: "home s k" "k \<notin> set (logged s)"
  proof -
    have n: "sec_of k \<notin> fst ` set us" "sec_of k \<noteq> ?h" "sec_of k \<notin> fst ` set (log_phase s)" using S(3) [OF k(1)] S(6) [OF k] sub by blast+
    show ?thesis unfolding st apply_writes_other [OF n(1)] using n(2) apply_writes_other [OF n(3)] by simp
  qed
  have "?h \<notin> fst ` set (take m (home_phase s))" for m by (rule in_take_fst) (use S(5) in blast)
  then show "stopped s j ?h = (if j < 2 * nat (lh_n s) + 2 then full_head s else encode_head 0 (lh_block s) (full_head s))"
    using us(2,3) by (simp add: st apply_writes_other)
  show "stopped s j (sec_of (lh_block s ! t)) = block s (lg_dev s) (lh_block s ! t)" if "2 * nat (lh_n s) + 2 \<le> j" and t: "t < nat (lh_n s)"
  proof -
    have "(sec_of (lh_block s ! t), block s (lg_dev s) (lh_block s ! t)) \<in> set (home_phase s)" using t by (auto simp: home_phase_def)
    moreover have "sec_of (lh_block s ! t) \<noteq> ?h" using S(3) R(6) [OF t] by blast
    ultimately show ?thesis using us(3) that(1) apply_writes_in [OF S(8)] by (simp add: st)
  qed
qed


lemma recovered_head:
  assumes "log_ready s" "bl = (\<lambda>i. get32 (full_head s) (4 + 4 * i))"
  shows "sint (get32 (full_head s) 0) = lh_n s" "sint (get32 (encode_head 0 (lh_block s) (full_head s)) 0) = 0"
    "i < nat (lh_n s) \<Longrightarrow> bl i = lh_block s ! i" "map bl [0..<nat (lh_n s)] = logged s"
proof -
  note R = log_readyD [OF assms(1)]
  have "block s (lg_dev s) (lg_start s) = platter s (sec_of (lg_start s))" using block_clean [OF R(1) R(9)] by simp
  then have len: "length (block s (lg_dev s) (lg_start s)) = BSIZE" using binv_basic(5) [OF R(1)] by simp
  note E = encode_head_fields [where n = "lh_n s" and bl = "lh_block s", OF len, folded full_head_def]
  have n: "0 \<le> lh_n s" "lh_n s \<le> 30" using R(3,4) by simp_all
  have "sint (word_of_int n :: uint) = n" if "0 \<le> n" "n \<le> 30" for n
    using that by (simp add: signed_of_int signed_take_bit_int_eq_self)
  then show "sint (get32 (full_head s) 0) = lh_n s" "sint (get32 (encode_head 0 (lh_block s) (full_head s)) 0) = 0"
    using E(1,2) encode_head_fields(2) [of "full_head s" 0] n by simp_all
  show b: "bl i = lh_block s ! i" if "i < nat (lh_n s)" for i using E(3) [OF _ _ that] n assms(2) by simp
  show "map bl [0..<nat (lh_n s)] = logged s" using b by (simp add: R(8))
qed

lemma crash_recovers:
  assumes "log_ready s" "binv (lg_dev s) {} {} r" "platter r = stopped s j"
  shows "\<exists>u. initlog (lg_dev s) (lg_start s) r = Ret u \<and>
    (\<forall>k. home s k \<longrightarrow> platter u (sec_of k) = (if j \<le> nat (lh_n s) then platter s (sec_of k) else block s (lg_dev s) k))"
proof -
  note R = log_readyD [OF assms(1)]
  let ?r = "r\<lparr>lg_start := lg_start s, lg_dev := lg_dev s\<rparr>" and ?n = "nat (lh_n s)"
  have a: "binv (lg_dev ?r) {} {} ?r" "log_area ?r" "home ?r = home s" "logblk ?r = logblk s" "lg_dev ?r = lg_dev s"
    using assms(2) R(2) by (simp_all add: binv_log_fields) (auto simp: log_area_def home_def logblk_def fun_eq_iff)
  have run: "initlog (lg_dev s) (lg_start s) r = recover_from_log ?r" by (simp add: initlog_def)
  have clean: "block s (lg_dev s) k = platter s (sec_of k)" if "k \<notin> set (logged s)" for k using block_clean [OF R(1) that] by simp
  note rec = recover_ok [OF a(1,2) refl refl]
  have empty: ?thesis if z: "sint (get32 (platter ?r (sec_of (lg_start ?r))) 0) = 0"
    and "\<And>k. home s k \<Longrightarrow> stopped s j (sec_of k) = (if j \<le> ?n then platter s (sec_of k) else block s (lg_dev s) k)"
  proof -
    obtain u where "recover_from_log ?r = Ret u" "\<forall>k. home s k \<longrightarrow> platter u (sec_of k) = platter r (sec_of k)"
      using rec unfolding z a(3) by auto
    then show ?thesis using that(2) assms(3) run by (intro exI [of _ u]) metis
  qed
  show ?thesis
  proof (cases "j \<le> ?n")
    case True
    then show ?thesis using stopped_early [OF assms(1) True] R(10) assms(3) by (intro empty) simp_all
  next
    case False
    then have j: "?n < j" by simp
    note S = stopped_late_blocks [OF assms(1) j] and H = recovered_head [OF assms(1) refl]
    show ?thesis
    proof (cases "j < 2 * ?n + 2")
      case True
      then have h: "platter ?r (sec_of (lg_start ?r)) = full_head s" using S(3) assms(3) by simp
      obtain u where u: "recover_from_log ?r = Ret u"
        "\<And>i. i < ?n \<Longrightarrow> platter u (sec_of (lh_block s ! i)) = platter r (sec_of (logblk s i))"
        "\<And>k. home s k \<Longrightarrow> k \<notin> set (logged s) \<Longrightarrow> platter u (sec_of k) = platter r (sec_of k)"
        using rec unfolding h H(1,4) a(3,4) using R(3-6) H(3) by auto
      have "platter u (sec_of k) = block s (lg_dev s) k" if k: "home s k" for k
      proof (cases "k \<in> set (logged s)")
        case True
        then obtain i where "i < ?n" "k = lh_block s ! i" unfolding R(8) by auto
        then show ?thesis using u(2) S(1) assms(3) by simp
      next
        case False
        then show ?thesis using u(3) S(2) k assms(3) clean by simp
      qed
      then show ?thesis using run u(1) j by (intro exI [of _ u]) simp
    next
      case False
      then have h: "platter ?r (sec_of (lg_start ?r)) = encode_head 0 (lh_block s) (full_head s)" using S(3) assms(3) by simp
      have "stopped s j (sec_of k) = block s (lg_dev s) k" if k: "home s k" for k
      proof (cases "k \<in> set (logged s)")
        case True
        then obtain i where "i < ?n" "k = lh_block s ! i" unfolding R(8) by auto
        then show ?thesis using S(4) False by simp
      next
        case False
        then show ?thesis using S(2) k clean by simp
      qed
      then show ?thesis using h H(2) j by (intro empty) simp_all
    qed
  qed
qed


section \<open>Atomicity\<close>

text \<open>
  C26. A commit is atomic across crashes.  \<open>commit\<close> returns with every block of the transaction at its home
  on disk.  If the machine stops after any number \<open>j\<close> of the device writes the commit performs, then
  \<open>initlog\<close> at the next boot returns, and afterwards either every block outside the log area has its
  content from before the transaction (the header had not been written) or every one has its content
  from after it.
\<close>

theorem commit_crash_atomic:
  assumes "log_ready s"
  shows "\<exists>t ws. commit s = Ret t \<and> lh_n t = 0 \<and> dev_writes t = dev_writes s @ ws \<and>
    (\<forall>k. home s k \<longrightarrow> platter t (sec_of k) = block s (lg_dev s) k) \<and>
    (\<forall>j r. binv (lg_dev s) {} {} r \<and> platter r = apply_writes (platter s) (take j ws) \<longrightarrow>
      (\<exists>u. initlog (lg_dev s) (lg_start s) r = Ret u \<and>
        (\<forall>k. home s k \<longrightarrow> platter u (sec_of k) = (if j \<le> nat (lh_n s) then platter s (sec_of k) else block s (lg_dev s) k))))"
proof -
  obtain t where t: "commit s = Ret t" "binv (lg_dev s) {} {} t" "dev_writes t = dev_writes s @ commit_writes s" "lh_n t = 0"
    "\<forall>k. home s k \<longrightarrow> block t (lg_dev s) k = block s (lg_dev s) k"
    using commit_ok [OF assms] by blast
  have "platter t (sec_of k) = block s (lg_dev s) k" if "home s k" for k using block_clean [OF t(2), of k] t(5) that by simp
  then show ?thesis using t(1,3,4) crash_recovers [OF assms] by blast
qed

text \<open>The example: block 50 is read, overwritten, logged and released; the log starts at block 2.\<close>

definition demo_log :: log_state where
  "demo_log = binit (blk_state.extend (demo_blk\<lparr>platter := (\<lambda>_. replicate BSIZE 0)\<rparr>)
     (log_state.fields 2 1 False 1 0 (replicate LOGBLOCKS 0)))"

definition demo_txn :: "log_state outcome" where
  "demo_txn = obind (bread 1 50 demo_log) (\<lambda>(b, s). obind (log_write b (upd_buf b (\<lambda>x. x\<lparr>b_data := replicate BSIZE 7\<rparr>) s)) (brelse b))"

lemma demo_log_ok:
  "binv 1 {} {} demo_log" "block demo_log 1 k = replicate BSIZE 0" "platter demo_log = (\<lambda>_. replicate BSIZE 0)"
  "lg_dev demo_log = 1" "lg_start demo_log = 2" "lh_n demo_log = 0" "lg_outstanding demo_log = 1" "lh_block demo_log = replicate LOGBLOCKS 0"
proof -
  let ?s = "blk_state.extend (demo_blk\<lparr>platter := (\<lambda>_. replicate BSIZE 0)\<rparr>) (log_state.fields 2 1 False 1 0 (replicate LOGBLOCKS 0))"
  have f: "bcache ?s = bcache demo_blk" "platter ?s = (\<lambda>_. replicate BSIZE 0)" "vdisk ?s = vdisk demo_blk"
    "dev_avail ?s = dev_avail demo_blk" "blk_dev ?s = blk_dev demo_blk" "myproc ?s = myproc demo_blk" "ptable ?s = ptable demo_blk"
    by (simp_all add: blk_state.defs log_state.defs myproc_def)
  have b: "boot_bufs (bcache ?s)" "vd_idle ?s" "myproc ?s = Some 3" "3 < length (ptable ?s)"
    using demo_blk_idle by (simp_all only: f vd_idle_def) (simp_all add: boot_bufs_def NBUF_def buf0_def list_all_length)
  show "binv 1 {} {} demo_log" unfolding demo_log_def using b f by (intro binit_binv(1) [where p = 3]) simp_all
  show "block demo_log 1 k = replicate BSIZE 0"
    unfolding demo_log_def using binit_binv(2) [of ?s 3 1 k] b f by simp
  show "platter demo_log = (\<lambda>_. replicate BSIZE 0)" "lg_dev demo_log = 1" "lg_start demo_log = 2" "lh_n demo_log = 0"
    "lg_outstanding demo_log = 1" "lh_block demo_log = replicate LOGBLOCKS 0"
    by (simp_all add: demo_log_def binit_def blk_state.defs log_state.defs)
qed


lemma demo_home:
  assumes "lg_start s = 2" "40 \<le> k" "k < 70"
  shows "home s (of_nat k)"
proof -
  have u: "unat (of_nat k :: uint) = k" using assms(3) by (simp add: unat_of_nat)
  have "unat (logblk s t) = t + 3" if "t < LOGBLOCKS" for t
    using unat_logblk [of s t] that assms(1) by (simp add: log_area_def)
  then have "of_nat k \<noteq> logblk s t" if "t < LOGBLOCKS" for t using that u assms(2) by fastforce
  moreover have "of_nat k \<noteq> lg_start s" using u assms(1,2) by auto
  ultimately show ?thesis using u assms(3) by (simp add: home_def word_less_nat_alt)
qed

lemma demo_log_txn: "txn {} demo_log"
proof -
  have "replicate 4 (0 :: byte) = [0, 0, 0, 0]" by (simp add: numeral_eq_Suc)
  then have "get32 (replicate BSIZE 0) 0 = 0" by (simp add: get32_def slice_def word_rcat_def)
  then show ?thesis using demo_log_ok by (simp add: txn_def logged_def log_area_def)
qed

lemma demo_txn_ok:
  "\<exists>s. demo_txn = Ret s \<and> log_ready s \<and> lg_dev s = 1 \<and> lg_start s = 2 \<and> lh_n s = 1 \<and> platter s = (\<lambda>_. replicate BSIZE 0) \<and>
     block s 1 50 = replicate BSIZE 7"
proof -
  note D = demo_log_ok and T = demo_log_txn
  have lg: "logged demo_log = []" by (simp add: logged_def D)
  have H: "home demo_log 50" using demo_home [OF D(5), of 50] by simp
  obtain t where t: "demo_txn = Ret t" "txn {} t" "block t 1 50 = replicate BSIZE 7" "logged t = [50]" "lh_n t = 1"
    "platter t = (\<lambda>_. replicate BSIZE 0)" "lg_dev t = 1" "lg_start t = 2"
    using update_txn [where F = "\<lambda>_. replicate BSIZE 7" and dev = 1, OF T _ H] by (auto simp: D lg NBUF_def demo_txn_def)
  then show ?thesis by (intro exI [of _ t]) (simp add: log_ready_def NBUF_def)
qed

theorem commit_crash_atomic_witness:
  "\<exists>s t. demo_txn = Ret s \<and> commit s = Ret t \<and> platter s (sec_of 50) = replicate BSIZE 0 \<and> platter t (sec_of 50) = replicate BSIZE 7"
proof -
  obtain s where s: "demo_txn = Ret s" "log_ready s" "lg_dev s = 1" "lg_start s = 2" "platter s = (\<lambda>_. replicate BSIZE 0)"
    "block s 1 50 = replicate BSIZE 7" using demo_txn_ok by blast
  have "home s 50" using demo_home [OF s(4), of 50] by simp
  then show ?thesis using commit_crash_atomic [OF s(2)] s by auto
qed


section \<open>A transaction that fills the log\<close>

lemma all_pinned:
  assumes "binv dev P {} s" "card P = NBUF" "k \<notin> P"
  shows "\<And>i. i < NBUF \<Longrightarrow> b_refcnt (bcache s ! i) \<noteq> 0" "\<And>i. \<not> holds (bcache s) dev k i"
proof -
  let ?Q = "{i. i < NBUF \<and> b_dev (bcache s ! i) = dev \<and> b_blockno (bcache s ! i) \<in> P}"
  have "P \<subseteq> (\<lambda>i. b_blockno (bcache s ! i)) ` ?Q"
  proof
    fix k
    assume k: "k \<in> P"
    then obtain i where "holds (bcache s) dev k i" using binvD(8) [OF assms(1)] by blast
    then show "k \<in> (\<lambda>i. b_blockno (bcache s ! i)) ` ?Q" using k unfolding holds_def by blast
  qed
  moreover have "finite ?Q" by simp
  ultimately have "card P \<le> card ?Q" by (rule surj_card_le [rotated])
  then have "?Q = {..<NBUF}" using assms(2) by (intro card_seteq) auto
  then have q: "b_dev (bcache s ! i) = dev \<and> b_blockno (bcache s ! i) \<in> P" if "i < NBUF" for i using that by blast
  show "b_refcnt (bcache s ! i) \<noteq> 0" if "i < NBUF" for i using binvD(4) [OF assms(1) that] q [OF that] by (simp add: pins_def)
  show "\<not> holds (bcache s) dev k i" for i using q assms(3) unfolding holds_def by blast
qed

text \<open>
   A transaction that uses the whole log cannot be committed.  \<open>begin_op\<close> and \<open>log_write\<close> admit \<open>LOGBLOCKS\<close> blocks
  in a transaction, and each of them stays pinned in the cache until the commit; as the cache has
  exactly as many buffers, \<open>commit\<close> finds no buffer for the first log block and panics.
\<close>

theorem commit_full_log_panics:
  assumes "txn {} s" "lh_n s = int LOGBLOCKS"
  shows "commit s = Panic ''bget: no buffers''"
proof -
  have T: "binv (lg_dev s) (set (logged s)) {} s" "log_area s" "length (lh_block s) = LOGBLOCKS" "distinct (logged s)"
    "\<forall>k \<in> set (logged s). home s k" using assms(1) by (auto simp: txn_def)
  have c: "card (set (logged s)) = NBUF" using T(3,4) assms(2) distinct_card [OF T(4)] by (simp add: logged_def NBUF_def)
  have l: "logblk s 0 \<notin> set (logged s)" using T(5) homeD [of s _ 0] by fastforce
  obtain xs where "cache_inv s xs" using binvD(1) [OF T(1)] by blast
  then have "bread (lg_dev s) (logblk s 0) s = Panic ''bget: no buffers''" using bread_full all_pinned [OF T(1) c l] by blast
  moreover have "[0..<nat (lh_n s)] = 0 # [1..<nat (lh_n s)]" using assms(2) by (simp add: upt_conv_Cons)
  ultimately show ?thesis using assms(2) by (simp add: commit_def write_log_def logblk_def)
qed

text \<open>The example logs the blocks 40 to 69.\<close>

fun log_blocks :: "uint list \<Rightarrow> log_state \<Rightarrow> log_state outcome" where
  "log_blocks [] s = Ret s"
| "log_blocks (k # ks) s =
     obind (obind (bread 1 k s) (\<lambda>(b, s1). obind (log_write b (upd_buf b (\<lambda>x. x\<lparr>b_data := replicate BSIZE 7\<rparr>) s1)) (brelse b))) (log_blocks ks)"

lemma log_blocks_ok:
  assumes "txn {} s" "lg_dev s = 1" "lg_outstanding s = 1" "lh_n s = int (length (logged s))"
    and "distinct (logged s @ ks)" "length (logged s @ ks) \<le> LOGBLOCKS" "\<And>k. k \<in> set ks \<Longrightarrow> home s k"
  shows "\<exists>t. log_blocks ks s = Ret t \<and> txn {} t \<and> logged t = logged s @ ks \<and> lh_n t = int (length (logged s @ ks))"
  using assms
proof (induction ks arbitrary: s)
  case (Cons k ks)
  obtain u where u: "obind (bread 1 k s) (\<lambda>(b, s1). obind (log_write b (upd_buf b (\<lambda>x. x\<lparr>b_data := replicate BSIZE 7\<rparr>) s1)) (brelse b)) = Ret u"
    "txn {} u" "logged u = logged s @ [k]" "lh_n u = int (length (logged u))" "lg_dev u = 1" "lg_start u = lg_start s" "lg_outstanding u = 1"
    using update_txn [where F = "\<lambda>_. replicate BSIZE 7" and dev = 1 and k = k, OF Cons.prems(1)] Cons.prems(2-7) by (auto simp: NBUF_def)
  have "home u = home s" using u(6) by (auto simp: home_def logblk_def fun_eq_iff)
  then obtain t where "log_blocks ks u = Ret t" "txn {} t" "logged t = logged s @ k # ks" "lh_n t = int (length (logged s @ k # ks))"
    using Cons.IH [OF u(2,5,7,4)] Cons.prems(5-7) u(3) by auto
  moreover have "log_blocks (k # ks) s = log_blocks ks u" unfolding log_blocks.simps u(1) by simp
  ultimately show ?case by metis
qed simp

theorem commit_full_log_panics_witness:
  "\<exists>s. log_blocks (map of_nat [40..<70]) demo_log = Ret s \<and> commit s = Panic ''bget: no buffers''"
proof -
  note D = demo_log_ok
  let ?ks = "map (of_nat :: nat \<Rightarrow> uint) [40..<70]"
  have "home demo_log k" if "k \<in> set ?ks" for k
    using that demo_home [OF D(5)] by (auto simp del: upt_rec_numeral)
  moreover have "inj_on (of_nat :: nat \<Rightarrow> uint) {40..<70}"
    by (rule inj_on_inverseI [where g = unat]) (simp add: unat_of_nat)
  then have "distinct ?ks" by (simp add: distinct_map del: upt_rec_numeral)
  moreover have "txn {} demo_log" by (rule demo_log_txn)
  ultimately obtain s where "log_blocks (map of_nat [40..<70]) demo_log = Ret s" "txn {} s" "lh_n s = int LOGBLOCKS"
    using log_blocks_ok [of demo_log ?ks] D by (auto simp: logged_def simp del: upt_rec_numeral)
  then show ?thesis using commit_full_log_panics by blast
qed

end
