(* ===== verification/Fs_Alloc.thy ===== *)
theory Fs_Alloc
  imports Fs Log_Crash
begin

text \<open>
  The block allocator of \<^verbatim>\<open>kernel/fs.c\<close> inside a transaction: \<open>balloc\<close> is first fit on the bitmap and hands out zeroed blocks,
  \<open>bfree\<close> undoes it.
\<close>

section \<open>Bits of a bitmap block\<close>

lemma and_bit_eq_0: "n < 8 \<Longrightarrow> (w :: byte) AND push_bit n 1 = 0 \<longleftrightarrow> \<not> bit w n"
proof
  assume n: "n < 8"
  then have b: "bit (w AND push_bit n 1) n = bit w n" by (simp add: bit_simps)
  show "\<not> bit w n" if "w AND push_bit n 1 = 0" using b that by simp
  show "w AND push_bit n 1 = 0" if "\<not> bit w n"
    by (rule bit_word_eqI) (use that in \<open>auto simp: bit_simps\<close>)
qed

lemma bit_free_iff: "bit_free d bi \<longleftrightarrow> \<not> bit (d ! (bi div 8)) (bi mod 8)"
  unfolding bit_free_def by (rule and_bit_eq_0) simp

lemma same_bit: "(bi div 8 = bj div 8 \<and> bi mod 8 = bj mod 8) = (bi = (bj :: nat))"
  by (metis div_mult_mod_eq)

lemma bit_free_set_used: "bi div 8 < length d \<Longrightarrow> bj div 8 < length d \<Longrightarrow> bit_free (set_used bi d) bj \<longleftrightarrow> bit_free d bj \<and> bj \<noteq> bi"
  using same_bit[of bi bj] by (auto simp: bit_free_iff set_used_def nth_list_update bit_simps)

lemma bit_free_set_free: "bi div 8 < length d \<Longrightarrow> bj div 8 < length d \<Longrightarrow> bit_free (set_free bi d) bj \<longleftrightarrow> bit_free d bj \<or> bj = bi"
  using same_bit[of bi bj] by (auto simp: bit_free_iff set_free_def nth_list_update bit_simps)

lemma set_free_used: "bi div 8 < length d \<Longrightarrow> bit_free d bi \<Longrightarrow> set_free bi (set_used bi d) = d"
  by (rule nth_equalityI) (auto simp: bit_free_iff set_free_def set_used_def nth_list_update bit_simps intro!: bit_word_eqI)

section \<open>The bitmap of the file system\<close>

text \<open>The bit of a block, as a reader of the bitmap sees it.\<close>

definition used :: "'z fs_state_scheme \<Rightarrow> nat \<Rightarrow> bool" where
  "used s k \<longleftrightarrow> \<not> bit_free (block s (lg_dev s) (BBLOCK (of_nat k) (sb s))) (k mod BPB)"

definition fs_size :: "'z fs_state_scheme \<Rightarrow> nat" where
  "fs_size s = unat (sb_size (sb s))"

text \<open>Block 0, the log and the bitmap are marked used; bitmap blocks lie outside the log.\<close>

definition alloc_inv :: "'z fs_state_scheme \<Rightarrow> bool" where
  "alloc_inv s \<longleftrightarrow> fs_size s < 2 ^ 31 \<and> unat (sb_bmapstart (sb s)) + fs_size s div BPB < 2 ^ 31 \<and> 0 < fs_size s \<and>
     (\<forall>k < fs_size s. home s (BBLOCK (of_nat k) (sb s)) \<and>
        (\<not> used s k \<longrightarrow> k \<noteq> 0 \<and> home s (of_nat k) \<and> (\<forall>j < fs_size s. of_nat k \<noteq> BBLOCK (of_nat j) (sb s))))"

lemma alloc_invD:
  assumes "alloc_inv s"
  shows "fs_size s < 2 ^ 31" "k < fs_size s \<Longrightarrow> home s (BBLOCK (of_nat k) (sb s))" "k < fs_size s \<Longrightarrow> \<not> used s k \<Longrightarrow> k \<noteq> 0"
    "k < fs_size s \<Longrightarrow> \<not> used s k \<Longrightarrow> home s (of_nat k)"
    "k < fs_size s \<Longrightarrow> \<not> used s k \<Longrightarrow> j < fs_size s \<Longrightarrow> BBLOCK (of_nat j) (sb s) \<noteq> of_nat k"
  using assms unfolding alloc_inv_def by metis+

lemma more_fs: "log_state.more t = log_state.more s \<Longrightarrow> sb t = sb s \<and> itable t = itable s"
  by (cases s; cases t) simp

lemma unat_small: "k < 2 ^ 31 \<Longrightarrow> unat (of_nat k :: uint) = k"
  by (simp add: unat_of_nat)

lemma unat_BBLOCK:
  assumes "alloc_inv s" "k < fs_size s"
  shows "unat (BBLOCK (of_nat k) (sb s)) = k div BPB + unat (sb_bmapstart (sb s))"
proof -
  have k: "k < 2 ^ 31" "unat (sb_bmapstart (sb s)) + fs_size s div BPB < 2 ^ 31" using assms by (auto simp: alloc_inv_def)
  have "k div BPB \<le> fs_size s div BPB" using assms(2) by (intro div_le_mono) simp
  then have "k div BPB + unat (sb_bmapstart (sb s)) < 2 ^ 32" using k(2) by simp
  then show ?thesis using unat_small[OF k(1)] by (simp add: BBLOCK_def unat_word_ariths unat_div)
qed

lemma BBLOCK_eq: "alloc_inv s \<Longrightarrow> j < fs_size s \<Longrightarrow> k < fs_size s \<Longrightarrow> BBLOCK (of_nat j) (sb s) = BBLOCK (of_nat k) (sb s) \<longleftrightarrow> j div BPB = k div BPB"
  using unat_BBLOCK[of s j] unat_BBLOCK[of s k] by (auto simp: word_unat_eq_iff)

text \<open>Reading a block and releasing it again.\<close>

lemma read_txn:
  assumes "txn {} s" "k < 0x80000000" "lh_n s < int NBUF" "dev = lg_dev s"
  shows "\<exists>b s1 t. bread dev k s = Ret (b, s1) \<and> b_data (bcache s1 ! b) = block s dev k \<and> log_state.more s1 = log_state.more s \<and>
    brelse b s1 = Ret t \<and> txn {} t \<and> (\<forall>j. block t dev j = block s dev j) \<and> blk_frame s t \<and> log_state.more t = log_state.more s"
proof -
  obtain b s1 where b: "bread dev k s = Ret (b, s1)" "txn {b} s1" "b_blockno (bcache s1 ! b) = k"
    "b_data (bcache s1 ! b) = block s dev k" "\<forall>k'. block s1 dev k' = block s dev k'" "blk_frame s s1"
    using bread_txn[OF assms(1) _ assms(2) _ assms(4)] assms(3) by auto
  have dev: "dev = lg_dev s1" using frame_log(1)[OF b(6)] assms(4) by simp
  have lg: "logged s1 = logged s" using frame_log[OF b(6)] by (simp add: logged_def)
  have I: "binv dev (set (logged s)) {} s" using assms(1,4) by (simp add: txn_def)
  have "b_data (bcache s1 ! b) = platter s1 (sec_of (b_blockno (bcache s1 ! b)))" if "b_blockno (bcache s1 ! b) \<notin> set (logged s1)"
    using block_clean[OF I, of k] that b(3,4) lg blk_frame_sel(1)[OF b(6)] by simp
  from brelse_txn[OF b(2) _ dev this] obtain t where t: "brelse b s1 = Ret t" "txn {} t" "\<forall>k. block t dev k = block s1 dev k" "blk_frame s1 t"
    by auto
  show ?thesis
    using b t blk_frame_trans[OF b(6) t(4)] frame_more[OF b(6)] frame_more[OF t(4)]
    by (intro exI[of _ b] exI[of _ s1] exI[of _ t]) simp
qed

section \<open>Allocation\<close>

text \<open>\<open>alloc_ready m s\<close>: between system calls of a transaction that may still log \<open>m\<close> blocks.\<close>

definition alloc_ready :: "int \<Rightarrow> 'z fs_state_scheme \<Rightarrow> bool" where
  "alloc_ready m s \<longleftrightarrow> txn {} s \<and> alloc_inv s \<and> 1 \<le> lg_outstanding s \<and> lh_n s + m \<le> int LOGBLOCKS"

definition changes :: "(uint \<Rightarrow> byte list \<Rightarrow> byte list) \<Rightarrow> 'z fs_state_scheme \<Rightarrow> 'z fs_state_scheme \<Rightarrow> bool" where
  "changes F s t \<longleftrightarrow> (\<forall>j. block t (lg_dev s) j = F j (block s (lg_dev s) j)) \<and> log_state.more t = log_state.more s \<and> lg_dev t = lg_dev s \<and>
     lg_start t = lg_start s \<and> lg_outstanding t = lg_outstanding s \<and> platter t = platter s"

lemma home_cong: "lg_start t = lg_start s \<Longrightarrow> home t = home s"
  by (simp add: home_def logblk_def fun_eq_iff)

lemma block_len: "txn H s \<Longrightarrow> length (block s (lg_dev s) k) = BSIZE"
proof -
  assume "txn H s"
  then have I: "binv (lg_dev s) (set (logged s)) H s" by (simp add: txn_def)
  show ?thesis
    using binv_basic(5,6) [OF I] scan_SomeD(1) [of _ "take NBUF (bcache s)"] by (force simp: block_def split: option.splits)
qed

lemma used_changes:
  assumes "changes F s t"
  shows "used t k \<longleftrightarrow> \<not> bit_free (F (BBLOCK (of_nat k) (sb s)) (block s (lg_dev s) (BBLOCK (of_nat k) (sb s)))) (k mod BPB)"
    "fs_size t = fs_size s" "sb t = sb s" "home t = home s"
  using assms more_fs[of t s] home_cong[of t s] by (auto simp: changes_def used_def fs_size_def)

lemma alloc_update:
  assumes r: "txn {} s" "1 \<le> lg_outstanding s" "lh_n s < int LOGBLOCKS" and h: "home s k" and f: "length (f (block s dev k)) = BSIZE" "dev = lg_dev s"
  shows "\<exists>t. obind (bread dev k s) (\<lambda>(b, s1). obind (log_write b (upd_buf b (\<lambda>x. x\<lparr>b_data := f (b_data x)\<rparr>) s1)) (brelse b)) = Ret t \<and>
    txn {} t \<and> changes (\<lambda>j. if j = k then f else id) s t \<and> lh_n t \<le> lh_n s + 1"
proof -
  have R: "txn {} s" "lh_n s < int LOGBLOCKS" "1 \<le> lg_outstanding s" "0 \<le> lh_n s" "length (lh_block s) = LOGBLOCKS"
    using r by (auto simp: txn_def)
  have c: "k \<in> set (logged s) \<or> lh_n s + int (card {}) < int NBUF" using R(2) by (simp add: NBUF_def)
  have l: "int (length (logged s)) = lh_n s" using R(2,4,5) by (simp add: logged_def)
  have e: "\<And>i. i \<in> {} \<Longrightarrow> b_blockno (bcache s ! i) \<noteq> k" by simp
  from update_txn[where F = f and dev = dev, OF R(1) e h R(2,3) c f(2,1)] obtain t where
    t: "obind (bread dev k s) (\<lambda>(b, s1). obind (log_write b (upd_buf b (\<lambda>x. x\<lparr>b_data := f (b_data x)\<rparr>) s1)) (brelse b)) = Ret t"
      "txn {} t" "\<forall>j. block t dev j = (if j = k then f (block s dev k) else block s dev j)"
      "logged t = (if k \<in> set (logged s) then logged s else logged s @ [k])" "lh_n t = int (length (logged t))"
      "platter t = platter s" "lg_dev t = dev" "lg_start t = lg_start s" "lg_outstanding t = lg_outstanding s" "log_state.more t = log_state.more s"
    by blast
  have "lh_n t \<le> lh_n s + 1" using t(4,5) l by simp
  moreover have "changes (\<lambda>j. if j = k then f else id) s t" using t(3,6-10) f(2) by (simp add: changes_def)
  ultimately show ?thesis using t(1,2) by blast
qed

lemma bzero_update:
  "bzero dev k s = obind (bread dev k s) (\<lambda>(b, s1). obind (log_write b (upd_buf b (\<lambda>x. x\<lparr>b_data := (\<lambda>_. replicate BSIZE 0) (b_data x)\<rparr>) s1)) (brelse b))"
  by (simp add: bzero_def)

text \<open>\<open>gets_block k s t\<close>: block \<open>k\<close> was free and is now used and zero; everything else is as before.\<close>

definition gets_block :: "nat \<Rightarrow> 'z fs_state_scheme \<Rightarrow> 'z fs_state_scheme \<Rightarrow> bool" where
  "gets_block k s t \<longleftrightarrow> k < fs_size s \<and> k \<noteq> 0 \<and> \<not> used s k \<and>
     changes (\<lambda>j d. if j = of_nat k then replicate BSIZE 0 else if j = BBLOCK (of_nat k) (sb s) then set_used (k mod BPB) d else d) s t"

lemma bit_index: "k mod BPB div 8 < BSIZE"
  by (simp add: less_mult_imp_div_less)

lemma gets_block_used:
  assumes r: "txn {} s" "alloc_inv s" and g: "gets_block k s t"
  shows "j < fs_size s \<Longrightarrow> used t j \<longleftrightarrow> used s j \<or> j = k" "alloc_inv t"
proof -
  let ?F = "\<lambda>j d. if j = of_nat k then replicate BSIZE 0 else if j = BBLOCK (of_nat k) (sb s) then set_used (k mod BPB) d else d"
  have k: "k < fs_size s" "\<not> used s k" and c: "changes ?F s t" using g by (auto simp: gets_block_def)
  note U = used_changes[OF c]
  show u: "used t j \<longleftrightarrow> used s j \<or> j = k" if j: "j < fs_size s" for j
  proof -
    have n: "BBLOCK (of_nat j) (sb s) \<noteq> of_nat k" by (rule alloc_invD(5)[OF r(2) k j])
    show ?thesis
    proof (cases "j div BPB = k div BPB")
      case True
      then have e: "BBLOCK (of_nat j) (sb s) = BBLOCK (of_nat k) (sb s)" using BBLOCK_eq[OF r(2) j k(1)] by simp
      have "j mod BPB = k mod BPB \<longleftrightarrow> j = k" using True by (metis div_mult_mod_eq)
      then show ?thesis
        using n e bit_free_set_used[of "k mod BPB" "block s (lg_dev s) (BBLOCK (of_nat k) (sb s))" "j mod BPB"] block_len[OF r(1)] bit_index[of j] bit_index[of k]
        unfolding U(1) used_def[of s] by simp
    next
      case False
      then have "BBLOCK (of_nat j) (sb s) \<noteq> BBLOCK (of_nat k) (sb s)" using BBLOCK_eq[OF r(2) j k(1)] by simp
      then show ?thesis using n False unfolding U(1) used_def[of s] by auto
    qed
  qed
  show "alloc_inv t"
    using r(2) u unfolding alloc_inv_def U(2-4) by blast
qed

lemma balloc_found:
  assumes r: "alloc_ready m s" "2 \<le> m" and k: "k < fs_size s" "\<not> used s k" and dev: "dev = lg_dev s"
  shows "\<exists>t1 t. obind (bread dev (BBLOCK (of_nat k) (sb s)) s)
      (\<lambda>(b, s1). obind (log_write b (upd_buf b (\<lambda>x. x\<lparr>b_data := set_used (k mod BPB) (b_data x)\<rparr>) s1)) (brelse b)) = Ret t1 \<and>
    bzero dev (of_nat k) t1 = Ret t \<and> alloc_ready (m - 2) t \<and> gets_block k s t"
proof -
  have inv: "alloc_inv s" and tx: "txn {} s" using r by (simp_all add: alloc_ready_def)
  have h: "home s (BBLOCK (of_nat k) (sb s))" "home s (of_nat k)" "of_nat k \<noteq> BBLOCK (of_nat k) (sb s)" "k \<noteq> 0"
    using alloc_invD(2-4)[OF inv k(1)] alloc_invD(5)[OF inv k k(1)] k(2) by auto
  have len: "length (set_used (k mod BPB) (block s dev (BBLOCK (of_nat k) (sb s)))) = BSIZE"
    using block_len[OF tx] dev by (simp add: set_used_def)
  from alloc_update[where f = "set_used (k mod BPB)" and dev = dev, OF tx _ _ h(1) len dev] r obtain t1 where
    t1: "obind (bread dev (BBLOCK (of_nat k) (sb s)) s)
      (\<lambda>(b, s1). obind (log_write b (upd_buf b (\<lambda>x. x\<lparr>b_data := set_used (k mod BPB) (b_data x)\<rparr>) s1)) (brelse b)) = Ret t1"
      "txn {} t1" "changes (\<lambda>j. if j = BBLOCK (of_nat k) (sb s) then set_used (k mod BPB) else id) s t1" "lh_n t1 \<le> lh_n s + 1"
    by (auto simp: alloc_ready_def)
  note U = used_changes[OF t1(3)]
  have C: "lg_dev t1 = lg_dev s" "lg_outstanding t1 = lg_outstanding s" using t1(3) by (simp_all add: changes_def)
  obtain t where t: "bzero dev (of_nat k) t1 = Ret t" "txn {} t" "changes (\<lambda>j. if j = of_nat k then (\<lambda>_. replicate BSIZE 0) else id) t1 t" "lh_n t \<le> lh_n t1 + 1"
    using alloc_update[of t1 "of_nat k" "\<lambda>_. replicate BSIZE 0" dev] t1(2,4) C U(4) h(2) r dev unfolding bzero_update
    by (auto simp: alloc_ready_def)
  have "gets_block k s t"
    using t1(3) t(3) k h by (auto simp: gets_block_def changes_def)
  moreover have "alloc_ready (m - 2) t"
    using gets_block_used(2)[OF tx inv calculation] t(2,4) t1(4) r t(3) C by (simp add: alloc_ready_def changes_def)
  ultimately show ?thesis using t1(1) t(1) by blast
qed

text \<open>What a call of \<open>balloc\<close> does: the lowest free block, or nothing when there is none.\<close>

definition balloc_result :: "int \<Rightarrow> 'z fs_state_scheme \<Rightarrow> uint \<Rightarrow> 'z fs_state_scheme \<Rightarrow> bool" where
  "balloc_result m s r t \<longleftrightarrow>
     (if \<forall>k < fs_size s. used s k then r = 0 \<and> changes (\<lambda>_ d. d) s t \<and> alloc_ready m t
      else \<exists>k. r = of_nat k \<and> gets_block k s t \<and> (\<forall>j < k. used s j) \<and> alloc_ready (m - 2) t)"

lemma changes_id:
  assumes "changes (\<lambda>_ d. d) s u"
  shows "used u = used s" "fs_size u = fs_size s" "changes F u t \<Longrightarrow> changes F s t"
  using assms used_changes[OF assms] by (auto simp: changes_def used_def fun_eq_iff)

lemma balloc_result_id:
  assumes "changes (\<lambda>_ d. d) s u" "balloc_result m u r t"
  shows "balloc_result m s r t"
proof -
  note I = changes_id[OF assms(1)]
  have "gets_block k s t" if "gets_block k u t" for k
    using that I(3) unfolding gets_block_def I(1,2) used_changes(3)[OF assms(1)] by blast
  then show ?thesis using assms(2) I(3) unfolding balloc_result_def I(1,2) by (auto split: if_splits)
qed

lemma balloc_loop_ok:
  assumes "alloc_ready m s" "2 \<le> m" "dev = lg_dev s" "\<forall>k < fs_size s. k < i * BPB \<longrightarrow> used s k" "n = (fs_size s + BPB - 1) div BPB" "i \<le> n"
  shows "\<exists>r t. balloc_loop dev (map (\<lambda>i. i * BPB) [i..<n]) s = Ret (r, t) \<and> balloc_result m s r t"
  using assms
proof (induction "n - i" arbitrary: i s)
  case 0
  then have "fs_size s \<le> i * BPB" by simp
  then have "\<forall>k < fs_size s. used s k" using 0 by auto
  then show ?case using 0 by (auto simp: balloc_result_def changes_def)
next
  case (Suc l)
  have inv: "alloc_inv s" and tx: "txn {} s" using Suc.prems(1) by (simp_all add: alloc_ready_def)
  have i: "i < n" and b0: "i * BPB < fs_size s" using Suc.hyps(2) Suc.prems(5) by auto
  let ?B = "BBLOCK (of_nat (i * BPB)) (sb s)"
  have h: "?B < 0x80000000" using alloc_invD(2)[OF inv b0] by (simp add: home_def)
  obtain b s1 u where b: "bread dev ?B s = Ret (b, s1)" "b_data (bcache s1 ! b) = block s dev ?B" "log_state.more s1 = log_state.more s"
    "brelse b s1 = Ret u" "txn {} u" "\<forall>j. block u dev j = block s dev j" "blk_frame s u" "log_state.more u = log_state.more s"
    using read_txn[OF tx h _ Suc.prems(3)] Suc.prems(1,2) by (auto simp: alloc_ready_def NBUF_def)
  have cu: "changes (\<lambda>_ d. d) s u"
    using b(6,8) frame_log[OF b(7)] blk_frame_sel(1)[OF b(7)] Suc.prems(3) by (simp add: changes_def)
  have su: "sb s1 = sb s" using more_fs[OF b(3)] by simp
  let ?xs = "[0..<min BPB (fs_size s - i * BPB)]"
  let ?F = "bit_free (block s dev ?B)"
  have ub: "used s (i * BPB + j) \<longleftrightarrow> \<not> ?F j" if j: "j < min BPB (fs_size s - i * BPB)" for j
  proof -
    have j': "j < BPB" "i * BPB + j < fs_size s" using j by auto
    have "BBLOCK (of_nat (i * BPB + j)) (sb s) = ?B" using BBLOCK_eq[OF inv j'(2) b0] j'(1) by simp
    then show ?thesis using j'(1) Suc.prems(3) by (simp add: used_def)
  qed
  have run: "balloc_loop dev (map (\<lambda>i. i * BPB) [i..<n]) s =
    (case scan ?F ?xs of
       Some bi \<Rightarrow> obind (log_write b (upd_buf b (\<lambda>x. x\<lparr>b_data := set_used bi (b_data x)\<rparr>) s1)) (\<lambda>s2.
           obind (brelse b s2) (\<lambda>s3. obind (bzero dev (of_nat (i * BPB + bi)) s3) (\<lambda>s4. Ret (of_nat (i * BPB + bi), s4))))
     | None \<Rightarrow> balloc_loop dev (map (\<lambda>i. i * BPB) [Suc i..<n]) u)"
    using i b(1,2,4) su by (simp add: upt_conv_Cons fs_size_def del: BPB_def cong: option.case_cong)
  show ?case
  proof (cases "scan ?F ?xs")
    case None
    then have no: "used s (i * BPB + j)" if "j < min BPB (fs_size s - i * BPB)" for j using ub[OF that] that by (simp add: scan_from_None)
    have "used s k" if "k < fs_size s" "k < Suc i * BPB" for k
    proof (cases "k < i * BPB")
      case False
      then have "k - i * BPB < min BPB (fs_size s - i * BPB)" "i * BPB + (k - i * BPB) = k" using that by (auto simp: less_diff_conv2)
      then show ?thesis using no[of "k - i * BPB"] by simp
    qed (use Suc.prems(4) that in simp)
    then have ui: "\<forall>k < fs_size u. k < Suc i * BPB \<longrightarrow> used u k" using changes_id[OF cu] by simp
    have "alloc_ready m u"
      using Suc.prems(1) b(5) frame_log[OF b(7)] used_changes(3,4)[OF cu] changes_id(1,2)[OF cu] by (simp add: alloc_ready_def alloc_inv_def)
    moreover have "l = n - Suc i" "dev = lg_dev u" "n = (fs_size u + BPB - 1) div BPB" "Suc i \<le> n"
      using Suc.hyps(2) i Suc.prems(3,5) changes_id(2)[OF cu] frame_log(1)[OF b(7)] by auto
    ultimately obtain r t where "balloc_loop dev (map (\<lambda>i. i * BPB) [Suc i..<n]) u = Ret (r, t)" "balloc_result m u r t"
      using Suc.hyps(1)[of "Suc i" u] ui Suc.prems(2) by blast
    then show ?thesis using run None balloc_result_id[OF cu] by auto
  next
    case (Some bi)
    let ?k = "i * BPB + bi"
    have bi: "bi < min BPB (fs_size s - i * BPB)" "?F bi" "\<And>j. j < bi \<Longrightarrow> \<not> ?F j" using scan_SomeD[OF Some] by auto
    then have k: "?k < fs_size s" "\<not> used s ?k" "?k mod BPB = bi" using ub[OF bi(1)] by auto
    have B: "BBLOCK (of_nat ?k) (sb s) = ?B" using BBLOCK_eq[OF inv k(1) b0] bi(1) by simp
    obtain t1 t where t: "obind (log_write b (upd_buf b (\<lambda>x. x\<lparr>b_data := set_used bi (b_data x)\<rparr>) s1)) (brelse b) = Ret t1"
      "bzero dev (of_nat ?k) t1 = Ret t" "alloc_ready (m - 2) t" "gets_block ?k s t"
      using balloc_found[OF Suc.prems(1,2) k(1,2) Suc.prems(3)] unfolding B k(3) b(1) by auto
    have "used s j" if "j < ?k" for j
    proof (cases "j < i * BPB")
      case False
      then have "j - i * BPB < bi" "i * BPB + (j - i * BPB) = j" using that by (auto simp: less_diff_conv2)
      then show ?thesis using ub[of "j - i * BPB"] bi(1) bi(3)[of "j - i * BPB"] by simp
    qed (use Suc.prems(4) that k(1) in simp)
    then have "\<exists>k. (of_nat ?k :: uint) = of_nat k \<and> gets_block k s t \<and> (\<forall>j < k. used s j) \<and> alloc_ready (m - 2) t" using t(3,4) by blast
    then have "balloc_result m s (of_nat ?k) t" unfolding balloc_result_def using k(1,2) by (subst if_not_P) blast+
    moreover have "balloc_loop dev (map (\<lambda>i. i * BPB) [i..<n]) s = Ret (of_nat ?k, t)"
      using run t(1,2) unfolding Some option.case obind_assoc[symmetric] by simp
    ultimately show ?thesis by blast
  qed
qed

lemma balloc_ok:
  assumes "alloc_ready m s" "2 \<le> m" "dev = lg_dev s"
  shows "\<exists>r t. balloc dev s = Ret (r, t) \<and> balloc_result m s r t"
  using balloc_loop_ok[OF assms, of 0 "(fs_size s + BPB - 1) div BPB"] by (simp add: balloc_def fs_size_def)

lemma bfree_ok:
  assumes r: "alloc_ready m s" "1 \<le> m" and k: "k < fs_size s" and dev: "dev = lg_dev s"
  shows "if used s k then \<exists>t. bfree dev (of_nat k) s = Ret t \<and> txn {} t \<and>
      changes (\<lambda>j. if j = BBLOCK (of_nat k) (sb s) then set_free (k mod BPB) else id) s t
    else bfree dev (of_nat k) s = Panic ''freeing free block''"
proof -
  let ?B = "BBLOCK (of_nat k) (sb s)"
  have inv: "alloc_inv s" and tx: "txn {} s" and l: "1 \<le> lg_outstanding s" "lh_n s < int LOGBLOCKS" using r by (simp_all add: alloc_ready_def)
  have h: "home s ?B" "?B < 0x80000000" using alloc_invD(2)[OF inv k] by (simp_all add: home_def)
  obtain b s1 where b: "bread dev ?B s = Ret (b, s1)" "b_data (bcache s1 ! b) = block s dev ?B"
    using read_txn[OF tx h(2) _ dev] l by (auto simp: NBUF_def)
  have u: "unat (of_nat k :: uint) = k" using unat_small alloc_invD(1)[OF inv] k by simp
  show ?thesis
  proof (cases "used s k")
    case True
    have "length (set_free (k mod BPB) (block s dev ?B)) = BSIZE" using block_len[OF tx] dev by (simp add: set_free_def)
    from alloc_update[where f = "set_free (k mod BPB)" and dev = dev, OF tx l h(1) this dev] obtain t where
      "obind (bread dev ?B s) (\<lambda>(b, s1). obind (log_write b (upd_buf b (\<lambda>x. x\<lparr>b_data := set_free (k mod BPB) (b_data x)\<rparr>) s1)) (brelse b)) = Ret t"
      "txn {} t" "changes (\<lambda>j. if j = ?B then set_free (k mod BPB) else id) s t" by blast
    moreover have "\<not> bit_free (block s dev ?B) (k mod BPB)" using True dev by (simp add: used_def)
    ultimately show ?thesis using True b unfolding bfree_def u Let_def by auto
  next
    case False
    then show ?thesis using b u dev by (simp add: bfree_def used_def)
  qed
qed

lemma bfree_undoes:
  assumes r: "alloc_ready m s" "3 \<le> m" and g: "gets_block k s t" "alloc_ready (m - 2) t" and dev: "dev = lg_dev s"
  shows "\<exists>u. bfree dev (of_nat k) t = Ret u \<and> (\<forall>j < fs_size s. used u j \<longleftrightarrow> used s j)"
proof -
  have inv: "alloc_inv s" "txn {} s" "alloc_inv t" "txn {} t" using r(1) g(2) by (simp_all add: alloc_ready_def)
  let ?F = "\<lambda>j d. if j = of_nat k then replicate BSIZE 0 else if j = BBLOCK (of_nat k) (sb s) then set_used (k mod BPB) d else d"
  have c: "changes ?F s t" and k: "k < fs_size s" "\<not> used s k" using g(1) by (auto simp: gets_block_def)
  note U = used_changes[OF c]
  have ut: "used t j \<longleftrightarrow> used s j \<or> j = k" if "j < fs_size s" for j by (rule gets_block_used(1)[OF inv(2,1) g(1) that])
  have d: "lg_dev t = lg_dev s" using c by (simp add: changes_def)
  obtain u where u: "bfree dev (of_nat k) t = Ret u" "changes (\<lambda>j. if j = BBLOCK (of_nat k) (sb t) then set_free (k mod BPB) else id) t u"
    using bfree_ok[OF g(2) _ _ trans[OF dev d[symmetric]], of k] r(2) k(1) U(2) ut[OF k(1)] by auto
  have "used u j \<longleftrightarrow> used s j" if j: "j < fs_size s" for j
  proof (cases "j div BPB = k div BPB")
    case True
    then have e: "BBLOCK (of_nat j) (sb t) = BBLOCK (of_nat k) (sb t)" using BBLOCK_eq[OF inv(3)] j k(1) U(2) by simp
    have "j mod BPB = k mod BPB \<longleftrightarrow> j = k" using True by (metis div_mult_mod_eq)
    then show ?thesis
      using e ut[OF j] k(2) block_len[OF inv(4)] bit_index[of j] bit_index[of k]
        bit_free_set_free[of "k mod BPB" "block t (lg_dev t) (BBLOCK (of_nat k) (sb t))" "j mod BPB"]
      unfolding used_changes(1)[OF u(2)] used_def[of t] by auto
  next
    case False
    then have "BBLOCK (of_nat j) (sb t) \<noteq> BBLOCK (of_nat k) (sb t)" using BBLOCK_eq[OF inv(3)] j k(1) U(2) by simp
    then show ?thesis using False ut[OF j] unfolding used_changes(1)[OF u(2)] used_def[of t] by auto
  qed
  then show ?thesis using u(1) by blast
qed

section \<open>The property\<close>

text \<open>C27.  The block allocator, inside a transaction with room in the log: \<^verbatim>\<open>balloc\<close> returns; when every block is used it returns 0 and changes nothing, and
  otherwise it returns the lowest free block, which is not block 0, now marked used and filled with zeros, with no other block or bit changed;
  \<^verbatim>\<open>bfree\<close> of that block restores the bitmap, and \<^verbatim>\<open>bfree\<close> of a free block panics.\<close>

theorem balloc_first_fit:
  assumes r: "alloc_ready m s" "3 \<le> m" and dev: "dev = lg_dev s"
  shows "\<exists>r t. balloc dev s = Ret (r, t) \<and>
    (if \<forall>k < fs_size s. used s k then r = 0 \<and> (\<forall>b. block t dev b = block s dev b)
     else \<exists>k u. r = of_nat k \<and> 0 < k \<and> k < fs_size s \<and> \<not> used s k \<and> (\<forall>j < k. used s j) \<and>
       block t dev r = replicate BSIZE 0 \<and> (\<forall>b. b \<noteq> r \<longrightarrow> b \<noteq> BBLOCK r (sb s) \<longrightarrow> block t dev b = block s dev b) \<and>
       (\<forall>j < fs_size s. used t j \<longleftrightarrow> used s j \<or> j = k) \<and> alloc_ready (m - 2) t \<and>
       bfree dev r t = Ret u \<and> (\<forall>j < fs_size s. used u j \<longleftrightarrow> used s j)) \<and>
    (\<forall>k < fs_size s. \<not> used s k \<longrightarrow> bfree dev (of_nat k) s = Panic ''freeing free block'')"
proof -
  have pan: "\<forall>k < fs_size s. \<not> used s k \<longrightarrow> bfree dev (of_nat k) s = Panic ''freeing free block''"
    using bfree_ok[OF r(1) _ _ dev] r(2) by auto
  obtain r0 t where t: "balloc dev s = Ret (r0, t)" "balloc_result m s r0 t" using balloc_ok[OF r(1) _ dev] r(2) by auto
  have inv: "alloc_inv s" "txn {} s" using r(1) by (simp_all add: alloc_ready_def)
  show ?thesis
  proof (cases "\<forall>k < fs_size s. used s k")
    case True
    then have "r0 = 0" "changes (\<lambda>_ d. d) s t" using t(2) unfolding balloc_result_def by (simp_all only: if_True)
    then show ?thesis using True t(1) dev by (intro exI[of _ r0] exI[of _ t]) (auto simp: changes_def)
  next
    case False
    then obtain k where k: "r0 = of_nat k" "gets_block k s t" "\<forall>j < k. used s j" "alloc_ready (m - 2) t"
      using t(2) unfolding balloc_result_def by (simp only: if_False) blast
    obtain u where u: "bfree dev (of_nat k) t = Ret u" "\<forall>j < fs_size s. used u j \<longleftrightarrow> used s j"
      using bfree_undoes[OF r k(2,4) dev] by blast
    have "block t dev r0 = replicate BSIZE 0" "\<forall>b. b \<noteq> r0 \<longrightarrow> b \<noteq> BBLOCK r0 (sb s) \<longrightarrow> block t dev b = block s dev b"
      "0 < k" "k < fs_size s" "\<not> used s k"
      using k(1,2) dev by (auto simp: gets_block_def changes_def)
    then show ?thesis
      using False t(1) k u gets_block_used(1)[OF inv(2,1) k(2)] pan by (intro exI[of _ r0] exI[of _ t]) (simp only: if_False, blast)
  qed
qed

text \<open>The example: sixty blocks, the bitmap in block 45, all used but blocks 50 and 53; the log starts at block 2.\<close>

definition demo_bitmap :: "byte list" where
  "demo_bitmap = (replicate BSIZE 255)[6 := 219]"

definition demo_disk_fs :: "64 word \<Rightarrow> byte list" where
  "demo_disk_fs = (\<lambda>_. replicate BSIZE 0)(sec_of 45 := demo_bitmap)"

definition demo_fs :: fs_state where
  "demo_fs = binit (log_state.extend (blk_state.extend (demo_blk\<lparr>platter := demo_disk_fs\<rparr>) (log_state.fields 2 1 False 1 0 (replicate LOGBLOCKS 0)))
     (fs_state.fields \<lparr>sb_magic = FSMAGIC, sb_size = 60, sb_nblocks = 14, sb_ninodes = 200, sb_nlog = 30, sb_logstart = 2, sb_inodestart = 32,
        sb_bmapstart = 45\<rparr> []))"

lemma demo_fs_fields:
  "lg_dev demo_fs = 1" "lg_start demo_fs = 2" "lh_n demo_fs = 0" "lg_outstanding demo_fs = 1" "lh_block demo_fs = replicate LOGBLOCKS 0"
  "platter demo_fs = demo_disk_fs" "sb_size (sb demo_fs) = 60" "sb_bmapstart (sb demo_fs) = 45" "fs_size demo_fs = 60" "sb_inodestart (sb demo_fs) = 32"
  by (simp_all add: demo_fs_def fs_size_def binit_def blk_state.defs log_state.defs fs_state.defs)

lemma demo_fs_block: "binv 1 {} {} demo_fs" "block demo_fs 1 k = demo_disk_fs (sec_of k)"
proof -
  let ?s = "log_state.extend (blk_state.extend (demo_blk\<lparr>platter := demo_disk_fs\<rparr>) (log_state.fields 2 1 False 1 0 (replicate LOGBLOCKS 0)))
     (fs_state.fields \<lparr>sb_magic = FSMAGIC, sb_size = 60, sb_nblocks = 14, sb_ninodes = 200, sb_nlog = 30, sb_logstart = 2, sb_inodestart = 32,
        sb_bmapstart = 45\<rparr> [])"
  have f: "bcache ?s = bcache demo_blk" "platter ?s = demo_disk_fs" "vdisk ?s = vdisk demo_blk"
    "dev_avail ?s = dev_avail demo_blk" "blk_dev ?s = blk_dev demo_blk" "myproc ?s = myproc demo_blk" "ptable ?s = ptable demo_blk"
    by (simp_all add: blk_state.defs log_state.defs fs_state.defs myproc_def)
  have l: "length (demo_disk_fs a) = BSIZE" for a by (simp add: demo_disk_fs_def demo_bitmap_def)
  have b: "boot_bufs (bcache ?s)" "vd_idle ?s" "myproc ?s = Some 3" "3 < length (ptable ?s)"
    using demo_blk_idle by (simp_all only: f vd_idle_def) (simp_all add: boot_bufs_def NBUF_def buf0_def list_all_length)
  show "binv 1 {} {} demo_fs" unfolding demo_fs_def using b f l by (intro binit_binv(1) [where p = 3]) simp_all
  show "block demo_fs 1 k = demo_disk_fs (sec_of k)"
    unfolding demo_fs_def using binit_binv(2) [of ?s 3 1 k] b f l by simp
qed

lemma demo_fs_bblock: "k < 60 \<Longrightarrow> BBLOCK (of_nat k) (sb demo_fs) = of_nat 45"
proof -
  assume k: "k < 60"
  then have "unat (of_nat k :: uint) = k" by (simp add: unat_of_nat)
  then have "unat (of_nat k div 8192 :: uint) = 0" using k by (simp add: unat_div)
  then show ?thesis by (simp add: BBLOCK_def demo_fs_fields unat_eq_0)
qed

lemma demo_fs_used: "k < 60 \<Longrightarrow> used demo_fs k \<longleftrightarrow> k \<noteq> 50 \<and> k \<noteq> 53"
proof -
  assume k: "k < 60"
  have "list_all (\<lambda>k. bit_free demo_bitmap k \<longleftrightarrow> k = 50 \<or> k = 53) [0..<60]" by code_simp
  then have "bit_free demo_bitmap k \<longleftrightarrow> k = 50 \<or> k = 53" using k by (simp add: list_all_iff del: upt_rec_numeral)
  then show ?thesis using k by (simp add: used_def demo_fs_bblock demo_fs_fields demo_fs_block demo_disk_fs_def)
qed

lemma demo_fs_ready: "alloc_ready 30 demo_fs"
proof -
  have "replicate 4 (0 :: byte) = [0, 0, 0, 0]" by (simp add: numeral_eq_Suc)
  then have z: "get32 (replicate BSIZE 0) 0 = 0" by (simp add: get32_def slice_def word_rcat_def)
  have "sec_of 2 \<noteq> sec_of 45" by (simp add: sec_of_def)
  then have "txn {} demo_fs"
    using demo_fs_block(1) z by (simp add: txn_def logged_def log_area_def demo_fs_fields demo_disk_fs_def)
  moreover have "alloc_inv demo_fs"
    using demo_home[OF demo_fs_fields(2), of 45] demo_home[OF demo_fs_fields(2), of 50] demo_home[OF demo_fs_fields(2), of 53]
    by (auto simp: alloc_inv_def demo_fs_fields demo_fs_used demo_fs_bblock)
  ultimately show ?thesis by (simp add: alloc_ready_def demo_fs_fields)
qed

theorem balloc_first_fit_witness:
  "\<exists>t u. balloc 1 demo_fs = Ret (50, t) \<and> used t 50 \<and> bfree 1 50 t = Ret u \<and> \<not> used u 50 \<and> bfree 1 53 demo_fs = Panic ''freeing free block''"
proof -
  have nf: "\<not> (\<forall>k < fs_size demo_fs. used demo_fs k)" using demo_fs_used[of 50] by (auto simp: demo_fs_fields intro!: exI[of _ 50])
  have m: "(3 :: int) \<le> 30" by simp
  obtain r t k u where t: "balloc 1 demo_fs = Ret (r, t)" "r = of_nat k" "k < fs_size demo_fs" "\<not> used demo_fs k" "\<forall>j < k. used demo_fs j"
    "\<forall>j < fs_size demo_fs. used t j \<longleftrightarrow> used demo_fs j \<or> j = k" "bfree 1 r t = Ret u" "\<forall>j < fs_size demo_fs. used u j \<longleftrightarrow> used demo_fs j"
    "\<forall>k < fs_size demo_fs. \<not> used demo_fs k \<longrightarrow> bfree 1 (of_nat k) demo_fs = Panic ''freeing free block''"
    using balloc_first_fit[OF demo_fs_ready m demo_fs_fields(1)[symmetric]] unfolding if_not_P[OF nf] by blast
  have "k < 60" using t(3) by (simp add: demo_fs_fields)
  then have "k = 50 \<or> k = 53" using t(4) demo_fs_used[of k] by auto
  moreover have "\<not> used demo_fs 50" "\<not> used demo_fs 53" using demo_fs_used[of 50] demo_fs_used[of 53] by auto
  ultimately have k: "k = 50" using t(5) by force
  have "bfree 1 (of_nat 53) demo_fs = Panic ''freeing free block''"
    using spec[OF t(9), of 53] \<open>\<not> used demo_fs 53\<close> by (simp add: demo_fs_fields)
  then show ?thesis
    using t(1,2,7) spec[OF t(6), of 50] spec[OF t(8), of 50] k \<open>\<not> used demo_fs 50\<close> by (simp add: demo_fs_fields)
qed

end
