(* ===== verification/Inode_Disk.thy ===== *)
theory Inode_Disk
  imports Fs_Alloc
begin

text \<open>
  Inodes on disk (\<^verbatim>\<open>struct dinode\<close> of \<^verbatim>\<open>kernel/fs.h\<close>): the encoding of an inode in its block, and that \<open>ilock\<close> reads back what
  \<open>iupdate\<close> wrote.
\<close>

section \<open>The encoding\<close>

lemma put_addrs_loop:
  assumes "length d = BSIZE" "o0 + 4 * m \<le> BSIZE"
  shows "length (fold (\<lambda>i d. put32 d (o0 + 4 * i) (as ! i)) [0..<m] d) = BSIZE \<and>
    (\<forall>i < m. get32 (fold (\<lambda>i d. put32 d (o0 + 4 * i) (as ! i)) [0..<m] d) (o0 + 4 * i) = as ! i) \<and>
    (\<forall>j. j + 4 \<le> o0 \<or> o0 + 4 * m \<le> j \<longrightarrow> get32 (fold (\<lambda>i d. put32 d (o0 + 4 * i) (as ! i)) [0..<m] d) j = get32 d j) \<and>
    (\<forall>j. j + 2 \<le> o0 \<or> o0 + 4 * m \<le> j \<longrightarrow> get16 (fold (\<lambda>i d. put32 d (o0 + 4 * i) (as ! i)) [0..<m] d) j = get16 d j)"
  using assms(2)
proof (induction m)
  case 0
  then show ?case using assms(1) by simp
next
  case (Suc m)
  let ?f = "fold (\<lambda>i d. put32 d (o0 + 4 * i) (as ! i)) [0..<m] d"
  have I: "length ?f = BSIZE" "\<forall>i < m. get32 ?f (o0 + 4 * i) = as ! i"
    "\<forall>j. j + 4 \<le> o0 \<or> o0 + 4 * m \<le> j \<longrightarrow> get32 ?f j = get32 d j" "\<forall>j. j + 2 \<le> o0 \<or> o0 + 4 * m \<le> j \<longrightarrow> get16 ?f j = get16 d j"
    using Suc by auto
  have l: "o0 + 4 * m + 4 \<le> length ?f" using Suc.prems I(1) by simp
  have "get32 (put32 ?f (o0 + 4 * m) (as ! m)) (o0 + 4 * i) = as ! i" if "i < Suc m" for i
    using that I(2) l get_put_other(4)[OF l, of "o0 + 4 * i"] by (cases "i = m") auto
  moreover have "get32 (put32 ?f (o0 + 4 * m) (as ! m)) j = get32 d j" if "j + 4 \<le> o0 \<or> o0 + 4 * Suc m \<le> j" for j
    using that I(3) get_put_other(4)[OF l, of j] by auto
  moreover have "get16 (put32 ?f (o0 + 4 * m) (as ! m)) j = get16 d j" if "j + 2 \<le> o0 \<or> o0 + 4 * Suc m \<le> j" for j
    using that I(4) get_put_other(2)[OF l, of j] by auto
  ultimately show ?case using l I(1) by simp
qed

lemma put_dinode_fields:
  assumes "length d = BSIZE" "o0 + 64 \<le> BSIZE" "length (di_addrs x) = NDIRECT + 1"
  shows "length (put_dinode d o0 x) = BSIZE" "get_dinode (put_dinode d o0 x) o0 = x"
    "o1 + 64 \<le> o0 \<or> o0 + 64 \<le> o1 \<Longrightarrow> get_dinode (put_dinode d o0 x) o1 = get_dinode d o1"
proof -
  let ?d5 = "put32 (put16 (put16 (put16 (put16 d o0 (di_type x)) (o0 + 2) (di_major x)) (o0 + 4) (di_minor x)) (o0 + 6) (di_nlink x)) (o0 + 8) (di_size x)"
  have e: "put_dinode d o0 x = fold (\<lambda>i d. put32 d (o0 + 12 + 4 * i) (di_addrs x ! i)) [0..<13] ?d5"
    by (simp add: put_dinode_def put_addrs_def Let_def)
  have l5: "length ?d5 = BSIZE" using assms(1,2) by simp
  note L = put_addrs_loop[OF l5, of "o0 + 12" 13 "di_addrs x"]
  have L': "length (put_dinode d o0 x) = BSIZE" "\<And>i. i < 13 \<Longrightarrow> get32 (put_dinode d o0 x) (o0 + 12 + 4 * i) = di_addrs x ! i"
    "\<And>j. j + 4 \<le> o0 + 12 \<or> o0 + 64 \<le> j \<Longrightarrow> get32 (put_dinode d o0 x) j = get32 ?d5 j"
    "\<And>j. j + 2 \<le> o0 + 12 \<or> o0 + 64 \<le> j \<Longrightarrow> get16 (put_dinode d o0 x) j = get16 ?d5 j"
    using L assms(2) unfolding e by auto
  show "length (put_dinode d o0 x) = BSIZE" by (rule L'(1))
  have "map (\<lambda>i. get32 (put_dinode d o0 x) (o0 + 12 + 4 * i)) [0..<NDIRECT + 1] = di_addrs x"
    using assms(3) by (intro nth_equalityI) (simp_all add: L'(2) del: upt_Suc)
  then show "get_dinode (put_dinode d o0 x) o0 = x"
    using assms(1,2) by (simp add: get_dinode_def L'(3,4) get_put_other del: upt_Suc)
  assume o1: "o1 + 64 \<le> o0 \<or> o0 + 64 \<le> o1"
  have "get32 (put_dinode d o0 x) (o1 + j) = get32 d (o1 + j)" if "j + 4 \<le> 64" for j
    using that o1 assms(1,2) by (subst L'(3)) (auto simp: get_put_other)
  moreover have "get16 (put_dinode d o0 x) (o1 + j) = get16 d (o1 + j)" if "j + 2 \<le> 64" for j
    using that o1 assms(1,2) by (subst L'(4)) (auto simp: get_put_other)
  note g16 = this
  ultimately have g32: "\<And>j. j + 4 \<le> 64 \<Longrightarrow> get32 (put_dinode d o0 x) (o1 + j) = get32 d (o1 + j)" by blast
  have "map (\<lambda>i. get32 (put_dinode d o0 x) (o1 + 12 + 4 * i)) [0..<NDIRECT + 1] = map (\<lambda>i. get32 d (o1 + 12 + 4 * i)) [0..<NDIRECT + 1]"
    using g32[of "12 + 4 * i" for i] by (auto simp: add.assoc simp del: upt_Suc)
  then show "get_dinode (put_dinode d o0 x) o1 = get_dinode d o1"
    using g16[of 0] g16[of 2] g16[of 4] g16[of 6] g32[of 8] by (simp add: get_dinode_def del: upt_Suc)
qed

section \<open>The inode blocks\<close>

definition disk_inode :: "'z fs_state_scheme \<Rightarrow> uint \<Rightarrow> dinode" where
  "disk_inode s n = get_dinode (block s (lg_dev s) (IBLOCK n (sb s))) (inode_off n)"

lemma IBLOCK_eq: "IBLOCK n b = IBLOCK m b \<longleftrightarrow> unat n div 16 = unat m div 16"
proof -
  have "IBLOCK n b = IBLOCK m b \<longleftrightarrow> n div 16 = m div 16" by (simp add: IBLOCK_def)
  also have "\<dots> \<longleftrightarrow> unat n div 16 = unat m div 16" by (simp add: word_unat_eq_iff unat_div)
  finally show ?thesis .
qed

lemma inode_off_fits: "inode_off n + 64 \<le> BSIZE"
  by (simp add: inode_off_def)

lemma inode_apart: "n \<noteq> m \<Longrightarrow> IBLOCK n b = IBLOCK m b \<Longrightarrow> inode_off n + 64 \<le> inode_off m \<or> inode_off m + 64 \<le> inode_off n"
proof -
  assume a: "n \<noteq> m" "IBLOCK n b = IBLOCK m b"
  then have "unat n mod 16 \<noteq> unat m mod 16" by (metis IBLOCK_eq div_mult_mod_eq word_unat_eq_iff)
  then show ?thesis by (simp add: inode_off_def) linarith
qed

lemma iupdate_ok:
  assumes s: "txn {} s" "1 \<le> lg_outstanding s" "lh_n s < int LOGBLOCKS" and ip: "ip = itable s ! i" "i_dev ip = lg_dev s" "length (i_addrs ip) = NDIRECT + 1"
    and h: "home s (IBLOCK (i_inum ip) (sb s))"
  shows "\<exists>t. iupdate i s = Ret t \<and> txn {} t \<and> lh_n t \<le> lh_n s + 1 \<and>
    changes (\<lambda>j. if j = IBLOCK (i_inum ip) (sb s) then (\<lambda>d. put_dinode d (inode_off (i_inum ip)) (to_dinode ip)) else id) s t"
proof -
  let ?f = "\<lambda>d. put_dinode d (inode_off (i_inum ip)) (to_dinode ip)"
  have "length (?f (block s (lg_dev s) (IBLOCK (i_inum ip) (sb s)))) = BSIZE"
    by (rule put_dinode_fields(1)[OF block_len[OF s(1)] inode_off_fits]) (simp add: to_dinode_def ip(3))
  from alloc_update[where f = ?f, OF s h this refl] show ?thesis
    by (auto simp: iupdate_def Let_def ip(2) simp flip: ip(1))
qed

lemma disk_inode_changes:
  assumes s: "txn {} s" and l: "length (di_addrs x) = NDIRECT + 1"
    and c: "changes (\<lambda>j. if j = IBLOCK n (sb s) then (\<lambda>d. put_dinode d (inode_off n) x) else id) s t"
  shows "disk_inode t n = x" "m \<noteq> n \<Longrightarrow> disk_inode t m = disk_inode s m"
proof -
  have b: "block t (lg_dev t) k = (if k = IBLOCK n (sb s) then put_dinode (block s (lg_dev s) k) (inode_off n) x else block s (lg_dev s) k)"
    "sb t = sb s" for k
    using c more_fs[of t s] by (auto simp: changes_def)
  note P = put_dinode_fields[OF block_len[OF s] inode_off_fits[of n] l]
  show "disk_inode t n = x" using P(2) by (simp add: disk_inode_def b)
  assume "m \<noteq> n"
  then show "disk_inode t m = disk_inode s m"
    using inode_apart[of m n "sb s"] P(3) by (auto simp: disk_inode_def b)
qed

section \<open>Reading an inode\<close>

lemma txn_itable [simp]: "txn H (s\<lparr>itable := x\<rparr>) = txn H s"
  by (simp add: txn_def binv_def cache_inv_def mine_def myproc_def vd_idle_def logged_def log_area_def home_def logblk_def)

lemma block_itable [simp]: "block (s\<lparr>itable := x\<rparr>) dev k = block s dev k"
  by (rule block_cong) simp_all

lemma brelse_itable: "brelse b (s\<lparr>itable := x\<rparr>) = obind (brelse b s) (\<lambda>t. Ret (t\<lparr>itable := x\<rparr>))"
  by (simp add: brelse_def holdingsleep_def releasesleep_def wakeup_def myproc_def Let_def split: option.split)

lemma ilock_ok:
  assumes s: "txn {} s" "lh_n s < int NBUF" and j: "j < length (itable s)" "x = itable s ! j"
    and x: "1 \<le> i_ref x" "\<not> sl_locked (i_lock x)" "\<not> i_valid x" "i_dev x = lg_dev s" "IBLOCK (i_inum x) (sb s) < 0x80000000"
    and ty: "di_type (disk_inode s (i_inum x)) \<noteq> 0"
  shows "\<exists>u. ilock (Some j) s = Ret u \<and> to_dinode (itable u ! j) = disk_inode s (i_inum x) \<and> i_valid (itable u ! j) \<and> txn {} u \<and>
    (\<forall>k. block u (lg_dev s) k = block s (lg_dev s) k)"
proof -
  have "\<exists>xs. cache_inv s xs" using s(1) by (auto simp: txn_def binv_def)
  then obtain p where p: "myproc s = Some p" by (auto simp: cache_inv_def)
  let ?lk = "(i_lock x)\<lparr>sl_locked := True, sl_pid := p_pid (ptable s ! p)\<rparr>"
  let ?s1 = "upd_inode j (\<lambda>y. y\<lparr>i_lock := ?lk\<rparr>) s"
  let ?d = "disk_inode s (i_inum x)"
  have a: "acquiresleep s (i_lock x) = Ret ?lk" using x(2) p by (simp add: acquiresleep_def)
  have n1: "itable ?s1 ! j = x\<lparr>i_lock := ?lk\<rparr>" using j by (simp add: nth_upd_at)
  have t1: "txn {} ?s1" "lh_n ?s1 < int NBUF" "lg_dev s = lg_dev ?s1" using s by simp_all
  obtain b s2 t where b: "bread (lg_dev s) (IBLOCK (i_inum x) (sb s)) ?s1 = Ret (b, s2)"
    "b_data (bcache s2 ! b) = block ?s1 (lg_dev s) (IBLOCK (i_inum x) (sb s))" "log_state.more s2 = log_state.more ?s1"
    "brelse b s2 = Ret t" "txn {} t" "\<forall>j. block t (lg_dev s) j = block ?s1 (lg_dev s) j"
    using read_txn[OF t1(1) x(5) t1(2,3)] by blast
  have i2: "itable s2 = itable ?s1" using more_fs[OF b(3)] by simp
  have d: "get_dinode (b_data (bcache s2 ! b)) (inode_off (i_inum x)) = ?d" using b(2) by (simp add: disk_inode_def)
  let ?u = "t\<lparr>itable := upd_at j (\<lambda>y. y\<lparr>i_valid := True\<rparr>) (upd_at j (from_dinode ?d) (itable ?s1))\<rparr>"
  have nu: "itable ?u ! j = (from_dinode ?d (x\<lparr>i_lock := ?lk\<rparr>))\<lparr>i_valid := True\<rparr>" using j by (simp add: nth_upd_at)
  have "ilock (Some j) s = Ret ?u"
    using a x(1,3,4) b(1,4) d ty nu n1 j(2) unfolding ilock_def
    by (simp add: Let_def brelse_itable i2 from_dinode_def)
  moreover have "to_dinode (itable ?u ! j) = ?d" "i_valid (itable ?u ! j)" unfolding nu by (simp_all add: to_dinode_def from_dinode_def)
  ultimately show ?thesis using b(5,6) by (intro exI[of _ ?u]) simp
qed

section \<open>The property\<close>

text \<open>C28.  An inode survives the trip to disk: after \<^verbatim>\<open>iupdate\<close> its slot in the inode block holds exactly its fields, the slots of all other
  inodes are as before, and \<^verbatim>\<open>ilock\<close> of any table entry for the same inode that has not been read yet loads these fields.\<close>

theorem iupdate_ilock:
  assumes s: "txn {} s" "1 \<le> lg_outstanding s" "lh_n s + 1 < int LOGBLOCKS"
    and ip: "ip = itable s ! i" "i_dev ip = lg_dev s" "length (i_addrs ip) = NDIRECT + 1" "i_type ip \<noteq> 0"
    and h: "home s (IBLOCK (i_inum ip) (sb s))"
  shows "\<exists>t. iupdate i s = Ret t \<and> disk_inode t (i_inum ip) = to_dinode ip \<and> (\<forall>n. n \<noteq> i_inum ip \<longrightarrow> disk_inode t n = disk_inode s n) \<and>
    itable t = itable s \<and>
    (\<forall>j < length (itable s). i_inum (itable s ! j) = i_inum ip \<and> i_dev (itable s ! j) = i_dev ip \<and> 1 \<le> i_ref (itable s ! j) \<and>
       \<not> sl_locked (i_lock (itable s ! j)) \<and> \<not> i_valid (itable s ! j) \<longrightarrow>
       (\<exists>u. ilock (Some j) t = Ret u \<and> to_dinode (itable u ! j) = to_dinode ip \<and> i_valid (itable u ! j)))"
proof -
  have "lh_n s < int LOGBLOCKS" using s(3) by simp
  from iupdate_ok[OF s(1,2) this ip(1-3) h] obtain t where t: "iupdate i s = Ret t" "txn {} t" "lh_n t \<le> lh_n s + 1"
    "changes (\<lambda>j. if j = IBLOCK (i_inum ip) (sb s) then (\<lambda>d. put_dinode d (inode_off (i_inum ip)) (to_dinode ip)) else id) s t" by blast
  have l: "length (di_addrs (to_dinode ip)) = NDIRECT + 1" using ip(3) by (simp add: to_dinode_def)
  note D = disk_inode_changes[OF s(1) l t(4)]
  have f: "sb t = sb s" "itable t = itable s" "lg_dev t = lg_dev s" using t(4) more_fs[of t s] by (auto simp: changes_def)
  have n: "lh_n t < int NBUF" using t(3) s(3) by (simp add: NBUF_def)
  have k: "IBLOCK (i_inum ip) (sb t) < 0x80000000" using h f(1) by (simp add: home_def)
  have ty: "di_type (disk_inode t (i_inum ip)) \<noteq> 0" using D(1) ip(4) by (simp add: to_dinode_def)
  have "\<exists>u. ilock (Some j) t = Ret u \<and> to_dinode (itable u ! j) = to_dinode ip \<and> i_valid (itable u ! j)"
    if j: "j < length (itable s)" and "i_inum (itable s ! j) = i_inum ip \<and> i_dev (itable s ! j) = i_dev ip \<and> 1 \<le> i_ref (itable s ! j) \<and>
       \<not> sl_locked (i_lock (itable s ! j)) \<and> \<not> i_valid (itable s ! j)" for j
    using ilock_ok[OF t(2) n, of j "itable s ! j"] that k ty D(1) f ip(2) by auto
  then show ?thesis using t(1) D f(2) by blast
qed

definition inode0 :: inode where
  "inode0 = \<lparr>i_dev = 1, i_inum = 133, i_ref = 1, i_lock = \<lparr>sl_locked = False, sl_pid = 0\<rparr>, i_valid = False, i_type = 0, i_major = 0, i_minor = 0,
     i_nlink = 0, i_size = 0, i_addrs = replicate (NDIRECT + 1) 0\<rparr>"

theorem iupdate_ilock_witness:
  "\<exists>t u. iupdate 0 (demo_fs\<lparr>itable := [inode0\<lparr>i_valid := True, i_type := T_FILE, i_size := 77\<rparr>, inode0]\<rparr>) = Ret t \<and>
     ilock (Some 1) t = Ret u \<and> i_size (itable u ! 1) = 77"
proof -
  let ?s = "demo_fs\<lparr>itable := [inode0\<lparr>i_valid := True, i_type := T_FILE, i_size := 77\<rparr>, inode0]\<rparr>"
  have r: "txn {} demo_fs" using demo_fs_ready by (simp add: alloc_ready_def)
  have "sb_inodestart (sb demo_fs) = 32" by (simp add: demo_fs_def binit_def blk_state.defs log_state.defs fs_state.defs)
  then have b: "IBLOCK 133 (sb ?s) = of_nat 40" by (simp add: IBLOCK_def)
  let ?a = "inode0\<lparr>i_valid := True, i_type := T_FILE, i_size := 77\<rparr>"
  have a: "?a = itable ?s ! 0" "i_dev ?a = lg_dev ?s" "length (i_addrs ?a) = NDIRECT + 1" "i_type ?a \<noteq> 0"
    by (simp_all add: demo_fs_fields inode0_def)
  have h: "home ?s (IBLOCK (i_inum ?a) (sb ?s))" using demo_home[of ?s 40] b by (simp add: demo_fs_fields inode0_def)
  have c: "txn {} ?s" "1 \<le> lg_outstanding ?s" "lh_n ?s + 1 < int LOGBLOCKS" using r by (simp_all add: demo_fs_fields)
  obtain t where t: "iupdate 0 ?s = Ret t"
    "\<forall>j < length (itable ?s). i_inum (itable ?s ! j) = i_inum ?a \<and> i_dev (itable ?s ! j) = i_dev ?a \<and> 1 \<le> i_ref (itable ?s ! j) \<and>
       \<not> sl_locked (i_lock (itable ?s ! j)) \<and> \<not> i_valid (itable ?s ! j) \<longrightarrow>
       (\<exists>u. ilock (Some j) t = Ret u \<and> to_dinode (itable u ! j) = to_dinode ?a \<and> i_valid (itable u ! j))"
    using iupdate_ilock[OF c a h] by blast
  obtain u where u: "ilock (Some 1) t = Ret u" "to_dinode (itable u ! 1) = to_dinode ?a"
    using spec[OF t(2), of 1] by (auto simp: inode0_def)
  then have "i_size (itable u ! 1) = 77" by (simp add: to_dinode_def)
  then show ?thesis using t(1) u(1) by blast
qed

end
