(* ===== verification/Path_Names.thy ===== *)
theory Path_Names
  imports Fs
begin

text \<open>
  Path names.  The reference takes the list of the non-empty pieces of a path between slashes, each cut to
  \<open>DIRSIZ\<close> bytes, and follows it from directory to directory; \<open>namei\<close> and \<open>nameiparent\<close> do the same.
\<close>

section \<open>The reference\<close>

fun pieces :: "byte list \<Rightarrow> byte list list" where
  "pieces [] = [[]]"
| "pieces (c # cs) = (if c = SLASH then [] # pieces cs else (c # hd (pieces cs)) # tl (pieces cs))"

definition components :: "byte list \<Rightarrow> byte list list" where
  "components path = filter (\<lambda>p. p \<noteq> []) (pieces path)"

fun join :: "byte list list \<Rightarrow> byte list" where
  "join [] = []"
| "join [p] = p"
| "join (p # ps) = p @ SLASH # join ps"

lemma pieces_nonempty: "pieces cs \<noteq> []"
  by (cases cs) auto

lemma join_pieces: "join (pieces cs) = cs"
proof (induction cs)
  case (Cons c cs)
  obtain p ps where "pieces cs = p # ps" using pieces_nonempty [of cs] by (cases "pieces cs") auto
  then show ?case using Cons by (cases ps) auto
qed simp

lemma pieces_no_slash: "p \<in> set (pieces cs) \<Longrightarrow> SLASH \<notin> set p"
proof (induction cs arbitrary: p)
  case (Cons c cs)
  obtain q qs where "pieces cs = q # qs" using pieces_nonempty [of cs] by (cases "pieces cs") auto
  then show ?case using Cons by (auto split: if_splits)
qed simp

text \<open>
  \<open>enter\<close> looks up one name in one directory, with the locking the kernel uses; \<open>resolve\<close> follows a list of
  names, \<open>resolve_parent\<close> stops before the last one and hands it back.
\<close>

definition enter :: "nat \<Rightarrow> byte list \<Rightarrow> 'z fs_state_scheme \<Rightarrow> (nat option \<times> 'z fs_state_scheme) outcome" where
  "enter ip name s =
     obind (ilock (Some ip) s) (\<lambda>s1.
     obind (if i_type (itable s1 ! ip) = T_DIR then dirlookup ip name s1 else Ret (None, s1)) (\<lambda>(found, s2).
     obind (iunlockput ip s2) (\<lambda>s3. Ret (map_option fst found, s3))))"

fun resolve :: "byte list list \<Rightarrow> nat \<Rightarrow> 'z fs_state_scheme \<Rightarrow> (nat option \<times> 'z fs_state_scheme) outcome" where
  "resolve [] ip s = Ret (Some ip, s)"
| "resolve (name # names) ip s =
     obind (enter ip name s) (\<lambda>(r, s1). case r of None \<Rightarrow> Ret (None, s1) | Some nxt \<Rightarrow> resolve names nxt s1)"

definition is_dir :: "nat \<Rightarrow> 'z fs_state_scheme \<Rightarrow> (nat option \<times> 'z fs_state_scheme) outcome" where
  "is_dir ip s =
     obind (ilock (Some ip) s) (\<lambda>s1.
       if i_type (itable s1 ! ip) = T_DIR then obind (iunlock (Some ip) s1) (\<lambda>s2. Ret (Some ip, s2))
       else obind (iunlockput ip s1) (\<lambda>s2. Ret (None, s2)))"

fun resolve_parent ::
  "byte list list \<Rightarrow> nat \<Rightarrow> 'z fs_state_scheme \<Rightarrow> (nat option \<times> byte list \<times> 'z fs_state_scheme) outcome" where
  "resolve_parent [] ip s = obind (iput ip s) (\<lambda>s1. Ret (None, [], s1))"
| "resolve_parent [name] ip s = obind (is_dir ip s) (\<lambda>(r, s1). Ret (r, name, s1))"
| "resolve_parent (name # n # names) ip s =
     obind (enter ip name s) (\<lambda>(r, s1). case r of None \<Rightarrow> Ret (None, name, s1) | Some nxt \<Rightarrow> resolve_parent (n # names) nxt s1)"

text \<open>Where a path starts: at the root, or in the current directory of the process.\<close>

definition path_start :: "byte list \<Rightarrow> 'z fs_state_scheme \<Rightarrow> (nat \<times> 'z fs_state_scheme) outcome" where
  "path_start path s =
     (if take 1 path = [SLASH] then iget ROOTDEV ROOTINO s
      else case myproc s of
             None \<Rightarrow> Panic ''kerneltrap''
           | Some p \<Rightarrow> (case p_cwd (ptable s ! p) of None \<Rightarrow> Panic ''kerneltrap'' | Some ip \<Rightarrow> Ret (ip, idup ip s)))"

section \<open>Splitting off the components one by one\<close>

lemma components_skip [simp]: "components (47 # cs) = components cs"
  by (simp add: components_def)

lemma components_dropWhile: "components (dropWhile (\<lambda>c. c = SLASH) cs) = components cs"
  by (induction cs) auto

lemma components_elem:
  "SLASH \<notin> set e \<Longrightarrow> e \<noteq> [] \<Longrightarrow> r = [] \<or> hd r = SLASH \<Longrightarrow> components (e @ r) = e # components r"
proof (induction e)
  case (Cons c e)
  show ?case
  proof (cases "e = []")
    case True
    then show ?thesis using Cons.prems pieces_nonempty by (cases r) (auto simp: components_def)
  next
    case False
    then have "components (e @ r) = e # components r" using Cons by simp
    moreover obtain p ps where p: "pieces (e @ r) = p # ps" using pieces_nonempty [of "e @ r"] by (cases "pieces (e @ r)") auto
    moreover have "p \<noteq> []" using p False Cons.prems by (cases e) (auto split: if_splits)
    ultimately show ?thesis using Cons.prems by (auto simp: components_def)
  qed
qed simp

lemma skipelem_cases:
  "skipelem path = None \<and> components path = [] \<or>
   (\<exists>rest e. skipelem path = Some (rest, take DIRSIZ e) \<and> components path = e # components rest \<and> length rest < length path)"
proof -
  define p where "p = dropWhile (\<lambda>c. c = SLASH) path"
  define e where "e = takeWhile (\<lambda>c. c \<noteq> SLASH) p"
  define r where "r = dropWhile (\<lambda>c. c \<noteq> SLASH) p"
  have c: "components path = components p" unfolding p_def by (rule components_dropWhile [symmetric])
  have l: "length p \<le> length path" unfolding p_def by (rule length_dropWhile_le)
  show ?thesis
  proof (cases "p = []")
    case True
    then have "skipelem path = None" by (simp only: skipelem_def Let_def p_def [symmetric] if_True simp_thms)
    then show ?thesis using True c by (simp add: components_def)
  next
    case False
    have "hd p \<noteq> SLASH" using False unfolding p_def by (rule hd_dropWhile)
    then have ne: "e \<noteq> []" using False unfolding e_def by (cases p) auto
    have "SLASH \<notin> set e" unfolding e_def by (auto dest: set_takeWhileD)
    moreover have "r = [] \<or> hd r = SLASH" unfolding r_def using hd_dropWhile [of "\<lambda>c. c \<noteq> SLASH" p] by blast
    ultimately have "components (e @ r) = e # components r" using ne components_elem by blast
    moreover have er: "e @ r = p" by (simp add: e_def r_def)
    ultimately have "components path = e # components (dropWhile (\<lambda>c. c = SLASH) r)" using c components_dropWhile by metis
    moreover have "length (dropWhile (\<lambda>c. c = SLASH) r) < length path"
      using er ne l length_dropWhile_le [of "\<lambda>c. c = SLASH" r] by (cases e) auto
    moreover have "skipelem path = Some (dropWhile (\<lambda>c. c = SLASH) r, take DIRSIZ e)"
      using False by (simp only: skipelem_def Let_def p_def [symmetric] e_def [symmetric] r_def [symmetric] if_False simp_thms)
    ultimately show ?thesis by blast
  qed
qed

lemma components_Nil: "components path = [] \<longleftrightarrow> (\<forall>c \<in> set path. c = SLASH)"
proof (induction path)
  case (Cons c cs)
  obtain p ps where p: "pieces cs = p # ps" using pieces_nonempty [of cs] by (cases "pieces cs") auto
  show ?case using Cons p by (auto simp: components_def)
qed (simp add: components_def)

lemma skipelem_rest:
  assumes "skipelem path = Some (rest, name)"
  shows "components rest = [] \<longleftrightarrow> rest = []"
proof -
  obtain r where "rest = dropWhile (\<lambda>c. c = SLASH) r" using assms by (auto simp: skipelem_def Let_def split: if_splits)
  then have "rest \<noteq> [] \<Longrightarrow> hd rest \<noteq> SLASH" using hd_dropWhile [of "\<lambda>c. c = SLASH" r] by auto
  then show ?thesis by (cases rest) (auto simp: components_Nil)
qed

text \<open>The names of a path, as the directories hold them.\<close>

definition names_of :: "byte list \<Rightarrow> byte list list" where
  "names_of path = map (take DIRSIZ) (components path)"

lemma skipelem_names:
  obtains "skipelem path = None" "names_of path = []"
  | rest name where "skipelem path = Some (rest, name)" "names_of path = name # names_of rest" "length rest < length path"
    "names_of rest = [] \<longleftrightarrow> rest = []"
  using skipelem_cases [of path] skipelem_rest by (fastforce simp: names_of_def)

section \<open>The walk\<close>

lemma namex_loop_step:
  assumes "skipelem path = Some (rest, name1)"
  shows "namex_loop (Suc fuel) ip path parent name s =
    (if parent \<and> rest = [] then obind (is_dir ip s) (\<lambda>(r, s1). Ret (r, name1, s1))
     else obind (enter ip name1 s) (\<lambda>(r, s1).
       case r of None \<Rightarrow> Ret (None, name1, s1) | Some nxt \<Rightarrow> namex_loop fuel nxt rest parent name1 s1))"
proof (cases "ilock (Some ip) s")
  case (Ret s1)
  then show ?thesis
    using assms by (cases "dirlookup ip name1 s1") (auto simp: enter_def is_dir_def obind_assoc split: option.splits)
qed (use assms in \<open>simp_all add: enter_def is_dir_def\<close>)

lemma namex_loop_resolve:
  "length path < fuel \<Longrightarrow>
   obind (namex_loop fuel ip path False name s) (\<lambda>(r, _, t). Ret (r, t)) = resolve (names_of path) ip s"
  for s :: "'z fs_state_scheme"
proof (induction fuel arbitrary: ip path name s)
  case (Suc fuel)
  show ?case
  proof (cases path rule: skipelem_names)
    case (2 rest name1)
    have "obind (namex_loop fuel nxt rest False name1 s1) (\<lambda>(r, _, t). Ret (r, t)) = resolve (names_of rest) nxt s1" for nxt and s1 :: "'z fs_state_scheme"
      using Suc 2(3) by simp
    then show ?thesis
      unfolding namex_loop_step [OF 2(1)] 2(2) resolve.simps
      by (simp add: obind_assoc del: namex_loop.simps) (intro obind_cong refl, simp split: prod.split option.split)
  qed simp
qed simp

lemma namex_loop_resolve_parent:
  "length path < fuel \<Longrightarrow> names_of path \<noteq> [] \<Longrightarrow> namex_loop fuel ip path True name s = resolve_parent (names_of path) ip s"
  for s :: "'z fs_state_scheme"
proof (induction fuel arbitrary: ip path name s)
  case (Suc fuel)
  show ?case
  proof (cases path rule: skipelem_names)
    case (2 rest name1)
    show ?thesis
    proof (cases "names_of rest")
      case Nil
      then show ?thesis using 2(4) unfolding namex_loop_step [OF 2(1)] 2(2) by simp
    next
      case (Cons n ns)
      have "namex_loop fuel nxt rest True name1 s1 = resolve_parent (n # ns) nxt s1" for nxt and s1 :: "'z fs_state_scheme"
        using Suc.IH [of rest nxt name1 s1] Suc.prems 2(3) Cons by simp
      then show ?thesis using 2(4) Cons unfolding namex_loop_step [OF 2(1)] 2(2)
        by simp (intro obind_cong refl, simp split: prod.split option.split)
    qed
  qed (use Suc.prems in simp)
qed simp

lemma namex_start: "namex path parent s = obind (path_start path s) (\<lambda>(ip, s1). namex_loop (Suc (length path)) ip path parent [] s1)"
proof -
  have "(path \<noteq> [] \<and> hd path = SLASH) = (take 1 path = [SLASH])" by (cases path) auto
  then show ?thesis unfolding namex_def path_start_def by (simp only:)
qed

text \<open>
  C29. Path names are followed as the reference says, in every state of the file system.  \<open>namei\<close> starts at the root or in the
  current directory and looks up, each in the directory the one before led to, exactly the non-empty pieces of the
  path between slashes, in order and cut to \<open>DIRSIZ\<close> bytes.  \<open>nameiparent\<close> does the same up to the last piece, which it
  returns with its directory, and fails on a path without pieces.
\<close>

theorem namex_follows_components:
  "namei path s = obind (path_start path s) (\<lambda>(ip, s1). resolve (map (take DIRSIZ) (components path)) ip s1) \<and>
   nameiparent path s = obind (path_start path s) (\<lambda>(ip, s1). resolve_parent (map (take DIRSIZ) (components path)) ip s1)"
proof
  have "obind (namex_loop (Suc (length path)) ip path False [] s1) (\<lambda>(r, _, t). Ret (r, t)) = resolve (names_of path) ip s1"
    for ip and s1 :: "'a fs_state_scheme"
    by (rule namex_loop_resolve) simp
  then show "namei path s = obind (path_start path s) (\<lambda>(ip, s1). resolve (map (take DIRSIZ) (components path)) ip s1)"
    by (simp add: namei_def namex_start obind_assoc split_def names_of_def del: namex_loop.simps)
  have "namex_loop (Suc (length path)) ip path True [] s1 = resolve_parent (names_of path) ip s1" for ip and s1 :: "'a fs_state_scheme"
  proof (cases path rule: skipelem_names)
    case 2
    then show ?thesis by (intro namex_loop_resolve_parent) simp_all
  qed simp
  then show "nameiparent path s = obind (path_start path s) (\<lambda>(ip, s1). resolve_parent (map (take DIRSIZ) (components path)) ip s1)"
    by (simp add: nameiparent_def namex_start names_of_def del: namex_loop.simps)
qed

end
