(* ===== verification/Clock.thy ===== *)
theory Clock
  imports Memsys
begin

text \<open>
  The clock scan of \<open>evict_page\<close>.  A pass of the hand over the ring of frames is \<open>sweep\<close>: it clears the
  reference bits it passes.  The scan takes at most two passes and stops at the frame of the lowest
  priority process among the unreferenced frames, or among all frames in use if every one of them
  is referenced.
\<close>

section \<open>Frames and the ring\<close>

definition usable :: "'z mm_state_scheme \<Rightarrow> nat \<Rightarrow> bool" where
  "usable s i \<longleftrightarrow> fr_in_use (frame_table s ! i) \<noteq> 0 \<and> fr_owner (frame_table s ! i) \<noteq> None"

definition idle :: "'z mm_state_scheme \<Rightarrow> nat \<Rightarrow> bool" where
  "idle s i \<longleftrightarrow> usable s i \<and> fr_ref_bit (frame_table s ! i) = 0"

definition owner_level :: "'z mm_state_scheme \<Rightarrow> nat \<Rightarrow> int" where
  "owner_level s i = p_level (ptable s ! the (fr_owner (frame_table s ! i)))"

definition frames_ok :: "'z mm_state_scheme \<Rightarrow> bool" where
  "frames_ok s \<longleftrightarrow> length (frame_table s) = MAX_FRAMES \<and> clock_hand s < MAX_FRAMES \<and>
     (\<forall>i < MAX_FRAMES. usable s i \<longrightarrow> 0 \<le> owner_level s i \<and> owner_level s i < MLFQ_LEVELS)"

definition ring :: "nat \<Rightarrow> nat \<Rightarrow> nat" where
  "ring st k = (st + k) mod MAX_FRAMES"

lemma MAX_FRAMES_pos [simp]: "0 < MAX_FRAMES"
  by (simp add: MAX_FRAMES_def)

lemma ring_less [simp]: "ring st k < MAX_FRAMES"
  by (simp add: ring_def)

lemma ring_Suc: "Suc (ring st k) mod MAX_FRAMES = ring st (Suc k)"
  by (simp add: ring_def mod_Suc_eq)

lemma ring_start: "st < MAX_FRAMES \<Longrightarrow> ring st MAX_FRAMES = st" "st < MAX_FRAMES \<Longrightarrow> ring st 0 = st"
  by (simp_all add: ring_def)

lemma ring_inject_le: "i \<le> j \<Longrightarrow> j < MAX_FRAMES \<Longrightarrow> ring st j = ring st i \<Longrightarrow> i = j"
  using mod_eq_dvd_iff_nat [of "st + i" "st + j" MAX_FRAMES] nat_dvd_not_less [of "j - i" MAX_FRAMES]
  by (cases "i = j") (auto simp: ring_def)

lemma ring_inject: "i < MAX_FRAMES \<Longrightarrow> j < MAX_FRAMES \<Longrightarrow> ring st i = ring st j \<longleftrightarrow> i = j"
  using ring_inject_le [of i j st] ring_inject_le [of j i st] by (cases "i \<le> j") auto

lemma ring_onto:
  assumes "st < MAX_FRAMES" "i < MAX_FRAMES"
  shows "\<exists>k < MAX_FRAMES. i = ring st k"
proof (cases "st \<le> i")
  case True
  then show ?thesis using assms by (intro exI [of _ "i - st"]) (auto simp: ring_def)
next
  case False
  then show ?thesis using assms by (intro exI [of _ "i + MAX_FRAMES - st"]) (auto simp: ring_def)
qed

definition sweep :: "nat \<Rightarrow> nat \<Rightarrow> 'z mm_state_scheme \<Rightarrow> 'z mm_state_scheme" where
  "sweep st k s = s\<lparr>clock_hand := ring st k, frame_table :=
     map (\<lambda>i. if i \<in> ring st ` {..<k} \<and> usable s i then (frame_table s ! i)\<lparr>fr_ref_bit := 0\<rparr> else frame_table s ! i)
       [0..<MAX_FRAMES]\<rparr>"

lemma sweep_hand [simp]: "clock_hand (sweep st k s) = ring st k"
  by (simp add: sweep_def)

lemma sweep_ptable [simp]: "ptable (sweep st k s) = ptable s"
  by (simp add: sweep_def)

lemma sweep_length [simp]: "length (frame_table (sweep st k s)) = MAX_FRAMES"
  by (simp add: sweep_def)

lemma sweep_nth:
  "i < MAX_FRAMES \<Longrightarrow> frame_table (sweep st k s) ! i =
     (if i \<in> ring st ` {..<k} \<and> usable s i then (frame_table s ! i)\<lparr>fr_ref_bit := 0\<rparr> else frame_table s ! i)"
  by (simp add: sweep_def)

lemma sweep_unseen: "k < MAX_FRAMES \<Longrightarrow> frame_table (sweep st k s) ! ring st k = frame_table s ! ring st k"
  by (auto simp: sweep_nth ring_inject)

lemma sweep_0: "frames_ok s \<Longrightarrow> sweep (clock_hand s) 0 s = s"
  using map_nth [of "frame_table s"] by (simp add: sweep_def frames_ok_def ring_start)

lemma sweep_all:
  assumes "st < MAX_FRAMES" "i < MAX_FRAMES"
  shows "usable (sweep st MAX_FRAMES s) i = usable s i" "idle (sweep st MAX_FRAMES s) i = usable s i"
    "owner_level (sweep st MAX_FRAMES s) i = owner_level s i"
  using ring_onto [OF assms] assms by (auto simp: usable_def idle_def owner_level_def sweep_nth)

text \<open>The two ways the hand moves on.\<close>

lemma sweep_pass:
  assumes "k < MAX_FRAMES" "\<not> usable s (ring st k) \<or> idle s (ring st k)"
  shows "sweep st k s\<lparr>clock_hand := ring st (Suc k)\<rparr> = sweep st (Suc k) s"
proof -
  have "(frame_table s ! i)\<lparr>fr_ref_bit := 0\<rparr> = frame_table s ! i" if "idle s i" for i
    using that by (cases "frame_table s ! i") (simp add: idle_def)
  then show ?thesis using assms by (auto simp: sweep_def lessThan_Suc)
qed

lemma sweep_clear:
  assumes "k < MAX_FRAMES" "usable s (ring st k)"
  shows "upd_frame (ring st k) (\<lambda>f. f\<lparr>fr_ref_bit := 0\<rparr>) (sweep st k s)\<lparr>clock_hand := ring st (Suc k)\<rparr> = sweep st (Suc k) s"
proof -
  have "upd_at (ring st k) (\<lambda>f. f\<lparr>fr_ref_bit := 0\<rparr>) (frame_table (sweep st k s)) = frame_table (sweep st (Suc k) s)"
    using assms by (intro nth_equalityI)
      (auto simp: upd_at_def sweep_nth sweep_unseen nth_list_update lessThan_Suc sweep_def)
  then show ?thesis by (simp add: sweep_def)
qed

section \<open>One pass\<close>

text \<open>Position \<open>j\<close> of the ring is the choice among the first \<open>k\<close>.\<close>

definition best :: "'z mm_state_scheme \<Rightarrow> nat \<Rightarrow> nat \<Rightarrow> nat \<Rightarrow> bool" where
  "best s st k j \<longleftrightarrow> j < k \<and> idle s (ring st j) \<and>
     (\<forall>i < k. idle s (ring st i) \<longrightarrow> owner_level s (ring st i) \<le> owner_level s (ring st j) \<and>
        (owner_level s (ring st i) = owner_level s (ring st j) \<longrightarrow> j \<le> i))"

definition scanned :: "'z mm_state_scheme \<Rightarrow> nat \<Rightarrow> nat \<Rightarrow> nat option \<Rightarrow> int \<Rightarrow> bool" where
  "scanned s st k v low \<longleftrightarrow>
     (case v of None \<Rightarrow> low = -1 \<and> (\<forall>j < k. \<not> idle s (ring st j))
      | Some i \<Rightarrow> \<exists>j. best s st k j \<and> i = ring st j \<and> low = owner_level s i \<and> low < MLFQ_LEVELS - 1)"

lemma scanned_skip: "scanned s st k v low \<Longrightarrow> \<not> idle s (ring st k) \<Longrightarrow> scanned s st (Suc k) v low"
  unfolding scanned_def best_def by (auto simp: less_Suc_eq split: option.splits)

lemma scanned_keep:
  "scanned s st k v low \<Longrightarrow> low \<noteq> -1 \<Longrightarrow> owner_level s (ring st k) \<le> low \<Longrightarrow> scanned s st (Suc k) v low"
  unfolding scanned_def best_def by (fastforce simp: less_Suc_eq split: option.splits)

lemma best_take:
  assumes "scanned s st k v low" "idle s (ring st k)" "low = -1 \<or> owner_level s (ring st k) > low"
    "0 \<le> owner_level s (ring st k)"
  shows "best s st (Suc k) k"
proof (cases v)
  case None
  then show ?thesis using assms by (auto simp: scanned_def best_def less_Suc_eq)
next
  case (Some i)
  then obtain j where j: "best s st k j" "low = owner_level s (ring st j)" using assms(1) by (auto simp: scanned_def)
  then have "owner_level s (ring st i) < owner_level s (ring st k)" if "i < k" "idle s (ring st i)" for i
    using that assms(3,4) by (fastforce simp: best_def)
  then show ?thesis using assms(2) by (force simp: best_def less_Suc_eq)
qed

lemma best_lowest:
  assumes "frames_ok s" "best s st (Suc k) k" "owner_level s (ring st k) = MLFQ_LEVELS - 1" "k < MAX_FRAMES"
  shows "best s st MAX_FRAMES k"
proof -
  have "owner_level s (ring st i) \<le> owner_level s (ring st k) \<and> (owner_level s (ring st i) = owner_level s (ring st k) \<longrightarrow> k \<le> i)"
    if i: "idle s (ring st i)" for i
  proof (cases "i \<le> k")
    case True
    then show ?thesis using assms(2) i by (auto simp: best_def less_Suc_eq_le)
  next
    case False
    have "owner_level s (ring st i) < MLFQ_LEVELS" using assms(1) i by (simp add: frames_ok_def idle_def)
    then show ?thesis using False assms(3) by simp
  qed
  then show ?thesis using assms(2,4) by (auto simp: best_def)
qed

definition chosen :: "'z mm_state_scheme \<Rightarrow> nat \<Rightarrow> (nat option \<times> int \<times> 'z mm_state_scheme) outcome \<Rightarrow> bool" where
  "chosen s st r \<longleftrightarrow> (\<exists>j k. best s st MAX_FRAMES j \<and> r = Ret (Some (ring st j), owner_level s (ring st j), sweep st k s))"

text \<open>One iteration at position \<open>k\<close> of a pass.\<close>

definition moved :: "nat \<Rightarrow> nat \<Rightarrow> nat \<Rightarrow> 'z mm_state_scheme \<Rightarrow> nat option \<Rightarrow> int \<Rightarrow> (nat option \<times> int \<times> 'z mm_state_scheme) outcome" where
  "moved f st k s v low =
     (if ring st (Suc k) = st \<and> v \<noteq> None then Ret (v, low, sweep st (Suc k) s) else clock_loop f st v low (sweep st (Suc k) s))"

lemma clock_loop_at:
  assumes "k < MAX_FRAMES"
  shows "clock_loop (Suc f) st v low (sweep st k s) =
    (let i = ring st k in
     if idle s i \<and> (low = -1 \<or> owner_level s i > low)
     then if owner_level s i = MLFQ_LEVELS - 1 then Ret (Some i, owner_level s i, sweep st k s)
          else moved f st k s (Some i) (owner_level s i)
     else moved f st k s v low)"
proof -
  note R = ring_Suc [of st k] sweep_unseen [OF assms, of st s]
  consider "idle s (ring st k)" | "usable s (ring st k)" "\<not> idle s (ring st k)" | "\<not> usable s (ring st k)" by blast
  then show ?thesis
  proof cases
    case 1
    then show ?thesis using R sweep_pass [OF assms, of s st]
      by (auto simp: idle_def usable_def owner_level_def moved_def Let_def)
  next
    case 2
    then show ?thesis using R sweep_clear [OF assms, of s st]
      by (auto simp: idle_def usable_def owner_level_def moved_def Let_def)
  next
    case 3
    then show ?thesis using R sweep_pass [OF assms, of s st]
      by (auto simp: idle_def usable_def owner_level_def moved_def Let_def split: option.split)
  qed
qed

lemma clock_step:
  assumes ok: "frames_ok s" and k: "k < MAX_FRAMES" and sc: "scanned s st k v low"
  obtains "chosen s st (clock_loop (Suc f) st v low (sweep st k s))"
  | v' low' where "clock_loop (Suc f) st v low (sweep st k s) = moved f st k s v' low'" "scanned s st (Suc k) v' low'"
proof -
  let ?i = "ring st k" and ?r = "clock_loop (Suc f) st v low (sweep st k s)"
  note L = clock_loop_at [OF k, of f st v low s]
  show thesis
  proof (cases "idle s ?i \<and> (low = -1 \<or> owner_level s ?i > low)")
    case True
    have lev: "0 \<le> owner_level s ?i" "owner_level s ?i < MLFQ_LEVELS"
      using ok True by (auto simp: frames_ok_def idle_def)
    have b: "best s st (Suc k) k" using best_take [OF sc _ _ lev(1)] True by blast
    show ?thesis
    proof (cases "owner_level s ?i = MLFQ_LEVELS - 1")
      case top: True
      then have "chosen s st ?r"
        using L True best_lowest [OF ok b top k] by (auto simp: chosen_def Let_def)
      then show ?thesis by (rule that(1))
    next
      case False
      then have "scanned s st (Suc k) (Some ?i) (owner_level s ?i)" using b lev by (auto simp: scanned_def)
      then show ?thesis using L True False by (intro that(2)) (simp_all add: Let_def)
    qed
  next
    case False
    then have "scanned s st (Suc k) v low"
      using scanned_skip [OF sc] scanned_keep [OF sc] by (cases "idle s ?i") auto
    then show ?thesis using L False by (intro that(2)) (auto simp: Let_def)
  qed
qed

lemma ring_wraps: "st < MAX_FRAMES \<Longrightarrow> k < MAX_FRAMES \<Longrightarrow> ring st (Suc k) = st \<longleftrightarrow> Suc k = MAX_FRAMES"
  using ring_inject [of "Suc k" 0 st] ring_start [of st] by (cases "Suc k = MAX_FRAMES") auto

text \<open>A pass either ends with the choice or has found nothing and leaves every reference bit cleared.\<close>

lemma clock_pass:
  assumes "frames_ok s" "st < MAX_FRAMES" "k + m = MAX_FRAMES" "0 < m" "scanned s st k v low"
  shows "chosen s st (clock_loop (m + f) st v low (sweep st k s)) \<or>
    (\<forall>j < MAX_FRAMES. \<not> idle s (ring st j)) \<and>
     clock_loop (m + f) st v low (sweep st k s) = clock_loop f st None (-1) (sweep st MAX_FRAMES s)"
  using assms(3-)
proof (induction m arbitrary: k v low)
  case 0
  then show ?case by simp
next
  case (Suc m)
  have k: "k < MAX_FRAMES" using Suc.prems by simp
  show ?case
  proof (cases rule: clock_step [OF assms(1) k Suc.prems(3), where f = "m + f", case_names stop more])
    case stop
    then show ?thesis by simp
  next
    case (more v' low')
    show ?thesis
    proof (cases "m = 0")
      case False
      then have "ring st (Suc k) \<noteq> st" using ring_wraps [OF assms(2) k] Suc.prems(1) by simp
      then have "clock_loop (Suc m + f) st v low (sweep st k s) = clock_loop (m + f) st v' low' (sweep st (Suc k) s)"
        using more(1) by (simp add: moved_def)
      then show ?thesis using Suc.IH [OF _ _ more(2)] Suc.prems(1) False by simp
    next
      case True
      then have N: "Suc k = MAX_FRAMES" using Suc.prems(1) by simp
      then show ?thesis
        using more ring_wraps [OF assms(2) k] True
        by (cases v') (auto simp: moved_def scanned_def chosen_def)
    qed
  qed
qed

section \<open>The choice of the scan\<close>

text \<open>
  The frames the scan chooses among: the unreferenced ones, or all frames in use if none is
  unreferenced.
\<close>

definition candidate :: "'z mm_state_scheme \<Rightarrow> nat \<Rightarrow> bool" where
  "candidate s i \<longleftrightarrow> (if \<exists>j < MAX_FRAMES. idle s j then idle s i else usable s i)"

definition first_candidate :: "'z mm_state_scheme \<Rightarrow> nat \<Rightarrow> bool" where
  "first_candidate s k \<longleftrightarrow> k < MAX_FRAMES \<and> candidate s (ring (clock_hand s) k) \<and>
     (\<forall>i < MAX_FRAMES. candidate s (ring (clock_hand s) i) \<longrightarrow>
        owner_level s (ring (clock_hand s) i) \<le> owner_level s (ring (clock_hand s) k) \<and>
        (owner_level s (ring (clock_hand s) i) = owner_level s (ring (clock_hand s) k) \<longrightarrow> k \<le> i))"

lemma frames_ok_sweep:
  assumes "frames_ok s" "st < MAX_FRAMES"
  shows "frames_ok (sweep st MAX_FRAMES s)"
  using assms(1) by (simp add: frames_ok_def sweep_all [OF assms(2)])

lemma clock_loop_chooses:
  assumes ok: "frames_ok s" and u: "i0 < MAX_FRAMES" "usable s i0"
  obtains k n st where "first_candidate s k"
    "clock_loop (2 * MAX_FRAMES + 1) (clock_hand s) None (-1) s =
       Ret (Some (ring (clock_hand s) k), owner_level s (ring (clock_hand s) k), st)"
    "st = sweep (clock_hand s) n s \<or> st = sweep (clock_hand s) n (sweep (clock_hand s) MAX_FRAMES s)"
proof -
  let ?h = "clock_hand s" and ?N = MAX_FRAMES
  let ?s1 = "sweep ?h ?N s"
  have h: "?h < ?N" using ok by (simp add: frames_ok_def)
  have pass: "chosen t ?h (clock_loop (?N + f) ?h None (-1) t) \<or> (\<forall>j < ?N. \<not> idle t (ring ?h j)) \<and>
      clock_loop (?N + f) ?h None (-1) t = clock_loop f ?h None (-1) (sweep ?h ?N t)"
    if "frames_ok t" "clock_hand t = ?h" for t f
    using clock_pass [OF that(1) h, of 0 ?N None "-1" f] sweep_0 [OF that(1)] that(2) by (simp add: scanned_def)
  have all: "(\<forall>i < ?N. P (ring ?h i)) \<longleftrightarrow> (\<forall>i < ?N. P i)" for P using ring_onto [OF h] by (metis ring_less)
  have two: "2 * ?N + 1 = ?N + (?N + 1)" by simp
  show thesis
  proof (cases "\<exists>j < ?N. idle s j")
    case True
    then have "\<not> (\<forall>j < ?N. \<not> idle s (ring ?h j))" using all [of "\<lambda>i. \<not> idle s i"] by blast
    then have "chosen s ?h (clock_loop (?N + (?N + 1)) ?h None (-1) s)" using pass [OF ok refl, of "?N + 1"] by blast
    then obtain k n where "best s ?h ?N k" "clock_loop (?N + (?N + 1)) ?h None (-1) s =
        Ret (Some (ring ?h k), owner_level s (ring ?h k), sweep ?h n s)"
      unfolding chosen_def by blast
    moreover from this(1) True have "first_candidate s k" by (auto simp: best_def first_candidate_def candidate_def)
    ultimately show ?thesis using that unfolding two by blast
  next
    case False
    then have "clock_loop (?N + (?N + 1)) ?h None (-1) s = clock_loop (?N + 1) ?h None (-1) ?s1"
      using pass [OF ok refl, of "?N + 1"] unfolding chosen_def best_def by auto
    moreover have ok1: "frames_ok ?s1" by (rule frames_ok_sweep [OF ok h])
    moreover have hand: "clock_hand ?s1 = ?h" by (simp add: ring_start h)
    moreover have "\<not> (\<forall>j < ?N. \<not> idle ?s1 (ring ?h j))"
      using all [of "\<lambda>i. \<not> idle ?s1 i"] u sweep_all [OF h] by blast
    then have "chosen ?s1 ?h (clock_loop (?N + 1) ?h None (-1) ?s1)" using pass [OF ok1 hand, of 1] by blast
    then obtain k n where k: "best ?s1 ?h ?N k" "clock_loop (?N + 1) ?h None (-1) ?s1 =
        Ret (Some (ring ?h k), owner_level s (ring ?h k), sweep ?h n ?s1)"
      unfolding chosen_def using sweep_all(3) [OF h] by (metis ring_less)
    moreover have "first_candidate s k"
      using k(1) False unfolding best_def first_candidate_def candidate_def by (auto simp: sweep_all [OF h])
    ultimately show ?thesis using that unfolding two by metis
  qed
qed

end
