(* ===== verification/Pt_Tree.thy ===== *)
theory Pt_Tree
  imports Pagetable
begin

text \<open>
  Page tables as trees of pages in memory: which pages a table consists of (\<open>tbl\<close>), when it is well
  formed (\<open>pt_wf\<close>), and the map from virtual addresses to last-level entries that it represents
  (\<open>pte_of\<close>).  The lemmas say what a store does to that map: a store to a last-level entry changes
  one value, linking an empty subtable changes none, and nothing outside the table matters.
\<close>

section \<open>Entries\<close>

lemma word_less_mask:
  assumes "n < 64"
  shows "(a :: addr) < 2 ^ n \<longleftrightarrow> (\<forall>i \<ge> n. i < 64 \<longrightarrow> \<not> bit a i)"
proof -
  have "(0 :: addr) < 2 ^ n" using assms by (simp add: word_neq_0_conv [symmetric])
  then have "a < 2 ^ n \<longleftrightarrow> take_bit n a = a"
    by (simp add: take_bit_eq_mask mask_eq_iff word_less_def uint_2p)
  also have "\<dots> \<longleftrightarrow> (\<forall>i \<ge> n. i < 64 \<longrightarrow> \<not> bit a i)"
    by (auto simp: bit_eq_iff bit_take_bit_iff not_le)
  finally show ?thesis .
qed

lemma PX_take_bit: "PX l va = take_bit 9 (drop_bit (12 + 9 * l) va)"
proof -
  have "(0x1FF :: addr) = mask 9" by (simp add: mask_eq_exp_minus_1)
  then show ?thesis by (simp only: PX_def take_bit_eq_mask)
qed

lemma PX_less: "PX l va < 512"
proof -
  have "PX l va \<le> 0x1FF" unfolding PX_def by (rule word_and_le1)
  then show ?thesis by (simp add: word_le_nat_alt word_less_nat_alt)
qed

lemma bit_PX: "bit (PX l va) n \<longleftrightarrow> n < 9 \<and> bit va (12 + 9 * l + n)"
  using bit_imp_le_length [of va "12 + 9 * l + n"] by (auto simp: PX_take_bit bit_simps)

lemma aligned_bits: "page_aligned a \<longleftrightarrow> (\<forall>i < 12. \<not> bit a i)"
proof -
  have "page_aligned a \<longleftrightarrow> take_bit 12 a = 0"
    by (simp add: page_aligned_def take_bit_eq_mod)
  also have "\<dots> \<longleftrightarrow> (\<forall>i < 12. \<not> bit a i)" by (auto simp: bit_eq_iff bit_take_bit_iff)
  finally show ?thesis .
qed

lemma PTE2PA_PA2PTE:
  assumes "page_aligned pa" "pa < 2 ^ 56" "f < 1024"
  shows "PTE2PA (PA2PTE pa OR f) = pa"
proof (rule bit_word_eqI)
  fix n :: nat
  assume n: "n < LENGTH(64)"
  have "f < 2 ^ 10" using assms(3) by simp
  then have f: "\<not> bit f k" if "10 \<le> k" "k < 64" for k using that word_less_mask [of 10 f] by auto
  have pa: "\<not> bit pa k" if "56 \<le> k" "k < 64" for k using that assms(2) word_less_mask [of 56 pa] by auto
  have al: "\<not> bit pa k" if "k < 12" for k using that assms(1) by (simp add: aligned_bits)
  show "bit (PTE2PA (PA2PTE pa OR f)) n \<longleftrightarrow> bit pa n"
  proof (cases "n < 12")
    case True
    then show ?thesis using al by (simp add: PTE2PA_def bit_simps)
  next
    case False
    then obtain k where "n = 12 + k" using le_Suc_ex not_less by blast
    then show ?thesis using n f [of "10 + k"] pa [of n] by (auto simp: PTE2PA_def PA2PTE_def bit_simps)
  qed
qed

abbreviation pte_valid :: "64 word \<Rightarrow> bool" where
  "pte_valid v \<equiv> v AND PTE_V \<noteq> 0"

lemma PTE_V_nz [simp]: "PTE_V \<noteq> 0"
  by (simp add: PTE_V_def)

lemma pte_valid_bit: "pte_valid v \<longleftrightarrow> bit v 0"
  by (simp only: PTE_V_def and_one_eq bit_0) (auto simp: odd_iff_mod_2_eq_one)

lemma pte_valid_OR [simp]: "pte_valid (v OR PTE_V)" "pte_valid (v OR w OR PTE_V)"
  unfolding pte_valid_bit by (simp_all only: bit_or_iff) (simp_all add: PTE_V_def)

lemma pte_valid_0 [simp]: "\<not> pte_valid 0"
  by simp

lemma unat_pte_addr:
  assumes "page_aligned p" "i < 512"
  shows "unat (pte_addr p i) = unat p + 8 * unat i"
proof -
  have i: "unat i < 512" using assms(2) by (simp add: word_less_nat_alt)
  then have m: "unat (8 * i) = 8 * unat i" by (simp add: unat_word_ariths)
  obtain k where k: "unat p = 4096 * k" using assms(1) by (rule page_alignedE)
  have "unat p < 2 ^ 64" by simp
  then have "unat p + 4095 < 2 ^ 64" using k by simp
  then have "unat p + unat (8 * i) < 2 ^ 64" using i m by linarith
  then show ?thesis using m by (simp add: unat_word_ariths)
qed

lemma pte_addr_aligned: "page_aligned p \<Longrightarrow> i < 512 \<Longrightarrow> 8 dvd unat (pte_addr p i)"
  using page_aligned_8 [of p] by (simp add: unat_pte_addr)

lemma pte_addr_page:
  assumes "page_aligned p" "i < 512"
  shows "same_page (pte_addr p i) p"
proof -
  have "unat i < 512" using assms(2) by (simp add: word_less_nat_alt)
  moreover obtain k where "unat p = 4096 * k" using assms(1) by (rule page_alignedE)
  ultimately show ?thesis using unat_pte_addr [OF assms] by simp
qed

lemma pte_addr_inject:
  assumes "page_aligned p" "i < 512" "page_aligned q" "j < 512"
  shows "pte_addr p i = pte_addr q j \<longleftrightarrow> p = q \<and> i = j"
proof
  assume eq: "pte_addr p i = pte_addr q j"
  then have "same_page p q" using pte_addr_page assms by metis
  then have "p = q" using assms aligned_same_page by blast
  moreover from this have "unat i = unat j"
    using eq unat_pte_addr [of p i] unat_pte_addr [of q j] assms by simp
  ultimately show "p = q \<and> i = j" by (simp add: word_unat_eq_iff)
qed simp

section \<open>Trees of table pages\<close>

abbreviation entry :: "mem \<Rightarrow> addr \<Rightarrow> addr \<Rightarrow> 64 word" where
  "entry m p i \<equiv> load64 m (pte_addr p i)"

text \<open>The pages of the table rooted at \<open>p\<close>, a table of level \<open>l\<close>.\<close>

fun tbl :: "mem \<Rightarrow> nat \<Rightarrow> addr \<Rightarrow> addr set" where
  "tbl m 0 p = {p}"
| "tbl m (Suc l) p = insert p (\<Union>i \<in> {i. i < 512 \<and> pte_valid (entry m p i)}. tbl m l (PTE2PA (entry m p i)))"

text \<open>
  A well-formed table: aligned pages other than page 0, no page used twice, and above the last level every valid
  entry is a pointer to a table (no access bits).
\<close>

definition pte_pointer :: "64 word \<Rightarrow> bool" where
  "pte_pointer v \<longleftrightarrow> v AND (PTE_R OR PTE_W OR PTE_X) = 0"

fun pt_wf :: "mem \<Rightarrow> nat \<Rightarrow> addr \<Rightarrow> bool" where
  "pt_wf m 0 p \<longleftrightarrow> page_aligned p \<and> p \<noteq> 0"
| "pt_wf m (Suc l) p \<longleftrightarrow> page_aligned p \<and> p \<noteq> 0 \<and>
     (\<forall>i < 512. pte_valid (entry m p i) \<longrightarrow> pte_pointer (entry m p i) \<and>
        pt_wf m l (PTE2PA (entry m p i)) \<and> p \<notin> tbl m l (PTE2PA (entry m p i))) \<and>
     (\<forall>i < 512. \<forall>j < 512. i \<noteq> j \<longrightarrow> pte_valid (entry m p i) \<longrightarrow> pte_valid (entry m p j) \<longrightarrow>
        tbl m l (PTE2PA (entry m p i)) \<inter> tbl m l (PTE2PA (entry m p j)) = {})"

text \<open>The address of the last-level entry for \<open>va\<close>, and its value (0 when a table is missing).\<close>

fun pt_slot :: "mem \<Rightarrow> nat \<Rightarrow> addr \<Rightarrow> addr \<Rightarrow> addr option" where
  "pt_slot m 0 p va = Some (pte_addr p (PX 0 va))"
| "pt_slot m (Suc l) p va =
     (let v = entry m p (PX (Suc l) va) in if pte_valid v then pt_slot m l (PTE2PA v) va else None)"

definition pte_of :: "mem \<Rightarrow> nat \<Rightarrow> addr \<Rightarrow> addr \<Rightarrow> 64 word" where
  "pte_of m l p va = (case pt_slot m l p va of None \<Rightarrow> 0 | Some a \<Rightarrow> load64 m a)"

definition same_index :: "nat \<Rightarrow> addr \<Rightarrow> addr \<Rightarrow> bool" where
  "same_index l va va' \<longleftrightarrow> (\<forall>k \<le> l. PX k va = PX k va')"

lemma root_in_tbl [simp]: "p \<in> tbl m l p"
  by (cases l) auto

lemma pt_wf_aligned: "pt_wf m l p \<Longrightarrow> q \<in> tbl m l p \<Longrightarrow> page_aligned q"
  by (induction l arbitrary: p) auto

lemma pt_wf_root: "pt_wf m l p \<Longrightarrow> page_aligned p"
  by (cases l) auto

lemma pt_wfD:
  assumes "pt_wf m (Suc l) p" "i < 512" "pte_valid (entry m p i)"
  shows "pte_pointer (entry m p i)" "pt_wf m l (PTE2PA (entry m p i))" "p \<notin> tbl m l (PTE2PA (entry m p i))"
    "tbl m l (PTE2PA (entry m p i)) \<subseteq> tbl m (Suc l) p"
    "\<And>j. j < 512 \<Longrightarrow> j \<noteq> i \<Longrightarrow> pte_valid (entry m p j) \<Longrightarrow>
       tbl m l (PTE2PA (entry m p i)) \<inter> tbl m l (PTE2PA (entry m p j)) = {}"
  using assms by auto

text \<open>Agreement of two memories on a table, from agreement on its root and on its subtables.\<close>

definition pt_same :: "mem \<Rightarrow> mem \<Rightarrow> nat \<Rightarrow> addr \<Rightarrow> bool" where
  "pt_same m m' l p \<longleftrightarrow> tbl m' l p = tbl m l p \<and> pt_wf m' l p = pt_wf m l p \<and>
     (\<forall>va. pt_slot m' l p va = pt_slot m l p va)"

lemma pt_same_Suc:
  assumes e: "\<And>i. i < 512 \<Longrightarrow> entry m' p i = entry m p i"
    and c: "\<And>i. i < 512 \<Longrightarrow> pte_valid (entry m p i) \<Longrightarrow> pt_same m m' l (PTE2PA (entry m p i))"
  shows "pt_same m m' (Suc l) p"
proof -
  have c': "tbl m' l (PTE2PA (entry m p i)) = tbl m l (PTE2PA (entry m p i))"
    "pt_wf m' l (PTE2PA (entry m p i)) = pt_wf m l (PTE2PA (entry m p i))"
    "pt_slot m' l (PTE2PA (entry m p i)) va = pt_slot m l (PTE2PA (entry m p i)) va"
    if "i < 512" "pte_valid (entry m p i)" for i va
    using c [OF that] by (auto simp: pt_same_def)
  have "tbl m' (Suc l) p = tbl m (Suc l) p" using e c'(1) by auto
  moreover have "pt_wf m' (Suc l) p = pt_wf m (Suc l) p"
    using e c'(1,2) by (simp cong: conj_cong imp_cong)
  moreover have "pt_slot m' (Suc l) p va = pt_slot m (Suc l) p va" for va
    using e [OF PX_less] c'(3) [OF PX_less] by (simp add: Let_def)
  ultimately show ?thesis by (simp add: pt_same_def)
qed

text \<open>A table depends only on its own pages.\<close>

lemma pt_frame:
  assumes "\<And>q i. q \<in> tbl m l p \<Longrightarrow> i < 512 \<Longrightarrow> entry m' q i = entry m q i"
  shows "pt_same m m' l p"
  using assms
proof (induction l arbitrary: p)
  case 0
  then show ?case by (auto simp: pt_same_def)
next
  case (Suc l)
  show ?case
  proof (rule pt_same_Suc)
    show "entry m' p i = entry m p i" if "i < 512" for i using Suc.prems that by simp
    show "pt_same m m' l (PTE2PA (entry m p i))" if "i < 512" "pte_valid (entry m p i)" for i
      using Suc.IH [of "PTE2PA (entry m p i)"] Suc.prems that by auto
  qed
qed

lemma slot_in_table:
  "pt_wf m l p \<Longrightarrow> pt_slot m l p va = Some a \<Longrightarrow> \<exists>q \<in> tbl m l p. a = pte_addr q (PX 0 va)"
proof (induction l arbitrary: p)
  case 0
  then show ?case by simp
next
  case (Suc l)
  let ?i = "PX (Suc l) va"
  have v: "pte_valid (entry m p ?i)" and "pt_slot m l (PTE2PA (entry m p ?i)) va = Some a"
    using Suc.prems(2) by (auto simp: Let_def split: if_splits)
  then obtain q where "q \<in> tbl m l (PTE2PA (entry m p ?i))" "a = pte_addr q (PX 0 va)"
    using Suc.IH pt_wfD(2) [OF Suc.prems(1) PX_less v] by blast
  then show ?case using pt_wfD(4) [OF Suc.prems(1) PX_less v] by blast
qed

lemma slot_inject:
  assumes "pt_wf m l p" "pt_slot m l p va = Some a" "pt_slot m l p va' = Some a'"
  shows "a = a' \<longleftrightarrow> same_index l va va'"
  using assms
proof (induction l arbitrary: p)
  case 0
  then show ?case using pte_addr_inject [of p "PX 0 va" p "PX 0 va'"] PX_less
    by (auto simp: same_index_def)
next
  case (Suc l)
  let ?i = "PX (Suc l) va" and ?j = "PX (Suc l) va'"
  let ?c = "PTE2PA (entry m p ?i)" and ?d = "PTE2PA (entry m p ?j)"
  have v: "pte_valid (entry m p ?i)" "pt_slot m l ?c va = Some a"
    "pte_valid (entry m p ?j)" "pt_slot m l ?d va' = Some a'"
    using Suc.prems(2,3) by (auto simp: Let_def split: if_splits)
  have wf: "pt_wf m l ?c" "pt_wf m l ?d" using pt_wfD(2) [OF Suc.prems(1) PX_less] v by auto
  show ?case
  proof (cases "?i = ?j")
    case True
    then have "a = a' \<longleftrightarrow> same_index l va va'" using Suc.IH [OF wf(1)] v by simp
    then show ?thesis using True by (auto simp: same_index_def le_Suc_eq)
  next
    case False
    obtain q q' where q: "q \<in> tbl m l ?c" "a = pte_addr q (PX 0 va)" "q' \<in> tbl m l ?d" "a' = pte_addr q' (PX 0 va')"
      using slot_in_table wf v by metis
    then have "q \<noteq> q'" using pt_wfD(5) [OF Suc.prems(1) PX_less v(1) PX_less _ v(3)] False by fastforce
    then have "a \<noteq> a'"
      using q pte_addr_inject [of q "PX 0 va" q' "PX 0 va'"] pt_wf_aligned [OF wf(1)] pt_wf_aligned [OF wf(2)] PX_less
      by auto
    then show ?thesis using False by (auto simp: same_index_def)
  qed
qed

text \<open>Storing a last-level entry changes that entry and nothing else of the table.\<close>

lemma entry_store_other:
  assumes "page_aligned q" "i < 512" "page_aligned q'" "j < 512" "q \<noteq> q' \<or> i \<noteq> j"
  shows "entry (store64 m (pte_addr q i) v) q' j = entry m q' j"
  using assms pte_addr_inject [of q i q' j] by (intro load64_store64_other pte_addr_aligned) auto

lemma pt_store_leaf:
  assumes "pt_wf m l p" "pt_slot m l p va = Some a"
  shows "pt_same m (store64 m a v) l p"
  using assms
proof (induction l arbitrary: p)
  case 0
  then show ?case by (simp add: pt_same_def)
next
  case (Suc l)
  let ?i = "PX (Suc l) va"
  have v: "pte_valid (entry m p ?i)" "pt_slot m l (PTE2PA (entry m p ?i)) va = Some a"
    using Suc.prems(2) by (auto simp: Let_def split: if_splits)
  note D = pt_wfD [OF Suc.prems(1) PX_less v(1)]
  obtain q where q: "q \<in> tbl m l (PTE2PA (entry m p ?i))" "a = pte_addr q (PX 0 va)"
    using slot_in_table [OF D(2) v(2)] by blast
  have al: "page_aligned q" "page_aligned p" "q \<noteq> p"
    using pt_wf_aligned [OF D(2) q(1)] pt_wf_root [OF Suc.prems(1)] D(3) q(1) by auto
  show ?case
  proof (rule pt_same_Suc)
    show "entry (store64 m a v) p i = entry m p i" if "i < 512" for i
      unfolding q(2) using al that PX_less by (intro entry_store_other) auto
    show "pt_same m (store64 m a v) l (PTE2PA (entry m p i))" if i: "i < 512" "pte_valid (entry m p i)" for i
    proof (cases "i = ?i")
      case True
      then show ?thesis using Suc.IH [OF D(2) v(2)] by simp
    next
      case False
      have "q \<notin> tbl m l (PTE2PA (entry m p i))" using D(5) [OF i(1) False i(2)] q(1) by blast
      then show ?thesis
        unfolding q(2) using al(1) pt_wf_aligned [OF pt_wfD(2) [OF Suc.prems(1) i]] PX_less
        by (intro pt_frame entry_store_other) auto
    qed
  qed
qed

lemma slot_index: "same_index l va va' \<Longrightarrow> pt_slot m l p va = pt_slot m l p va'"
  by (induction l arbitrary: p) (auto simp: same_index_def Let_def)

lemma pte_of_store:
  assumes "pt_wf m l p" "pt_slot m l p va = Some a"
  shows "pte_of (store64 m a v) l p va' = (if same_index l va va' then v else pte_of m l p va')"
proof -
  have sl: "pt_slot (store64 m a v) l p va' = pt_slot m l p va'"
    using pt_store_leaf [OF assms] by (simp add: pt_same_def)
  show ?thesis
  proof (cases "pt_slot m l p va'")
    case None
    then show ?thesis using slot_index [of l va va' m p] sl assms(2) by (auto simp: pte_of_def)
  next
    case (Some a')
    have "8 dvd unat a" "8 dvd unat a'"
      using slot_in_table [OF assms(1)] assms(2) Some pt_wf_aligned [OF assms(1)] PX_less pte_addr_aligned by blast+
    then show ?thesis
      using slot_inject [OF assms Some] Some sl load64_store64_other [of a a' m v] by (auto simp: pte_of_def)
  qed
qed

lemma pt_same_pte_of:
  assumes "\<And>q i. q \<in> tbl m l p \<Longrightarrow> i < 512 \<Longrightarrow> entry m' q i = entry m q i" "pt_wf m l p"
  shows "pte_of m' l p va = pte_of m l p va"
proof -
  have "pt_slot m' l p va = pt_slot m l p va" using pt_frame [of m l p m'] assms(1) by (auto simp: pt_same_def)
  moreover have "load64 m' a = load64 m a" if "pt_slot m l p va = Some a" for a
    using slot_in_table [OF assms(2) that] assms(1) PX_less by auto
  ultimately show ?thesis by (auto simp: pte_of_def split: option.split)
qed

section \<open>Growing a table\<close>

text \<open>
  \<open>pt_grow m m' l p new\<close>: memory \<open>m'\<close> holds the table \<open>p\<close> of \<open>m\<close>, possibly with more (empty) subtables
  in pages of \<open>new\<close>, and every address is mapped as before.  \<open>pt_ext\<close> adds that no other page is
  touched.
\<close>

definition pt_grow :: "mem \<Rightarrow> mem \<Rightarrow> nat \<Rightarrow> addr \<Rightarrow> addr set \<Rightarrow> bool" where
  "pt_grow m m' l p new \<longleftrightarrow> pt_wf m' l p \<and> tbl m l p \<subseteq> tbl m' l p \<and> tbl m' l p \<subseteq> tbl m l p \<union> new \<and>
     (\<forall>va. pte_of m' l p va = pte_of m l p va)"

definition only_pages :: "mem \<Rightarrow> mem \<Rightarrow> addr set \<Rightarrow> bool" where
  "only_pages m m' A \<longleftrightarrow> (\<forall>x. (\<forall>q \<in> A. \<not> same_page x q) \<longrightarrow> m' x = m x)"

definition pt_ext :: "mem \<Rightarrow> mem \<Rightarrow> nat \<Rightarrow> addr \<Rightarrow> addr set \<Rightarrow> bool" where
  "pt_ext m m' l p new \<longleftrightarrow> pt_grow m m' l p new \<and> only_pages m m' (tbl m l p \<union> new)"

lemma only_pages_trans:
  assumes "only_pages m m1 A" "only_pages m1 m2 B" "A \<union> B \<subseteq> C"
  shows "only_pages m m2 C"
  unfolding only_pages_def
proof (intro allI impI)
  fix x
  assume x: "\<forall>q \<in> C. \<not> same_page x q"
  then have "m1 x = m x" "m2 x = m1 x" using assms unfolding only_pages_def by blast+
  then show "m2 x = m x" by simp
qed

lemma pt_ext_refl: "pt_wf m l p \<Longrightarrow> pt_ext m m l p {}"
  by (simp add: pt_ext_def pt_grow_def only_pages_def)

lemma pt_ext_trans:
  assumes "pt_ext m m1 l p A" "pt_ext m1 m2 l p B"
  shows "pt_ext m m2 l p (A \<union> B)"
proof -
  have "pt_grow m m2 l p (A \<union> B)" using assms by (auto simp: pt_ext_def pt_grow_def)
  moreover have "only_pages m m2 (tbl m l p \<union> (A \<union> B))"
    using assms only_pages_trans [of m m1 "tbl m l p \<union> A" m2 "tbl m1 l p \<union> B" "tbl m l p \<union> (A \<union> B)"]
    by (auto simp: pt_ext_def pt_grow_def)
  ultimately show ?thesis by (simp add: pt_ext_def)
qed

lemma entry_outside:
  assumes "only_pages m m' A"
    and "page_aligned p" "i < 512" "p \<notin> A" "\<And>q. q \<in> A \<Longrightarrow> page_aligned q"
  shows "entry m' p i = entry m p i"
proof (rule load64_cong)
  fix k :: nat
  assume k: "k < 8"
  have "same_page (pte_addr p i + of_nat k) p"
    using same_page_offset [OF pte_addr_aligned k] pte_addr_page assms(2,3) by simp
  then have "\<not> same_page (pte_addr p i + of_nat k) q" if "q \<in> A" for q
    using that assms(2,4,5) aligned_same_page by metis
  then show "m' (pte_addr p i + of_nat k) = m (pte_addr p i + of_nat k)"
    using assms(1) by (auto simp: only_pages_def)
qed

text \<open>A table whose subtables are extended, one of them into \<open>new\<close>, is extended.\<close>

lemma pt_grow_SucI:
  assumes wf: "pt_wf m (Suc l) p" and new: "new \<inter> tbl m (Suc l) p = {}"
    and root: "\<And>j. j < 512 \<Longrightarrow> entry m' p j = entry m p j"
    and sub: "\<And>j. j < 512 \<Longrightarrow> pte_valid (entry m p j) \<Longrightarrow>
        pt_grow m m' l (PTE2PA (entry m p j)) (if j = i then new else {})"
  shows "pt_grow m m' (Suc l) p new"
proof -
  let ?c = "\<lambda>j. PTE2PA (entry m p j)"
  have S: "pt_wf m' l (?c j)" "tbl m l (?c j) \<subseteq> tbl m' l (?c j)"
    "tbl m' l (?c j) \<subseteq> tbl m l (?c j) \<union> (if j = i then new else {})"
    "pte_of m' l (?c j) va = pte_of m l (?c j) va"
    if "j < 512" "pte_valid (entry m p j)" for j va
    using sub [OF that] by (auto simp: pt_grow_def)
  have t1: "tbl m (Suc l) p \<subseteq> tbl m' (Suc l) p"
    using root S(2) by fastforce
  have t2: "tbl m' (Suc l) p \<subseteq> tbl m (Suc l) p \<union> new"
  proof
    fix q
    assume "q \<in> tbl m' (Suc l) p"
    then consider "q = p" | j where "j < 512" "pte_valid (entry m p j)" "q \<in> tbl m' l (?c j)"
      using root by auto
    then show "q \<in> tbl m (Suc l) p \<union> new"
    proof cases
      case 2
      then show ?thesis using S(3) [OF 2(1,2)] pt_wfD(4) [OF wf 2(1,2)] by (cases "j = i") auto
    qed simp
  qed
  have np: "p \<notin> tbl m' l (?c j)" if "j < 512" "pte_valid (entry m p j)" for j
    using S(3) [OF that] pt_wfD(3) [OF wf that] new by (cases "j = i") auto
  have dis: "tbl m' l (?c j) \<inter> tbl m' l (?c k) = {}"
    if "j < 512" "k < 512" "j \<noteq> k" "pte_valid (entry m p j)" "pte_valid (entry m p k)" for j k
    using S(3) [OF that(1,4)] S(3) [OF that(2,5)] pt_wfD(5) [OF wf that(1,4,2) _ that(5)] that(3) new
      pt_wfD(4) [OF wf that(1,4)] pt_wfD(4) [OF wf that(2,5)]
    by (cases "j = i"; cases "k = i") (auto, blast+)
  have "pt_wf m' (Suc l) p"
    using wf root S(1) np dis by (auto simp del: tbl.simps)
  moreover have "pte_of m' (Suc l) p va = pte_of m (Suc l) p va" for va
    using root [OF PX_less] S(4) [OF PX_less] by (simp add: pte_of_def Let_def)
  ultimately show ?thesis using t1 t2 unfolding pt_grow_def by blast
qed

text \<open>Growing a subtable grows the table.\<close>

lemma pt_grow_frame:
  assumes "\<And>q k. q \<in> tbl m l c \<Longrightarrow> k < 512 \<Longrightarrow> entry m' q k = entry m q k" "pt_wf m l c"
  shows "pt_grow m m' l c {}"
  using pt_frame [OF assms(1)] pt_same_pte_of [OF assms] assms(2) by (auto simp: pt_grow_def pt_same_def)

lemma pt_ext_child:
  assumes wf: "pt_wf m (Suc l) p" and i: "i < 512" "pte_valid (entry m p i)"
    and ext: "pt_ext m m' l (PTE2PA (entry m p i)) new"
    and new: "new \<inter> tbl m (Suc l) p = {}" "\<And>q. q \<in> new \<Longrightarrow> page_aligned q"
  shows "pt_ext m m' (Suc l) p new" "entry m' p i = entry m p i"
proof -
  let ?c = "PTE2PA (entry m p i)"
  note D = pt_wfD [OF wf i]
  have al: "page_aligned q" if "q \<in> tbl m l ?c \<union> new" for q
    using that pt_wf_aligned [OF D(2)] new(2) by blast
  have grow: "pt_grow m m' l ?c new" and out: "only_pages m m' (tbl m l ?c \<union> new)"
    using ext by (auto simp: pt_ext_def)
  have e: "entry m' q j = entry m q j" if "page_aligned q" "j < 512" "q \<notin> tbl m l ?c \<union> new" for q j
    using entry_outside [OF out that(1,2,3) al] .
  have root: "entry m' p j = entry m p j" if "j < 512" for j
    using that pt_wf_root [OF wf] D(3) new(1) by (intro e) auto
  then show "entry m' p i = entry m p i" using i(1) by blast
  have sib: "pt_grow m m' l (PTE2PA (entry m p j)) {}"
    if j: "j < 512" "pte_valid (entry m p j)" "j \<noteq> i" for j
  proof (rule pt_grow_frame)
    show "entry m' q k = entry m q k" if q: "q \<in> tbl m l (PTE2PA (entry m p j))" "k < 512" for q k
    proof (rule e)
      show "q \<notin> tbl m l ?c \<union> new"
        using D(5) [OF j(1,3,2)] pt_wfD(4) [OF wf j(1,2)] new(1) q(1) by blast
    qed (use q pt_wf_aligned [OF pt_wfD(2) [OF wf j(1,2)]] in auto)
  qed (rule pt_wfD(2) [OF wf j(1,2)])
  have "pt_grow m m' (Suc l) p new"
  proof (rule pt_grow_SucI [OF wf new(1) root])
    show "pt_grow m m' l (PTE2PA (entry m p j)) (if j = i then new else {})"
      if "j < 512" "pte_valid (entry m p j)" for j
      using grow sib [OF that] by auto
  qed
  moreover have "only_pages m m' (tbl m (Suc l) p \<union> new)"
    using out D(4) by (auto simp: only_pages_def)
  ultimately show "pt_ext m m' (Suc l) p new" by (simp add: pt_ext_def)
qed

section \<open>Linking a new table\<close>

lemma PTE_bits: "PTE_V = 2 ^ 0" "PTE_R = 2 ^ 1" "PTE_W = 2 ^ 2" "PTE_X = 2 ^ 3" "PTE_U = 2 ^ 4" "PTE_A = 2 ^ 6"
  by (simp_all add: PTE_V_def PTE_R_def PTE_W_def PTE_X_def PTE_U_def PTE_A_def)

lemma pte_pointer_new: "pte_pointer (PA2PTE n OR PTE_V)"
  unfolding pte_pointer_def PTE_bits PA2PTE_def
  by (rule bit_word_eqI) (auto simp only: bit_and_iff bit_or_iff bit_exp_iff bit_push_bit_iff bit_0_eq bot_apply bot_bool_def; simp)

lemma store_entry_page:
  assumes "page_aligned p" "i < 512" "\<not> same_page x p"
  shows "store64 m (pte_addr p i) v x = m x"
proof -
  have "8 \<le> unat (x - pte_addr p i)"
  proof (rule ccontr)
    assume "\<not> 8 \<le> unat (x - pte_addr p i)"
    then have k: "unat (x - pte_addr p i) < 8" by simp
    have "x = pte_addr p i + of_nat (unat (x - pte_addr p i))" by simp
    then have "same_page x (pte_addr p i)"
      using same_page_offset [OF pte_addr_aligned [OF assms(1,2)] k] by metis
    then show False using pte_addr_page [OF assms(1,2)] assms(3) by simp
  qed
  then show ?thesis by (simp add: store64_def write_bytes_out)
qed

lemma empty_table:
  assumes "\<And>k. k < 512 \<Longrightarrow> entry m n k = 0" "page_aligned n" "n \<noteq> 0"
  shows "tbl m l n = {n}" "pt_wf m l n" "pte_of m l n va = 0"
proof -
  have e: "entry m n (PX k va) = 0" for k va using assms(1) [OF PX_less] .
  show "tbl m l n = {n}" "pt_wf m l n" using assms by (cases l; auto)+
  show "pte_of m l n va = 0" using e by (cases l) (simp_all add: pte_of_def)
qed

text \<open>A table with one more entry that points to an empty table.\<close>

lemma pt_grow_link:
  assumes wf: "pt_wf m (Suc l) p" and i: "i < 512" "\<not> pte_valid (entry m p i)"
    and n: "n \<notin> tbl m (Suc l) p" and ei: "entry m2 p i = PA2PTE n OR PTE_V" and pa: "PTE2PA (PA2PTE n OR PTE_V) = n"
    and e: "\<And>q k. page_aligned q \<Longrightarrow> k < 512 \<Longrightarrow> q \<noteq> n \<Longrightarrow> q \<noteq> p \<or> k \<noteq> i \<Longrightarrow> entry m2 q k = entry m q k"
    and E: "tbl m2 l n = {n}" "pt_wf m2 l n" "\<And>va. pte_of m2 l n va = 0"
    and sib: "\<And>j. j < 512 \<Longrightarrow> pte_valid (entry m p j) \<Longrightarrow> pt_grow m m2 l (PTE2PA (entry m p j)) {}"
  shows "pt_grow m m2 (Suc l) p {n}"
proof -
  let ?c = "\<lambda>j. PTE2PA (entry m p j)"
  have pn: "p \<noteq> n" "page_aligned p" using n wf by auto
  have ej: "entry m2 p j = (if j = i then PA2PTE n OR PTE_V else entry m p j)" if "j < 512" for j
    using that e [of p j] ei pn by auto
  have S: "tbl m2 l (?c j) = tbl m l (?c j)" "pt_wf m2 l (?c j)" "pte_of m2 l (?c j) va = pte_of m l (?c j) va"
    if "j < 512" "pte_valid (entry m p j)" for j va
    using sib [OF that] by (auto simp: pt_grow_def)
  have nc: "n \<notin> tbl m l (?c j)" if "j < 512" "pte_valid (entry m p j)" for j
    using pt_wfD(4) [OF wf that] n by blast
  have "tbl m2 (Suc l) p = tbl m (Suc l) p \<union> {n}"
    using i ej S(1) E(1) pa by (auto split: if_splits)
  moreover have "pt_wf m2 (Suc l) p"
    using wf ej S(1,2) E(1,2) pa nc pn pte_pointer_new by (auto simp del: tbl.simps split: if_splits)
  moreover have "pte_of m2 (Suc l) p va = pte_of m (Suc l) p va" for va
    using ej [OF PX_less, of "Suc l" va] S(3) [OF PX_less] E(3) pa i(2)
    by (auto simp: pte_of_def Let_def split: if_splits)
  ultimately show ?thesis by (auto simp: pt_grow_def)
qed

lemma pt_link:
  assumes wf: "pt_wf m (Suc l) p" and i: "i < 512" "\<not> pte_valid (entry m p i)"
    and n: "page_aligned n" "n \<noteq> 0" "n \<notin> tbl m (Suc l) p" "n < 2 ^ 56" and out: "only_pages m m1 {n}"
  defines "m2 \<equiv> store64 (write_bytes m1 n (replicate 4096 0)) (pte_addr p i) (PA2PTE n OR PTE_V)"
  shows "pt_ext m m2 (Suc l) p {n}" "entry m2 p i = PA2PTE n OR PTE_V" "PTE2PA (PA2PTE n OR PTE_V) = n"
proof -
  let ?m = "write_bytes m1 n (replicate 4096 0)"
  have pn: "p \<noteq> n" and p: "page_aligned p" "p \<noteq> 0" using n(3) wf by auto
  show ei: "entry m2 p i = PA2PTE n OR PTE_V" by (simp add: m2_def)
  show pa: "PTE2PA (PA2PTE n OR PTE_V) = n" by (rule PTE2PA_PA2PTE) (use n in \<open>simp_all add: PTE_V_def\<close>)
  have z: "entry m2 n k = 0" if "k < 512" for k
  proof -
    have "entry m2 n k = entry ?m n k" unfolding m2_def using that i p n pn by (intro entry_store_other) auto
    then show ?thesis using that n(1) by (simp add: load64_zero_page pte_addr_aligned pte_addr_page)
  qed
  note E = empty_table [OF z n(1,2)]
  have e: "entry m2 q k = entry m q k" if "page_aligned q" "k < 512" "q \<noteq> n" "q \<noteq> p \<or> k \<noteq> i" for q k
  proof -
    have "entry m2 q k = entry ?m q k" unfolding m2_def using that i p by (intro entry_store_other) auto
    also have "\<dots> = entry m1 q k"
      using that n(1) aligned_same_page [of q n] pte_addr_page [of q k]
      by (intro load64_write_other_page pte_addr_aligned) auto
    also have "\<dots> = entry m q k" using that n(1) by (intro entry_outside [OF out]) auto
    finally show ?thesis .
  qed
  have sib: "pt_grow m m2 l (PTE2PA (entry m p j)) {}" if j: "j < 512" "pte_valid (entry m p j)" for j
  proof (rule pt_grow_frame)
    show "entry m2 q k = entry m q k" if q: "q \<in> tbl m l (PTE2PA (entry m p j))" "k < 512" for q k
      using pt_wf_aligned [OF pt_wfD(2) [OF wf j] q(1)] pt_wfD(3,4) [OF wf j] n(3) q by (intro e) auto
  qed (rule pt_wfD(2) [OF wf j])
  have "m2 x = m1 x" if "\<not> same_page x p" "\<not> same_page x n" for x
    unfolding m2_def using that page_apart [OF n(1) that(2)] store_entry_page [OF p(1) i(1) that(1)]
    by (simp add: write_bytes_out)
  then have "only_pages m1 m2 (tbl m (Suc l) p \<union> {n})" by (simp add: only_pages_def)
  then have "only_pages m m2 (tbl m (Suc l) p \<union> {n})"
    by (rule only_pages_trans [OF out]) auto
  moreover have "pt_grow m m2 (Suc l) p {n}"
    using pt_grow_link [OF wf i n(3) ei pa e E sib] p by blast
  ultimately show "pt_ext m m2 (Suc l) p {n}" by (simp add: pt_ext_def)
qed

end
