(* ===== verification/Vm_Map.thy ===== *)
theory Vm_Map
  imports Pt_Tree
begin

text \<open>
  Correctness of \<open>walk\<close> and \<open>mappages\<close>.  \<open>vmap s pt va\<close> is the entry that the table \<open>pt\<close> holds for \<open>va\<close>.
  Walking with allocation leaves this map alone and takes pages from the free list; \<open>mappages\<close>
  changes it to \<open>map_range\<close>, its specification, or runs out of pages.
\<close>

section \<open>Steps that change memory only\<close>

definition mem_step :: "'z kmem_state_scheme \<Rightarrow> 'z kmem_state_scheme \<Rightarrow> bool" where
  "mem_step s t \<longleftrightarrow> (\<exists>m fl. t = s\<lparr>pmem := m, freelist := fl\<rparr>)"

lemma mem_stepI: "t = s\<lparr>pmem := m, freelist := fl\<rparr> \<Longrightarrow> mem_step s t"
  unfolding mem_step_def by blast

lemma mem_step_refl: "mem_step s s"
  by (rule mem_stepI [where m = "pmem s" and fl = "freelist s"]) simp

lemma mem_step_trans:
  assumes "mem_step s t" "mem_step t u"
  shows "mem_step s u"
proof -
  obtain m f m' f' where "t = s\<lparr>pmem := m, freelist := f\<rparr>" "u = t\<lparr>pmem := m', freelist := f'\<rparr>"
    using assms unfolding mem_step_def by blast
  then show ?thesis by (intro mem_stepI [where m = m' and fl = f']) simp
qed

lemma mem_step_pmem: "mem_step s (s\<lparr>pmem := m\<rparr>)"
  by (rule mem_stepI [where m = m and fl = "freelist s"]) simp

lemma mem_step_kalloc: "kalloc s = (a, t) \<Longrightarrow> mem_step s t"
  using kalloc_shape [of s] unfolding mem_step_def by simp

lemma mem_step_kfree: "kfree a s = Ret t \<Longrightarrow> mem_step s t"
  using kfree_shape unfolding mem_step_def by blast

section \<open>Walking\<close>

text \<open>Without allocation \<open>walk\<close> only reads, and finds the slot of the table.\<close>

lemma walk_loop_find:
  "walk_loop l p va False s = ((case pt_slot (pmem s) l p va of None \<Rightarrow> 0 | Some a \<Rightarrow> a), s)"
  by (induction l arbitrary: p) (simp_all add: Let_def)

lemma slot_nonzero:
  assumes "pt_wf m l p" "pt_slot m l p va = Some a"
  shows "a \<noteq> 0"
proof -
  obtain q where q: "q \<in> tbl m l p" "a = pte_addr q (PX 0 va)" using slot_in_table [OF assms] by blast
  have nz: "pt_wf m l p \<Longrightarrow> q \<in> tbl m l p \<Longrightarrow> q \<noteq> 0" for m l p by (induction l arbitrary: p) auto
  have "page_aligned q" "q \<noteq> 0" using pt_wf_aligned assms(1) q(1) nz by auto
  then have "unat a \<noteq> 0" using unat_pte_addr [OF _ PX_less] q(2) by (simp add: unat_eq_0)
  then show ?thesis by auto
qed

lemma page_ok_small: "page_ok s n \<Longrightarrow> n < 2 ^ 56"
  by (auto simp: page_ok_def word_less_nat_alt)

lemma kmem_inv_pages: "kmem_inv s fs \<Longrightarrow> n \<in> set fs \<Longrightarrow> page_ok s n \<and> page_aligned n \<and> n \<noteq> 0"
  using kmem_inv_nonzero [of s fs] by (auto simp: kmem_inv_def list_all_iff page_ok_def)

lemma kalloc_only: "kmem_inv s (n # fs) \<Longrightarrow> kalloc s = (n, s1) \<Longrightarrow> only_pages (pmem s) (pmem s1) {n}"
  using kalloc_frame [of s "n # fs" n s1] by (auto simp: only_pages_def)

lemma only_pages_kmem:
  assumes "kmem_inv s fs" "only_pages (pmem s) m A" "A \<inter> set fs = {}" "\<And>q. q \<in> A \<Longrightarrow> page_aligned q"
  shows "kmem_inv (s\<lparr>pmem := m\<rparr>) fs"
proof (rule kmem_inv_frame [OF assms(1)])
  fix x
  assume x: "x \<in> set fs"
  have "page_aligned x" using kmem_inv_pages [OF assms(1) x] by simp
  moreover have "x \<notin> A" using x assms(3) by blast
  ultimately show "load64 (pmem (s\<lparr>pmem := m\<rparr>)) x = load64 (pmem s) x"
    using entry_outside [OF assms(2), of x 0] assms(4) by simp
qed simp_all

text \<open>
  With allocation the result is the slot of an extended table, or 0 when the allocator has run out
  of pages.  The pages taken are a prefix of the free list, at most \<open>k\<close> of them.
\<close>

definition walk_spec :: "nat \<Rightarrow> nat \<Rightarrow> addr \<Rightarrow> addr \<Rightarrow> 'z kmem_state_scheme \<Rightarrow> addr list \<Rightarrow> addr \<times> 'z kmem_state_scheme \<Rightarrow> bool" where
  "walk_spec k l p va s fs r \<longleftrightarrow> (\<exists>used fs' m fl. snd r = s\<lparr>pmem := m, freelist := fl\<rparr> \<and> fs = used @ fs' \<and>
     length used \<le> k \<and> (fst r = 0 \<longrightarrow> length used < k) \<and>
     kmem_inv (snd r) fs' \<and> pt_ext (pmem s) m l p (set used) \<and>
     (if fst r = 0 then fs' = [] else pt_slot m l p va = Some (fst r)))"

lemma walk_spec_child:
  assumes wf: "pt_wf (pmem s) (Suc l) p" and v: "pte_valid (entry (pmem s) p (PX (Suc l) va))"
    and inv: "kmem_inv s fs" "tbl (pmem s) (Suc l) p \<inter> set fs = {}"
    and c: "walk_spec k l (PTE2PA (entry (pmem s) p (PX (Suc l) va))) va s fs r"
  shows "walk_spec k (Suc l) p va s fs r"
proof -
  let ?i = "PX (Suc l) va"
  let ?c = "PTE2PA (entry (pmem s) p ?i)"
  obtain used fs' m fl where r: "snd r = s\<lparr>pmem := m, freelist := fl\<rparr>" "fs = used @ fs'" "kmem_inv (snd r) fs'"
    "pt_ext (pmem s) m l ?c (set used)" "if fst r = 0 then fs' = [] else pt_slot m l ?c va = Some (fst r)"
    "length used \<le> k \<and> (fst r = 0 \<longrightarrow> length used < k)"
    using c unfolding walk_spec_def by blast
  have "pt_ext (pmem s) m (Suc l) p (set used)" "entry m p ?i = entry (pmem s) p ?i"
    by (rule pt_ext_child [OF wf PX_less v r(4)]; use inv r(2) kmem_inv_pages [OF inv(1)] in auto)+
  moreover from this(2) have "if fst r = 0 then fs' = [] else pt_slot m (Suc l) p va = Some (fst r)"
    using r(5) v by (simp add: Let_def)
  ultimately show ?thesis using r unfolding walk_spec_def by blast
qed

lemma walk_spec_weaken: "walk_spec k l p va s fs r \<Longrightarrow> walk_spec (Suc k) l p va s fs r"
  unfolding walk_spec_def by (elim exE) (rule exI, rule exI, rule exI, rule exI, auto)

lemma walk_spec_link:
  assumes "pt_ext (pmem s) (pmem s3) l p {n}" "s3 = s\<lparr>pmem := m3, freelist := f3\<rparr>" "walk_spec k l p va s3 gs r"
  shows "walk_spec (Suc k) l p va s (n # gs) r"
proof -
  obtain used fs' m fl where r: "snd r = s3\<lparr>pmem := m, freelist := fl\<rparr>" "gs = used @ fs'" "kmem_inv (snd r) fs'"
    "pt_ext (pmem s3) m l p (set used)" "if fst r = 0 then fs' = [] else pt_slot m l p va = Some (fst r)"
    "length used \<le> k \<and> (fst r = 0 \<longrightarrow> length used < k)"
    using assms(3) unfolding walk_spec_def by blast
  have "pt_ext (pmem s) m l p (set (n # used))" using pt_ext_trans [OF assms(1) r(4)] by simp
  moreover have "snd r = s\<lparr>pmem := m, freelist := fl\<rparr>" using r(1) assms(2) by simp
  ultimately show ?thesis using r unfolding walk_spec_def
    by (intro exI [of _ "n # used"] exI [of _ fs'] exI [of _ m] exI [of _ fl]) simp
qed

lemma link_table:
  assumes wf: "pt_wf (pmem s) (Suc l) p" and i: "i < 512" "\<not> pte_valid (entry (pmem s) p i)"
    and inv: "kmem_inv s (n # gs)" "tbl (pmem s) (Suc l) p \<inter> set (n # gs) = {}"
    and s1: "kalloc s = (n, s1)"
  defines "s3 \<equiv> s1\<lparr>pmem := store64 (memset (pmem s1) n 0 4096) (pte_addr p i) (PA2PTE n OR PTE_V)\<rparr>"
  shows "pt_ext (pmem s) (pmem s3) (Suc l) p {n}" "entry (pmem s3) p i = PA2PTE n OR PTE_V"
    "PTE2PA (PA2PTE n OR PTE_V) = n" "kmem_inv s3 gs" "tbl (pmem s3) (Suc l) p \<inter> set gs = {}"
proof -
  have n: "page_aligned n" "n \<noteq> 0" "n < 2 ^ 56" "n \<notin> tbl (pmem s) (Suc l) p"
    using kmem_inv_pages [OF inv(1), of n] page_ok_small inv(2) by auto
  note out = kalloc_only [OF inv(1) s1]
  have m3: "pmem s3 = store64 (write_bytes (pmem s1) n (replicate 4096 0)) (pte_addr p i) (PA2PTE n OR PTE_V)"
    by (simp add: s3_def memset_page)
  note L = pt_link [OF wf i n(1,2,4,3) out, folded m3]
  show "pt_ext (pmem s) (pmem s3) (Suc l) p {n}" "entry (pmem s3) p i = PA2PTE n OR PTE_V"
    "PTE2PA (PA2PTE n OR PTE_V) = n" by (rule L)+
  have E: "tbl (pmem s3) (Suc l) p \<subseteq> tbl (pmem s) (Suc l) p \<union> {n}"
    "only_pages (pmem s) (pmem s3) (tbl (pmem s) (Suc l) p \<union> {n})"
    using L(1) by (auto simp: pt_ext_def pt_grow_def)
  have fresh: "n \<notin> set gs" using inv(1) by (simp add: kmem_inv_def)
  then show "tbl (pmem s3) (Suc l) p \<inter> set gs = {}" using E(1) inv(2) by auto
  have inv1: "kmem_inv s1 gs" using kalloc_inv [OF inv(1)] s1 by simp
  show "kmem_inv s3 gs"
  proof (rule kmem_inv_frame [OF inv1])
    fix x
    assume x: "x \<in> set gs"
    then have "page_aligned x" using kmem_inv_pages [OF inv1] by blast
    moreover have "x \<notin> tbl (pmem s) (Suc l) p \<union> {n}" using x inv(2) fresh by auto
    ultimately have "entry (pmem s3) x 0 = entry (pmem s) x 0" "entry (pmem s1) x 0 = entry (pmem s) x 0"
      using pt_wf_aligned [OF wf] n(1) by (intro entry_outside [OF E(2)] entry_outside [OF out]; auto)+
    then show "load64 (pmem s3) x = load64 (pmem s1) x" by simp
  qed (simp_all add: s3_def)
qed

lemma walk_alloc:
  assumes "pt_wf (pmem s) l p" "kmem_inv s fs" "tbl (pmem s) l p \<inter> set fs = {}"
  shows "walk_spec l l p va s fs (walk_loop l p va True s)"
  using assms
proof (induction l arbitrary: p s fs)
  case 0
  have "pte_addr p (PX 0 va) \<noteq> 0" using slot_nonzero [OF 0(1), of va] by simp
  then show ?case using 0 unfolding walk_spec_def
    by (intro exI [of _ "[]"] exI [of _ fs] exI [of _ "pmem s"] exI [of _ "freelist s"]) (simp add: pt_ext_refl)
next
  case (Suc l)
  let ?i = "PX (Suc l) va"
  have child: "walk_spec l (Suc l) p va s' fs' (walk_loop l (PTE2PA (entry (pmem s') p ?i)) va True s')"
    if "pt_wf (pmem s') (Suc l) p" "pte_valid (entry (pmem s') p ?i)" "kmem_inv s' fs'"
      "tbl (pmem s') (Suc l) p \<inter> set fs' = {}" for s' :: "'a kmem_state_scheme" and fs'
  proof (rule walk_spec_child [OF that])
    show "walk_spec l l (PTE2PA (entry (pmem s') p ?i)) va s' fs' (walk_loop l (PTE2PA (entry (pmem s') p ?i)) va True s')"
      using pt_wfD(2,4) [OF that(1) PX_less that(2)] that(3,4) by (intro Suc.IH) auto
  qed
  show ?case
  proof (cases "pte_valid (entry (pmem s) p ?i)")
    case True
    have "walk_spec (Suc l) (Suc l) p va s fs (walk_loop l (PTE2PA (entry (pmem s) p ?i)) va True s)"
      using child [OF Suc.prems(1) True Suc.prems(2,3)] by (rule walk_spec_weaken)
    then show ?thesis using True by (simp add: Let_def)
  next
    case False
    show ?thesis
    proof (cases fs)
      case Nil
      then have "kalloc s = (0, s)" using kalloc_Nil Suc.prems(2) by simp
      then show ?thesis using False Nil Suc.prems unfolding walk_spec_def
        by (intro exI [of _ "[]"] exI [of _ "[]"] exI [of _ "pmem s"] exI [of _ "freelist s"])
          (simp add: Let_def pt_ext_refl)
    next
      case (Cons n gs)
      have inv: "kmem_inv s (n # gs)" "tbl (pmem s) (Suc l) p \<inter> set (n # gs) = {}"
        using Suc.prems(2,3) Cons by auto
      obtain s1 where s1: "kalloc s = (n, s1)" using kalloc_Cons [OF inv(1)] by blast
      define s3 where "s3 = s1\<lparr>pmem := store64 (memset (pmem s1) n 0 4096) (pte_addr p ?i) (PA2PTE n OR PTE_V)\<rparr>"
      note L = link_table [OF Suc.prems(1) PX_less False inv s1, folded s3_def]
      have "pt_wf (pmem s3) (Suc l) p" using L(1) by (simp add: pt_ext_def pt_grow_def)
      then have "walk_spec l (Suc l) p va s3 gs (walk_loop l n va True s3)"
        using child [of s3 gs] L(2-5) by simp
      moreover have "\<exists>m f. s3 = s\<lparr>pmem := m, freelist := f\<rparr>"
      proof -
        obtain m f where "s1 = s\<lparr>pmem := m, freelist := f\<rparr>" using kalloc_shape [of s] s1 by auto
        then have "s3 = s\<lparr>pmem := pmem s3, freelist := f\<rparr>" by (simp add: s3_def)
        then show ?thesis by blast
      qed
      ultimately have "walk_spec (Suc l) (Suc l) p va s fs (walk_loop l n va True s3)"
        using walk_spec_link [OF L(1)] Cons by blast
      moreover have "n \<noteq> 0" using kmem_inv_nonzero [OF inv(1)] by auto
      ultimately show ?thesis using False s1 by (simp add: s3_def Let_def)
    qed
  qed
qed

section \<open>The address space a table represents\<close>

lemma page_number_bits: "unat (va :: addr) div 4096 = unat (drop_bit 12 va)"
  by (simp add: drop_bit_eq_div unat_div)

lemma same_index_page:
  assumes "va < MAXVA" "va' < MAXVA"
  shows "same_index 2 va va' \<longleftrightarrow> same_page va va'"
proof -
  have top: "\<not> bit w n" if "w < MAXVA" "38 \<le> n" for w :: addr and n
    using that word_less_mask [of 38 w] bit_imp_le_length [of w n] by (cases "n < 64") auto
  have "same_index 2 va va' \<longleftrightarrow> drop_bit 12 va = drop_bit 12 va'"
  proof
    assume si: "same_index 2 va va'"
    show "drop_bit 12 va = drop_bit 12 va'"
    proof (rule bit_word_eqI)
      fix n :: nat
      show "bit (drop_bit 12 va) n \<longleftrightarrow> bit (drop_bit 12 va') n"
      proof (cases "n < 27")
        case True
        define k j where "k = n div 9" and "j = n mod 9"
        have "n = 9 * k + j" "j < 9" "k \<le> 2" using True by (auto simp: k_def j_def)
        moreover have "PX k va = PX k va'" using si \<open>k \<le> 2\<close> by (simp add: same_index_def)
        then have "bit (PX k va) j \<longleftrightarrow> bit (PX k va') j" by simp
        ultimately show ?thesis by (simp add: bit_PX bit_drop_bit_eq add.assoc)
      next
        case False
        then show ?thesis using top [OF assms(1)] top [OF assms(2)] by (simp add: bit_drop_bit_eq)
      qed
    qed
  next
    assume d: "drop_bit 12 va = drop_bit 12 va'"
    have "PX k va = PX k va'" for k
      using d by (simp add: PX_take_bit drop_bit_drop_bit [symmetric, of "9 * k" 12, simplified add.commute])
    then show "same_index 2 va va'" by (simp add: same_index_def)
  qed
  then show ?thesis by (simp add: page_number_bits word_unat_eq_iff)
qed

text \<open>
  What the clients of a page table rely on: the tables are well formed and none of their pages is on
  the free list.
\<close>

definition vm_inv :: "'z kmem_state_scheme \<Rightarrow> addr \<Rightarrow> addr list \<Rightarrow> bool" where
  "vm_inv s pt fs \<longleftrightarrow> pt_wf (pmem s) 2 pt \<and> kmem_inv s fs \<and> tbl (pmem s) 2 pt \<inter> set fs = {}"

abbreviation vmap :: "'z kmem_state_scheme \<Rightarrow> addr \<Rightarrow> addr \<Rightarrow> 64 word" where
  "vmap s pt va \<equiv> pte_of (pmem s) 2 pt va"

lemma store_pte:
  assumes inv: "vm_inv s pt fs" and sl: "pt_slot (pmem s) 2 pt va = Some a" and va: "va < MAXVA"
    and t_def: "t = s\<lparr>pmem := store64 (pmem s) a v\<rparr>"
  shows "vm_inv t pt fs" "tbl (pmem t) 2 pt = tbl (pmem s) 2 pt" "only_pages (pmem s) (pmem t) (tbl (pmem s) 2 pt)"
    "\<And>va'. va' < MAXVA \<Longrightarrow> vmap t pt va' = (if same_page va va' then v else vmap s pt va')"
proof -
  have I: "pt_wf (pmem s) 2 pt" "kmem_inv s fs" "tbl (pmem s) 2 pt \<inter> set fs = {}"
    using inv by (auto simp: vm_inv_def)
  have same: "pt_same (pmem s) (pmem t) 2 pt" unfolding t_def using pt_store_leaf [OF I(1) sl] by simp
  then show tbl: "tbl (pmem t) 2 pt = tbl (pmem s) 2 pt" by (simp add: pt_same_def)
  obtain q where q: "q \<in> tbl (pmem s) 2 pt" "a = pte_addr q (PX 0 va)" using slot_in_table [OF I(1) sl] by blast
  have "page_aligned q" by (rule pt_wf_aligned [OF I(1) q(1)])
  then show out: "only_pages (pmem s) (pmem t) (tbl (pmem s) 2 pt)"
    using q store_entry_page [OF _ PX_less] by (auto simp: only_pages_def t_def)
  have "kmem_inv t fs"
    unfolding t_def using only_pages_kmem [OF I(2) out I(3)] pt_wf_aligned [OF I(1)] by (simp add: t_def)
  then show "vm_inv t pt fs" using same I by (simp add: vm_inv_def tbl pt_same_def)
  show "vmap t pt va' = (if same_page va va' then v else vmap s pt va')" if "va' < MAXVA" for va'
    using pte_of_store [OF I(1) sl, of v va'] same_index_page [OF va that] by (simp add: t_def)
qed

lemma walk_find:
  assumes "vm_inv s pt fs" "va < MAXVA"
  shows "walk pt va False s = Ret ((case pt_slot (pmem s) 2 pt va of None \<Rightarrow> 0 | Some a \<Rightarrow> a), s)"
    "pt_slot (pmem s) 2 pt va \<noteq> Some 0"
    "pt_slot (pmem s) 2 pt va = None \<Longrightarrow> vmap s pt va = 0"
    "pt_slot (pmem s) 2 pt va = Some a \<Longrightarrow> load64 (pmem s) a = vmap s pt va"
  using assms slot_nonzero [of "pmem s" 2 pt va]
  by (auto simp: walk_def walk_loop_find vm_inv_def pte_of_def not_le)

text \<open>Walking with allocation keeps the address space and uses up pages of the free list only.\<close>

lemma walk_extend:
  assumes inv: "vm_inv s pt fs" and va: "va < MAXVA"
  obtains a t used fs' where "walk pt va True s = Ret (a, t)" "fs = used @ fs'" "vm_inv t pt fs'"
    "\<And>va'. vmap t pt va' = vmap s pt va'" "tbl (pmem t) 2 pt \<subseteq> tbl (pmem s) 2 pt \<union> set used"
    "only_pages (pmem s) (pmem t) (tbl (pmem s) 2 pt \<union> set used)"
    "if a = 0 then fs' = [] else pt_slot (pmem t) 2 pt va = Some a" "mem_step s t"
    "length used \<le> 2" "a = 0 \<Longrightarrow> length used < 2"
proof -
  have I: "pt_wf (pmem s) 2 pt" "kmem_inv s fs" "tbl (pmem s) 2 pt \<inter> set fs = {}"
    using inv by (auto simp: vm_inv_def)
  obtain a t where w: "walk_loop 2 pt va True s = (a, t)" by fastforce
  obtain used fs' m fl where r: "t = s\<lparr>pmem := m, freelist := fl\<rparr>" "fs = used @ fs'" "kmem_inv t fs'"
    "pt_ext (pmem s) m 2 pt (set used)" "if a = 0 then fs' = [] else pt_slot m 2 pt va = Some a"
    "length used \<le> 2" "a = 0 \<longrightarrow> length used < 2"
    using walk_alloc [OF I, of va] w by (auto simp: walk_spec_def)
  have G: "pt_wf (pmem t) 2 pt" "tbl (pmem t) 2 pt \<subseteq> tbl (pmem s) 2 pt \<union> set used"
    "\<And>va'. vmap t pt va' = vmap s pt va'" "only_pages (pmem s) (pmem t) (tbl (pmem s) 2 pt \<union> set used)"
    using r(1,4) by (auto simp: pt_ext_def pt_grow_def)
  have "distinct fs" using I(2) by (simp add: kmem_inv_def)
  then have "tbl (pmem t) 2 pt \<inter> set fs' = {}" using G(2) I(3) r(2) by auto
  then have "vm_inv t pt fs'" using G(1) r(3) by (simp add: vm_inv_def)
  moreover have "walk pt va True s = Ret (a, t)" using w va by (simp add: walk_def not_le)
  moreover have "if a = 0 then fs' = [] else pt_slot (pmem t) 2 pt va = Some a" using r(1,5) by simp
  moreover have "mem_step s t" using r(1) unfolding mem_step_def by blast
  ultimately show thesis using that [of a t used fs'] r(2,6,7) G(2-4) by blast
qed

section \<open>Mapping a range of pages\<close>

text \<open>
  The address space after mapping the \<open>n\<close> pages from \<open>va\<close> to the pages from \<open>pa\<close>: the specification of
  \<open>mappages\<close>.
\<close>

definition map_range :: "(addr \<Rightarrow> 64 word) \<Rightarrow> addr \<Rightarrow> addr \<Rightarrow> nat \<Rightarrow> 64 word \<Rightarrow> addr \<Rightarrow> 64 word" where
  "map_range f va pa n perm x =
     (let k = unat x div 4096; b = unat va div 4096 in
      if b \<le> k \<and> k < b + n then PA2PTE (pa + of_nat (k - b) * PGSIZE) OR perm OR PTE_V else f x)"

lemma map_range_0 [simp]: "map_range f va pa 0 perm = f"
  by (rule ext) (auto simp: map_range_def Let_def)

lemma map_range_Suc:
  assumes "unat (va + PGSIZE) = unat va + 4096"
  shows "map_range (\<lambda>x. if same_page va x then PA2PTE pa OR perm OR PTE_V else f x) (va + PGSIZE) (pa + PGSIZE) n perm x
    = map_range f va pa (Suc n) perm x"
proof -
  let ?k = "unat x div 4096" and ?b = "unat va div 4096"
  have b: "unat (va + 4096) div 4096 = Suc ?b" using assms by simp
  have "pa + 4096 + of_nat (?k - Suc ?b) * 4096 = pa + of_nat (?k - ?b) * 4096" if "Suc ?b \<le> ?k"
  proof -
    have "?k - ?b = Suc (?k - Suc ?b)" using that by simp
    then show ?thesis by (simp only: of_nat_Suc) (simp add: algebra_simps)
  qed
  then have "PA2PTE (pa + 4096 + of_nat (?k - Suc ?b) * 4096) = PA2PTE (pa + of_nat (?k - ?b) * 4096)" if "Suc ?b \<le> ?k"
    using that by simp
  then show ?thesis by (auto simp: map_range_def Let_def b simp del: of_nat_diff)
qed

text \<open>
  The result of mapping: \<open>j\<close> pages are mapped, all of them on success; on failure the allocator has
  no page left.  Each page needs at most two new tables.  Only pages of the table and of the free list are touched.
\<close>

definition mapped_to :: "'z kmem_state_scheme \<Rightarrow> addr \<Rightarrow> addr list \<Rightarrow> addr \<Rightarrow> nat \<Rightarrow> addr \<Rightarrow> 64 word \<Rightarrow> int \<Rightarrow> 'z kmem_state_scheme \<Rightarrow> bool" where
  "mapped_to s pt fs va n pa perm r t \<longleftrightarrow> (\<exists>j used fs'. fs = used @ fs' \<and> vm_inv t pt fs' \<and>
     (r = 0 \<and> j = n \<and> length used \<le> 2 * n \<or> r = -1 \<and> j < n \<and> fs' = [] \<and> length used < 2 * n) \<and>
     (\<forall>x < MAXVA. vmap t pt x = map_range (vmap s pt) va pa j perm x) \<and>
     tbl (pmem t) 2 pt \<subseteq> tbl (pmem s) 2 pt \<union> set used \<and>
     only_pages (pmem s) (pmem t) (tbl (pmem s) 2 pt \<union> set used) \<and>
     mem_step s t)"

lemma mapped_to_fail:
  assumes "walk pt va True s = Ret (0, t)" "vm_inv s pt fs" "va < MAXVA" "0 < n"
  shows "mapped_to s pt fs va n pa perm (-1) t"
  by (rule walk_extend [OF assms(2,3)]) (use assms(1,4) in \<open>auto simp: mapped_to_def\<close>)

text \<open>One iteration of the loop: the walk succeeds and the entry is written.\<close>

definition map_one :: "'z kmem_state_scheme \<Rightarrow> addr \<Rightarrow> addr list \<Rightarrow> addr \<Rightarrow> 64 word \<Rightarrow> addr list \<Rightarrow> 'z kmem_state_scheme \<Rightarrow> bool" where
  "map_one s pt fs va v fs' t \<longleftrightarrow> (\<exists>used. fs = used @ fs' \<and> length used \<le> 2 \<and> vm_inv t pt fs' \<and>
     (\<forall>x < MAXVA. vmap t pt x = (if same_page va x then v else vmap s pt x)) \<and>
     tbl (pmem t) 2 pt \<subseteq> tbl (pmem s) 2 pt \<union> set used \<and>
     only_pages (pmem s) (pmem t) (tbl (pmem s) 2 pt \<union> set used) \<and>
     mem_step s t)"

lemma walk_then_store:
  assumes "vm_inv s pt fs" "va < MAXVA"
  shows "(\<exists>t. walk pt va True s = Ret (0, t)) \<or>
    (\<exists>a t fs'. walk pt va True s = Ret (a, t) \<and> a \<noteq> 0 \<and> load64 (pmem t) a = vmap s pt va \<and>
       map_one s pt fs va v fs' (t\<lparr>pmem := store64 (pmem t) a v\<rparr>))"
proof -
  obtain a t used fs' where w: "walk pt va True s = Ret (a, t)" "fs = used @ fs'" "vm_inv t pt fs'"
    "\<And>va'. vmap t pt va' = vmap s pt va'" "tbl (pmem t) 2 pt \<subseteq> tbl (pmem s) 2 pt \<union> set used"
    "only_pages (pmem s) (pmem t) (tbl (pmem s) 2 pt \<union> set used)"
    "if a = 0 then fs' = [] else pt_slot (pmem t) 2 pt va = Some a" "mem_step s t" "length used \<le> 2"
    by (rule walk_extend [OF assms]) (rule that)
  show ?thesis
  proof (cases "a = 0")
    case True
    then show ?thesis using w(1) by blast
  next
    case False
    then have sl: "pt_slot (pmem t) 2 pt va = Some a" using w(7) by simp
    define u where "u = t\<lparr>pmem := store64 (pmem t) a v\<rparr>"
    note S = store_pte [OF w(3) sl assms(2) u_def]
    have "only_pages (pmem s) (pmem u) (tbl (pmem s) 2 pt \<union> set used)"
      using only_pages_trans [OF w(6) S(3)] w(5) by blast
    moreover have "mem_step s u" using mem_step_trans [OF w(8) mem_step_pmem] by (simp add: u_def)
    ultimately have "map_one s pt fs va v fs' u"
      using w(2,4,5,9) S(1,2,4) unfolding map_one_def by auto
    moreover have "load64 (pmem t) a = vmap t pt va" by (simp add: pte_of_def sl)
    ultimately show ?thesis using w(1,4) False unfolding u_def by metis
  qed
qed

lemma mapped_to_Suc:
  assumes "map_one s pt fs va (PA2PTE pa OR perm OR PTE_V) fs1 t" "unat (va + PGSIZE) = unat va + 4096"
    and "mapped_to t pt fs1 (va + PGSIZE) n (pa + PGSIZE) perm r u"
  shows "mapped_to s pt fs va (Suc n) pa perm r u"
proof -
  let ?v = "PA2PTE pa OR perm OR PTE_V"
  obtain used1 where o: "fs = used1 @ fs1" "\<And>x. x < MAXVA \<Longrightarrow> vmap t pt x = (if same_page va x then ?v else vmap s pt x)"
    "tbl (pmem t) 2 pt \<subseteq> tbl (pmem s) 2 pt \<union> set used1"
    "only_pages (pmem s) (pmem t) (tbl (pmem s) 2 pt \<union> set used1)" "mem_step s t" "length used1 \<le> 2"
    using assms(1) by (auto simp: map_one_def)
  obtain j used fs' where m: "fs1 = used @ fs'" "vm_inv u pt fs'" "r = 0 \<and> j = n \<and> length used \<le> 2 * n \<or> r = -1 \<and> j < n \<and> fs' = [] \<and> length used < 2 * n"
    "\<And>x. x < MAXVA \<Longrightarrow> vmap u pt x = map_range (vmap t pt) (va + PGSIZE) (pa + PGSIZE) j perm x"
    "tbl (pmem u) 2 pt \<subseteq> tbl (pmem t) 2 pt \<union> set used"
    "only_pages (pmem t) (pmem u) (tbl (pmem t) 2 pt \<union> set used)" "mem_step t u"
    using assms(3) unfolding mapped_to_def by blast
  have "vmap u pt x = map_range (vmap s pt) va pa (Suc j) perm x" if "x < MAXVA" for x
  proof -
    have "vmap u pt x = map_range (\<lambda>x. if same_page va x then ?v else vmap s pt x) (va + PGSIZE) (pa + PGSIZE) j perm x"
      using m(4) [OF that] o(2) [OF that] by (simp add: map_range_def Let_def)
    also have "\<dots> = map_range (vmap s pt) va pa (Suc j) perm x" by (rule map_range_Suc [OF assms(2)])
    finally show ?thesis .
  qed
  moreover have "only_pages (pmem s) (pmem u) (tbl (pmem s) 2 pt \<union> set (used1 @ used))"
    by (rule only_pages_trans [OF o(4) m(6)]) (use o(3) in auto)
  moreover have "mem_step s u" using o(5) m(7) by (rule mem_step_trans)
  ultimately show ?thesis unfolding mapped_to_def
    using o(1,3,6) m(1-3,5) by (intro exI [of _ "Suc j"] exI [of _ "used1 @ used"] exI [of _ fs']) auto
qed

lemma mapped_to_one:
  "map_one s pt fs va (PA2PTE pa OR perm OR PTE_V) fs1 t \<Longrightarrow> mapped_to s pt fs va 1 pa perm 0 t"
  unfolding map_one_def mapped_to_def
  by (elim exE conjE, intro exI [of _ 1] exI conjI; (assumption | simp add: map_range_def Let_def))

lemma mappages_loop_step:
  "walk pt va True s = Ret (a, t) \<Longrightarrow> a \<noteq> 0 \<Longrightarrow> \<not> pte_valid (load64 (pmem t) a) \<Longrightarrow> va \<noteq> lst \<Longrightarrow>
   mappages_loop (Suc fuel) pt va lst pa perm s =
     mappages_loop fuel pt (va + PGSIZE) lst (pa + PGSIZE) perm
       (t\<lparr>pmem := store64 (pmem t) a (PA2PTE pa OR perm OR PTE_V)\<rparr>)"
  by simp

lemma mappages_loop_correct:
  assumes "vm_inv s pt fs" "page_aligned va" "unat va + 4096 * Suc n \<le> unat MAXVA"
    and "\<And>x. x < MAXVA \<Longrightarrow> unat va div 4096 \<le> unat x div 4096 \<Longrightarrow> unat x div 4096 < unat va div 4096 + Suc n \<Longrightarrow>
       \<not> pte_valid (vmap s pt x)"
  shows "\<exists>r t. mappages_loop (Suc n) pt va (va + of_nat n * PGSIZE) pa perm s = Ret (r, t) \<and>
    mapped_to s pt fs va (Suc n) pa perm r t"
  using assms
proof (induction n arbitrary: s fs va pa)
  case 0
  have va: "va < MAXVA" using 0(3) by (simp add: word_less_nat_alt)
  let ?v = "PA2PTE pa OR perm OR PTE_V"
  consider t where "walk pt va True s = Ret (0, t)"
    | a t fs' where "walk pt va True s = Ret (a, t)" "a \<noteq> 0" "load64 (pmem t) a = vmap s pt va"
       "map_one s pt fs va ?v fs' (t\<lparr>pmem := store64 (pmem t) a ?v\<rparr>)"
    using walk_then_store [OF 0(1) va, of ?v] by blast
  then show ?case
  proof cases
    case 1
    then show ?thesis using mapped_to_fail [OF 1 0(1) va] by simp
  next
    case (2 a t fs')
    then show ?thesis using mapped_to_one [OF 2(4)] 0(4) [OF va] by (simp add: Let_def)
  qed
next
  case (Suc n)
  have va: "va < MAXVA" using Suc.prems(3) by (simp add: word_less_nat_alt)
  have step: "unat (va + PGSIZE) = unat va + 4096"
    using Suc.prems(3) unat_add_small [of va 4096] by simp
  have lst: "va + of_nat (Suc n) * PGSIZE = va + PGSIZE + of_nat n * PGSIZE" by (simp add: algebra_simps)
  have ne: "va \<noteq> va + of_nat (Suc n) * PGSIZE"
  proof -
    have "unat va + 4096 * Suc n < 2 ^ 64" using Suc.prems(3) by simp
    then have "unat (va + of_nat (4096 * Suc n)) \<noteq> unat va" by (subst unat_add_small) simp_all
    moreover have "of_nat (4096 * Suc n) = of_nat (Suc n) * PGSIZE" by simp
    ultimately show ?thesis by metis
  qed
  let ?v = "PA2PTE pa OR perm OR PTE_V"
  have IH: "\<exists>r u. mappages_loop (Suc n) pt (va + PGSIZE) (va + PGSIZE + of_nat n * PGSIZE) (pa + PGSIZE) perm t = Ret (r, u) \<and>
      mapped_to t pt gs (va + PGSIZE) (Suc n) (pa + PGSIZE) perm r u"
    if t: "vm_inv t pt gs" "\<And>x. x < MAXVA \<Longrightarrow> vmap t pt x = (if same_page va x then ?v else vmap s pt x)"
    for t :: "'a kmem_state_scheme" and gs
  proof (rule Suc.IH [OF t(1)])
    show "page_aligned (va + PGSIZE)" using Suc.prems(2) step unfolding page_aligned_iff by simp
    show "unat (va + PGSIZE) + 4096 * Suc n \<le> unat MAXVA" using Suc.prems(3) step by simp
    show "\<not> pte_valid (vmap t pt x)" if x: "x < MAXVA" "unat (va + PGSIZE) div 4096 \<le> unat x div 4096"
      "unat x div 4096 < unat (va + PGSIZE) div 4096 + Suc n" for x
    proof -
      have "unat va div 4096 < unat x div 4096" using x(2) step by simp
      then show ?thesis using t(2) [OF x(1)] Suc.prems(4) [OF x(1)] x(3) step by simp
    qed
  qed
  consider t where "walk pt va True s = Ret (0, t)"
    | a t fs' where "walk pt va True s = Ret (a, t)" "a \<noteq> 0" "load64 (pmem t) a = vmap s pt va"
       "map_one s pt fs va ?v fs' (t\<lparr>pmem := store64 (pmem t) a ?v\<rparr>)"
    using walk_then_store [OF Suc.prems(1) va, of ?v] by blast
  then show ?case
  proof cases
    case 1
    then show ?thesis using mapped_to_fail [OF 1 Suc.prems(1) va] by auto
  next
    case (2 a t fs')
    let ?t = "t\<lparr>pmem := store64 (pmem t) a ?v\<rparr>"
    have "vm_inv ?t pt fs'" and vm: "\<And>x. x < MAXVA \<Longrightarrow> vmap ?t pt x = (if same_page va x then ?v else vmap s pt x)"
      using 2(4) by (auto simp: map_one_def)
    then obtain r u where u: "mappages_loop (Suc n) pt (va + PGSIZE) (va + PGSIZE + of_nat n * PGSIZE) (pa + PGSIZE) perm ?t = Ret (r, u)"
      "mapped_to ?t pt fs' (va + PGSIZE) (Suc n) (pa + PGSIZE) perm r u"
      using IH [of ?t fs'] by blast
    then have "mapped_to s pt fs va (Suc (Suc n)) pa perm r u" using mapped_to_Suc [OF 2(4) step] by blast
    moreover have "\<not> pte_valid (load64 (pmem t) a)" using Suc.prems(4) [OF va] 2(3) by simp
    ultimately show ?thesis
      using mappages_loop_step [OF 2(1,2) _ ne, of "Suc n" pa perm] u(1) unfolding lst by metis
  qed
qed


lemma mappages_correct:
  assumes "vm_inv s pt fs" "page_aligned va" "unat sz = 4096 * n" "0 < n" "unat va + unat sz \<le> unat MAXVA"
    and "\<And>x. x < MAXVA \<Longrightarrow> unat va div 4096 \<le> unat x div 4096 \<Longrightarrow> unat x div 4096 < unat va div 4096 + n \<Longrightarrow>
       \<not> pte_valid (vmap s pt x)"
  shows "\<exists>r t. mappages pt va sz pa perm s = Ret (r, t) \<and> mapped_to s pt fs va n pa perm r t"
proof -
  obtain k where k: "n = Suc k" using assms(4) by (cases n) auto
  have "sz = of_nat (unat sz)" by simp
  also have "\<dots> = of_nat (4096 * Suc k)" unfolding assms(3) k ..
  finally have sz: "sz = of_nat (Suc k) * PGSIZE" by simp
  have al: "va mod PGSIZE = 0" "sz mod PGSIZE = 0" "sz \<noteq> 0"
    using assms(2,3,4) page_aligned_iff [of sz] by (auto simp: page_aligned_def)
  have "va + sz - PGSIZE = va + of_nat k * PGSIZE" by (simp add: sz algebra_simps)
  then have "mappages pt va sz pa perm s = mappages_loop (Suc k) pt va (va + of_nat k * PGSIZE) pa perm s"
    using al assms(3) k by (simp only: mappages_def if_False not_True_eq_False) simp
  then show ?thesis using mappages_loop_correct [of s pt fs va k] assms k by simp
qed

end
