(* ===== verification/Vm_Unmap.thy ===== *)
theory Vm_Unmap
  imports Vm_Map
begin

text \<open>
  Correctness of \<open>uvmunmap\<close>, \<open>walkaddr\<close> and, with \<open>Vm_Map\<close>, the properties of page tables: mapping
  refines \<open>map_range\<close>, unmapping refines \<open>unmap_range\<close> and returns the physical pages to the allocator,
  and translation sees exactly what was mapped.
\<close>

section \<open>Allocating and freeing beside a table\<close>

text \<open>A step that writes only pages outside the table leaves the table and its address space alone.\<close>

lemma vm_outside:
  assumes inv: "vm_inv s pt fs" and out: "only_pages (pmem s) (pmem t) A" and A: "A \<inter> tbl (pmem s) 2 pt = {}"
    "\<And>q. q \<in> A \<Longrightarrow> page_aligned q"
  shows "pt_wf (pmem t) 2 pt" "tbl (pmem t) 2 pt = tbl (pmem s) 2 pt" "vmap t pt va = vmap s pt va"
    "pt_slot (pmem t) 2 pt va = pt_slot (pmem s) 2 pt va"
proof -
  have wf: "pt_wf (pmem s) 2 pt" using inv by (simp add: vm_inv_def)
  have e: "entry (pmem t) q i = entry (pmem s) q i" if "q \<in> tbl (pmem s) 2 pt" "i < 512" for q i
    using that A pt_wf_aligned [OF wf] by (intro entry_outside [OF out]) auto
  have "pt_same (pmem s) (pmem t) 2 pt" by (rule pt_frame) (rule e)
  then show "pt_wf (pmem t) 2 pt" "tbl (pmem t) 2 pt = tbl (pmem s) 2 pt"
    "pt_slot (pmem t) 2 pt va = pt_slot (pmem s) 2 pt va"
    using wf by (simp_all add: pt_same_def)
  show "vmap t pt va = vmap s pt va" by (rule pt_same_pte_of [OF e wf])
qed

lemma kfree_vm:
  assumes inv: "vm_inv s pt fs" and a: "page_ok s a" "a \<notin> set fs" "a \<notin> tbl (pmem s) 2 pt"
  obtains t where "kfree a s = Ret t" "vm_inv t pt (a # fs)" "\<And>va. vmap t pt va = vmap s pt va"
    "tbl (pmem t) 2 pt = tbl (pmem s) 2 pt" "\<And>va. pt_slot (pmem t) 2 pt va = pt_slot (pmem s) 2 pt va"
    "only_pages (pmem s) (pmem t) {a}" "mem_step s t"
proof -
  have I: "kmem_inv s fs" "tbl (pmem s) 2 pt \<inter> set fs = {}" using inv by (auto simp: vm_inv_def)
  obtain t where t: "kfree a s = Ret t" "kmem_inv t (a # fs)" using kfree_push [OF I(1) a(1,2)] by blast
  have out: "only_pages (pmem s) (pmem t) {a}" using kfree_frame [OF t(1)] by (simp add: only_pages_def)
  note O = vm_outside [OF inv out]
  have al: "{a} \<inter> tbl (pmem s) 2 pt = {}" "\<And>q. q \<in> {a} \<Longrightarrow> page_aligned q"
    using a(1,3) by (auto simp: page_ok_def)
  have "vm_inv t pt (a # fs)" using O(1,2) [OF al] t(2) I(2) a(3) by (auto simp: vm_inv_def)
  then show thesis using that [OF t(1)] O(2-4) [OF al] out mem_step_kfree [OF t(1)] by blast
qed

lemma kalloc_vm:
  assumes inv: "vm_inv s pt (n # fs)"
  obtains t where "kalloc s = (n, t)" "vm_inv t pt fs" "\<And>va. vmap t pt va = vmap s pt va"
    "tbl (pmem t) 2 pt = tbl (pmem s) 2 pt" "only_pages (pmem s) (pmem t) {n}" "mem_step s t"
    "page_ok s n" "n \<noteq> 0" "n \<notin> set fs" "n \<notin> tbl (pmem s) 2 pt"
proof -
  have I: "kmem_inv s (n # fs)" "tbl (pmem s) 2 pt \<inter> set (n # fs) = {}" using inv by (auto simp: vm_inv_def)
  obtain t where t: "kalloc s = (n, t)" using kalloc_Cons [OF I(1)] by blast
  have out: "only_pages (pmem s) (pmem t) {n}" by (rule kalloc_only [OF I(1) t])
  have n: "page_ok s n" "page_aligned n" "n \<noteq> 0" "n \<notin> set fs" "n \<notin> tbl (pmem s) 2 pt"
    using kmem_inv_pages [OF I(1), of n] I by (auto simp: kmem_inv_def)
  note O = vm_outside [OF inv out]
  have al: "{n} \<inter> tbl (pmem s) 2 pt = {}" "\<And>q. q \<in> {n} \<Longrightarrow> page_aligned q" using n by auto
  have "kmem_inv t fs" using kalloc_inv [OF I(1)] t by simp
  then have "vm_inv t pt fs" using O(1,2) [OF al] I(2) by (auto simp: vm_inv_def)
  then show thesis using that [OF t] O(2,3) [OF al] out mem_step_kalloc [OF t] n by blast
qed

section \<open>Removing mappings\<close>

text \<open>The physical pages that the \<open>n\<close> virtual pages from \<open>va\<close> are mapped to, in address order.\<close>

definition live_pages :: "'z kmem_state_scheme \<Rightarrow> addr \<Rightarrow> addr \<Rightarrow> nat \<Rightarrow> addr list" where
  "live_pages s pt va n =
     map (\<lambda>x. PTE2PA (vmap s pt x)) (filter (\<lambda>x. pte_valid (vmap s pt x)) (pages_between va n))"

definition unmap_range :: "(addr \<Rightarrow> 64 word) \<Rightarrow> addr \<Rightarrow> nat \<Rightarrow> addr \<Rightarrow> 64 word" where
  "unmap_range f va n x =
     (if unat va div 4096 \<le> unat x div 4096 \<and> unat x div 4096 < unat va div 4096 + n \<and> pte_valid (f x) then 0 else f x)"

lemma live_pages_Suc:
  "live_pages s pt va (Suc n) =
     (if pte_valid (vmap s pt va) then [PTE2PA (vmap s pt va)] else []) @ live_pages s pt (va + PGSIZE) n"
  by (simp add: live_pages_def pages_between_Suc del: PGSIZE_def)

lemma unmap_range_0 [simp]: "unmap_range f va 0 = f"
  by (rule ext) (auto simp: unmap_range_def)

lemma unmap_range_Suc:
  assumes "unat (va + PGSIZE) = unat va + 4096"
  shows "unmap_range (\<lambda>x. if same_page va x \<and> pte_valid (f x) then 0 else f x) (va + PGSIZE) n x = unmap_range f va (Suc n) x"
  using assms by (auto simp: unmap_range_def)

lemma vmap_same_page: "x < MAXVA \<Longrightarrow> y < MAXVA \<Longrightarrow> same_page x y \<Longrightarrow> vmap s pt x = vmap s pt y"
  using same_index_page [of x y] slot_index [of 2 x y "pmem s" pt] by (simp add: pte_of_def)

text \<open>The pages a range is mapped to may be freed: valid, distinct, neither free nor part of the table.\<close>

definition freeable :: "'z kmem_state_scheme \<Rightarrow> addr \<Rightarrow> addr list \<Rightarrow> addr list \<Rightarrow> bool" where
  "freeable s pt fs ps \<longleftrightarrow> distinct ps \<and> list_all (page_ok s) ps \<and> set ps \<inter> (set fs \<union> tbl (pmem s) 2 pt) = {}"

definition unmapped_to :: "'z kmem_state_scheme \<Rightarrow> addr \<Rightarrow> addr list \<Rightarrow> addr \<Rightarrow> nat \<Rightarrow> addr list \<Rightarrow> 'z kmem_state_scheme \<Rightarrow> bool" where
  "unmapped_to s pt fs va n ps t \<longleftrightarrow> vm_inv t pt (rev ps @ fs) \<and>
     (\<forall>x < MAXVA. vmap t pt x = unmap_range (vmap s pt) va n x) \<and>
     tbl (pmem t) 2 pt = tbl (pmem s) 2 pt \<and> only_pages (pmem s) (pmem t) (tbl (pmem s) 2 pt \<union> set ps) \<and> mem_step s t"

text \<open>One page: free it if asked, then clear its entry.\<close>

lemma unmap_one:
  assumes inv: "vm_inv s pt fs" and va: "va < MAXVA" and sl: "pt_slot (pmem s) 2 pt va = Some a"
    and ps: "ps = (if do_free then [PTE2PA (load64 (pmem s) a)] else [])" "freeable s pt fs ps"
  obtains s1 where "(if do_free then kfree (PTE2PA (load64 (pmem s) a)) s else Ret s) = Ret s1"
    "vm_inv (s1\<lparr>pmem := store64 (pmem s1) a 0\<rparr>) pt (ps @ fs)"
    "\<And>x. x < MAXVA \<Longrightarrow> vmap (s1\<lparr>pmem := store64 (pmem s1) a 0\<rparr>) pt x = (if same_page va x then 0 else vmap s pt x)"
    "tbl (pmem (s1\<lparr>pmem := store64 (pmem s1) a 0\<rparr>)) 2 pt = tbl (pmem s) 2 pt"
    "only_pages (pmem s) (pmem (s1\<lparr>pmem := store64 (pmem s1) a 0\<rparr>)) (tbl (pmem s) 2 pt \<union> set ps)"
    "mem_step s (s1\<lparr>pmem := store64 (pmem s1) a 0\<rparr>)"
proof -
  have "\<exists>s1. (if do_free then kfree (PTE2PA (load64 (pmem s) a)) s else Ret s) = Ret s1 \<and> vm_inv s1 pt (ps @ fs) \<and>
      (\<forall>x. vmap s1 pt x = vmap s pt x) \<and> tbl (pmem s1) 2 pt = tbl (pmem s) 2 pt \<and>
      pt_slot (pmem s1) 2 pt va = Some a \<and> only_pages (pmem s) (pmem s1) (set ps) \<and> mem_step s s1"
  proof (cases do_free)
    case True
    then have f: "page_ok s (PTE2PA (load64 (pmem s) a))" "PTE2PA (load64 (pmem s) a) \<notin> set fs"
      "PTE2PA (load64 (pmem s) a) \<notin> tbl (pmem s) 2 pt"
      using ps by (auto simp: freeable_def)
    show ?thesis by (rule kfree_vm [OF inv f]) (use True ps(1) sl in auto)
  next
    case False
    then show ?thesis using ps(1) inv sl by (simp add: only_pages_def mem_step_refl)
  qed
  then obtain s1 where s1: "(if do_free then kfree (PTE2PA (load64 (pmem s) a)) s else Ret s) = Ret s1"
    "vm_inv s1 pt (ps @ fs)" "\<And>x. vmap s1 pt x = vmap s pt x" "tbl (pmem s1) 2 pt = tbl (pmem s) 2 pt"
    "pt_slot (pmem s1) 2 pt va = Some a" "only_pages (pmem s) (pmem s1) (set ps)" "mem_step s s1" by blast
  define t where "t = s1\<lparr>pmem := store64 (pmem s1) a 0\<rparr>"
  note S = store_pte [OF s1(2,5) va t_def]
  have "only_pages (pmem s) (pmem t) (tbl (pmem s) 2 pt \<union> set ps)"
    by (rule only_pages_trans [OF s1(6) S(3)]) (use s1(4) in auto)
  moreover have "mem_step s t" using mem_step_trans [OF s1(7) mem_step_pmem] by (simp add: t_def)
  ultimately show thesis using that [OF s1(1), folded t_def] S(1,2,4) s1(3,4) by simp
qed

lemma mem_step_kend: "mem_step s t \<Longrightarrow> kend t = kend s"
  by (auto simp: mem_step_def)

lemma mem_step_page_ok: "mem_step s t \<Longrightarrow> page_ok t = page_ok s"
  by (intro page_ok_cong mem_step_kend)

lemma pages_between_bounds:
  assumes "x \<in> set (pages_between va n)" "page_aligned va" "unat va + 4096 * n \<le> unat MAXVA"
  shows "x < MAXVA" "unat va div 4096 \<le> unat x div 4096" "unat x div 4096 < unat va div 4096 + n"
proof -
  obtain i where i: "i < n" "x = va + of_nat i * PGSIZE" using assms(1) by (auto simp: pages_between_def)
  have "unat va + 4096 * i < 2 ^ 64" using assms(3) i(1) by simp
  then have u: "unat x = unat va + 4096 * i"
    using i(2) unat_add_small [of va "4096 * i"] by (simp add: mult.commute)
  show "x < MAXVA" using u i(1) assms(3) by (simp add: word_less_nat_alt)
  show "unat va div 4096 \<le> unat x div 4096" "unat x div 4096 < unat va div 4096 + n" using u i(1) by simp_all
qed

lemma live_pages_cong:
  "(\<And>x. x \<in> set (pages_between va n) \<Longrightarrow> vmap t pt x = vmap s pt x) \<Longrightarrow> live_pages t pt va n = live_pages s pt va n"
  unfolding live_pages_def by (rule arg_cong2 [where f = map, THEN trans, OF refl filter_cong [OF refl]])
    (auto simp: intro!: map_cong filter_cong)

lemma unmapped_skip:
  assumes "\<not> pte_valid (vmap s pt va)" "va < MAXVA" "unat (va + PGSIZE) = unat va + 4096"
    "unmapped_to s pt fs (va + PGSIZE) n ps t"
  shows "unmapped_to s pt fs va (Suc n) ps t"
proof -
  have "unmap_range (vmap s pt) (va + PGSIZE) n x = unmap_range (vmap s pt) va (Suc n) x" if "x < MAXVA" for x
    using assms(1-3) vmap_same_page [OF assms(2) that, of s pt] by (auto simp: unmap_range_def)
  then show ?thesis using assms(4) by (simp add: unmapped_to_def)
qed

lemma unmapped_step:
  assumes t1: "\<And>x. x < MAXVA \<Longrightarrow> vmap t1 pt x = (if same_page va x then 0 else vmap s pt x)"
    "tbl (pmem t1) 2 pt = tbl (pmem s) 2 pt" "only_pages (pmem s) (pmem t1) (tbl (pmem s) 2 pt \<union> set p1)" "mem_step s t1"
    and va: "pte_valid (vmap s pt va)" "va < MAXVA" "unat (va + PGSIZE) = unat va + 4096"
    and t: "unmapped_to t1 pt (p1 @ fs) (va + PGSIZE) n ps t" "length p1 \<le> 1"
  shows "unmapped_to s pt fs va (Suc n) (p1 @ ps) t"
proof -
  have U: "vm_inv t pt (rev ps @ p1 @ fs)" "tbl (pmem t) 2 pt = tbl (pmem t1) 2 pt"
    "\<And>x. x < MAXVA \<Longrightarrow> vmap t pt x = unmap_range (vmap t1 pt) (va + PGSIZE) n x"
    "only_pages (pmem t1) (pmem t) (tbl (pmem t1) 2 pt \<union> set ps)" "mem_step t1 t"
    using t(1) by (auto simp: unmapped_to_def)
  have "vmap t pt x = unmap_range (vmap s pt) va (Suc n) x" if x: "x < MAXVA" for x
    using U(3) [OF x] t1(1) [OF x] va vmap_same_page [OF va(2) x, of s pt] by (auto simp: unmap_range_def)
  moreover have "only_pages (pmem s) (pmem t) (tbl (pmem s) 2 pt \<union> set (p1 @ ps))"
    by (rule only_pages_trans [OF t1(3) U(4)]) (use t1(2) in auto)
  moreover have "rev (p1 @ ps) @ fs = rev ps @ p1 @ fs"
    using t(2) by (cases p1) auto
  ultimately show ?thesis
    using U(1,2) t1(2) mem_step_trans [OF t1(4) U(5)] by (simp add: unmapped_to_def)
qed

lemma uvmunmap_loop_skip:
  assumes "vm_inv s pt fs" "va < MAXVA" "va < lst" "\<not> pte_valid (vmap s pt va)"
  shows "uvmunmap_loop (Suc fuel) pt va lst do_free s = uvmunmap_loop fuel pt (va + PGSIZE) lst do_free s"
  using walk_find [OF assms(1,2)] assms(3,4) by (cases "pt_slot (pmem s) 2 pt va") simp_all

lemma uvmunmap_loop_unmap:
  assumes "vm_inv s pt fs" "va < MAXVA" "va < lst" "pte_valid (vmap s pt va)" "pt_slot (pmem s) 2 pt va = Some a"
    "(if do_free then kfree (PTE2PA (load64 (pmem s) a)) s else Ret s) = Ret s1"
  shows "uvmunmap_loop (Suc fuel) pt va lst do_free s =
    uvmunmap_loop fuel pt (va + PGSIZE) lst do_free (s1\<lparr>pmem := store64 (pmem s1) a 0\<rparr>)"
  using walk_find [OF assms(1,2)] assms(3-6) by simp

lemma uvmunmap_loop_correct:
  assumes "vm_inv s pt fs" "page_aligned va" "unat va + 4096 * n \<le> unat MAXVA"
    "freeable s pt fs (if do_free then live_pages s pt va n else [])"
  shows "\<exists>t. uvmunmap_loop (Suc n) pt va (va + of_nat n * PGSIZE) do_free s = Ret t \<and>
    unmapped_to s pt fs va n (if do_free then live_pages s pt va n else []) t"
  using assms
proof (induction n arbitrary: s fs va)
  case 0
  then show ?case by (simp add: unmapped_to_def live_pages_def pages_between_def only_pages_def mem_step_refl)
next
  case (Suc n)
  have va: "va < MAXVA" using Suc.prems(3) by (simp add: word_less_nat_alt)
  have step: "unat (va + PGSIZE) = unat va + 4096" using Suc.prems(3) unat_add_small [of va 4096] by simp
  have al: "page_aligned (va + PGSIZE)" using Suc.prems(2) step unfolding page_aligned_iff by simp
  have bnd: "unat (va + PGSIZE) + 4096 * n \<le> unat MAXVA" using Suc.prems(3) step by simp
  have lst: "va + of_nat (Suc n) * PGSIZE = va + PGSIZE + of_nat n * PGSIZE" by (simp add: algebra_simps)
  have lt: "va < va + of_nat (Suc n) * PGSIZE"
  proof -
    have "unat va + 4096 * Suc n < 2 ^ 64" using Suc.prems(3) by simp
    then have "unat (va + of_nat (4096 * Suc n)) = unat va + 4096 * Suc n" by (rule unat_add_small)
    moreover have "of_nat (4096 * Suc n) = of_nat (Suc n) * PGSIZE" by simp
    ultimately show ?thesis by (simp only: word_less_nat_alt) simp
  qed
  let ?loop = "uvmunmap_loop (Suc n) pt (va + PGSIZE) (va + PGSIZE + of_nat n * PGSIZE) do_free"
  note W = walk_find [OF Suc.prems(1) va]
  show ?case
  proof (cases "pte_valid (vmap s pt va)")
    case False
    note skip = uvmunmap_loop_skip [OF Suc.prems(1) va lt False, of "Suc n" do_free, unfolded lst]
    have eq: "live_pages s pt va (Suc n) = live_pages s pt (va + PGSIZE) n" using False by (simp add: live_pages_Suc)
    show ?thesis
      using Suc.IH [OF Suc.prems(1) al bnd] Suc.prems(4) unmapped_skip [OF False va step] skip
      unfolding eq lst by metis
  next
    case True
    then obtain a where sl: "pt_slot (pmem s) 2 pt va = Some a" using W(3) by (cases "pt_slot (pmem s) 2 pt va") auto
    have a: "load64 (pmem s) a = vmap s pt va" by (rule W(4) [OF sl])
    define p1 where "p1 = (if do_free then [PTE2PA (load64 (pmem s) a)] else [])"
    define ps where "ps = (if do_free then live_pages s pt (va + PGSIZE) n else [])"
    have all: "(if do_free then live_pages s pt va (Suc n) else []) = p1 @ ps"
      using True by (simp add: live_pages_Suc p1_def ps_def a)
    have fr: "freeable s pt fs (p1 @ ps)" using Suc.prems(4) unfolding all .
    then have fr1: "freeable s pt fs p1" by (auto simp: freeable_def)
    obtain s1 where s1: "(if do_free then kfree (PTE2PA (load64 (pmem s) a)) s else Ret s) = Ret s1"
      "vm_inv (s1\<lparr>pmem := store64 (pmem s1) a 0\<rparr>) pt (p1 @ fs)"
      "\<And>x. x < MAXVA \<Longrightarrow> vmap (s1\<lparr>pmem := store64 (pmem s1) a 0\<rparr>) pt x = (if same_page va x then 0 else vmap s pt x)"
      "tbl (pmem (s1\<lparr>pmem := store64 (pmem s1) a 0\<rparr>)) 2 pt = tbl (pmem s) 2 pt"
      "only_pages (pmem s) (pmem (s1\<lparr>pmem := store64 (pmem s1) a 0\<rparr>)) (tbl (pmem s) 2 pt \<union> set p1)"
      "mem_step s (s1\<lparr>pmem := store64 (pmem s1) a 0\<rparr>)"
      by (rule unmap_one [OF Suc.prems(1) va sl p1_def fr1]) (rule that)
    let ?t = "s1\<lparr>pmem := store64 (pmem s1) a 0\<rparr>"
    have lp: "live_pages ?t pt (va + PGSIZE) n = live_pages s pt (va + PGSIZE) n"
    proof (rule live_pages_cong)
      fix x
      assume x: "x \<in> set (pages_between (va + PGSIZE) n)"
      note B = pages_between_bounds [OF x al bnd]
      have "\<not> same_page va x" using B(2) step by simp
      then show "vmap ?t pt x = vmap s pt x" using s1(3) [OF B(1)] by simp
    qed
    have "freeable ?t pt (p1 @ fs) ps"
      using fr s1(4) mem_step_page_ok [OF s1(6)] by (auto simp: freeable_def)
    then have IH: "\<exists>t. ?loop ?t = Ret t \<and> unmapped_to ?t pt (p1 @ fs) (va + PGSIZE) n ps t"
      using Suc.IH [OF s1(2) al bnd] unfolding lp ps_def by blast
    note loop = uvmunmap_loop_unmap [OF Suc.prems(1) va lt True sl s1(1), of "Suc n", unfolded lst]
    have "length p1 \<le> 1" by (simp add: p1_def)
    then show ?thesis
      using IH unmapped_step [OF s1(3-6) True va step] loop unfolding all lst by metis
  qed
qed

lemma uvmunmap_correct:
  assumes "vm_inv s pt fs" "page_aligned va" "unat va + 4096 * unat npages \<le> unat MAXVA"
    "freeable s pt fs (if do_free then live_pages s pt va (unat npages) else [])"
  shows "\<exists>t. uvmunmap pt va npages do_free s = Ret t \<and>
    unmapped_to s pt fs va (unat npages) (if do_free then live_pages s pt va (unat npages) else []) t"
  using uvmunmap_loop_correct [OF assms] assms(2) by (simp add: uvmunmap_def page_aligned_def)

section \<open>Properties\<close>

text \<open>
  C10. \<open>mappages\<close> implements its specification \<open>map_range\<close>: on an unmapped range of whole pages below
  \<^verbatim>\<open>MAXVA\<close> it either maps exactly the pages of the range, each to its physical page with the given
  permissions, and leaves every other address as it was, or returns -1 because the allocator is
  empty.  Two free pages per mapped page are always enough.  The table stays well formed, and no
  byte outside its pages and the free pages changes.
\<close>

theorem mappages_refines_map_range:
  assumes "vm_inv s pt fs" "page_aligned va" "unat sz = 4096 * n" "0 < n" "unat va + unat sz \<le> unat MAXVA"
    and "\<forall>x < MAXVA. unat va div 4096 \<le> unat x div 4096 \<longrightarrow> unat x div 4096 < unat va div 4096 + n \<longrightarrow>
       \<not> pte_valid (vmap s pt x)"
  shows "\<exists>r t fs'. mappages pt va sz pa perm s = Ret (r, t) \<and> vm_inv t pt fs' \<and> set fs' \<subseteq> set fs \<and>
    (2 * n \<le> length fs \<longrightarrow> r = 0) \<and>
    (r = 0 \<longrightarrow> (\<forall>x < MAXVA. vmap t pt x = map_range (vmap s pt) va pa n perm x)) \<and>
    (r \<noteq> 0 \<longrightarrow> r = -1 \<and> fst (kalloc t) = 0) \<and>
    (\<forall>x. (\<forall>q \<in> tbl (pmem s) 2 pt \<union> set fs. \<not> same_page x q) \<longrightarrow> pmem t x = pmem s x)"
proof -
  obtain r t j used fs' where m: "mappages pt va sz pa perm s = Ret (r, t)" "fs = used @ fs'" "vm_inv t pt fs'"
    "r = 0 \<and> j = n \<and> length used \<le> 2 * n \<or> r = -1 \<and> j < n \<and> fs' = [] \<and> length used < 2 * n"
    "\<forall>x < MAXVA. vmap t pt x = map_range (vmap s pt) va pa j perm x"
    "only_pages (pmem s) (pmem t) (tbl (pmem s) 2 pt \<union> set used)"
    using mappages_correct [OF assms(1-5)] assms(6) unfolding mapped_to_def by blast
  have "fst (kalloc t) = 0" if "fs' = []" using m(3) that kmem.alloc_fails_iff by (auto simp: vm_inv_def)
  moreover have "\<forall>x. (\<forall>q \<in> tbl (pmem s) 2 pt \<union> set fs. \<not> same_page x q) \<longrightarrow> pmem t x = pmem s x"
    using m(6) unfolding m(2) only_pages_def by (simp add: Ball_def)
  ultimately show ?thesis using m by (intro exI [of _ r] exI [of _ t] exI [of _ fs']) auto
qed

text \<open>Two free pages and an empty table at \<^verbatim>\<open>0x80001000\<close>.\<close>

definition demo_vm :: kmem_state where
  "demo_vm = (boot_mem 0x80001000)\<lparr>pmem := store64 (\<lambda>_. 0) 0x80003000 0x80004000, freelist := 0x80003000\<rparr>"

lemma demo_vm_inv: "vm_inv demo_vm 0x80001000 [0x80003000, 0x80004000]" "vmap demo_vm 0x80001000 va = 0"
  "tbl (pmem demo_vm) 2 0x80001000 = {0x80001000}"
proof -
  let ?m = "store64 (\<lambda>_. 0) 0x80003000 0x80004000"
  have z: "load64 ?m b = 0" if "8 dvd unat b" "b \<noteq> 0x80003000" for b
    using that load64_store64_other [of "0x80003000" b] by simp
  have e: "entry ?m 0x80001000 k = 0" if k: "k < 512" for k
  proof (rule z)
    have al: "page_aligned 0x80001000" by (simp add: page_aligned_def)
    show "8 dvd unat (pte_addr 0x80001000 k)" by (rule pte_addr_aligned [OF al k])
    show "pte_addr 0x80001000 k \<noteq> 0x80003000"
      using unat_pte_addr [OF al k] k by (auto simp: word_unat_eq_iff word_less_nat_alt)
  qed
  have E: "tbl ?m 2 0x80001000 = {0x80001000}" "pt_wf ?m 2 0x80001000" "pte_of ?m 2 0x80001000 va = 0"
    by (rule empty_table [OF e]; simp add: page_aligned_def)+
  have "load64 ?m 0x80004000 = 0" by (rule z) simp_all
  then have "kmem_inv demo_vm [0x80003000, 0x80004000]"
    by (simp add: demo_vm_def boot_mem_def kmem_inv_def page_ok_def page_aligned_def)
  then show "vm_inv demo_vm 0x80001000 [0x80003000, 0x80004000]" using E(1,2) by (simp add: vm_inv_def demo_vm_def)
  show "vmap demo_vm 0x80001000 va = 0" "tbl (pmem demo_vm) 2 0x80001000 = {0x80001000}"
    using E(1,3) by (simp_all add: demo_vm_def)
qed

theorem mappages_refines_map_range_witness:
  "\<exists>t. mappages 0x80001000 0x2000 4096 0x80007000 (PTE_R OR PTE_U) demo_vm = Ret (0, t) \<and>
     vmap t 0x80001000 0x2010 = map_range (\<lambda>_. 0) 0x2000 0x80007000 1 (PTE_R OR PTE_U) 0x2010"
proof -
  have a: "page_aligned 0x2000" "unat (4096 :: addr) = 4096 * 1" "0 < (1 :: nat)"
    "unat (0x2000 :: addr) + unat (4096 :: addr) \<le> unat MAXVA" "(0x2010 :: addr) < MAXVA"
    by (simp_all add: page_aligned_def)
  have n: "\<forall>x < MAXVA. unat (0x2000 :: addr) div 4096 \<le> unat x div 4096 \<longrightarrow>
      unat x div 4096 < unat (0x2000 :: addr) div 4096 + 1 \<longrightarrow> \<not> pte_valid (vmap demo_vm 0x80001000 x)"
    by (simp add: demo_vm_inv(2))
  obtain r t where "mappages 0x80001000 0x2000 4096 0x80007000 (PTE_R OR PTE_U) demo_vm = Ret (r, t)" "r = 0"
    "\<forall>x < MAXVA. vmap t 0x80001000 x =
       map_range (vmap demo_vm 0x80001000) 0x2000 0x80007000 1 (PTE_R OR PTE_U) x"
    using mappages_refines_map_range [OF demo_vm_inv(1) a(1-4) n, of "0x80007000" "PTE_R OR PTE_U"] by auto
  then show ?thesis using a(5) demo_vm_inv(2) by (auto simp: map_range_def)
qed

lemma walkaddr_vmap:
  assumes "vm_inv s pt fs" "x < MAXVA"
  shows "walkaddr pt x s = Ret (if pte_valid (vmap s pt x) \<and> vmap s pt x AND PTE_U \<noteq> 0 then PTE2PA (vmap s pt x) else 0)"
proof -
  have "\<not> MAXVA \<le> x" using assms(2) by (simp add: not_le)
  then show ?thesis
    using walk_find [OF assms] by (cases "pt_slot (pmem s) 2 pt x") (simp_all add: walkaddr_def Let_def del: MAXVA_def)
qed

lemma user_pte:
  assumes "page_aligned pa" "pa < 2 ^ 56" "perm < 1024" "perm AND PTE_U \<noteq> 0"
  shows "PTE2PA (PA2PTE pa OR perm OR PTE_V) = pa" "(PA2PTE pa OR perm OR PTE_V) AND PTE_U \<noteq> 0"
proof -
  have "perm < 2 ^ 10" using assms(3) by simp
  then have "\<not> bit perm i" if "10 \<le> i" "i < 64" for i using word_less_mask [of 10 perm] that by auto
  then have "\<not> bit (perm OR PTE_V) i" if "10 \<le> i" "i < 64" for i
    using that by (simp add: bit_or_iff PTE_V_def bit_1_iff)
  then have "\<forall>i \<ge> 10. i < 64 \<longrightarrow> \<not> bit (perm OR PTE_V) i" by blast
  then have "perm OR PTE_V < 2 ^ 10" by (rule word_less_mask [of 10, THEN iffD2, rotated]) simp
  then show "PTE2PA (PA2PTE pa OR perm OR PTE_V) = pa" using PTE2PA_PA2PTE assms(1,2) by simp
  have u: "v AND PTE_U \<noteq> 0 \<longleftrightarrow> bit v 4" for v :: "64 word"
  proof -
    have "bit (v AND PTE_U) n \<longleftrightarrow> bit v 4 \<and> n = 4" for n
      unfolding PTE_bits(5) bit_and_iff bit_exp_iff by auto
    then show ?thesis by (metis bit_0_eq bit_word_eqI bot_apply bot_bool_def)
  qed
  then show "(PA2PTE pa OR perm OR PTE_V) AND PTE_U \<noteq> 0" using assms(4) by (simp add: bit_or_iff)
qed

text \<open>
  C11. Mapping a user page, translating and unmapping it: after \<open>mappages\<close> has mapped a page with the
  user bit, \<open>walkaddr\<close> translates every address of that page to the physical page; after
  \<open>uvmunmap\<close> it translates them to 0; all other addresses are translated as before the mapping.
\<close>

theorem map_translate_unmap:
  assumes "vm_inv s pt fs" "2 \<le> length fs" "page_aligned va" "va < MAXVA" "\<not> pte_valid (vmap s pt va)"
    and "page_aligned pa" "pa < 2 ^ 56" "perm < 1024" "perm AND PTE_U \<noteq> 0"
  shows "\<exists>t u. mappages pt va PGSIZE pa perm s = Ret (0, t) \<and> uvmunmap pt va 1 False t = Ret u \<and>
    (\<forall>x < MAXVA. walkaddr pt x t = (if same_page x va then Ret pa else walkaddr pt x s) \<and>
       walkaddr pt x u = (if same_page x va then Ret 0 else walkaddr pt x s))"
proof -
  obtain k where k: "unat va = 4096 * k" using assms(3) by (rule page_alignedE)
  have top: "unat va + 4096 \<le> unat MAXVA" using assms(4) k by (simp add: word_less_nat_alt)
  have free: "\<not> pte_valid (vmap s pt x)"
    if "x < MAXVA" "unat va div 4096 \<le> unat x div 4096" "unat x div 4096 < unat va div 4096 + 1" for x
    using assms(5) vmap_same_page [OF that(1) assms(4), of s pt] that(2,3) by simp
  obtain r t where m: "mappages pt va PGSIZE pa perm s = Ret (r, t)" "mapped_to s pt fs va 1 pa perm r t"
    using mappages_correct [of s pt fs va PGSIZE 1 pa perm] assms(1,3) top free by auto
  then obtain fs' where t: "r = 0" "vm_inv t pt fs'" "\<forall>x < MAXVA. vmap t pt x = map_range (vmap s pt) va pa 1 perm x"
    using assms(2) unfolding mapped_to_def by auto
  have "freeable t pt fs' []" by (simp add: freeable_def)
  then obtain u where u: "uvmunmap pt va 1 False t = Ret u" "vm_inv u pt fs'"
    "\<forall>x < MAXVA. vmap u pt x = unmap_range (vmap t pt) va 1 x"
    using uvmunmap_correct [OF t(2) assms(3), of 1 False] top by (auto simp: unmapped_to_def)
  note P = user_pte [OF assms(6-9)]
  have "vmap t pt x = (if same_page x va then PA2PTE pa OR perm OR PTE_V else vmap s pt x)"
    "vmap u pt x = (if same_page x va then 0 else vmap s pt x)" if "x < MAXVA" for x
    using that t(3) u(3) by (auto simp: map_range_def unmap_range_def Let_def)
  then show ?thesis
    using m(1) t(1) u(1) P walkaddr_vmap [OF assms(1)] walkaddr_vmap [OF t(2)] walkaddr_vmap [OF u(2)]
    by (intro exI [of _ t] exI [of _ u]) simp
qed

theorem map_translate_unmap_witness:
  "\<exists>t u. mappages 0x80001000 0x2000 PGSIZE 0x80007000 (PTE_W OR PTE_U) demo_vm = Ret (0, t) \<and>
     walkaddr 0x80001000 0x2345 t = Ret 0x80007000 \<and>
     uvmunmap 0x80001000 0x2000 1 False t = Ret u \<and> walkaddr 0x80001000 0x2345 u = Ret 0"
proof -
  have "2 \<le> length [0x80003000, 0x80004000 :: addr]" "page_aligned 0x2000" "(0x2000 :: addr) < MAXVA"
    "\<not> pte_valid (vmap demo_vm 0x80001000 0x2000)" "page_aligned 0x80007000" "(0x80007000 :: addr) < 2 ^ 56"
    "(PTE_W OR PTE_U) < 1024" "(PTE_W OR PTE_U) AND PTE_U \<noteq> 0"
    by (simp_all add: page_aligned_def demo_vm_inv(2) PTE_W_def PTE_U_def)
  from map_translate_unmap [OF demo_vm_inv(1) this] obtain t u where
    tu: "mappages 0x80001000 0x2000 PGSIZE 0x80007000 (PTE_W OR PTE_U) demo_vm = Ret (0, t)"
    "uvmunmap 0x80001000 0x2000 1 False t = Ret u"
    "\<forall>x < MAXVA. walkaddr 0x80001000 x t = (if same_page x 0x2000 then Ret 0x80007000 else walkaddr 0x80001000 x demo_vm) \<and>
       walkaddr 0x80001000 x u = (if same_page x 0x2000 then Ret 0 else walkaddr 0x80001000 x demo_vm)" by blast
  have "(0x2345 :: addr) < MAXVA" "same_page 0x2345 0x2000" by simp_all
  then show ?thesis using tu by auto
qed

text \<open>
  C12. \<open>uvmunmap\<close> with \<open>do_free\<close> gives back exactly the physical pages of the range: afterwards no page of
  the range is mapped, every other address is mapped as before, and the free list is the old one
  with those pages in front.  Pages that were never allocated are skipped.
\<close>

theorem uvmunmap_frees_range:
  assumes "vm_inv s pt fs" "page_aligned va" "unat va + 4096 * unat npages \<le> unat MAXVA"
    "freeable s pt fs (live_pages s pt va (unat npages))"
  shows "\<exists>t. uvmunmap pt va npages True s = Ret t \<and> vm_inv t pt (rev (live_pages s pt va (unat npages)) @ fs) \<and>
    (\<forall>x < MAXVA. vmap t pt x = unmap_range (vmap s pt) va (unat npages) x) \<and>
    (\<forall>x. (\<forall>q \<in> tbl (pmem s) 2 pt \<union> set (live_pages s pt va (unat npages)). \<not> same_page x q) \<longrightarrow> pmem t x = pmem s x)"
  using uvmunmap_correct [OF assms(1-3), of True] assms(4) by (auto simp: unmapped_to_def only_pages_def)

text \<open>The demonstration table with the page at \<^verbatim>\<open>0x80007000\<close> mapped at \<^verbatim>\<open>0x2000\<close>.\<close>

lemma demo_vm_mapped:
  obtains t fs' where "mappages 0x80001000 0x2000 PGSIZE 0x80007000 (PTE_R OR PTE_U) demo_vm = Ret (0, t)" "vm_inv t 0x80001000 fs'"
    "live_pages t 0x80001000 0x2000 3 = [0x80007000]" "freeable t 0x80001000 fs' [0x80007000]"
    "pte_valid (vmap t 0x80001000 0x2000)"
proof -
  let ?pt = "0x80001000 :: addr" and ?p = "PTE_R OR PTE_U"
  have n: "\<And>x. \<not> pte_valid (vmap demo_vm ?pt x)" by (simp add: demo_vm_inv(2))
  obtain r t where m: "mappages ?pt 0x2000 PGSIZE 0x80007000 ?p demo_vm = Ret (r, t)"
    "mapped_to demo_vm ?pt [0x80003000, 0x80004000] 0x2000 1 0x80007000 ?p r t"
    using mappages_correct [OF demo_vm_inv(1), of "0x2000" PGSIZE 1 "0x80007000" ?p] n by (auto simp: page_aligned_def)
  then obtain j used fs' where u: "[0x80003000, 0x80004000] = used @ fs'" "vm_inv t ?pt fs'"
    "r = 0 \<and> j = 1 \<and> length used \<le> 2 * 1 \<or> r = -1 \<and> j < 1 \<and> fs' = [] \<and> length used < 2 * 1"
    "\<forall>x < MAXVA. vmap t ?pt x = map_range (vmap demo_vm ?pt) 0x2000 0x80007000 j ?p x"
    "tbl (pmem t) 2 ?pt \<subseteq> tbl (pmem demo_vm) 2 ?pt \<union> set used" "mem_step demo_vm t"
    unfolding mapped_to_def by blast
  have su: "set used \<union> set fs' = {0x80003000, 0x80004000}" "length used + length fs' = 2"
    using arg_cong [OF u(1), of set] arg_cong [OF u(1), of length] by auto
  have t: "r = 0" "vm_inv t ?pt fs'" "\<forall>x < MAXVA. vmap t ?pt x = map_range (vmap demo_vm ?pt) 0x2000 0x80007000 1 ?p x"
    "tbl (pmem t) 2 ?pt \<subseteq> {?pt, 0x80003000, 0x80004000}" "set fs' \<subseteq> {0x80003000, 0x80004000}" "mem_step demo_vm t"
    using u su demo_vm_inv(3) by auto
  have v: "vmap t ?pt 0x2000 = PA2PTE 0x80007000 OR ?p OR PTE_V" "vmap t ?pt 0x3000 = 0" "vmap t ?pt 0x4000 = 0"
    using t(3) by (simp_all add: map_range_def Let_def demo_vm_inv(2))
  have p: "PTE2PA (PA2PTE 0x80007000 OR ?p OR PTE_V) = 0x80007000"
    by (rule user_pte) (simp_all add: page_aligned_def PTE_bits)
  have val: "pte_valid (vmap t ?pt 0x2000)" using v(1) by simp
  then have "live_pages t ?pt 0x2000 3 = [0x80007000]"
    using v p by (simp add: numeral_3_eq_3 live_pages_Suc) (simp add: live_pages_def pages_between_def)
  moreover have "page_ok t 0x80007000" using t(6) by (auto simp: mem_step_def page_ok_def page_aligned_def demo_vm_def boot_mem_def)
  then have "freeable t ?pt fs' [0x80007000]" using t(4,5) by (auto simp: freeable_def)
  ultimately show ?thesis using that m(1) t(1,2) val by blast
qed

theorem uvmunmap_frees_range_witness:
  "\<exists>t u fs. mappages 0x80001000 0x2000 PGSIZE 0x80007000 (PTE_R OR PTE_U) demo_vm = Ret (0, t) \<and> pte_valid (vmap t 0x80001000 0x2000) \<and>
     uvmunmap 0x80001000 0x2000 3 True t = Ret u \<and> vm_inv u 0x80001000 (0x80007000 # fs) \<and> vmap u 0x80001000 0x2000 = 0"
proof -
  obtain t fs where t: "mappages 0x80001000 0x2000 PGSIZE 0x80007000 (PTE_R OR PTE_U) demo_vm = Ret (0, t)" "vm_inv t 0x80001000 fs"
    "live_pages t 0x80001000 0x2000 3 = [0x80007000]" "freeable t 0x80001000 fs [0x80007000]"
    and val: "pte_valid (vmap t 0x80001000 0x2000)"
    by (rule demo_vm_mapped)
  have l: "live_pages t 0x80001000 0x2000 (unat (3 :: addr)) = [0x80007000]" using t(3) by simp
  have a: "page_aligned 0x2000" "unat (0x2000 :: addr) + 4096 * unat (3 :: addr) \<le> unat MAXVA" "(0x2000 :: addr) < MAXVA"
    by (simp_all add: page_aligned_def)
  obtain u where u: "uvmunmap 0x80001000 0x2000 3 True t = Ret u" "vm_inv u 0x80001000 (0x80007000 # fs)"
    "\<forall>x < MAXVA. vmap u 0x80001000 x = unmap_range (vmap t 0x80001000) 0x2000 (unat (3 :: addr)) x"
    using uvmunmap_frees_range [OF t(2) a(1,2), unfolded l, OF t(4)] by auto
  then have "vmap u 0x80001000 0x2000 = 0" using a(3) val by (simp add: unmap_range_def)
  then show ?thesis using t(1) val u by blast
qed

end
