(* ===== verification/Swap.thy ===== *)
theory Swap
  imports Clock Vm_Unmap Disk_Queue
begin

text \<open>
  What page replacement and swapping achieve.  The clock scan stops and makes the right choice, but
  \<open>evict_page\<close> is called when the allocator is empty and needs a page for its disk request, so it
  cannot succeed; and a page that is swapped in holds none of the data that was swapped out.
\<close>

section \<open>Eviction\<close>

text \<open>An example state: frame 0 belongs to process 3, which is at level 2.\<close>

definition no_frame :: frame_entry where
  "no_frame = \<lparr>fr_in_use = 0, fr_owner = None, fr_vaddr = 0, fr_ref_bit = 0, fr_swapped = 0, fr_swap_index = -1\<rparr>"

definition no_swap :: swap_disk_entry where
  "no_swap = \<lparr>sw_in_use = 0, sw_owner = None, sw_vaddr = 0, sw_logical_block = -1, sw_timestamp = 0\<rparr>"

definition demo_mm :: mm_state where
  "demo_mm = disk_state.extend (demo_disk\<lparr>ptable := (ptable demo_disk)[3 := proc0\<lparr>p_level := 2, p_state := RUNNING,
       p_sz := 0x4000, p_pagetable := 0x80001000\<rparr>], cpus := (cpus demo_disk)[0 := Some 3]\<rparr>)
     (mm_state.fields ((replicate MAX_FRAMES no_frame)[0 := no_frame\<lparr>fr_in_use := 1, fr_owner := Some 3, fr_ref_bit := 1\<rparr>])
        0 (replicate MAX_SWAP_DISK_ENTRIES no_swap) 0)"

lemma demo_mm_fields [simp]:
  "length (frame_table demo_mm) = MAX_FRAMES" "clock_hand demo_mm = 0" "freelist demo_mm = 0"
  "kend demo_mm = KERNBASE" "swap_disk_table demo_mm = replicate MAX_SWAP_DISK_ENTRIES no_swap"
  "next_swap_block demo_mm = 0" "pmem demo_mm = (\<lambda>_. 0)"
  "frame_table demo_mm = (replicate MAX_FRAMES no_frame)[0 := no_frame\<lparr>fr_in_use := 1, fr_owner := Some 3, fr_ref_bit := 1\<rparr>]"
  by (simp_all add: demo_mm_def demo_disk_def demo_state_def proc_state.defs disk_state.defs mm_state.defs)

lemma demo_mm_proc [simp]:
  "ptable demo_mm ! 3 = proc0\<lparr>p_level := 2, p_state := RUNNING, p_sz := 0x4000, p_pagetable := 0x80001000\<rparr>"
  by (simp add: demo_mm_def demo_disk_def demo_state_def proc_state.defs disk_state.defs mm_state.defs)

lemma demo_mm_frames: "frames_ok demo_mm" "usable demo_mm 0" "usable demo_mm i \<and> i < MAX_FRAMES \<longrightarrow> i = 0"
proof -
  have u: "usable demo_mm i \<longleftrightarrow> i = 0" if "i < MAX_FRAMES" for i
    using that by (auto simp: usable_def nth_list_update no_frame_def)
  then show "usable demo_mm 0" "usable demo_mm i \<and> i < MAX_FRAMES \<longrightarrow> i = 0" by auto
  show "frames_ok demo_mm" using u by (simp add: frames_ok_def owner_level_def proc0_def)
qed

text \<open>
  C19. The clock scan of \<open>evict_page\<close> always ends when some frame is in use, within two turns of the
  hand.  It chooses among the unreferenced frames, or among all frames in use when every one is
  referenced; the chosen frame belongs to a process of the lowest priority (the highest level)
  among those candidates and is the first such frame after the hand.  Only reference bits and the
  hand change.
\<close>

theorem clock_picks_lowest_priority:
  assumes "frames_ok s" "i < MAX_FRAMES" "usable s i"
  shows "\<exists>k t. first_candidate s k \<and>
    clock_loop (2 * MAX_FRAMES + 1) (clock_hand s) None (-1) s =
      Ret (Some (ring (clock_hand s) k), owner_level s (ring (clock_hand s) k), t) \<and>
    t\<lparr>clock_hand := clock_hand s, frame_table := frame_table s\<rparr> = s \<and>
    map (fr_ref_bit_update (\<lambda>_. 0)) (frame_table t) = map (fr_ref_bit_update (\<lambda>_. 0)) (frame_table s)"
proof -
  let ?c = "map (fr_ref_bit_update (\<lambda>_. 0))"
  have len: "length (frame_table s) = MAX_FRAMES" using assms(1) by (simp add: frames_ok_def)
  have sw: "(sweep st n u)\<lparr>clock_hand := h, frame_table := f\<rparr> = u\<lparr>clock_hand := h, frame_table := f\<rparr>"
    "length (frame_table u) = MAX_FRAMES \<Longrightarrow> ?c (frame_table (sweep st n u)) = ?c (frame_table u)"
    for st n h f and u :: "'a mm_state_scheme"
    by (simp add: sweep_def) (auto intro!: nth_equalityI simp: sweep_nth)
  obtain k n t where "first_candidate s k"
    "clock_loop (2 * MAX_FRAMES + 1) (clock_hand s) None (-1) s =
       Ret (Some (ring (clock_hand s) k), owner_level s (ring (clock_hand s) k), t)"
    "t = sweep (clock_hand s) n s \<or> t = sweep (clock_hand s) n (sweep (clock_hand s) MAX_FRAMES s)"
    by (rule clock_loop_chooses [OF assms]) (rule that)
  then show ?thesis using len by (intro exI [of _ k] exI [of _ t]) (auto simp: sw)
qed

theorem clock_picks_lowest_priority_witness:
  "\<exists>t. clock_loop (2 * MAX_FRAMES + 1) 0 None (-1) demo_mm = Ret (Some 0, 2, t)"
proof -
  obtain k t where k: "first_candidate demo_mm k" and r: "clock_loop (2 * MAX_FRAMES + 1) 0 None (-1) demo_mm =
      Ret (Some (ring 0 k), owner_level demo_mm (ring 0 k), t)"
    using clock_picks_lowest_priority [OF demo_mm_frames(1) MAX_FRAMES_pos demo_mm_frames(2)] by auto
  have "usable demo_mm (ring 0 k)"
    using k by (auto simp: first_candidate_def candidate_def idle_def split: if_splits)
  then have "ring 0 k = 0" using demo_mm_frames(3) [of "ring 0 k"] by simp
  moreover have "owner_level demo_mm 0 = 2" by (simp add: owner_level_def no_frame_def)
  ultimately show ?thesis using r by simp
qed

text \<open>The index and the address of a frame determine each other.\<close>

lemma frame_index_roundtrip:
  assumes "kend s \<le> PHYSTOP" "i < MAX_FRAMES" "frame_index_to_pa i s < PHYSTOP"
  shows "get_frame_entry (frame_index_to_pa i s) s = Some i"
proof -
  let ?b = "PGROUNDUP (kend s)"
  have k: "unat (kend s) \<le> 0x88000000" using assms(1) by (simp add: word_le_nat_alt)
  then have b: "unat ?b = (unat (kend s) + 4095) div 4096 * 4096" by (intro unat_PGROUNDUP) simp
  then have bb: "unat ?b \<le> 0x88000000 + 4096" using k by simp
  have i: "unat (of_nat i * 4096 :: addr) = i * 4096"
    using assms(2) by (simp add: unat_word_ariths unat_of_nat MAX_FRAMES_def)
  have "unat (?b + of_nat i * 4096) = unat ?b + i * 4096"
    using i bb assms(2) by (simp add: unat_word_ariths MAX_FRAMES_def)
  then have "\<not> ?b + of_nat i * 4096 < ?b" by (simp add: word_less_nat_alt)
  moreover have "unat ((of_nat i * 4096 :: addr) div 4096) = i" using i by (simp add: unat_div)
  ultimately show ?thesis using assms(2,3) by (simp add: get_frame_entry_def frame_index_to_pa_def Let_def not_le)
qed

lemma add_disk_request_full:
  "freelist s = 0 \<Longrightarrow> add_disk_request ty lb buf p s = Ret (-1, s)"
  by (simp add: add_disk_request_def kalloc_def)

lemma swap_out_full:
  assumes "freelist t = 0" "get_frame_entry pa t = Some v" "fr_owner (frame_table t ! v) = Some q"
  shows "swap_page_out pa t = Ret (-1,
    if (\<exists>w \<in> set (swap_disk_table t). sw_in_use w = 0) \<and> next_swap_block t < 16384
    then t\<lparr>next_swap_block := next_swap_block t + 1\<rparr> else t)"
proof (cases "scan (\<lambda>w. sw_in_use w = 0) (swap_disk_table t)")
  case None
  then have "\<not> (\<exists>w \<in> set (swap_disk_table t). sw_in_use w = 0)" by (simp add: scan_from_None)
  then show ?thesis using assms None by (simp add: swap_page_out_def)
next
  case (Some j)
  then have "\<exists>w \<in> set (swap_disk_table t). sw_in_use w = 0" using scan_SomeD [OF Some] by (auto intro: bexI [OF _ nth_mem])
  then show ?thesis using assms Some by (simp add: swap_page_out_def Let_def add_disk_request_full)
qed

text \<open>
  C20. Page replacement never supplies a page.  \<open>evict_page\<close> is called when \<open>kalloc\<close> has failed; it
  then needs a page for the disk request, which \<open>kalloc\<close> again refuses, so it returns the null
  pointer.  No page leaves memory, and each attempt uses up one block of swap space for good while
  there is a free swap slot and a block left.
\<close>

theorem evict_fails_when_full:
  assumes "freelist s = 0" "frames_ok s" "i < MAX_FRAMES" "usable s i" "kend s \<le> PHYSTOP"
    and "\<forall>j < MAX_FRAMES. usable s j \<longrightarrow> frame_index_to_pa j s < PHYSTOP"
  shows "\<exists>t. get_page s = Ret (0, t) \<and> pmem t = pmem s \<and> freelist t = 0 \<and> swap_disk_table t = swap_disk_table s \<and>
    ptable t = ptable s \<and>
    next_swap_block t = (if (\<exists>w \<in> set (swap_disk_table s). sw_in_use w = 0) \<and> next_swap_block s < 16384
      then next_swap_block s + 1 else next_swap_block s)"
proof -
  obtain k n t where k: "first_candidate s k" and r: "clock_loop (2 * MAX_FRAMES + 1) (clock_hand s) None (-1) s =
       Ret (Some (ring (clock_hand s) k), owner_level s (ring (clock_hand s) k), t)"
    "t = sweep (clock_hand s) n s \<or> t = sweep (clock_hand s) n (sweep (clock_hand s) MAX_FRAMES s)"
    by (rule clock_loop_chooses [OF assms(2-4)]) (rule that)
  let ?v = "ring (clock_hand s) k"
  have "usable s ?v" using k by (auto simp: first_candidate_def candidate_def idle_def split: if_splits)
  then have pa: "get_frame_entry (frame_index_to_pa ?v s) s = Some ?v"
    using assms(5,6) by (intro frame_index_roundtrip) simp_all
  have f: "kend t = kend s" "freelist t = 0" "pmem t = pmem s" "swap_disk_table t = swap_disk_table s"
    "ptable t = ptable s" "next_swap_block t = next_swap_block s"
    using r(2) assms(1) by (auto simp: sweep_def)
  have pt: "get_frame_entry (frame_index_to_pa ?v t) t = Some ?v"
    using pa f(1) by (simp add: get_frame_entry_def frame_index_to_pa_def)
  obtain q where q: "fr_owner (frame_table t ! ?v) = Some q"
    using r(2) \<open>usable s ?v\<close> by (auto simp: usable_def sweep_nth)
  from swap_out_full [OF f(2) pt q]
  have "swap_page_out (frame_index_to_pa ?v t) t = Ret (-1,
      if (\<exists>w \<in> set (swap_disk_table s). sw_in_use w = 0) \<and> next_swap_block s < 16384
      then t\<lparr>next_swap_block := next_swap_block t + 1\<rparr> else t)" by (simp only: f)
  moreover have "get_page s = evict_page s" using assms(1) by (simp add: get_page_def kalloc_def)
  ultimately show ?thesis using r(1) f by (simp add: evict_page_def Let_def)
qed

theorem evict_fails_when_full_witness:
  "\<exists>t. get_page demo_mm = Ret (0, t) \<and> next_swap_block t = 1"
proof -
  have k: "kend demo_mm \<le> PHYSTOP" by simp
  have p: "\<forall>j < MAX_FRAMES. usable demo_mm j \<longrightarrow> frame_index_to_pa j demo_mm < PHYSTOP"
  proof (intro allI impI)
    fix j assume "j < MAX_FRAMES" "usable demo_mm j"
    then have "j = 0" using demo_mm_frames(3) [of j] by simp
    then show "frame_index_to_pa j demo_mm < PHYSTOP" by (simp add: frame_index_to_pa_def PGROUNDUP_def)
  qed
  show ?thesis
    using evict_fails_when_full [OF demo_mm_fields(3) demo_mm_frames(1) MAX_FRAMES_pos demo_mm_frames(2) k p]
    by (auto simp: no_swap_def MAX_SWAP_DISK_ENTRIES_def)
qed

section \<open>Swapping in\<close>

lemma vm_inv_same:
  assumes "pmem t = pmem s" "freelist t = freelist s" "kend t = kend s"
  shows "vm_inv t pt fs = vm_inv s pt fs"
  using kmem_inv_same [of t s fs] assms by (simp add: vm_inv_def)

lemma vm_inv_aligned: "vm_inv s pt fs \<Longrightarrow> q \<in> tbl (pmem s) 2 pt \<union> set fs \<Longrightarrow> page_aligned q"
  using kmem_inv_pages [of s fs q] pt_wf_aligned [of "pmem s" 2 pt q] by (auto simp: vm_inv_def)

lemma PGROUNDDOWN_aligned: "page_aligned a \<Longrightarrow> PGROUNDDOWN a = a"
  by (simp add: word_unat_eq_iff unat_PGROUNDDOWN page_aligned_iff)

lemma walkaddr_same:
  assumes "vm_inv s pt fs" "va < MAXVA" "pmem t = pmem s" "freelist t = freelist s" "kend t = kend s"
  shows "walkaddr pt va t = walkaddr pt va s"
  using assms walkaddr_vmap [of t pt fs va] walkaddr_vmap [of s pt fs va] vm_inv_same [of t s pt fs] by simp

text \<open>What a disk request leaves alone, as far as paging is concerned.\<close>

definition mm_same :: "'z mm_state_scheme \<Rightarrow> 'z mm_state_scheme \<Rightarrow> bool" where
  "mm_same s t \<longleftrightarrow> kend t = kend s \<and> frame_table t = frame_table s \<and> swap_disk_table t = swap_disk_table s \<and>
     cpus t = cpus s \<and> hart t = hart s \<and> length (ptable t) = length (ptable s) \<and>
     (\<forall>i < length (ptable s). p_pagetable (ptable t ! i) = p_pagetable (ptable s ! i))"

lemma mm_same_process:
  "mm_same s (process_disk_request r s)" "pmem (process_disk_request r s) = pmem s"
  "freelist (process_disk_request r s) = freelist s"
  by (auto simp: mm_same_def process_disk_request_def update_disk_stats_def Let_def
      split: option.split)

lemma mm_same_trans: "mm_same s t \<Longrightarrow> mm_same t u \<Longrightarrow> mm_same s u"
  by (simp add: mm_same_def)

lemma mm_same_step: "mem_step s t \<Longrightarrow> mm_same s t"
  by (auto simp: mm_same_def mem_step_def)

text \<open>
  A request put into an empty queue and served at once: the request page is taken and given back,
  and nothing else in memory changes.
\<close>

lemma request_round_trip:
  assumes inv: "vm_inv s pt (r # fs)" and q: "disk_queue_head s = 0" "disk_queue_tail s = 0"
    and pol: "disk_sched_policy s = DISK_SCHED_FCFS" and m: "raid_map_logical_to_physical (raid_mode s) lb 0 0 = (0, d, b)"
  obtains s2 s3 where "add_disk_request ty lb buf p s = Ret (0, s2)" "serve_request s2 = Ret s3"
    "vm_inv s3 pt (r # fs)" "\<And>va. vmap s3 pt va = vmap s pt va" "tbl (pmem s3) 2 pt = tbl (pmem s) 2 pt"
    "only_pages (pmem s) (pmem s3) {r}" "mm_same s s3"
proof -
  obtain s1 where s1: "kalloc s = (r, s1)" "vm_inv s1 pt fs" "\<And>va. vmap s1 pt va = vmap s pt va"
    "tbl (pmem s1) 2 pt = tbl (pmem s) 2 pt" "only_pages (pmem s) (pmem s1) {r}" "mem_step s s1"
    "page_ok s r" "r \<noteq> 0" "r \<notin> set fs" "r \<notin> tbl (pmem s) 2 pt"
    by (rule kalloc_vm [OF inv]) (rule that)
  define s2 where "s2 = enqueue_request r (s1\<lparr>disk_reqs := (disk_reqs s1)(r := make_request ty lb d b buf p s1)\<rparr>)"
  define s2' where "s2' = process_disk_request r (s2\<lparr>disk_queue_head := 0, disk_queue_tail := 0\<rparr>)"
  have k: "raid_mode s1 = raid_mode s" "disk_queue_head s1 = 0" "disk_queue_tail s1 = 0"
    "disk_sched_policy s1 = 0" "kend s1 = kend s"
    using s1(6) q pol by (auto simp: mem_step_def)
  have add: "add_disk_request ty lb buf p s = Ret (0, s2)"
    using s1(1,8) m k(1) by (simp add: add_disk_request_def s2_def Let_def)
  have e2: "pmem s2' = pmem s1" "freelist s2' = freelist s1" "mm_same s1 s2'" "kend s2' = kend s1"
    using k mm_same_process(1) [of "s2\<lparr>disk_queue_head := 0, disk_queue_tail := 0\<rparr>" r] mm_same_process(2,3) [of r "s2\<lparr>disk_queue_head := 0, disk_queue_tail := 0\<rparr>"]
    by (simp_all add: s2'_def s2_def enqueue_request_def mm_same_def)
  have srv: "serve_request s2 = kfree r s2'"
    using k s1(8) by (simp add: serve_request_def schedule_next_request_def schedule_fcfs_def s2_def
        enqueue_request_def make_request_def s2'_def Let_def)
  have inv2: "vm_inv s2' pt fs" "page_ok s2' r" "r \<notin> tbl (pmem s2') 2 pt"
    using s1 e2 k(5) vm_inv_same [of s2' s1 pt fs] page_ok_cong [of s2' s] by auto
  obtain s3 where s3: "kfree r s2' = Ret s3" "vm_inv s3 pt (r # fs)" "\<And>va. vmap s3 pt va = vmap s2' pt va"
    "tbl (pmem s3) 2 pt = tbl (pmem s2') 2 pt" "only_pages (pmem s2') (pmem s3) {r}" "mem_step s2' s3"
    by (rule kfree_vm [OF inv2(1,2) s1(9) inv2(3)]) (rule that)
  have "only_pages (pmem s) (pmem s3) {r}"
    using only_pages_trans [OF s1(5), of "pmem s3" "{r}" "{r}"] s3(5) e2(1) by simp
  moreover have "mm_same s s3"
    using mm_same_step [OF s1(6)] e2(3) mm_same_step [OF s3(6)] by (blast intro: mm_same_trans)
  ultimately show thesis using that [OF add] srv s3(1-4) s1(3,4) e2(1) by simp
qed

text \<open>Mapping one page of user memory, as \<open>swap_page_in\<close> and \<open>vmfault\<close> do.\<close>

abbreviation user_perm :: "64 word" where "user_perm \<equiv> PTE_W OR PTE_U OR PTE_R"

lemma map_user_page:
  assumes inv: "vm_inv s pt fs" "2 \<le> length fs" and va: "page_aligned va" "va < MAXVA" "\<not> pte_valid (vmap s pt va)"
    and pa: "page_aligned pa" "pa < 2 ^ 56"
  obtains t fs' where "mappages pt va PGSIZE pa user_perm s = Ret (0, t)" "vm_inv t pt fs'" "set fs' \<subseteq> set fs" "walkaddr pt va t = Ret pa"
    "\<And>x. x < MAXVA \<Longrightarrow> vmap t pt x = (if same_page x va then PA2PTE pa OR user_perm OR PTE_V else vmap s pt x)"
    "only_pages (pmem s) (pmem t) (tbl (pmem s) 2 pt \<union> set fs)" "mem_step s t"
    "tbl (pmem t) 2 pt \<subseteq> tbl (pmem s) 2 pt \<union> set fs"
proof -
  obtain k where k: "unat va = 4096 * k" using va(1) by (rule page_alignedE)
  have top: "unat va + 4096 \<le> unat MAXVA" using va(2) k by (simp add: word_less_nat_alt)
  have free: "\<not> pte_valid (vmap s pt x)"
    if "x < MAXVA" "unat va div 4096 \<le> unat x div 4096" "unat x div 4096 < unat va div 4096 + 1" for x
    using va(3) vmap_same_page [OF that(1) va(2), of s pt] that(2,3) by simp
  obtain r t where m: "mappages pt va PGSIZE pa user_perm s = Ret (r, t)" "mapped_to s pt fs va 1 pa user_perm r t"
    using mappages_correct [of s pt fs va PGSIZE 1 pa user_perm] inv(1) va(1) top free by auto
  then obtain used fs' where t: "r = 0" "fs = used @ fs'" "vm_inv t pt fs'" "\<forall>x < MAXVA. vmap t pt x = map_range (vmap s pt) va pa 1 user_perm x"
    "only_pages (pmem s) (pmem t) (tbl (pmem s) 2 pt \<union> set used)" "mem_step s t"
    "tbl (pmem t) 2 pt \<subseteq> tbl (pmem s) 2 pt \<union> set used"
    using inv(2) unfolding mapped_to_def by auto
  have p: "user_perm < 1024" "user_perm AND PTE_U \<noteq> 0" by (simp_all add: PTE_W_def PTE_U_def PTE_R_def)
  have v: "vmap t pt x = (if same_page x va then PA2PTE pa OR user_perm OR PTE_V else vmap s pt x)" if "x < MAXVA" for x
    using that t(4) by (auto simp: map_range_def Let_def)
  then have "walkaddr pt va t = Ret pa" using walkaddr_vmap [OF t(3) va(2)] va(2) user_pte [OF pa p] by simp
  moreover have "only_pages (pmem s) (pmem t) (tbl (pmem s) 2 pt \<union> set fs)"
    using t(2,5) by (auto simp: only_pages_def)
  moreover have "tbl (pmem t) 2 pt \<subseteq> tbl (pmem s) 2 pt \<union> set fs" using t(2,7) by auto
  ultimately show thesis using that [of t fs'] m(1) t v by simp
qed

lemma update_frame_table_same [simp]:
  "pmem (update_frame_table p va pa s) = pmem s" "ptable (update_frame_table p va pa s) = ptable s"
  by (simp_all add: update_frame_table_def split: option.split)

lemma swap_in_maps_filler:
  assumes "p < length (ptable s)" "pt = p_pagetable (ptable s ! p)" "vm_inv s pt (n # r # fs)" "fs \<noteq> []"
    and "page_aligned va" "va < MAXVA" "\<not> pte_valid (vmap s pt va)"
    and "scan (\<lambda>w. sw_in_use w \<noteq> 0 \<and> sw_owner w = Some p \<and> sw_vaddr w = va) (swap_disk_table s) = Some i"
    and "raid_map_logical_to_physical (raid_mode s) (sw_logical_block (swap_disk_table s ! i)) 0 0 = (0, d, b)"
    and "disk_queue_head s = 0" "disk_queue_tail s = 0" "disk_sched_policy s = DISK_SCHED_FCFS"
  obtains u fs' where "swap_page_in p va s = Ret (0, u)" "vm_inv u pt fs'" "walkaddr pt va u = Ret n" "\<And>x. same_page x n \<Longrightarrow> pmem u x = 5"
proof -
  let ?lb = "sw_logical_block (swap_disk_table s ! i)"
  obtain s1 where s1: "kalloc s = (n, s1)" "vm_inv s1 pt (r # fs)" "\<And>va. vmap s1 pt va = vmap s pt va"
    "tbl (pmem s1) 2 pt = tbl (pmem s) 2 pt" "mem_step s s1" "page_ok s n" "n \<noteq> 0" "n \<notin> set (r # fs)" "n \<notin> tbl (pmem s) 2 pt"
    by (rule kalloc_vm [OF assms(3)]) (rule that)
  have k: "disk_queue_head s1 = 0" "disk_queue_tail s1 = 0" "disk_sched_policy s1 = DISK_SCHED_FCFS" "raid_mode s1 = raid_mode s"
    using s1(5) assms(10-12) by (auto simp: mem_step_def)
  obtain s2 s3 where s3: "add_disk_request DISK_READ ?lb n (Some p) s1 = Ret (0, s2)" "serve_request s2 = Ret s3"
    "vm_inv s3 pt (r # fs)" "\<And>va. vmap s3 pt va = vmap s1 pt va" "tbl (pmem s3) 2 pt = tbl (pmem s1) 2 pt"
    "only_pages (pmem s1) (pmem s3) {r}" "mm_same s1 s3"
    by (rule request_round_trip [OF s1(2) k(1-3), of ?lb d b DISK_READ n "Some p"]) (use assms(9) k(4) that in auto)
  define s4 where "s4 = s3\<lparr>swap_disk_table := upd_at i (\<lambda>w. w\<lparr>sw_in_use := 0, sw_owner := None,
      sw_vaddr := 0, sw_logical_block := -1\<rparr>) (swap_disk_table s3)\<rparr>"
  have s4: "vm_inv s4 pt (r # fs)" "2 \<le> length (r # fs)" "\<not> pte_valid (vmap s4 pt va)" "pmem s4 = pmem s3"
    using s3(3,4) s1(3) assms(4,7) vm_inv_same [of s4 s3] by (cases fs; simp add: s4_def)+
  have n: "page_aligned n" "n < 2 ^ 56" using s1(6) page_ok_small by (auto simp: page_ok_def)
  obtain t fs' where t: "mappages pt va PGSIZE n user_perm s4 = Ret (0, t)" "vm_inv t pt fs'" "walkaddr pt va t = Ret n"
    "only_pages (pmem s4) (pmem t) (tbl (pmem s4) 2 pt \<union> set (r # fs))" "mem_step s4 t"
    by (rule map_user_page [OF s4(1,2) assms(5,6) s4(3) n]) (rule that)
  have "p_pagetable (ptable s3 ! p) = pt"
    using mm_same_trans [OF mm_same_step [OF s1(5)] s3(7)] assms(1,2) by (simp add: mm_same_def)
  then obtain u where u: "swap_page_in p va s = Ret (0, u)" "pmem u = pmem t" "freelist u = freelist t" "kend u = kend t"
    using assms(8) s1(1,7) s3(1,2) t(1)
    by (auto simp: swap_page_in_def get_page_def s4_def [symmetric] update_frame_table_def Let_def split: option.split)
  have "pmem u x = 5" if x: "same_page x n" for x
  proof -
    have ne: "\<not> same_page x q" if q: "q \<in> tbl (pmem s) 2 pt \<union> set (r # fs)" for q
    proof -
      have "page_aligned q" using vm_inv_aligned [OF assms(3), of q] q by auto
      moreover have "q \<noteq> n" using q s1(8,9) by auto
      ultimately show ?thesis using x aligned_same_page [OF n(1)] by metis
    qed
    have "pmem t x = pmem s3 x" "pmem s3 x = pmem s1 x"
      using ne t(4) s3(5,6) s1(4) s4(4) by (auto simp: only_pages_def)
    moreover have "pmem s1 = write_bytes (pmem s) n (replicate 4096 5)"
      using s1(1) kalloc_Cons [of s n "r # fs"] assms(3) by (auto simp: vm_inv_def)
    ultimately show ?thesis using in_page_offset [OF n(1) x] by (simp add: write_bytes_def u(2))
  qed
  moreover have "walkaddr pt va u = Ret n" using walkaddr_same [OF t(2) assms(6) u(2-4)] t(3) by simp
  moreover have "vm_inv u pt fs'" using t(2) vm_inv_same [OF u(2-4)] by simp
  ultimately show thesis using that u(1) by blast
qed

text \<open>
  C21. A page that is swapped in has lost its contents, and the fault that brought it in is reported as
  a failure.  For a swapped-out page of the running process, with pages free and an empty queue,
  \<open>vmfault\<close> maps a page whose bytes are all 5, the filler of \<open>kalloc\<close>, whatever the page held when it
  was swapped out, and returns 0, on which its callers kill the process or fail the copy.
\<close>

theorem swap_in_loses_page:
  assumes "myproc s = Some p" "p < length (ptable s)" "pt = p_pagetable (ptable s ! p)" "vm_inv s pt (n # r # fs)" "fs \<noteq> []"
    and "page_aligned va" "va < MAXVA" "va < p_sz (ptable s ! p)" "vmap s pt va \<noteq> 0" "\<not> pte_valid (vmap s pt va)"
    and "scan (\<lambda>w. sw_in_use w \<noteq> 0 \<and> sw_owner w = Some p \<and> sw_vaddr w = va) (swap_disk_table s) = Some i"
    and "raid_map_logical_to_physical (raid_mode s) (sw_logical_block (swap_disk_table s ! i)) 0 0 = (0, d, b)"
    and "disk_queue_head s = 0" "disk_queue_tail s = 0" "disk_sched_policy s = DISK_SCHED_FCFS"
  shows "\<exists>t. vmfault pt va s = Ret (0, t) \<and> walkaddr pt va t = Ret n \<and> (\<forall>x. same_page x n \<longrightarrow> pmem t x = 5)"
proof -
  obtain u fs' where u: "swap_page_in p va s = Ret (0, u)" "vm_inv u pt fs'" "walkaddr pt va u = Ret n"
    "\<And>x. same_page x n \<Longrightarrow> pmem u x = 5"
    by (rule swap_in_maps_filler [OF assms(2-7,10-15)]) (rule that)
  obtain a where a: "walk pt va False s = Ret (a, s)" "a \<noteq> 0" "load64 (pmem s) a = vmap s pt va"
    using walk_find [OF assms(4,7)] assms(9) by (cases "pt_slot (pmem s) 2 pt va") auto
  have "PGROUNDDOWN va = va" using assms(6) by (simp add: PGROUNDDOWN_aligned)
  then have "vmfault pt va s = Ret (0, upd_proc p (\<lambda>q. q\<lparr>p_page_faults := p_page_faults q + 1\<rparr>) u)"
    using a u(1) assms(1,8-10) by (simp add: vmfault_def not_le Let_def)
  moreover have "walkaddr pt va (upd_proc p f u) = walkaddr pt va u" for f
    using u(2) assms(7) by (rule walkaddr_same) simp_all
  ultimately show ?thesis using u by simp
qed

text \<open>
  An example: process 3 runs on the table at \<^verbatim>\<open>0x80001000\<close> with five free pages; its page at \<^verbatim>\<open>0x2000\<close> has
  been swapped out to block 7.
\<close>

definition demo_paged :: mm_state where
  "demo_paged = demo_mm\<lparr>pmem := pmem demo_vm, freelist := 0x80003000, kend := 0x80001000,
     swap_disk_table := [no_swap\<lparr>sw_in_use := 1, sw_owner := Some 3, sw_vaddr := 0x2000, sw_logical_block := 7\<rparr>]\<rparr>"

definition demo_ready :: mm_state where
  "demo_ready = (case obind (kfree 0x80005000 demo_paged) (\<lambda>s. obind (kfree 0x80006000 s) (kfree 0x80007000)) of
     Ret t \<Rightarrow> t | _ \<Rightarrow> demo_paged)"

definition demo_swapped :: mm_state where
  "demo_swapped = (case walk 0x80001000 0x2000 True demo_ready of
     Ret (a, t) \<Rightarrow> t\<lparr>pmem := store64 (pmem t) a 0x400\<rparr> | _ \<Rightarrow> demo_paged)"

lemma demo_paged_inv: "vm_inv demo_paged 0x80001000 [0x80003000, 0x80004000]" "vmap demo_paged 0x80001000 va = 0"
proof -
  have "kend demo_vm = 0x80001000" "freelist demo_vm = 0x80003000" by (simp_all add: demo_vm_def boot_mem_def)
  then show "vm_inv demo_paged 0x80001000 [0x80003000, 0x80004000]"
    using demo_vm_inv(1) vm_inv_same [of demo_paged demo_vm] by (simp add: demo_paged_def)
  show "vmap demo_paged 0x80001000 va = 0" using demo_vm_inv(2) by (simp add: demo_paged_def)
qed

lemma demo_ready_inv:
  "vm_inv demo_ready 0x80001000 [0x80007000, 0x80006000, 0x80005000, 0x80003000, 0x80004000]"
  "mem_step demo_paged demo_ready" "vmap demo_ready 0x80001000 va = 0" "tbl (pmem demo_ready) 2 0x80001000 = {0x80001000}"
proof -
  have ok: "page_ok s 0x80005000 \<and> page_ok s 0x80006000 \<and> page_ok s 0x80007000" if "kend s = 0x80001000" for s :: mm_state
    using that by (simp add: page_ok_def page_aligned_def)
  have k: "kend demo_paged = 0x80001000" "tbl (pmem demo_paged) 2 0x80001000 = {0x80001000}"
    using demo_vm_inv(3) by (simp_all add: demo_paged_def)
  obtain s1 where s1: "kfree 0x80005000 demo_paged = Ret s1" "vm_inv s1 0x80001000 [0x80005000, 0x80003000, 0x80004000]"
    "tbl (pmem s1) 2 0x80001000 = {0x80001000}" "mem_step demo_paged s1" "vmap s1 0x80001000 va = 0"
    by (rule kfree_vm [OF demo_paged_inv(1), of "0x80005000"]) (use ok k that demo_paged_inv(2) in auto)
  have k1: "kend s1 = 0x80001000" using s1(4) k(1) by (auto simp: mem_step_def)
  obtain s2 where s2: "kfree 0x80006000 s1 = Ret s2" "vm_inv s2 0x80001000 [0x80006000, 0x80005000, 0x80003000, 0x80004000]"
    "tbl (pmem s2) 2 0x80001000 = {0x80001000}" "mem_step s1 s2" "vmap s2 0x80001000 va = 0"
    by (rule kfree_vm [OF s1(2), of "0x80006000"]) (use ok k1 s1(3,5) that in auto)
  have k2: "kend s2 = 0x80001000" using s2(4) k1 by (auto simp: mem_step_def)
  obtain s3 where s3: "kfree 0x80007000 s2 = Ret s3"
    "vm_inv s3 0x80001000 [0x80007000, 0x80006000, 0x80005000, 0x80003000, 0x80004000]" "mem_step s2 s3" "vmap s3 0x80001000 va = 0"
    "tbl (pmem s3) 2 0x80001000 = {0x80001000}"
    by (rule kfree_vm [OF s2(2), of "0x80007000"]) (use ok k2 s2(3,5) that in auto)
  have "demo_ready = s3" using s1(1) s2(1) s3(1) by (simp add: demo_ready_def)
  moreover have "mem_step demo_paged s3" using s1(4) s2(4) s3(3) by (blast intro: mem_step_trans)
  ultimately show "vm_inv demo_ready 0x80001000 [0x80007000, 0x80006000, 0x80005000, 0x80003000, 0x80004000]"
    "mem_step demo_paged demo_ready" "vmap demo_ready 0x80001000 va = 0" "tbl (pmem demo_ready) 2 0x80001000 = {0x80001000}"
    using s3(2,4,5) by simp_all
qed

lemma demo_swapped_inv:
  obtains fs where "vm_inv demo_swapped 0x80001000 fs" "3 \<le> length fs" "vmap demo_swapped 0x80001000 0x2000 = 0x400"
    "mem_step demo_paged demo_swapped"
proof -
  let ?fs = "[0x80007000, 0x80006000, 0x80005000, 0x80003000, 0x80004000 :: addr]"
  obtain a u used fs' where w: "walk 0x80001000 0x2000 True demo_ready = Ret (a, u)" "?fs = used @ fs'" "vm_inv u 0x80001000 fs'"
    "if a = 0 then fs' = [] else pt_slot (pmem u) 2 0x80001000 0x2000 = Some a" "mem_step demo_ready u" "length used \<le> 2"
    by (rule walk_extend [OF demo_ready_inv(1), of "0x2000"]) (simp, rule that)
  have len: "length ?fs = length used + length fs'" using w(2) by (metis length_append)
  have "a \<noteq> 0" using w(4,6) len by (auto split: if_splits)
  then have sl: "pt_slot (pmem u) 2 0x80001000 0x2000 = Some a" using w(4) by simp
  have d: "demo_swapped = u\<lparr>pmem := store64 (pmem u) a 0x400\<rparr>"
    using w(1) by (simp add: demo_swapped_def)
  have va: "(0x2000 :: addr) < MAXVA" by simp
  note S = store_pte [OF w(3) sl va d]
  have "mem_step demo_paged demo_swapped"
    using mem_step_trans [OF demo_ready_inv(2) w(5)] mem_step_trans [OF _ mem_step_pmem] d by metis
  then show thesis using that [OF S(1)] S(4) [OF va] len w(6) by simp
qed

theorem swap_in_loses_page_witness:
  "\<exists>n t. vmfault 0x80001000 0x2000 demo_swapped = Ret (0, t) \<and> walkaddr 0x80001000 0x2000 t = Ret n \<and> pmem t n = 5"
proof -
  obtain fs where f: "vm_inv demo_swapped 0x80001000 fs" "3 \<le> length fs" "vmap demo_swapped 0x80001000 0x2000 = 0x400"
    "mem_step demo_paged demo_swapped"
    by (rule demo_swapped_inv) (rule that)
  obtain n r gs where fs: "fs = n # r # gs" "gs \<noteq> []" using f(2) by (cases fs; cases "tl fs"; cases "tl (tl fs)") auto
  obtain m fl where d: "demo_swapped = demo_paged\<lparr>pmem := m, freelist := fl\<rparr>" using f(4) unfolding mem_step_def by blast
  have e: "myproc demo_swapped = Some 3" "3 < length (ptable demo_swapped)" "0x80001000 = p_pagetable (ptable demo_swapped ! 3)"
    "(0x2000 :: addr) < p_sz (ptable demo_swapped ! 3)"
    "scan (\<lambda>w. sw_in_use w \<noteq> 0 \<and> sw_owner w = Some 3 \<and> sw_vaddr w = 0x2000) (swap_disk_table demo_swapped) = Some 0"
    "raid_map_logical_to_physical (raid_mode demo_swapped) (sw_logical_block (swap_disk_table demo_swapped ! 0)) 0 0 = (0, 3, 1)"
    "disk_queue_head demo_swapped = 0" "disk_queue_tail demo_swapped = 0" "disk_sched_policy demo_swapped = DISK_SCHED_FCFS"
    by (simp_all add: d demo_paged_def demo_mm_def demo_disk_def demo_state_def proc_state.defs disk_state.defs mm_state.defs
        myproc_def no_swap_def raid_map_logical_to_physical_def raid0_map_def sdiv_nonneg smod_nonneg)
  have v: "page_aligned 0x2000" "(0x2000 :: addr) < MAXVA" "vmap demo_swapped 0x80001000 0x2000 \<noteq> 0"
    "\<not> pte_valid (vmap demo_swapped 0x80001000 0x2000)"
    using f(3) by (simp_all add: page_aligned_def PTE_V_def)
  show ?thesis
    using swap_in_loses_page [OF e(1-3) f(1) [unfolded fs(1)] fs(2) v(1,2) e(4) v(3,4) e(5-9)] by blast
qed

end
