(* ===== verification/User_Copy.thy ===== *)
theory User_Copy
  imports Swap
begin

text \<open>
  The page fault handler on a page that was never touched, and the copies between kernel buffers and
  user memory: a copy out followed by a copy in of the same range returns the same bytes, across any
  number of pages.
\<close>

section \<open>Writing beside a table\<close>

lemma vm_write:
  assumes inv: "vm_inv s pt fs" and out: "only_pages (pmem s) m {q}" and q: "page_aligned q" "q \<notin> tbl (pmem s) 2 pt \<union> set fs"
  shows "vm_inv (s\<lparr>pmem := m\<rparr>) pt fs" "vmap (s\<lparr>pmem := m\<rparr>) pt va = vmap s pt va" "tbl m 2 pt = tbl (pmem s) 2 pt"
proof -
  let ?t = "s\<lparr>pmem := m\<rparr>"
  have o: "only_pages (pmem s) (pmem ?t) {q}" using out by simp
  have I: "kmem_inv s fs" "tbl (pmem s) 2 pt \<inter> set fs = {}" using inv by (auto simp: vm_inv_def)
  note O = vm_outside [OF inv o]
  show "vmap ?t pt va = vmap s pt va" "tbl m 2 pt = tbl (pmem s) 2 pt"
    using O(2,3) q by auto
  have "kmem_inv ?t fs" using only_pages_kmem [OF I(1) out, of] q by auto
  then show "vm_inv ?t pt fs" using O(1,2) q I(2) by (auto simp: vm_inv_def)
qed

lemma page_fill:
  assumes "page_aligned n"
  shows "only_pages m (write_bytes m n (replicate 4096 c)) {n}" "same_page x n \<Longrightarrow> write_bytes m n (replicate 4096 c) x = c"
proof -
  show "only_pages m (write_bytes m n (replicate 4096 c)) {n}"
    unfolding only_pages_def using page_apart [OF assms] by (simp add: write_bytes_out)
  show "write_bytes m n (replicate 4096 c) x = c" if "same_page x n"
    using in_page_offset [OF assms that] by (simp add: write_bytes_def)
qed

lemma PGROUNDDOWN_page:
  "page_aligned (PGROUNDDOWN va)" "same_page (PGROUNDDOWN va) va" "PGROUNDDOWN va \<le> va"
  by (auto simp: page_aligned_iff unat_PGROUNDDOWN word_le_nat_alt minus_mod_eq_div_mult)

section \<open>Lazy allocation\<close>

text \<open>On an empty entry \<open>vmfault\<close> skips the swap and the accessed bit and goes on to allocate.\<close>

lemma vmfault_untouched:
  assumes "myproc s = Some p" "vm_inv s pt fs" "va < p_sz (ptable s ! p)"
    and "PGROUNDDOWN va < MAXVA" "vmap s pt (PGROUNDDOWN va) = 0"
  shows "vmfault pt va s = obind (get_page (upd_proc p (\<lambda>q. q\<lparr>p_page_faults := p_page_faults q + 1\<rparr>) s)) (\<lambda>(m, s3).
    if m = 0 then Ret (0, s3)
    else let s4 = s3\<lparr>pmem := memset (pmem s3) m 0 4096\<rparr> in
      obind (mappages (p_pagetable (ptable s4 ! p)) (PGROUNDDOWN va) PGSIZE m user_perm s4) (\<lambda>(e, s5).
        if e \<noteq> 0 then obind (kfree m s5) (\<lambda>s6. Ret (0, s6))
        else let s6 = update_frame_table (Some p) (PGROUNDDOWN va) m s5
             in Ret (m, upd_proc p (\<lambda>q. q\<lparr>p_resident_pages := p_resident_pages q + 1\<rparr>) s6)))"
proof -
  have "(p_sz (ptable s ! p) \<le> va) = False" using assms(3) by simp
  then show ?thesis
    using walk_find [OF assms(2,4)] assms(1,5)
    by (cases "pt_slot (pmem s) 2 pt (PGROUNDDOWN va)") (simp_all add: vmfault_def ismapped_def Let_def)
qed

text \<open>
  C22. A fault on a page of the process that has never been touched gets a fresh page: \<open>vmfault\<close> takes the
  first free page, fills it with zeroes, maps it for the user at exactly the faulting page and
  returns it; every other address is translated as before, and the fault and the resident page are
  counted.
\<close>

theorem vmfault_allocates:
  assumes "myproc s = Some p" "p < length (ptable s)" "pt = p_pagetable (ptable s ! p)" "vm_inv s pt (n # fs)" "2 \<le> length fs"
    and "va < MAXVA" "va < p_sz (ptable s ! p)" "vmap s pt va = 0"
  shows "\<exists>t. vmfault pt va s = Ret (n, t) \<and>
    (\<forall>x < MAXVA. walkaddr pt x t = (if same_page x va then Ret n else walkaddr pt x s)) \<and>
    (\<forall>x. same_page x n \<longrightarrow> pmem t x = 0) \<and>
    p_page_faults (ptable t ! p) = p_page_faults (ptable s ! p) + 1 \<and>
    p_resident_pages (ptable t ! p) = p_resident_pages (ptable s ! p) + 1"
proof -
  let ?va = "PGROUNDDOWN va"
  note P = PGROUNDDOWN_page [of va]
  have lt: "?va < MAXVA" using P(3) assms(6) by order
  have z: "vmap s pt ?va = 0" using vmap_same_page [OF lt assms(6) P(2), of s pt] assms(8) by simp
  define s2 where "s2 = upd_proc p (\<lambda>q. q\<lparr>p_page_faults := p_page_faults q + 1\<rparr>) s"
  have inv2: "vm_inv s2 pt (n # fs)" using assms(4) vm_inv_same [of s2 s] by (simp add: s2_def)
  obtain s3 where s3: "kalloc s2 = (n, s3)" "vm_inv s3 pt fs" "\<And>va. vmap s3 pt va = vmap s2 pt va"
    "tbl (pmem s3) 2 pt = tbl (pmem s2) 2 pt" "mem_step s2 s3" "page_ok s2 n" "n \<noteq> 0" "n \<notin> set fs" "n \<notin> tbl (pmem s2) 2 pt"
    by (rule kalloc_vm [OF inv2]) (rule that)
  have n: "page_aligned n" "n < 2 ^ 56" using s3(6) page_ok_small by (auto simp: page_ok_def)
  define s4 where "s4 = s3\<lparr>pmem := memset (pmem s3) n 0 4096\<rparr>"
  have out: "only_pages (pmem s3) (memset (pmem s3) n 0 4096) {n}" unfolding memset_page by (rule page_fill [OF n(1)])
  have s4: "vm_inv s4 pt fs" "\<And>x. vmap s4 pt x = vmap s pt x" "tbl (pmem s4) 2 pt = tbl (pmem s) 2 pt"
    using vm_write [OF s3(2) out n(1)] s3(3,4,8,9) by (auto simp: s4_def s2_def)
  have inval: "\<not> pte_valid (vmap s4 pt ?va)" using z s4(2) by simp
  obtain t fs' where t: "mappages pt ?va PGSIZE n user_perm s4 = Ret (0, t)" "vm_inv t pt fs'" "walkaddr pt ?va t = Ret n"
    "\<And>x. x < MAXVA \<Longrightarrow> vmap t pt x = (if same_page x ?va then PA2PTE n OR user_perm OR PTE_V else vmap s4 pt x)"
    "only_pages (pmem s4) (pmem t) (tbl (pmem s4) 2 pt \<union> set fs)" "mem_step s4 t"
    by (rule map_user_page [OF s4(1) assms(5) P(1) lt inval n]) (rule that)
  define u where "u = upd_proc p (\<lambda>q. q\<lparr>p_resident_pages := p_resident_pages q + 1\<rparr>) (update_frame_table (Some p) ?va n t)"
  have pts: "p_pagetable (ptable s3 ! p) = pt" "ptable t = ptable s2"
    using s3(5) t(6) assms(2,3) by (auto simp: mem_step_def s2_def s4_def)
  have "vmfault pt va s = Ret (n, u)"
    using vmfault_untouched [OF assms(1,4,7) lt z] s3(1,7) t(1) pts(1)
    by (simp add: s2_def [symmetric] get_page_def s4_def [symmetric] u_def Let_def)
  moreover have "walkaddr pt x u = (if same_page x va then Ret n else walkaddr pt x s)" if x: "x < MAXVA" for x
  proof -
    have "walkaddr pt x u = walkaddr pt x t"
      by (rule walkaddr_same [OF t(2) x]) (simp_all add: u_def update_frame_table_def split: option.split)
    then show ?thesis using walkaddr_vmap [OF t(2) x] walkaddr_vmap [OF assms(4) x] walkaddr_vmap [OF t(2) lt] t(3)
        t(4) [OF x] t(4) [OF lt] s4(2) P(2) by auto
  qed
  moreover have "pmem u x = 0" if x: "same_page x n" for x
  proof -
    have "\<not> same_page x q" if "q \<in> tbl (pmem s4) 2 pt \<union> set fs" for q
      using vm_inv_aligned [OF s4(1) that] that s3(8,9) s4(3) x aligned_same_page [OF n(1)] by (auto simp: s2_def)
    then have "pmem t x = pmem s4 x" using t(5) by (auto simp: only_pages_def)
    then show ?thesis using page_fill(2) [OF n(1) x] by (simp add: u_def s4_def memset_page)
  qed
  ultimately show ?thesis using assms(2) pts(2) by (intro exI [of _ u]) (simp add: u_def s2_def)
qed

lemma demo_ready_proc:
  "myproc demo_ready = Some 3" "3 < length (ptable demo_ready)" "0x80001000 = p_pagetable (ptable demo_ready ! 3)"
  "p_sz (ptable demo_ready ! 3) = 0x4000"
proof -
  obtain m fl where d: "demo_ready = demo_paged\<lparr>pmem := m, freelist := fl\<rparr>"
    using demo_ready_inv(2) unfolding mem_step_def by blast
  show "myproc demo_ready = Some 3" "3 < length (ptable demo_ready)" "0x80001000 = p_pagetable (ptable demo_ready ! 3)"
    "p_sz (ptable demo_ready ! 3) = 0x4000"
    by (simp_all add: d demo_paged_def demo_mm_def demo_disk_def demo_state_def proc_state.defs disk_state.defs mm_state.defs
        myproc_def)
qed

theorem vmfault_allocates_witness:
  "\<exists>t. vmfault 0x80001000 0x3abc demo_ready = Ret (0x80007000, t) \<and> walkaddr 0x80001000 0x3010 t = Ret 0x80007000 \<and>
     pmem t 0x80007123 = 0"
proof -
  have e: "2 \<le> length [0x80006000, 0x80005000, 0x80003000, 0x80004000 :: addr]" "(0x3abc :: addr) < MAXVA"
    "(0x3abc :: addr) < p_sz (ptable demo_ready ! 3)" by (simp_all add: demo_ready_proc)
  have x: "(0x3010 :: addr) < MAXVA" "same_page 0x3010 0x3abc" "same_page 0x80007123 0x80007000" by simp_all
  show ?thesis
    using vmfault_allocates [OF demo_ready_proc(1-3) demo_ready_inv(1) e(1-3) demo_ready_inv(3)] x by (metis (no_types))
qed

section \<open>User memory\<close>

text \<open>The physical address of a user address, and a range of user memory that may be written.\<close>

definition phys :: "'z kmem_state_scheme \<Rightarrow> addr \<Rightarrow> addr \<Rightarrow> addr" where
  "phys s pt x = PTE2PA (vmap s pt x) + (x - PGROUNDDOWN x)"

definition user_byte :: "'z kmem_state_scheme \<Rightarrow> addr \<Rightarrow> addr list \<Rightarrow> addr \<Rightarrow> bool" where
  "user_byte s pt fs x \<longleftrightarrow> (let v = vmap s pt x in pte_valid v \<and> v AND PTE_U \<noteq> 0 \<and> v AND PTE_W \<noteq> 0 \<and>
     PTE2PA v \<noteq> 0 \<and> PTE2PA v \<notin> tbl (pmem s) 2 pt \<union> set fs)"

definition no_alias :: "'z kmem_state_scheme \<Rightarrow> addr \<Rightarrow> addr \<Rightarrow> nat \<Rightarrow> bool" where
  "no_alias s pt va len \<longleftrightarrow> (\<forall>i < len. \<forall>j < len.
     PTE2PA (vmap s pt (va + of_nat i)) = PTE2PA (vmap s pt (va + of_nat j)) \<longrightarrow> same_page (va + of_nat i) (va + of_nat j))"

definition user_range :: "'z kmem_state_scheme \<Rightarrow> addr \<Rightarrow> addr list \<Rightarrow> addr \<Rightarrow> nat \<Rightarrow> bool" where
  "user_range s pt fs va len \<longleftrightarrow> vm_inv s pt fs \<and> unat va + len \<le> unat MAXVA \<and>
     (\<forall>i < len. user_byte s pt fs (va + of_nat i)) \<and> no_alias s pt va len"

lemma PTE2PA_aligned: "page_aligned (PTE2PA v)"
  by (simp add: aligned_bits PTE2PA_def bit_simps)

lemma unat_off: "unat (x - PGROUNDDOWN x) = unat x mod 4096"
  using PGROUNDDOWN_page(3) [of x] by (simp add: unat_sub unat_PGROUNDDOWN)

lemma unat_page_off:
  assumes "page_aligned q" "unat off < 4096"
  shows "unat (q + off) = unat q + unat off"
proof -
  obtain k where "unat q = 4096 * k" using assms(1) by (rule page_alignedE)
  moreover have "unat q < 2 ^ 64" by simp
  ultimately show ?thesis using assms(2) by (intro unat_add_lem [THEN iffD1]) auto
qed

lemma unat_phys: "unat (phys s pt x) = unat (PTE2PA (vmap s pt x)) + unat x mod 4096"
  by (simp add: phys_def unat_page_off [OF PTE2PA_aligned] unat_off)

lemma page_off_unique:
  assumes "4096 * k + a = 4096 * l + b" "a < 4096" "b < 4096"
  shows "k = (l :: nat)"
proof -
  have "(4096 * k + a) div 4096 = k" "(4096 * l + b) div 4096 = l" using assms(2,3) by simp_all
  then show ?thesis using assms(1) by simp
qed

lemma div_mod_eqI: "m div 4096 = n div 4096 \<Longrightarrow> m mod 4096 = n mod 4096 \<Longrightarrow> m = (n :: nat)"
  by (metis div_mult_mod_eq)

lemma phys_eq:
  assumes "phys s pt x = phys s pt y"
  shows "PTE2PA (vmap s pt x) = PTE2PA (vmap s pt y)" "unat x mod 4096 = unat y mod 4096"
proof -
  obtain k l where k: "unat (PTE2PA (vmap s pt x)) = 4096 * k" and l: "unat (PTE2PA (vmap s pt y)) = 4096 * l"
    using PTE2PA_aligned by (metis page_alignedE)
  have e: "4096 * k + unat x mod 4096 = 4096 * l + unat y mod 4096"
    using arg_cong [OF assms, of unat] k l by (simp add: unat_phys)
  then have "k = l" by (rule page_off_unique) simp_all
  then show "unat x mod 4096 = unat y mod 4096" "PTE2PA (vmap s pt x) = PTE2PA (vmap s pt y)"
    using e k l by (auto simp: word_unat_eq_iff)
qed

lemma range_unat:
  assumes "user_range s pt fs va len" "i < len"
  shows "unat (va + of_nat i) = unat va + i" "va + of_nat i < MAXVA"
proof -
  have "unat va + i < unat MAXVA" using assms by (simp add: user_range_def)
  then show "unat (va + of_nat i) = unat va + i" by (intro unat_add_small) simp
  with \<open>unat va + i < unat MAXVA\<close> show "va + of_nat i < MAXVA" by (simp add: word_less_nat_alt)
qed

lemma phys_inject:
  assumes "user_range s pt fs va len" "i < len" "j < len" "phys s pt (va + of_nat i) = phys s pt (va + of_nat j)"
  shows "i = j"
proof -
  have "same_page (va + of_nat i) (va + of_nat j)"
    using assms(1-3) phys_eq(1) [OF assms(4)] unfolding user_range_def no_alias_def by blast
  then have "unat (va + of_nat i) = unat (va + of_nat j)"
    using phys_eq(2) [OF assms(4)] by (rule div_mod_eqI)
  then show ?thesis using range_unat [OF assms(1)] assms(2,3) by simp
qed

lemma range_drop:
  assumes "user_range s pt fs va len" "n < len"
  shows "user_range s pt fs (va + of_nat n) (len - n)"
proof -
  have e: "va + of_nat n + of_nat i = va + of_nat (n + i)" for i by (simp add: add.assoc)
  have u: "unat (va + of_nat n) = unat va + n" by (rule range_unat [OF assms])
  have A: "no_alias s pt va len" and B: "\<forall>i < len. user_byte s pt fs (va + of_nat i)"
    using assms(1) by (simp_all add: user_range_def)
  have "no_alias s pt (va + of_nat n) (len - n)"
    unfolding no_alias_def e
  proof (intro allI impI)
    fix i j assume "i < len - n" "j < len - n"
      "PTE2PA (vmap s pt (va + of_nat (n + i))) = PTE2PA (vmap s pt (va + of_nat (n + j)))"
    then show "same_page (va + of_nat (n + i)) (va + of_nat (n + j))"
      using A [unfolded no_alias_def, rule_format, of "n + i" "n + j"] by linarith
  qed
  moreover have "user_byte s pt fs (va + of_nat n + of_nat i)" if "i < len - n" for i
  proof -
    have "user_byte s pt fs (va + of_nat (n + i))" using B [rule_format, of "n + i"] that by linarith
    then show ?thesis unfolding e .
  qed
  moreover have "vm_inv s pt fs" "unat (va + of_nat n) + (len - n) \<le> unat MAXVA"
    using assms(1) unfolding user_range_def u using assms(2) by simp_all
  ultimately show ?thesis unfolding user_range_def by blast
qed

lemma range_kept:
  assumes "user_range s pt fs va len" "vm_inv t pt fs" "\<And>x. vmap t pt x = vmap s pt x" "tbl (pmem t) 2 pt = tbl (pmem s) 2 pt"
  shows "user_range t pt fs va len"
proof -
  have "no_alias t pt va len = no_alias s pt va len" "user_byte t pt fs = user_byte s pt fs"
    unfolding no_alias_def user_byte_def assms(3,4) by (rule refl)+
  then show ?thesis using assms(1,2) unfolding user_range_def by simp
qed

text \<open>The part of a range that lies on one page.\<close>

lemma chunk_page:
  assumes "m mod 4096 + i < (4096 :: nat)"
  shows "(m + i) div 4096 = m div 4096" "(m + i) mod 4096 = m mod 4096 + i"
proof -
  have "m + i = 4096 * (m div 4096) + (m mod 4096 + i)" by simp
  then show "(m + i) div 4096 = m div 4096" "(m + i) mod 4096 = m mod 4096 + i"
    using assms by (metis add.right_neutral div_less div_mult_self4 mult.commute zero_neq_numeral add.commute,
      metis mod_less mod_mult_self4)
qed

lemma phys_chunk:
  assumes "user_range s pt fs va len" "i < len" "unat va mod 4096 + i < 4096"
  shows "phys s pt (va + of_nat i) = phys s pt va + of_nat i" "vmap s pt (va + of_nat i) = vmap s pt va"
proof -
  note U = range_unat [OF assms(1,2)]
  have z: "va < MAXVA" using range_unat(2) [OF assms(1), of 0] assms(2) by simp
  note C = chunk_page [OF assms(3)]
  show v: "vmap s pt (va + of_nat i) = vmap s pt va" using vmap_same_page [OF U(2) z, of s pt] C(1) U(1) by simp
  have "unat (phys s pt va + of_nat i) = unat (PTE2PA (vmap s pt va)) + (unat va mod 4096 + i)"
  proof -
    have "unat (va - PGROUNDDOWN va + of_nat i) = unat va mod 4096 + i"
      using unat_off [of va] assms(3) by (simp add: unat_add_small)
    then show ?thesis using unat_page_off [OF PTE2PA_aligned, of "va - PGROUNDDOWN va + of_nat i"] assms(3)
      by (simp add: phys_def add.assoc)
  qed
  then show "phys s pt (va + of_nat i) = phys s pt va + of_nat i"
    using C(2) by (simp add: word_unat_eq_iff unat_phys v U(1))
qed

section \<open>Copying out\<close>

text \<open>The bytes \<open>src\<close> stand at \<open>va\<close> in user memory \<open>m\<close>, and nothing else has changed.\<close>

definition copied :: "'z kmem_state_scheme \<Rightarrow> addr \<Rightarrow> addr list \<Rightarrow> addr \<Rightarrow> byte list \<Rightarrow> mem \<Rightarrow> bool" where
  "copied s pt fs va src m \<longleftrightarrow> vm_inv (s\<lparr>pmem := m\<rparr>) pt fs \<and> (\<forall>x. vmap (s\<lparr>pmem := m\<rparr>) pt x = vmap s pt x) \<and>
     tbl m 2 pt = tbl (pmem s) 2 pt \<and> (\<forall>i < length src. m (phys s pt (va + of_nat i)) = src ! i) \<and>
     (\<forall>y. (\<forall>i < length src. y \<noteq> phys s pt (va + of_nat i)) \<longrightarrow> m y = pmem s y)"

lemma copied_Nil: "vm_inv s pt fs \<Longrightarrow> copied s pt fs va [] (pmem s)"
  by (simp add: copied_def)

lemma copied_chunk:
  assumes R: "user_range s pt fs va len" and c: "length c \<le> len" "unat va mod 4096 + length c \<le> 4096" "c \<noteq> []"
  shows "copied s pt fs va c (write_bytes (pmem s) (phys s pt va) c)"
proof -
  let ?m = "write_bytes (pmem s) (phys s pt va) c" and ?q = "PTE2PA (vmap s pt va)"
  have ph: "phys s pt (va + of_nat i) = phys s pt va + of_nat i" if "i < length c" for i
    using phys_chunk(1) [OF R, of i] that c by simp
  have len: "length c \<le> 4096" using c(2) by simp
  have in_: "?m (phys s pt (va + of_nat i)) = c ! i" if "i < length c" for i
    using that len ph [OF that] by (simp add: write_bytes_in)
  have out: "?m y = pmem s y" if "\<forall>i < length c. y \<noteq> phys s pt (va + of_nat i)" for y
  proof (rule write_bytes_out, rule ccontr)
    assume "\<not> length c \<le> unat (y - phys s pt va)"
    then have "unat (y - phys s pt va) < length c" by simp
    then have "y \<noteq> phys s pt va + of_nat (unat (y - phys s pt va))" using that ph by metis
    then show False by simp
  qed
  have ub: "user_byte s pt fs va" using R c(1,3) unfolding user_range_def by (cases len) (auto dest: spec [of _ 0])
  have "same_page (phys s pt (va + of_nat i)) ?q" if i: "i < length c" for i
  proof -
    have u: "unat (phys s pt (va + of_nat i)) = unat ?q + unat (va + of_nat i) mod 4096"
      using phys_chunk(2) [OF R, of i] i c by (simp add: unat_phys)
    obtain k where "unat ?q = 4096 * k" using PTE2PA_aligned by (rule page_alignedE)
    then show ?thesis using u by simp
  qed
  then have o: "only_pages (pmem s) ?m {?q}"
    unfolding only_pages_def using out by (metis insertI1)
  have q: "page_aligned ?q" "?q \<notin> tbl (pmem s) 2 pt \<union> set fs"
    using ub PTE2PA_aligned by (auto simp: user_byte_def Let_def)
  have "vm_inv s pt fs" using R by (simp add: user_range_def)
  note W = vm_write [OF this o q]
  show ?thesis using W in_ out by (simp add: copied_def)
qed

lemma copied_append:
  assumes R: "user_range s pt fs va (length (c @ d))" and c: "copied s pt fs va c m"
    and d: "copied (s\<lparr>pmem := m\<rparr>) pt fs (va + of_nat (length c)) d m'"
  shows "copied s pt fs va (c @ d) m'"
proof -
  let ?n = "length c" and ?s = "s\<lparr>pmem := m\<rparr>"
  have v: "vmap ?s pt x = vmap s pt x" for x using c by (simp add: copied_def)
  then have ph: "phys ?s pt x = phys s pt x" for x by (simp add: phys_def)
  have e: "va + of_nat ?n + of_nat i = va + of_nat (?n + i)" for i by simp
  note D = d [unfolded copied_def ph e]
  have lo: "m' (phys s pt (va + of_nat i)) = c ! i" if i: "i < ?n" for i
  proof -
    have "phys s pt (va + of_nat i) \<noteq> phys s pt (va + of_nat (?n + j))" if "j < length d" for j
      using phys_inject [OF R, of i "?n + j"] i that by auto
    then have "m' (phys s pt (va + of_nat i)) = m (phys s pt (va + of_nat i))" using D by simp
    then show ?thesis using c i by (simp add: copied_def)
  qed
  have hi: "m' (phys s pt (va + of_nat i)) = d ! (i - ?n)" if i: "?n \<le> i" "i < ?n + length d" for i
  proof -
    have "i = ?n + (i - ?n)" "i - ?n < length d" using i by auto
    then show ?thesis using D by metis
  qed
  have out: "m' y = pmem s y" if y: "\<forall>i < ?n + length d. y \<noteq> phys s pt (va + of_nat i)" for y
  proof -
    have "y \<noteq> phys s pt (va + of_nat (?n + i))" if "i < length d" for i
      using spec [OF y, of "?n + i"] that by simp
    then have "m' y = m y" using D by simp
    also have "\<dots> = pmem s y" using c y by (simp add: copied_def)
    finally show ?thesis .
  qed
  have "vm_inv (s\<lparr>pmem := m'\<rparr>) pt fs" "\<And>x. vmap (s\<lparr>pmem := m'\<rparr>) pt x = vmap s pt x" "tbl m' 2 pt = tbl (pmem s) 2 pt"
    using d c by (simp_all add: copied_def)
  then show ?thesis using lo hi out by (simp add: copied_def nth_append)
qed

lemma range_page:
  assumes R: "user_range s pt fs va len" "0 < len"
  shows "PGROUNDDOWN va < MAXVA" "walkaddr pt (PGROUNDDOWN va) s = Ret (PTE2PA (vmap s pt va))" "PTE2PA (vmap s pt va) \<noteq> 0"
    "\<exists>a. walk pt (PGROUNDDOWN va) False s = Ret (a, s) \<and> a \<noteq> 0 \<and> load64 (pmem s) a AND PTE_W \<noteq> 0"
proof -
  have inv: "vm_inv s pt fs" and ub: "user_byte s pt fs va"
    using R unfolding user_range_def by (auto dest: spec [of _ 0])
  have va: "va < MAXVA" using range_unat(2) [OF R] by simp
  then show lt: "PGROUNDDOWN va < MAXVA" using PGROUNDDOWN_page(3) [of va] by order
  have v: "vmap s pt (PGROUNDDOWN va) = vmap s pt va" by (rule vmap_same_page [OF lt va PGROUNDDOWN_page(2)])
  show "walkaddr pt (PGROUNDDOWN va) s = Ret (PTE2PA (vmap s pt va))" "PTE2PA (vmap s pt va) \<noteq> 0"
    using walkaddr_vmap [OF inv lt] ub by (simp_all add: v user_byte_def Let_def)
  show "\<exists>a. walk pt (PGROUNDDOWN va) False s = Ret (a, s) \<and> a \<noteq> 0 \<and> load64 (pmem s) a AND PTE_W \<noteq> 0"
    using walk_find [OF inv lt] ub v by (cases "pt_slot (pmem s) 2 pt (PGROUNDDOWN va)") (auto simp: user_byte_def Let_def)
qed

lemma unat_chunk: "unat (PGSIZE - (va - PGROUNDDOWN va)) = 4096 - unat va mod 4096"
proof -
  have "va - PGROUNDDOWN va \<le> PGSIZE" using unat_off [of va] by (simp add: word_le_nat_alt)
  then show ?thesis using unat_off [of va] by (simp add: unat_sub)
qed

lemma next_page:
  assumes "n = 4096 - unat va mod 4096"
  shows "PGROUNDDOWN va + PGSIZE = va + of_nat n"
proof -
  have "of_nat n = PGSIZE - (va - PGROUNDDOWN va)" unfolding assms unat_chunk [symmetric] by simp
  then show ?thesis by simp
qed

lemma copyout_loop_correct:
  assumes "vm_inv s pt fs" "src \<noteq> [] \<Longrightarrow> user_range s pt fs va (length src)" "length src < fuel"
  shows "\<exists>m. copyout_loop fuel pt va src s = Ret (0, s\<lparr>pmem := m\<rparr>) \<and> copied s pt fs va src m"
  using assms
proof (induction fuel arbitrary: s va src)
  case 0
  then show ?case by simp
next
  case (Suc fuel)
  show ?case
  proof (cases "src = []")
    case True
    then show ?thesis using copied_Nil [OF Suc.prems(1)] by (intro exI [of _ "pmem s"]) simp
  next
    case False
    then have R: "user_range s pt fs va (length src)" "0 < length src" using Suc.prems(2) by simp_all
    note P = range_page [OF R]
    define n where "n = min (4096 - unat va mod 4096) (length src)"
    have n: "0 < n" "n \<le> length src" "unat va mod 4096 + n \<le> 4096" using False by (auto simp: n_def)
    let ?c = "take n src" and ?d = "drop n src"
    define m1 where "m1 = write_bytes (pmem s) (phys s pt va) ?c"
    have c: "copied s pt fs va ?c m1"
      unfolding m1_def by (rule copied_chunk [OF R(1)]) (use n False in auto)
    let ?s1 = "s\<lparr>pmem := m1\<rparr>"
    have step: "copyout_loop (Suc fuel) pt va src s = copyout_loop fuel pt (PGROUNDDOWN va + PGSIZE) ?d ?s1"
      using False P unat_chunk [of va] by (auto simp: not_le Let_def m1_def n_def phys_def)
    have inv1: "vm_inv ?s1 pt fs" and v1: "\<And>x. vmap ?s1 pt x = vmap s pt x" "tbl (pmem ?s1) 2 pt = tbl (pmem s) 2 pt"
      using c by (simp_all add: copied_def)
    have nx: "PGROUNDDOWN va + PGSIZE = va + of_nat n" "n < length src" if "?d \<noteq> []"
      using that next_page [of n va] by (auto simp: n_def)
    have r1: "user_range ?s1 pt fs (PGROUNDDOWN va + PGSIZE) (length ?d)" if "?d \<noteq> []"
      using range_kept [OF range_drop [OF R(1)] inv1 v1] nx [OF that] by simp
    have "length ?d < fuel" using Suc.prems(3) n(1,2) by simp
    then obtain m2 where m2: "copyout_loop fuel pt (PGROUNDDOWN va + PGSIZE) ?d ?s1 = Ret (0, ?s1\<lparr>pmem := m2\<rparr>)"
      "copied ?s1 pt fs (PGROUNDDOWN va + PGSIZE) ?d m2"
      using Suc.IH [OF inv1 r1] by blast
    have "copied ?s1 pt fs (va + of_nat (length ?c)) ?d m2"
      using m2(2) nx(1) n(2) by (cases "?d = []") (simp_all add: copied_def)
    then have "copied s pt fs va (?c @ ?d) m2" using R(1) c by (intro copied_append) simp_all
    then show ?thesis unfolding step m2(1) by (intro exI [of _ m2]) simp
  qed
qed

section \<open>Copying in\<close>

definition user_bytes :: "'z kmem_state_scheme \<Rightarrow> addr \<Rightarrow> addr \<Rightarrow> nat \<Rightarrow> byte list" where
  "user_bytes s pt va len = map (\<lambda>i. pmem s (phys s pt (va + of_nat i))) [0..<len]"

lemma user_bytes_append:
  "user_bytes s pt va (n + k) = user_bytes s pt va n @ user_bytes s pt (va + of_nat n) k"
  by (rule nth_equalityI) (auto simp: user_bytes_def nth_append add.assoc simp flip: of_nat_add)

lemma copyin_loop_correct:
  assumes "0 < len \<Longrightarrow> user_range s pt fs va len" "len < fuel"
  shows "copyin_loop fuel pt va len dst s = Ret (0, dst @ user_bytes s pt va len, s)"
  using assms
proof (induction fuel arbitrary: va len dst)
  case 0
  then show ?case by simp
next
  case (Suc fuel)
  show ?case
  proof (cases "len = 0")
    case True
    then show ?thesis by (simp add: user_bytes_def)
  next
    case False
    then have R: "user_range s pt fs va len" "0 < len" using Suc.prems(1) by simp_all
    note P = range_page [OF R]
    define n where "n = min (4096 - unat va mod 4096) len"
    have n: "0 < n" "n \<le> len" "unat va mod 4096 + n \<le> 4096" using False by (auto simp: n_def)
    have rd: "read_bytes (pmem s) (phys s pt va) n = user_bytes s pt va n"
      using phys_chunk(1) [OF R(1)] n by (auto simp: read_bytes_def user_bytes_def)
    have nx: "PGROUNDDOWN va + PGSIZE = va + of_nat n" "n < len" if "0 < len - n"
      using that next_page [of n va] by (auto simp: n_def)
    have "copyin_loop (Suc fuel) pt va len dst s =
        copyin_loop fuel pt (PGROUNDDOWN va + PGSIZE) (len - n) (dst @ user_bytes s pt va n) s"
      using False P unat_chunk [of va] rd by (auto simp: Let_def n_def phys_def)
    also have "\<dots> = Ret (0, dst @ user_bytes s pt va n @ user_bytes s pt (PGROUNDDOWN va + PGSIZE) (len - n), s)"
      using Suc.IH [of "len - n" "PGROUNDDOWN va + PGSIZE"] range_drop [OF R(1)] nx Suc.prems(2) n by simp
    also have "user_bytes s pt va n @ user_bytes s pt (PGROUNDDOWN va + PGSIZE) (len - n) = user_bytes s pt va len"
    proof (cases "len - n = 0")
      case True
      then have "len = n" using n(2) by simp
      then show ?thesis by (simp add: user_bytes_def)
    next
      case False
      then show ?thesis using user_bytes_append [of s pt va n "len - n"] nx(1) n(2) by simp
    qed
    finally show ?thesis .
  qed
qed

section \<open>Properties of the copies\<close>

text \<open>
  C23. Copying out and in again.  For a range of user memory that is mapped, writable and not aliased,
  across any number of pages, \<open>copyout\<close> returns 0, changes only the bytes of the range, and a
  following \<open>copyin\<close> of the range returns exactly the bytes that were copied out.
\<close>

theorem copyout_copyin:
  assumes "user_range s pt fs va (length src)"
  shows "\<exists>t. copyout pt va src s = Ret (0, t) \<and> copyin pt va (length src) t = Ret (0, src, t) \<and>
    (\<forall>y. (\<forall>i < length src. y \<noteq> phys s pt (va + of_nat i)) \<longrightarrow> pmem t y = pmem s y)"
proof -
  have "vm_inv s pt fs" using assms by (simp add: user_range_def)
  then obtain m where m: "copyout pt va src s = Ret (0, s\<lparr>pmem := m\<rparr>)" "copied s pt fs va src m"
    using copyout_loop_correct [of s pt fs src va "Suc (length src)"] assms by (auto simp: copyout_def)
  let ?t = "s\<lparr>pmem := m\<rparr>"
  have v: "\<And>x. vmap ?t pt x = vmap s pt x" "tbl (pmem ?t) 2 pt = tbl (pmem s) 2 pt" "vm_inv ?t pt fs"
    using m(2) by (simp_all add: copied_def)
  have "user_range ?t pt fs va (length src)" by (rule range_kept [OF assms v(3,1,2)])
  then have "copyin pt va (length src) ?t = Ret (0, user_bytes ?t pt va (length src), ?t)"
    unfolding copyin_def using copyin_loop_correct [of "length src" ?t pt fs va "Suc (length src)" "[]"]
    by (simp only: append_Nil lessI)
  moreover have "phys ?t pt x = phys s pt x" for x using v(1) by (simp add: phys_def)
  then have "user_bytes ?t pt va (length src) = src"
    using m(2) by (intro nth_equalityI) (simp_all add: user_bytes_def copied_def)
  ultimately show ?thesis using m by (intro exI [of _ ?t]) (simp add: copied_def)
qed

text \<open>The example process with a page mapped at \<^verbatim>\<open>0x3000\<close>.\<close>

definition demo_mapped :: mm_state where
  "demo_mapped = (case mappages 0x80001000 0x3000 PGSIZE 0x80008000 user_perm demo_ready of Ret (r, t) \<Rightarrow> t | _ \<Rightarrow> demo_ready)"

lemma demo_mapped_range: "\<exists>fs. user_range demo_mapped 0x80001000 fs 0x3010 3"
proof -
  let ?v = "PA2PTE 0x80008000 OR user_perm OR PTE_V" and ?pt = "0x80001000 :: addr"
  have a: "2 \<le> length [0x80007000, 0x80006000, 0x80005000, 0x80003000, 0x80004000 :: addr]" "page_aligned 0x3000"
    "(0x3000 :: addr) < MAXVA" "\<not> pte_valid (vmap demo_ready ?pt 0x3000)" "page_aligned 0x80008000" "(0x80008000 :: addr) < 2 ^ 56"
    by (simp_all add: page_aligned_def demo_ready_inv(3))
  obtain t fs where t: "mappages ?pt 0x3000 PGSIZE 0x80008000 user_perm demo_ready = Ret (0, t)" "vm_inv t ?pt fs"
    "set fs \<subseteq> set [0x80007000, 0x80006000, 0x80005000, 0x80003000, 0x80004000]"
    "\<And>x. x < MAXVA \<Longrightarrow> vmap t ?pt x = (if same_page x 0x3000 then ?v else vmap demo_ready ?pt x)"
    "tbl (pmem t) 2 ?pt \<subseteq> tbl (pmem demo_ready) 2 ?pt \<union> set [0x80007000, 0x80006000, 0x80005000, 0x80003000, 0x80004000]"
    by (rule map_user_page [OF demo_ready_inv(1) a]) (rule that)
  have d: "demo_mapped = t" using t(1) by (simp add: demo_mapped_def)
  have v: "PTE2PA ?v = 0x80008000" "pte_valid ?v" "?v AND PTE_U \<noteq> 0" "?v AND PTE_W \<noteq> 0"
    by (simp_all add: PTE2PA_def PA2PTE_def PTE_W_def PTE_U_def PTE_R_def PTE_V_def)
  have m: "vmap t ?pt (0x3010 + of_nat i) = ?v" "same_page (0x3010 + of_nat i) 0x3000" if "i < 3" for i
  proof -
    have "unat (0x3010 + of_nat i :: addr) = 0x3010 + i" using that by (simp add: unat_add_small)
    then show "same_page (0x3010 + of_nat i) 0x3000" "vmap t ?pt (0x3010 + of_nat i) = ?v"
      using that t(4) [of "0x3010 + of_nat i"] by (auto simp: word_less_nat_alt)
  qed
  have "0x80008000 \<notin> tbl (pmem t) 2 ?pt \<union> set fs" using t(3,5) demo_ready_inv(4) by auto
  then have "user_byte t ?pt fs (0x3010 + of_nat i)" if "i < 3" for i
    using m(1) [OF that] v by (simp add: user_byte_def Let_def)
  moreover have "no_alias t ?pt 0x3010 3" unfolding no_alias_def using m(2) by metis
  ultimately have "user_range t ?pt fs 0x3010 3" using t(2) by (simp add: user_range_def)
  then show ?thesis using d by blast
qed

theorem copyout_copyin_witness:
  "\<exists>t. copyout 0x80001000 0x3010 [7, 8, 9] demo_mapped = Ret (0, t) \<and> copyin 0x80001000 0x3010 3 t = Ret (0, [7, 8, 9], t)"
proof -
  obtain fs where "user_range demo_mapped 0x80001000 fs 0x3010 (length [7, 8, 9 :: byte])" using demo_mapped_range by (auto simp: numeral_3_eq_3)
  from copyout_copyin [OF this] show ?thesis by (auto simp: numeral_3_eq_3)
qed

end
