(* ===== verification/User_Bytes.thy ===== *)
theory User_Bytes
  imports User_Copy
begin

text \<open>
  Copying single bytes to and from a mapped range of user memory, as the pipes and the console do, and
  what these facts depend on: the physical memory and the allocator.
\<close>

lemma range_take:
  assumes "user_range s pt fs va len" "k \<le> len"
  shows "user_range s pt fs va k"
proof -
  have R: "vm_inv s pt fs" "unat va + len \<le> unat MAXVA" "\<And>i. i < len \<Longrightarrow> user_byte s pt fs (va + of_nat i)" "no_alias s pt va len"
    using assms(1) unfolding user_range_def by blast+
  have l: "i < len" if "i < k" for i using that assms(2) by simp
  have "no_alias s pt va k" using R(4) l unfolding no_alias_def by blast
  moreover have "unat va + k \<le> unat MAXVA" using R(2) assms(2) by linarith
  ultimately show ?thesis using R(1,3) l unfolding user_range_def by blast
qed

lemma range_rest:
  assumes "user_range s pt fs va len" "n \<le> len"
  shows "user_range s pt fs (va + of_nat n) (len - n)"
proof (cases "n < len")
  case True
  then show ?thesis by (rule range_drop [OF assms(1)])
next
  case False
  have "unat (va + of_nat n) \<le> unat va + n" by (simp add: unat_word_ariths unat_of_nat mod_add_right_eq)
  then show ?thesis using False assms by (simp add: user_range_def no_alias_def)
qed

lemma range_byte:
  assumes "user_range s pt fs va len" "i < len"
  shows "user_range s pt fs (va + of_nat i) 1"
  by (rule range_take [OF range_drop [OF assms]]) (use assms(2) in simp)

lemma copyin_byte:
  assumes "user_range s pt fs va len" "i < len"
  shows "copyin pt (va + of_nat i) 1 s = Ret (0, [user_bytes s pt va len ! i], s)"
  using copyin_loop_correct [of 1 s pt fs "va + of_nat i" 2 "[]"] range_byte [OF assms] assms(2)
  by (simp add: copyin_def user_bytes_def numeral_2_eq_2)

lemma copyout_byte:
  assumes "user_range s pt fs va len" "i < len"
  shows "\<exists>m. copyout pt (va + of_nat i) [c] s = Ret (0, s\<lparr>pmem := m\<rparr>) \<and> copied s pt fs (va + of_nat i) [c] m"
proof -
  have "vm_inv s pt fs" using assms(1) by (simp add: user_range_def)
  then show ?thesis
    using copyout_loop_correct [of s pt fs "[c]" "va + of_nat i" 2] range_byte [OF assms] by (simp add: copyout_def numeral_2_eq_2)
qed

lemma length_user_bytes [simp]: "length (user_bytes s pt va len) = len"
  by (simp add: user_bytes_def)

lemma copied_range:
  assumes "user_range s pt fs va len" "copied s pt fs va' src m"
  shows "user_range (s\<lparr>pmem := m\<rparr>) pt fs va len" "phys (s\<lparr>pmem := m\<rparr>) pt x = phys s pt x"
proof -
  have v: "vm_inv (s\<lparr>pmem := m\<rparr>) pt fs" "\<And>x. vmap (s\<lparr>pmem := m\<rparr>) pt x = vmap s pt x" "tbl (pmem (s\<lparr>pmem := m\<rparr>)) 2 pt = tbl (pmem s) 2 pt"
    using assms(2) by (simp_all add: copied_def)
  show "user_range (s\<lparr>pmem := m\<rparr>) pt fs va len" by (rule range_kept [OF assms(1) v])
  show "phys (s\<lparr>pmem := m\<rparr>) pt x = phys s pt x" using v(2) by (simp add: phys_def)
qed

text \<open>Only three fields of the state matter for user memory.\<close>

lemma range_cong:
  assumes "pmem t = pmem s" "freelist t = freelist s" "kend t = kend s"
  shows "user_range t pt fs va len = user_range s pt fs va len" "user_bytes t pt va len = user_bytes s pt va len"
    "copied t pt fs va src m = copied s pt fs va src m"
proof -
  have p: "page_ok t = page_ok s" "page_ok (t\<lparr>pmem := m\<rparr>) = page_ok (s\<lparr>pmem := m\<rparr>)" using assms by (simp_all add: page_ok_def fun_eq_iff)
  show "user_range t pt fs va len = user_range s pt fs va len"
    using assms p by (simp add: user_range_def no_alias_def user_byte_def vm_inv_def kmem_inv_def)
  show "user_bytes t pt va len = user_bytes s pt va len" using assms by (simp add: user_bytes_def phys_def)
  show "copied t pt fs va src m = copied s pt fs va src m"
    using assms p by (simp add: copied_def vm_inv_def kmem_inv_def phys_def)
qed

lemma copied_bytes:
  assumes "copied s pt fs va src m"
  shows "user_bytes (s\<lparr>pmem := m\<rparr>) pt va (length src) = src"
proof -
  have "phys (s\<lparr>pmem := m\<rparr>) pt x = phys s pt x" for x using assms by (simp add: phys_def copied_def)
  then show ?thesis using assms by (intro nth_equalityI) (simp_all add: user_bytes_def copied_def)
qed

end
