(* ===== verification/Ring.thy ===== *)
theory Ring
  imports Prelude
begin

text \<open>
  Ring buffers with free-running 32-bit counters, as \<^verbatim>\<open>kernel/pipe.c\<close> and \<^verbatim>\<open>kernel/console.c\<close> use them: the
  element that counter value \<open>k\<close> stands for is at index \<open>k\<close> modulo the size of the buffer.  The counters
  wrap around; as the size divides \<open>2 ^ 32\<close> the indices stay consistent.
\<close>

definition ring_seg :: "'a list \<Rightarrow> 32 word \<Rightarrow> 32 word \<Rightarrow> 'a list" where
  "ring_seg data a b = map (\<lambda>j. data ! (unat (a + of_nat j) mod length data)) [0..<unat (b - a)]"

lemma length_ring_seg [simp]: "length (ring_seg data a b) = unat (b - a)"
  by (simp add: ring_seg_def)

lemma ring_seg_empty [simp]: "ring_seg data a a = []"
  by (simp add: ring_seg_def)

lemma ring_unpush:
  assumes "a \<noteq> b"
  shows "ring_seg data a (b - 1) = butlast (ring_seg data a b)" "unat (b - 1 - a) = unat (b - a) - 1"
proof -
  have "b - a \<noteq> 0" using assms by simp
  moreover have "b - 1 - a = (b - a) - 1" by simp
  ultimately show u: "unat (b - 1 - a) = unat (b - a) - 1" by (metis unat_minus_one)
  show "ring_seg data a (b - 1) = butlast (ring_seg data a b)"
    unfolding ring_seg_def u by (cases "unat (b - a)") simp_all
qed

lemma ring_last:
  assumes "a \<noteq> b"
  shows "last (ring_seg data a b) = data ! (unat (b - 1) mod length data)" "ring_seg data a b \<noteq> []"
proof -
  have n: "unat (b - a) \<noteq> 0" using assms by (simp add: unat_eq_0)
  then show ne: "ring_seg data a b \<noteq> []" by (simp flip: length_0_conv)
  have "1 \<le> unat (b - a)" using n by simp
  then have "of_nat (unat (b - a) - 1) = b - a - 1" unfolding of_nat_diff [of 1] by simp
  then have "a + of_nat (unat (b - a) - 1) = b - 1" by simp
  then show "last (ring_seg data a b) = data ! (unat (b - 1) mod length data)"
    using n ne by (simp add: last_conv_nth ring_seg_def)
qed

lemma ring_split:
  assumes "unat (b - a) \<le> unat (c - a)"
  shows "unat (c - b) = unat (c - a) - unat (b - a)" "ring_seg data a c = ring_seg data a b @ ring_seg data b c"
proof -
  have "c - b = (c - a) - (b - a)" by simp
  then show u: "unat (c - b) = unat (c - a) - unat (b - a)" using assms by (metis unat_sub word_le_nat_alt)
  have e: "a + of_nat (unat (b - a) + j) = b + of_nat j" for j by (simp flip: add.assoc)
  show "ring_seg data a c = ring_seg data a b @ ring_seg data b c"
  proof (rule nth_equalityI)
    show "length (ring_seg data a c) = length (ring_seg data a b @ ring_seg data b c)" using u assms by simp
    fix j
    assume j: "j < length (ring_seg data a c)"
    show "ring_seg data a c ! j = (ring_seg data a b @ ring_seg data b c) ! j"
    proof (cases "j < unat (b - a)")
      case True
      then show ?thesis using j by (simp add: ring_seg_def nth_append)
    next
      case False
      then obtain i where i: "j = unat (b - a) + i" using le_Suc_ex not_le by blast
      moreover have "i < unat (c - b)" using i j u by simp
      ultimately show ?thesis using j by (simp add: ring_seg_def nth_append e)
    qed
  qed
qed

locale ring_buffer =
  fixes N :: nat
  assumes N_pos: "0 < N" and N_dvd: "N dvd 2 ^ 32" and N_small: "N < 2 ^ 32"
begin

lemma index_add: "unat (a + of_nat j :: 32 word) mod N = (unat a + j) mod N"
proof -
  have "unat (a + of_nat j) = (unat a + j) mod 2 ^ 32"
    by (simp add: unat_word_ariths unat_of_nat mod_add_right_eq)
  then show ?thesis using N_dvd by (simp add: mod_mod_cancel)
qed

lemma index_unique:
  assumes "i < N" "j < N" "unat (a + of_nat i :: 32 word) mod N = unat (a + of_nat j) mod N"
  shows "i = j"
proof -
  have le: "j \<le> i \<Longrightarrow> i < N \<Longrightarrow> (unat a + i) mod N = (unat a + j) mod N \<Longrightarrow> i = j" for i j
    using dvd_imp_le [of N "i - j"] by (fastforce simp: mod_eq_dvd_iff_nat)
  have "(unat a + i) mod N = (unat a + j) mod N" using assms(3) by (simp add: index_add)
  then show ?thesis using le [of j i, OF _ assms(1)] le [of i j, OF _ assms(2)] nat_le_linear [of i j] by metis
qed

lemma ring_push:
  assumes "length data = N" "unat (b - a) < N"
  shows "ring_seg (data[unat b mod N := c]) a (b + 1) = ring_seg data a b @ [c]" "unat (b + 1 - a) = Suc (unat (b - a))"
proof -
  have "unat ((b - a) + 1) = (unat (b - a) + 1) mod 2 ^ 32" unfolding unat_word_ariths(1) by simp
  also have "\<dots> = Suc (unat (b - a))" using assms(2) N_small by simp
  finally show u: "unat (b + 1 - a) = Suc (unat (b - a))" by (simp add: algebra_simps)
  show "ring_seg (data[unat b mod N := c]) a (b + 1) = ring_seg data a b @ [c]"
  proof (rule nth_equalityI)
    show "length (ring_seg (data[unat b mod N := c]) a (b + 1)) = length (ring_seg data a b @ [c])" using u by simp
    fix j
    assume j: "j < length (ring_seg (data[unat b mod N := c]) a (b + 1))"
    then consider "j < unat (b - a)" | "j = unat (b - a)" using u by fastforce
    then show "ring_seg (data[unat b mod N := c]) a (b + 1) ! j = (ring_seg data a b @ [c]) ! j"
    proof cases
      case 1
      then have "unat (a + of_nat j) mod N \<noteq> unat b mod N" using index_unique [of j "unat (b - a)" a] assms(2) by auto
      then show ?thesis using 1 assms u by (simp add: ring_seg_def nth_append)
    next
      case 2
      then show ?thesis using assms u N_pos by (simp add: ring_seg_def nth_append)
    qed
  qed
qed

lemma ring_keep:
  assumes "length data = N" "unat (c - a) \<le> unat (b - a)" "unat (b - a) < N"
  shows "ring_seg (data[unat b mod N := x]) a c = ring_seg data a c"
proof (rule nth_equalityI)
  fix j
  assume "j < length (ring_seg (data[unat b mod N := x]) a c)"
  then have j: "j < unat (c - a)" by simp
  have "unat (a + of_nat j) mod N \<noteq> unat b mod N"
    using index_unique [of j "unat (b - a)" a] j assms(2,3) by auto
  then show "ring_seg (data[unat b mod N := x]) a c ! j = ring_seg data a c ! j"
    using j assms(1) by (simp add: ring_seg_def)
qed simp

lemma ring_pop:
  assumes "a \<noteq> b" "length data = N"
  shows "ring_seg data a b = data ! (unat a mod N) # ring_seg data (a + 1) b" "unat (b - (a + 1)) = unat (b - a) - 1"
proof -
  have z: "b - a \<noteq> 0" using assms(1) by simp
  show u: "unat (b - (a + 1)) = unat (b - a) - 1"
    using z by (metis diff_diff_eq unat_minus_one)
  have "0 < unat (b - a)" using z by (simp add: unat_gt_0)
  then have "[0..<unat (b - a)] = 0 # map Suc [0..<unat (b - a) - 1]" by (simp add: map_Suc_upt upt_conv_Cons)
  then show "ring_seg data a b = data ! (unat a mod N) # ring_seg data (a + 1) b"
    using assms(2) u by (simp add: ring_seg_def add.assoc)
qed

end

end
