(* ===== verification/Line_Edit.thy ===== *)
theory Line_Edit
  imports Console Log_Crash User_Bytes Ring
begin

text \<open>
  The line discipline of the console.  The reference keeps two lists: the input that is complete and
  can be read, and the line being edited.  The interrupt handler implements it on the ring buffer.
\<close>

interpretation cons_ring: ring_buffer INPUT_BUF_SIZE
  by unfold_locales (auto simp: dvd_def intro: exI [of _ 33554432])

section \<open>The reference\<close>

definition erase :: "byte list" where "erase = [8, 32, 8]"

definition key_byte :: "int \<Rightarrow> byte" where
  "key_byte c = (if c = 13 then 10 else word_of_int c)"

text \<open>The list of processes that control-P prints: pid, state and name of each slot in use.\<close>

definition proc_line :: "proc \<Rightarrow> byte list" where
  "proc_line p = printint digits (arg_int (word_of_int (p_pid p))) 10 True @ [32] @ state_text (p_state p) @ [32] @
     takeWhile (\<lambda>b. b \<noteq> 0) (p_name p) @ [10]"

definition proc_listing :: "proc list \<Rightarrow> byte list" where
  "proc_listing ps = 10 # concat (map proc_line (filter (\<lambda>p. p_state p \<noteq> UNUSED) ps))"

text \<open>
  The editor on the complete input, the line being edited and the process table, of which it wakes the readers when a
  line is complete; \<open>me\<close> is the process on the hart, which \<open>wakeup\<close> passes over.
\<close>

fun edit_line ::
  "nat option \<Rightarrow> int \<Rightarrow> byte list \<times> byte list \<times> proc list \<Rightarrow> (byte list \<times> byte list \<times> proc list) \<times> byte list" where
  "edit_line me c (com, pend, ps) =
     (if c = 0 then ((com, pend, ps), [])
      else if c = 16 then ((com, pend, ps), proc_listing ps)
      else if c = 21 then ((com, [], ps), concat (replicate (length pend) erase))
      else if c = 8 \<or> c = 127 then ((com, butlast pend, ps), if pend = [] then [] else erase)
      else if length com + length pend < INPUT_BUF_SIZE then
        (if key_byte c = 10 \<or> key_byte c = 4 \<or> length com + length pend + 1 = INPUT_BUF_SIZE
         then (com @ pend @ [key_byte c], [], wakeup_loop me ChanCons 0 ps) else (com, pend @ [key_byte c], ps), [key_byte c])
      else ((com, pend, ps), []))"

fun edit_lines ::
  "nat option \<Rightarrow> int list \<Rightarrow> byte list \<times> byte list \<times> proc list \<Rightarrow> (byte list \<times> byte list \<times> proc list) \<times> byte list" where
  "edit_lines me [] l = (l, [])"
| "edit_lines me (c # cs) l = (let (l1, o1) = edit_line me c l; (l2, o2) = edit_lines me cs l1 in (l2, o1 @ o2))"

section \<open>The handler\<close>

definition committed :: "'z cons_state_scheme \<Rightarrow> byte list" where
  "committed s = ring_seg (cons_buf s) (cons_r s) (cons_w s)"

definition pending :: "'z cons_state_scheme \<Rightarrow> byte list" where
  "pending s = ring_seg (cons_buf s) (cons_w s) (cons_e s)"

definition cons_inv :: "'z cons_state_scheme \<Rightarrow> bool" where
  "cons_inv s \<longleftrightarrow> length (cons_buf s) = INPUT_BUF_SIZE \<and> unat (cons_w s - cons_r s) \<le> unat (cons_e s - cons_r s) \<and>
     unat (cons_e s - cons_r s) \<le> INPUT_BUF_SIZE \<and> 10 \<notin> set (pending s)"

lemma cons_lengths:
  assumes "cons_inv s"
  shows "length (committed s) = unat (cons_w s - cons_r s)" "length (pending s) = unat (cons_e s - cons_w s)"
    "length (committed s) + length (pending s) = unat (cons_e s - cons_r s)" "pending s = [] \<longleftrightarrow> cons_e s = cons_w s"
proof -
  show c: "length (committed s) = unat (cons_w s - cons_r s)" and p: "length (pending s) = unat (cons_e s - cons_w s)"
    by (simp_all add: committed_def pending_def)
  show "length (committed s) + length (pending s) = unat (cons_e s - cons_r s)"
    using ring_split(1) [of "cons_w s" "cons_r s" "cons_e s"] assms c p by (simp add: cons_inv_def)
  have "pending s = [] \<longleftrightarrow> cons_e s - cons_w s = 0" using p by (simp add: unat_eq_0 flip: length_0_conv)
  then show "pending s = [] \<longleftrightarrow> cons_e s = cons_w s" by simp
qed

definition edited :: "'z cons_state_scheme \<Rightarrow> byte list \<times> byte list \<times> proc list" where
  "edited s = (committed s, pending s, ptable s)"

lemma consputc_out:
  "consputc c s = s\<lparr>uart_out := uart_out s @ (if c = BACKSPACE then erase else [word_of_int c])\<rparr>"
  by (simp add: consputc_def uartputc_sync_def erase_def)

lemma fold_consputc:
  "BACKSPACE \<notin> set cs \<Longrightarrow> fold consputc cs s = s\<lparr>uart_out := uart_out s @ map word_of_int cs\<rparr>"
  by (induction cs arbitrary: s) (auto simp: consputc_out)

lemma word_of_chars [simp]: "map word_of_int (chars_of bs) = bs"
  by (simp add: chars_of_def comp_def)

lemma chars_small: "256 \<notin> set (chars_of bs)"
proof -
  have "uint b \<noteq> 256" for b :: byte using unsigned_less [of b, where 'a = int] by simp
  then show ?thesis by (auto simp: chars_of_def)
qed

lemma procdump_loop_out:
  "procdump_loop ps s = s\<lparr>uart_out := uart_out s @ concat (map proc_line (filter (\<lambda>p. p_state p \<noteq> UNUSED) ps))\<rparr>"
proof (induction ps arbitrary: s)
  case (Cons p ps)
  let ?str = "\<lambda>a :: addr. if a = 1 then state_text (p_state p) else takeWhile (\<lambda>b. b \<noteq> 0) (p_name p)"
  let ?ap = "\<lambda>k. if k = 0 then word_of_int (p_pid p) else of_nat k :: 64 word"
  have "printf_loop digits ?str ?ap [37, 100, 32, 37, 115, 32, 37, 115] 0 =
      chars_of (printint digits (arg_int (word_of_int (p_pid p))) 10 True) @ 32 # chars_of (state_text (p_state p)) @
      32 # chars_of (takeWhile (\<lambda>b. b \<noteq> 0) (p_name p))"
    by (simp add: arg_str_def)
  then have "printf (\<lambda>_. []) (\<lambda>_. 0) [10] (printf ?str ?ap [37, 100, 32, 37, 115, 32, 37, 115] s) =
      s\<lparr>uart_out := uart_out s @ proc_line p\<rparr>"
    by (simp add: printf_def fold_consputc chars_small consputc_out proc_line_def)
  then show ?case using Cons by (simp add: Let_def)
qed simp

lemma procdump_out: "procdump s = s\<lparr>uart_out := uart_out s @ proc_listing (ptable s)\<rparr>"
  by (simp add: procdump_def procdump_loop_out proc_listing_def printf_def consputc_out)

lemma unpush:
  assumes "cons_inv s" "cons_e s \<noteq> cons_w s" "t = s\<lparr>cons_e := cons_e s - 1, uart_out := out\<rparr>"
  shows "cons_inv t" "committed t = committed s" "pending t = butlast (pending s)"
proof -
  have w: "cons_w s \<noteq> cons_e s" using assms(2) by simp
  show c: "committed t = committed s" by (simp add: committed_def assms(3))
  show p: "pending t = butlast (pending s)" using ring_unpush(1) [OF w] by (simp add: pending_def assms(3))
  have "unat (cons_e s - cons_w s) \<noteq> 0" using w by (simp add: unat_eq_0)
  then have lt: "unat (cons_w s - cons_r s) < unat (cons_e s - cons_r s)"
    using cons_lengths(1-3) [OF assms(1)] by linarith
  then have "cons_r s \<noteq> cons_e s" by auto
  then have "unat (cons_e s - 1 - cons_r s) = unat (cons_e s - cons_r s) - 1" by (rule ring_unpush(2))
  then show "cons_inv t" using assms(1) lt p by (auto simp: cons_inv_def assms(3) dest: in_set_butlastD)
qed

lemma kill_line_all:
  "cons_inv s \<Longrightarrow> length (pending s) < fuel \<Longrightarrow>
   kill_line fuel s = Ret (s\<lparr>cons_e := cons_w s, uart_out := uart_out s @ concat (replicate (length (pending s)) erase)\<rparr>)"
proof (induction fuel arbitrary: s)
  case (Suc fuel)
  show ?case
  proof (cases "cons_e s = cons_w s")
    case True
    then have "pending s = []" using cons_lengths(4) [OF Suc.prems(1)] by simp
    then show ?thesis using True by simp
  next
    case False
    define t where "t = s\<lparr>cons_e := cons_e s - 1, uart_out := uart_out s @ erase\<rparr>"
    note U = unpush [OF Suc.prems(1) False t_def]
    have ne: "pending s \<noteq> []" using False cons_lengths(4) [OF Suc.prems(1)] by simp
    have "last (pending s) \<in> set (pending s)" "10 \<notin> set (pending s)" using ne Suc.prems(1) by (simp_all add: cons_inv_def)
    then have "last (pending s) \<noteq> 10" by metis
    then have "cons_buf s ! (unat (cons_e s - 1) mod INPUT_BUF_SIZE) \<noteq> 10"
      using ring_last(1) [of "cons_w s" "cons_e s" "cons_buf s"] False Suc.prems(1) by (simp add: pending_def cons_inv_def)
    then have "kill_line (Suc fuel) s = kill_line fuel t" using False by (simp add: consputc_out t_def)
    moreover have "length (pending s) = Suc (length (pending t))" using U(3) ne by simp
    ultimately show ?thesis using Suc.IH [OF U(1)] Suc.prems(2) by (simp add: t_def)
  qed
qed simp


lemma push_key:
  assumes "cons_inv s" "unat (cons_e s - cons_r s) < INPUT_BUF_SIZE"
    and "t = s\<lparr>uart_out := out, cons_buf := (cons_buf s)[unat (cons_e s) mod INPUT_BUF_SIZE := b], cons_e := cons_e s + 1\<rparr>"
  shows "committed t = committed s" "pending t = pending s @ [b]" "b \<noteq> 10 \<Longrightarrow> cons_inv t"
    "cons_inv (t\<lparr>cons_w := cons_e t\<rparr>)" "committed (t\<lparr>cons_w := cons_e t\<rparr>) = committed s @ pending s @ [b]" "pending (t\<lparr>cons_w := cons_e t\<rparr>) = []"
    "unat (cons_e t - cons_r t) = Suc (unat (cons_e s - cons_r s))"
proof -
  have I: "length (cons_buf s) = INPUT_BUF_SIZE" "unat (cons_w s - cons_r s) \<le> unat (cons_e s - cons_r s)" "10 \<notin> set (pending s)"
    using assms(1) by (simp_all add: cons_inv_def)
  have ew: "unat (cons_e s - cons_w s) < INPUT_BUF_SIZE" using ring_split(1) [OF I(2)] assms(2) by simp
  note P = cons_ring.ring_push [OF I(1) ew] and Q = cons_ring.ring_push [OF I(1) assms(2)]
  show c: "committed t = committed s"
    using cons_ring.ring_keep [OF I(1,2) assms(2)] by (simp add: committed_def assms(3))
  show p: "pending t = pending s @ [b]" using P(1) [of b] by (simp add: pending_def assms(3))
  show u: "unat (cons_e t - cons_r t) = Suc (unat (cons_e s - cons_r s))" using Q(2) by (simp add: assms(3))
  have "length (cons_buf t) = INPUT_BUF_SIZE" "unat (cons_w t - cons_r t) \<le> unat (cons_e t - cons_r t)"
    using I(1,2) u by (simp_all add: assms(3))
  then show i: "cons_inv t" if "b \<noteq> 10" using that p I(3) u assms(2) by (simp add: cons_inv_def)
  show "pending (t\<lparr>cons_w := cons_e t\<rparr>) = []" by (simp add: pending_def)
  then show "cons_inv (t\<lparr>cons_w := cons_e t\<rparr>)" using I(1) u assms(2) by (simp add: cons_inv_def assms(3))
  have "committed s @ pending s = ring_seg (cons_buf s) (cons_r s) (cons_e s)"
    using ring_split(2) [OF I(2), of "cons_buf s"] by (simp add: committed_def pending_def)
  then show "committed (t\<lparr>cons_w := cons_e t\<rparr>) = committed s @ pending s @ [b]"
    using Q(1) [of b] by (simp add: committed_def assms(3))
qed

lemma wakeup_cons:
  "committed (wakeup c s) = committed s" "pending (wakeup c s) = pending s" "cons_inv (wakeup c s) = cons_inv s" "uart_out (wakeup c s) = uart_out s"
  "ptable (wakeup c s) = wakeup_loop (myproc s) c 0 (ptable s)" "myproc (wakeup c s) = myproc s"
  by (simp_all add: wakeup_def committed_def pending_def cons_inv_def myproc_def)

lemma uart_tx_done_cons:
  "committed (uart_tx_done s) = committed s" "pending (uart_tx_done s) = pending s" "cons_inv (uart_tx_done s) = cons_inv s"
  "uart_out (uart_tx_done s) = uart_out s"
  by (simp_all add: uart_tx_done_def wakeup_cons) (simp_all add: committed_def pending_def cons_inv_def)

lemma consoleintr_key:
  assumes "cons_inv s" "0 \<le> c" "c < 256" "c \<notin> {0, 8, 16, 21, 127}" "edit_line (myproc s) c (edited s) = (l, out)"
  shows "\<exists>t. consoleintr c s = Ret t \<and> cons_inv t \<and> edited t = l \<and> myproc t = myproc s \<and> uart_out t = uart_out s @ out"
proof -
  note L = cons_lengths [OF assms(1)] and 4 = assms(4)
  have full: "cons_e s - cons_r s < of_nat INPUT_BUF_SIZE \<longleftrightarrow> length (committed s) + length (pending s) < INPUT_BUF_SIZE"
    unfolding L(3) by (simp add: word_less_nat_alt)
  show ?thesis
  proof (cases "length (committed s) + length (pending s) < INPUT_BUF_SIZE")
    case False
    then show ?thesis using 4 full assms(1,5) by (intro exI [of _ s]) (auto simp: consoleintr_def edited_def)
  next
    case True
    let ?c = "if c = 13 then 10 else c"
    have kb: "key_byte c = word_of_int ?c" "?c \<noteq> BACKSPACE" using assms(3) by (simp_all add: key_byte_def)
    have kc: "key_byte c = 10 \<longleftrightarrow> ?c = 10" "key_byte c = 4 \<longleftrightarrow> ?c = 4"
    proof -
      have "uint (word_of_int c :: byte) = c" using assms(2,3) by (simp add: unsigned_of_int take_bit_int_eq_self)
      then have "(word_of_int c :: byte) = k \<longleftrightarrow> c = uint k" for k by (metis word_uint_eq_iff)
      then show "key_byte c = 10 \<longleftrightarrow> ?c = 10" "key_byte c = 4 \<longleftrightarrow> ?c = 4" by (simp_all add: key_byte_def)
    qed
    have lt: "unat (cons_e s - cons_r s) < INPUT_BUF_SIZE" using True L(3) by simp
    define t where "t = s\<lparr>uart_out := uart_out s @ [key_byte c],
      cons_buf := (cons_buf s)[unat (cons_e s) mod INPUT_BUF_SIZE := key_byte c], cons_e := cons_e s + 1\<rparr>"
    note P = push_key [OF assms(1) lt t_def]
    have "cons_e t - cons_r t = of_nat INPUT_BUF_SIZE \<longleftrightarrow> length (committed s) + length (pending s) + 1 = INPUT_BUF_SIZE"
      unfolding L(3) using P(7) by (simp add: word_unat_eq_iff)
    then have run: "consoleintr c s = (if key_byte c = 10 \<or> key_byte c = 4 \<or> length (committed s) + length (pending s) + 1 = INPUT_BUF_SIZE
        then Ret (wakeup ChanCons (t\<lparr>cons_w := cons_e t\<rparr>)) else Ret t)"
      using 4 full True kb unfolding kc by (simp add: consoleintr_def consputc_out Let_def t_def)
    show ?thesis
    proof (cases "key_byte c = 10 \<or> key_byte c = 4 \<or> length (committed s) + length (pending s) + 1 = INPUT_BUF_SIZE")
      case True
      then show ?thesis using run 4 full P(4-6) assms(5) \<open>length (committed s) + length (pending s) < INPUT_BUF_SIZE\<close>
        by (intro exI [of _ "wakeup ChanCons (t\<lparr>cons_w := cons_e t\<rparr>)"]) (auto simp: wakeup_cons edited_def t_def, auto simp: myproc_def)
    next
      case False
      then show ?thesis using run 4 full P(1-3) assms(5) True by (intro exI [of _ t]) (auto simp: t_def edited_def myproc_def)
    qed
  qed
qed

lemma consoleintr_edits:
  assumes "cons_inv s" "0 \<le> c" "c < 256" "edit_line (myproc s) c (edited s) = (l, out)"
  shows "\<exists>t. consoleintr c s = Ret t \<and> cons_inv t \<and> edited t = l \<and> myproc t = myproc s \<and> uart_out t = uart_out s @ out"
proof -
  note L = cons_lengths [OF assms(1)]
  have pl: "length (pending s) \<le> INPUT_BUF_SIZE" using assms(1) L(3) unfolding cons_inv_def by linarith
  consider "c = 0" | "c = 16" | "c = 21" | "c = 8 \<or> c = 127" | "c \<notin> {0, 8, 16, 21, 127}" by blast
  then show ?thesis
  proof cases
    case 1
    then show ?thesis using assms(1,4) by (auto simp: consoleintr_def edited_def)
  next
    case 2
    have "cons_inv (procdump s) \<and> edited (procdump s) = edited s \<and> myproc (procdump s) = myproc s"
      using assms(1) by (simp add: procdump_out cons_inv_def pending_def committed_def edited_def myproc_def)
    then show ?thesis using 2 assms(4) by (auto simp: consoleintr_def edited_def procdump_out)
  next
    case 3
    define t where "t = s\<lparr>cons_e := cons_w s, uart_out := uart_out s @ concat (replicate (length (pending s)) erase)\<rparr>"
    have "consoleintr c s = Ret t" using 3 kill_line_all [OF assms(1), of "Suc INPUT_BUF_SIZE"] pl
      by (simp add: consoleintr_def t_def del: kill_line.simps)
    moreover have "cons_inv t" "committed t = committed s" "pending t = []"
      using assms(1) by (simp_all add: t_def cons_inv_def committed_def pending_def)
    ultimately show ?thesis using 3 assms(4) by (auto simp: t_def edited_def myproc_def)
  next
    case 4
    show ?thesis
    proof (cases "cons_e s = cons_w s")
      case True
      then show ?thesis using 4 assms(1,4) L(4) by (auto simp: consoleintr_def edited_def)
    next
      case False
      define t where "t = s\<lparr>cons_e := cons_e s - 1, uart_out := uart_out s @ erase\<rparr>"
      note U = unpush [OF assms(1) False t_def]
      have "consoleintr c s = Ret t" using 4 False by (elim disjE) (simp_all add: consoleintr_def consputc_out t_def)
      moreover have "l = (committed s, butlast (pending s), ptable s)" "out = erase" using 4 False assms(4) L(4) by (elim disjE; simp add: edited_def)+
      ultimately show ?thesis using U by (intro exI [of _ t]) (simp add: t_def edited_def myproc_def)
    qed
  next
    case 5
    then show ?thesis using consoleintr_key [OF assms(1-3) _ assms(4)] by blast
  qed
qed


lemma uart_rx_edits:
  assumes "cons_inv s" "list_all (\<lambda>c. 0 \<le> c \<and> c < 256) cs" "edit_lines (myproc s) cs (edited s) = (l, out)"
  shows "\<exists>t. uart_rx cs s = Ret t \<and> cons_inv t \<and> edited t = l \<and> myproc t = myproc s \<and> uart_out t = uart_out s @ out"
  using assms
proof (induction cs arbitrary: s l out)
  case (Cons c cs)
  obtain l1 o1 where e1: "edit_line (myproc s) c (edited s) = (l1, o1)" by (metis surj_pair)
  obtain l2 o2 where e2: "edit_lines (myproc s) cs l1 = (l2, o2)" by (metis surj_pair)
  obtain s1 where s1: "consoleintr c s = Ret s1" "cons_inv s1" "edited s1 = l1" "myproc s1 = myproc s" "uart_out s1 = uart_out s @ o1"
    using consoleintr_edits [OF Cons.prems(1) _ _ e1] Cons.prems(2) by auto
  have "l = l2" "out = o1 @ o2" using Cons.prems(3) e1 e2 by (simp_all del: edit_line.simps)
  then show ?case using Cons.IH [OF s1(2), of l2 o2] Cons.prems(2) s1 e2 by auto
qed auto

section \<open>Reading a line\<close>

text \<open>\<open>read_line got n com\<close>: what a read of \<open>n\<close> more bytes takes from the complete input when it has \<open>got\<close> bytes already,
  what it leaves, and whether it waits for more.\<close>

fun read_line :: "nat \<Rightarrow> nat \<Rightarrow> byte list \<Rightarrow> byte list \<times> byte list \<times> bool" where
  "read_line got 0 com = ([], com, False)"
| "read_line got (Suc n) [] = ([], [], True)"
| "read_line got (Suc n) (c # com) =
     (if c = 4 then ([], if 0 < got then c # com else com, False)
      else if c = 10 then ([c], com, False)
      else let (d, rest, wait) = read_line (Suc got) n com in (c # d, rest, wait))"

lemma read_line_length: "read_line got n com = (d, rest, wait) \<Longrightarrow> length d \<le> n"
  by (induction got n com arbitrary: d rest wait rule: read_line.induct) (auto split: if_splits prod.splits)

lemma committed_take:
  assumes "cons_inv s" "cons_r s \<noteq> cons_w s" "t = s\<lparr>cons_r := cons_r s + 1\<rparr>"
  shows "committed s = cons_buf s ! (unat (cons_r s) mod INPUT_BUF_SIZE) # committed t" "cons_inv t"
proof -
  have b: "length (cons_buf s) = INPUT_BUF_SIZE" using assms(1) by (simp add: cons_inv_def)
  note P = cons_ring.ring_pop [OF assms(2) b]
  show "committed s = cons_buf s ! (unat (cons_r s) mod INPUT_BUF_SIZE) # committed t" using P(1) by (simp add: committed_def assms(3))
  have I: "unat (cons_w s - cons_r s) \<le> unat (cons_e s - cons_r s)" "unat (cons_e s - cons_r s) \<le> INPUT_BUF_SIZE" "10 \<notin> set (pending s)"
    using assms(1) by (simp_all add: cons_inv_def)
  have "unat (cons_w s - cons_r s) \<noteq> 0" using assms(2) by (simp add: unat_eq_0)
  then have "cons_r s \<noteq> cons_e s" using I(1) by auto
  then have "unat (cons_e s - (cons_r s + 1)) = unat (cons_e s - cons_r s) - 1" using cons_ring.ring_pop(2) b by blast
  then show "cons_inv t" using I b P(2) by (auto simp: cons_inv_def assms(3) pending_def)
qed

lemma committed_empty: "cons_r s = cons_w s \<longleftrightarrow> committed s = []"
proof -
  have "committed s = [] \<longleftrightarrow> cons_w s - cons_r s = 0" by (simp add: committed_def unat_eq_0 flip: length_0_conv)
  then show ?thesis by auto
qed

lemma console_take:
  assumes "cons_inv s" "committed s = c # com" "user_range s pt fs dst (Suc k)" "myproc s = Some p" "pt = p_pagetable (ptable s ! p)"
    "s1 = s\<lparr>cons_r := cons_r s + 1\<rparr>"
  shows "cons_buf s ! (unat (cons_r s) mod INPUT_BUF_SIZE) = c" "cons_r s \<noteq> cons_w s"
    "cons_inv s1 \<and> committed s1 = com \<and> pending s1 = pending s"
    "\<exists>m. either_copyout True dst [c] s1 = Ret (0, s1\<lparr>pmem := m\<rparr>) \<and> copied s pt fs dst [c] m \<and>
       cons_inv (s1\<lparr>pmem := m\<rparr>) \<and> committed (s1\<lparr>pmem := m\<rparr>) = com \<and> pending (s1\<lparr>pmem := m\<rparr>) = pending s \<and>
       user_range (s1\<lparr>pmem := m\<rparr>) pt fs (dst + 1) k"
proof -
  show ne: "cons_r s \<noteq> cons_w s" using assms(2) committed_empty [of s] by auto
  note C = committed_take [OF assms(1) ne assms(6)]
  have com: "committed s1 = com" using C(1) assms(2) by simp
  show "cons_buf s ! (unat (cons_r s) mod INPUT_BUF_SIZE) = c" using C(1) assms(2) by simp
  have pd: "pending s1 = pending s" by (simp add: assms(6) pending_def)
  then show "cons_inv s1 \<and> committed s1 = com \<and> pending s1 = pending s" using C(2) com by blast
  have r1: "user_range s1 pt fs dst (Suc k)" using assms(3) range_cong(1) [of s1 s] by (simp add: assms(6))
  obtain m where m: "copyout pt dst [c] s1 = Ret (0, s1\<lparr>pmem := m\<rparr>)" "copied s1 pt fs dst [c] m"
    using copyout_byte [OF r1, of 0 c] by auto
  have "either_copyout True dst [c] s1 = Ret (0, s1\<lparr>pmem := m\<rparr>)"
    using m(1) assms(4,5) by (simp add: either_copyout_def assms(6) myproc_def)
  moreover have "copied s pt fs dst [c] m" using m(2) range_cong(3) [of s1 s] by (simp add: assms(6))
  moreover have "cons_inv (s1\<lparr>pmem := m\<rparr>)" "committed (s1\<lparr>pmem := m\<rparr>) = com" "pending (s1\<lparr>pmem := m\<rparr>) = pending s"
    using C(2) pd com by (simp_all add: cons_inv_def committed_def pending_def)
  moreover have "user_range (s1\<lparr>pmem := m\<rparr>) pt fs (dst + 1) k"
    using range_rest [OF copied_range(1) [OF r1 m(2)], of 1] by simp
  ultimately show "\<exists>m. either_copyout True dst [c] s1 = Ret (0, s1\<lparr>pmem := m\<rparr>) \<and> copied s pt fs dst [c] m \<and>
       cons_inv (s1\<lparr>pmem := m\<rparr>) \<and> committed (s1\<lparr>pmem := m\<rparr>) = com \<and> pending (s1\<lparr>pmem := m\<rparr>) = pending s \<and>
       user_range (s1\<lparr>pmem := m\<rparr>) pt fs (dst + 1) k" by blast
qed

lemma consoleread_loop_ok:
  assumes "cons_inv s" "user_range s pt fs dst n" "myproc s = Some p" "pt = p_pagetable (ptable s ! p)" "killed p s = 0"
    and "n < fuel" "read_line got n (committed s) = (d, rest, wait)" "target = int n + int got"
  shows "\<exists>t m. cons_inv t \<and> committed t = rest \<and> pending t = pending s \<and> copied s pt fs dst d m \<and>
    t = s\<lparr>cons_r := cons_r t, pmem := m\<rparr> \<and>
    consoleread_loop fuel True p dst (int n) target s =
      (if wait then obind (sleep p ChanCons t) (\<lambda>u. Ret (Inl (dst + of_nat (length d), int n - int (length d)), u))
       else Ret (Inr (int got + int (length d)), t))"
  using assms
proof (induction got n "committed s" arbitrary: s fuel dst d rest wait rule: read_line.induct)
  case (1 got)
  then obtain f where f: "fuel = Suc f" by (cases fuel) auto
  have "copied s pt fs dst [] (pmem s)" using 1(2) by (intro copied_Nil) (simp add: user_range_def)
  then show ?case using 1 by (intro exI [of _ s] exI [of _ "pmem s"]) (simp add: f)
next
  case (2 got n)
  then obtain f where f: "fuel = Suc f" by (cases fuel) auto
  have "copied s pt fs dst [] (pmem s)" using 2(3) by (intro copied_Nil) (simp add: user_range_def)
  then show ?case using 2 committed_empty [of s] by (intro exI [of _ s] exI [of _ "pmem s"]) (simp add: f)
next
  case (3 got n c com)
  then obtain f where f: "fuel = Suc f" by (cases fuel) auto
  define s1 where "s1 = s\<lparr>cons_r := cons_r s + 1\<rparr>"
  note T = console_take [OF 3(3) 3(2) [symmetric] 3(4-6) s1_def]
  obtain m where m: "either_copyout True dst [c] s1 = Ret (0, s1\<lparr>pmem := m\<rparr>)" "copied s pt fs dst [c] m"
    "cons_inv (s1\<lparr>pmem := m\<rparr>)" "committed (s1\<lparr>pmem := m\<rparr>) = com" "pending (s1\<lparr>pmem := m\<rparr>) = pending s"
    "user_range (s1\<lparr>pmem := m\<rparr>) pt fs (dst + 1) n" using T(4) by blast
  have step: "consoleread_loop fuel True p dst (int (Suc n)) target s =
      (if c = 4 then Ret (Inr (int got), if 0 < got then s else s1)
       else if c = 10 then Ret (Inr (int got + 1), s1\<lparr>pmem := m\<rparr>)
       else consoleread_loop f True p (dst + 1) (int n) target (s1\<lparr>pmem := m\<rparr>))"
  proof -
    have b: "s1\<lparr>cons_r := cons_r s1 - 1\<rparr> = s" by (simp add: s1_def)
    have n: "0 < int (Suc n)" "int (Suc n) - 1 = int n" "target - int (Suc n) = int got" "target - int n = int got + 1"
      "int (Suc n) < target \<longleftrightarrow> 0 < got" using 3(10) by auto
    show ?thesis unfolding f consoleread_loop.simps Let_def T(1) s1_def [symmetric] b n
      using T(2) m(1) n(1) by (simp del: of_nat_Suc)
  qed
  consider "c = 4" | "c = 10" | "c \<noteq> 4" "c \<noteq> 10" by blast
  then show ?case
  proof cases
    case 1
    have rd: "d = []" "wait = False" "rest = (if 0 < got then c # com else com)"
      using 3(9) unfolding 3(2) [symmetric] by (auto simp: 1)
    have c0: "copied s pt fs dst [] (pmem s)" using 3(4) by (intro copied_Nil) (simp add: user_range_def)
    let ?t = "if 0 < got then s else s1"
    have "cons_inv ?t \<and> committed ?t = rest \<and> pending ?t = pending s"
      using T(3) 3(3) 3(2) [symmetric] by (simp add: rd)
    moreover have "?t = s\<lparr>cons_r := cons_r ?t, pmem := pmem s\<rparr>" by (simp add: s1_def)
    ultimately show ?thesis unfolding step using c0
      by (intro exI [of _ ?t] exI [of _ "pmem s"]) (simp add: rd 1, simp add: s1_def)
  next
    case 2
    have rd: "d = [c]" "wait = False" "rest = com" using 3(9) unfolding 3(2) [symmetric] by (auto simp: 2)
    show ?thesis unfolding step using m
      by (intro exI [of _ "s1\<lparr>pmem := m\<rparr>"] exI [of _ m]) (simp add: rd 2, simp add: s1_def)
  next
    case c: 3
    obtain d' where rd: "d = c # d'" "read_line (Suc got) n com = (d', rest, wait)"
      using 3(9) unfolding 3(2) [symmetric] using c by (auto split: prod.splits)
    let ?s = "s1\<lparr>pmem := m\<rparr>"
    have h: "myproc ?s = Some p" "pt = p_pagetable (ptable ?s ! p)" "killed p ?s = 0" "n < f"
      "read_line (Suc got) n (committed ?s) = (d', rest, wait)" "target = int n + int (Suc got)"
      using 3(5-8,10) rd(2) m(4) f by (simp_all add: s1_def myproc_def killed_def)
    obtain t m' where t: "cons_inv t" "committed t = rest" "pending t = pending s"
      "copied ?s pt fs (dst + 1) d' m'" "t = ?s\<lparr>cons_r := cons_r t, pmem := m'\<rparr>"
      "consoleread_loop f True p (dst + 1) (int n) target ?s =
        (if wait then obind (sleep p ChanCons t) (\<lambda>u. Ret (Inl (dst + 1 + of_nat (length d'), int n - int (length d')), u))
         else Ret (Inr (int (Suc got) + int (length d')), t))"
      using 3(1) [OF c m(4) [symmetric] m(3) m(6) h] unfolding m(5) by blast
    have R: "user_range s pt fs dst (length ([c] @ d'))"
      using range_take [OF 3(4)] read_line_length [OF rd(2)] by simp
    have "copied s pt fs dst ([c] @ d') m'"
      using t(4) range_cong(3) [of "s1\<lparr>pmem := m\<rparr>" "s\<lparr>pmem := m\<rparr>"]
      by (intro copied_append [OF R m(2)]) (simp add: s1_def)
    moreover have "t = s\<lparr>cons_r := cons_r t, pmem := m'\<rparr>" by (subst t(5)) (simp add: s1_def)
    ultimately show ?thesis unfolding step t(6) using t(1-3) c
      by (intro exI [of _ t] exI [of _ m']) (simp add: rd(1) add.assoc)
  qed
qed


section \<open>The properties\<close>

text \<open>C31. The console input handler is a line editor: for every sequence of keys, started with the buffer in any
  consistent position (also with the three indices wrapped around), \<open>uartintr\<close> returns, the complete lines and the
  line being edited are those of the reference editor (control-U erases the line, backspace and delete the last key
  of the line only, carriage return counts as newline, a newline, control-D or a full buffer completes the line and wakes
  the readers, keys that do not fit are dropped), the process table changes by these wakeups only, and what goes to the
  serial port is the reference output: the echo, and for control-P the list of processes as they are at that moment.\<close>

theorem uart_rx_line_editor:
  assumes "cons_inv s" "list_all (\<lambda>c. 0 \<le> c \<and> c < 256) cs"
    and "edit_lines (myproc s) cs (committed s, pending s, if tx_idle then wakeup_loop (myproc s) ChanUartTx 0 (ptable s) else ptable s) =
      ((com, pend, ps), out)"
  shows "\<exists>t. uartintr tx_idle cs s = Ret t \<and> cons_inv t \<and> committed t = com \<and> pending t = pend \<and> ptable t = ps \<and>
    uart_out t = uart_out s @ out"
proof -
  let ?s = "if tx_idle then uart_tx_done s else s"
  have "cons_inv ?s" "committed ?s = committed s" "pending ?s = pending s" "uart_out ?s = uart_out s" "myproc ?s = myproc s"
    "ptable ?s = (if tx_idle then wakeup_loop (myproc s) ChanUartTx 0 (ptable s) else ptable s)"
    using assms(1) by (simp_all add: uart_tx_done_cons) (simp_all add: uart_tx_done_def wakeup_def myproc_def)
  then show ?thesis using uart_rx_edits [of ?s cs] assms(2,3) by (auto simp: uartintr_def edited_def)
qed

text \<open>C32. A console read takes complete input only: it copies bytes to the reader's buffer up to the count
  asked for, a newline or a control-D, which ends the read as end of file and stays for the next read unless it is the
  first byte; bytes beyond stay in the buffer, the line being edited and all other memory are untouched, and when the
  complete input runs out first the reader sleeps with the rest of its request.\<close>

theorem consoleread_takes_line:
  assumes "cons_inv s" "myproc s = Some p" "killed p s = 0" "user_range s (p_pagetable (ptable s ! p)) fs dst n"
    and "read_line 0 n (committed s) = (d, rest, wait)"
  shows "\<exists>t m. cons_inv t \<and> committed t = rest \<and> pending t = pending s \<and> copied s (p_pagetable (ptable s ! p)) fs dst d m \<and>
    t = s\<lparr>cons_r := cons_r t, pmem := m\<rparr> \<and>
    consoleread True dst (int n) s =
      (if wait then obind (sleep p ChanCons t) (\<lambda>u. Ret (Inl (dst + of_nat (length d), int n - int (length d)), u))
       else Ret (Inr (int (length d)), t))"
proof -
  have c: "consoleread True dst (int n) s = consoleread_loop (Suc n) True p dst (int n) (int n) s"
    using assms(2) by (simp add: consoleread_def del: consoleread_loop.simps)
  show ?thesis
    using consoleread_loop_ok [OF assms(1,4,2) refl assms(3), of "Suc n" 0 d rest wait "int n"] assms(5)
    unfolding c by (simp only: semiring_1_class.of_nat_0 add_0_left add_0_right lessI simp_thms)
qed

section \<open>An example\<close>

text \<open>The example process with a mapped page, and a console whose indices are about to wrap around.\<close>

definition demo_cons :: cons_state where
  "demo_cons = fs_state.extend (log_state.extend
     (blk_state.extend (demo_blk\<lparr>pmem := pmem demo_mapped, freelist := freelist demo_mapped, kend := kend demo_mapped,
        ptable := (ptable demo_blk)[3 := proc0\<lparr>p_pid := 7, p_state := RUNNING, p_pagetable := 0x80001000\<rparr>]\<rparr>)
       (log_state.fields 2 0 False 1 0 (replicate LOGBLOCKS 0)))
     (fs_state.fields (superblock.make 0 0 0 0 0 0 0 0) []))
     (cons_state.fields (replicate INPUT_BUF_SIZE 0) 0xFFFFFFFE 0xFFFFFFFE 0xFFFFFFFE [] False)"

lemma demo_cons_ok:
  "cons_inv demo_cons" "committed demo_cons = []" "pending demo_cons = []" "myproc demo_cons = Some 3" "uart_out demo_cons = []"
  "p_pagetable (ptable demo_cons ! 3) = 0x80001000" "killed 3 demo_cons = 0" "\<exists>fs. user_range demo_cons 0x80001000 fs 0x3010 3"
proof -
  have "length (ptable demo_blk) = NPROC" "cpus demo_blk ! hart demo_blk = Some 3"
    using demo_blk_fields(5) by (simp_all add: myproc_def del: demo_blk_fields(5))
  then show "cons_inv demo_cons" "committed demo_cons = []" "pending demo_cons = []" "myproc demo_cons = Some 3" "uart_out demo_cons = []"
    "p_pagetable (ptable demo_cons ! 3) = 0x80001000" "killed 3 demo_cons = 0"
    by (simp_all add: demo_cons_def cons_inv_def committed_def pending_def myproc_def killed_def fs_state.defs log_state.defs blk_state.defs cons_state.defs ring_seg_empty proc0_def) 
  have "pmem demo_cons = pmem demo_mapped" "freelist demo_cons = freelist demo_mapped" "kend demo_cons = kend demo_mapped"
    by (simp_all add: demo_cons_def fs_state.defs log_state.defs blk_state.defs cons_state.defs)
  then show "\<exists>fs. user_range demo_cons 0x80001000 fs 0x3010 3" using demo_mapped_range range_cong(1) [of demo_cons demo_mapped] by simp
qed

text \<open>
  The keys \<open>a\<close>, \<open>b\<close>, backspace, \<open>c\<close>, return, control-P, \<open>d\<close>: one complete line \<open>ac\<close>, and \<open>d\<close> being edited; the list of processes has
  the one line of process 7.
\<close>

lemma demo_cons_ptable: "ptable demo_cons = (replicate NPROC proc0)[3 := proc0\<lparr>p_pid := 7, p_state := RUNNING, p_pagetable := 0x80001000\<rparr>]"
  by (simp add: demo_cons_def demo_blk_def demo_disk_def demo_state_def proc_state.defs disk_state.defs mm_state.defs blk_state.defs
      fs_state.defs log_state.defs cons_state.defs)

theorem uart_rx_line_editor_witness:
  "\<exists>t. uartintr False [97, 98, 8, 99, 13, 16, 100] demo_cons = Ret t \<and> committed t = [97, 99, 10] \<and> pending t = [100] \<and>
     uart_out t = [97, 98, 8, 32, 8, 99, 10] @ [10, 55, 32, 114, 117, 110, 32, 32, 32, 32, 10] @ [100]"
proof -
  have w: "wakeup_loop (Some 3) ChanCons i ps = ps" if "\<forall>p \<in> set ps. p_state p \<noteq> SLEEPING" for i ps
    using that by (induction ps arbitrary: i) auto
  have st: "\<forall>p \<in> set (ptable demo_cons). p_state p \<noteq> SLEEPING"
    unfolding demo_cons_ptable by (auto simp: proc0_def dest!: subsetD [OF set_update_subset_insert])
  have d: "printint digits 7 10 True = [55]" 
    using digit_loop.simps(2) [of 63 digits 7 10] by (simp add: printint_def digits_def)
  have l: "proc_listing (ptable demo_cons) = [10, 55, 32, 114, 117, 110, 32, 32, 32, 32, 10]"
    unfolding demo_cons_ptable proc_listing_def
    by (subst upd_conv_take_nth_drop) (simp_all add: proc0_def proc_line_def arg_int_def d)
  show ?thesis
    using uart_rx_line_editor [of demo_cons "[97, 98, 8, 99, 13, 16, 100]" False "[97, 99, 10]" "[100]" "ptable demo_cons"
        "[97, 98, 8, 32, 8, 99, 10] @ [10, 55, 32, 114, 117, 110, 32, 32, 32, 32, 10] @ [100]"] demo_cons_ok w [OF st] l
    by (auto simp: key_byte_def erase_def)
qed

definition demo_typed :: cons_state where
  "demo_typed = demo_cons\<lparr>cons_buf := (replicate INPUT_BUF_SIZE 0)[126 := 97, 127 := 10, 0 := 98], cons_w := 1, cons_e := 1\<rparr>"

lemma demo_typed_ok:
  "cons_inv demo_typed" "committed demo_typed = [97, 10, 98]" "myproc demo_typed = Some 3" "killed 3 demo_typed = 0"
  "p_pagetable (ptable demo_typed ! 3) = 0x80001000" "\<exists>fs. user_range demo_typed 0x80001000 fs 0x3010 3"
proof -
  have r: "cons_r demo_cons = 0xFFFFFFFE"
    by (simp add: demo_cons_def fs_state.defs log_state.defs blk_state.defs cons_state.defs)
  show "committed demo_typed = [97, 10, 98]"
    by (simp add: committed_def demo_typed_def r ring_seg_def upt_rec)
  have "pending demo_typed = []" by (simp add: pending_def demo_typed_def ring_seg_empty)
  then show "cons_inv demo_typed" by (simp add: cons_inv_def) (simp add: demo_typed_def r)
  show "myproc demo_typed = Some 3" "killed 3 demo_typed = 0" "p_pagetable (ptable demo_typed ! 3) = 0x80001000"
    using demo_cons_ok by (simp_all add: demo_typed_def myproc_def killed_def)
  show "\<exists>fs. user_range demo_typed 0x80001000 fs 0x3010 3"
    using demo_cons_ok(8) range_cong(1) [of demo_typed demo_cons] by (simp add: demo_typed_def)
qed

theorem consoleread_takes_line_witness:
  "\<exists>t. consoleread True 0x3010 3 demo_typed = Ret (Inr 2, t) \<and> user_bytes t 0x80001000 0x3010 2 = [97, 10] \<and> committed t = [98]"
proof -
  note D = demo_typed_ok
  obtain fs where fs: "user_range demo_typed (p_pagetable (ptable demo_typed ! 3)) fs 0x3010 3" using D(5,6) by auto
  have "read_line 0 3 (committed demo_typed) = ([97, 10], [98], False)" by (simp add: D numeral_3_eq_3)
  from consoleread_takes_line [OF D(1,3,4) fs this] obtain t m where
    t: "committed t = [98]" "copied demo_typed 0x80001000 fs 0x3010 [97, 10] m" "t = demo_typed\<lparr>cons_r := cons_r t, pmem := m\<rparr>"
    "consoleread True 0x3010 3 demo_typed = Ret (Inr 2, t)" by (auto simp: D)
  have "user_bytes t 0x80001000 0x3010 2 = [97, 10]"
    using copied_bytes [OF t(2)] range_cong(2) [of "demo_typed\<lparr>cons_r := cons_r t, pmem := m\<rparr>" "demo_typed\<lparr>pmem := m\<rparr>"]
    by (subst t(3)) (simp add: numeral_2_eq_2)
  then show ?thesis using t by blast
qed

end
