(* ===== verification/Pipe_Queue.thy ===== *)
theory Pipe_Queue
  imports File Line_Edit
begin

text \<open>
  A pipe is a bounded queue of bytes: \<open>pipewrite\<close> appends bytes of the writer's memory, \<open>piperead\<close> removes bytes
  from the front into the reader's memory, in the order they were written, also when the two
  counters wrap around.
\<close>

interpretation pipe_ring: ring_buffer PIPESIZE
  by unfold_locales (auto simp: dvd_def intro: exI [of _ 8388608])

definition pipe_ok :: "pipe \<Rightarrow> bool" where
  "pipe_ok q \<longleftrightarrow> length (pi_data q) = PIPESIZE \<and> unat (pi_nwrite q - pi_nread q) \<le> PIPESIZE"

definition contents :: "pipe \<Rightarrow> byte list" where
  "contents q = ring_seg (pi_data q) (pi_nread q) (pi_nwrite q)"

lemma length_contents: "length (contents q) = unat (pi_nwrite q - pi_nread q)"
  by (simp add: contents_def)

lemma pipe_full_iff:
  assumes "pipe_ok q"
  shows "pi_nwrite q = pi_nread q + of_nat PIPESIZE \<longleftrightarrow> length (contents q) = PIPESIZE"
proof -
  have "pi_nwrite q = pi_nread q + of_nat PIPESIZE \<longleftrightarrow> pi_nwrite q - pi_nread q = of_nat PIPESIZE" by (auto simp: algebra_simps)
  also have "\<dots> \<longleftrightarrow> unat (pi_nwrite q - pi_nread q) = unat (of_nat PIPESIZE :: uint)" by (metis word_unat_eq_iff)
  finally show ?thesis by (simp add: length_contents)
qed

lemma pipe_empty_iff: "pi_nread q = pi_nwrite q \<longleftrightarrow> contents q = []"
proof -
  have "contents q = [] \<longleftrightarrow> pi_nwrite q - pi_nread q = 0" by (simp add: length_contents unat_eq_0 flip: length_0_conv)
  then show ?thesis by auto
qed

lemma pipe_put:
  assumes "pipe_ok q" "length (contents q) < PIPESIZE" "q' = q\<lparr>pi_data := (pi_data q)[unat (pi_nwrite q) mod PIPESIZE := c], pi_nwrite := pi_nwrite q + 1\<rparr>"
  shows "pipe_ok q'" "contents q' = contents q @ [c]"
  using pipe_ring.ring_push [where data = "pi_data q" and b = "pi_nwrite q" and a = "pi_nread q"] assms
  by (simp_all add: pipe_ok_def contents_def)

lemma pipe_get:
  assumes "pipe_ok q" "contents q \<noteq> []" "q' = q\<lparr>pi_nread := pi_nread q + 1\<rparr>"
  shows "pipe_ok q'" "contents q = pi_data q ! (unat (pi_nread q) mod PIPESIZE) # contents q'"
proof -
  have "pi_nread q \<noteq> pi_nwrite q" using assms(2) by (simp add: pipe_empty_iff)
  then show "pipe_ok q'" "contents q = pi_data q ! (unat (pi_nread q) mod PIPESIZE) # contents q'"
    using pipe_ring.ring_pop [where a = "pi_nread q" and b = "pi_nwrite q" and data = "pi_data q"] assms(1,3) by (auto simp: pipe_ok_def contents_def)
qed

lemma range_pipes [simp]:
  "user_range (s\<lparr>pipes := x\<rparr>) pt fs va len = user_range s pt fs va len" "user_bytes (s\<lparr>pipes := x\<rparr>) pt va len = user_bytes s pt va len"
  "copied (s\<lparr>pipes := x\<rparr>) pt fs va src m = copied s pt fs va src m"
  by (rule range_cong; simp)+

section \<open>Writing\<close>

lemma pipewrite_loop_ok:
  assumes "pipe_ok (pipes s pi)" "0 \<le> i" "i \<le> n" "i < n \<Longrightarrow> user_range s pt fs va (nat n)" "pt = p_pagetable (ptable s ! pr)"
    and "pi_readopen (pipes s pi)" "killed pr s = 0" "nat (n - i) < fuel"
    and "k = min (nat (n - i)) (PIPESIZE - length (contents (pipes s pi)))"
  shows "\<exists>q. pipe_ok q \<and> contents q = contents (pipes s pi) @ take k (drop (nat i) (user_bytes s pt va (nat n))) \<and>
     pipewrite_loop fuel pr pi va i n s = (let t = s\<lparr>pipes := (pipes s)(pi := q)\<rparr> in
       if k = nat (n - i) then Ret (Inr n, wakeup (ChanPipeRead pi) t)
       else obind (sleep pr (ChanPipeWrite pi) (wakeup (ChanPipeRead pi) t)) (\<lambda>u. Ret (Inl (i + int k), u)))"
  using assms
proof (induction fuel arbitrary: i s k)
  case 0
  then show ?case by simp
next
  case (Suc fuel)
  let ?q = "pipes s pi"
  show ?case
  proof (cases "i < n \<and> length (contents ?q) < PIPESIZE")
    case False
    have "length (contents ?q) \<le> PIPESIZE" using Suc.prems(1) by (simp add: pipe_ok_def length_contents)
    then have k: "k = 0" and full: "i < n \<Longrightarrow> length (contents ?q) = PIPESIZE" using False Suc.prems(3,9) by auto
    show ?thesis using k full Suc.prems(1-3,6,7) pipe_full_iff [OF Suc.prems(1)] by (intro exI [of _ ?q]) auto
  next
    case True
    then have r: "user_range s pt fs va (nat n)" using Suc.prems(4) by blast
    have i: "nat i < nat n" "of_int i = (of_nat (nat i) :: addr)" using True Suc.prems(2) by simp_all
    let ?c = "user_bytes s pt va (nat n) ! nat i"
    have c: "copyin pt (va + of_int i) 1 s = Ret (0, [?c], s)" using copyin_byte [OF r i(1)] i(2) by simp
    define q1 where "q1 = ?q\<lparr>pi_data := (pi_data ?q)[unat (pi_nwrite ?q) mod PIPESIZE := ?c], pi_nwrite := pi_nwrite ?q + 1\<rparr>"
    define s1 where "s1 = s\<lparr>pipes := (pipes s)(pi := q1)\<rparr>"
    have q1: "pipe_ok q1" "contents q1 = contents ?q @ [?c]" using pipe_put [OF Suc.prems(1) _ q1_def] True by simp_all
    have step: "pipewrite_loop (Suc fuel) pr pi va i n s = pipewrite_loop fuel pr pi va (i + 1) n s1"
      using True Suc.prems(5-7) c pipe_full_iff [OF Suc.prems(1)] by (simp add: q1_def s1_def)
    have p1: "pipes s1 pi = q1" "ptable s1 = ptable s" by (simp_all add: s1_def)
    let ?k = "min (nat (n - (i + 1))) (PIPESIZE - length (contents q1))"
    have k: "k = Suc ?k" using True Suc.prems(2,9) q1(2) by auto
    have pre: "pipe_ok (pipes s1 pi)" "0 \<le> i + 1" "i + 1 \<le> n" "user_range s1 pt fs va (nat n)" "pt = p_pagetable (ptable s1 ! pr)"
      "pi_readopen (pipes s1 pi)" "killed pr s1 = 0" "nat (n - (i + 1)) < fuel" "?k = min (nat (n - (i + 1))) (PIPESIZE - length (contents (pipes s1 pi)))"
      using Suc.prems(2,3,5-8) True q1(1) r p1 by (auto simp: q1_def killed_def s1_def)
    obtain q where q: "pipe_ok q" "contents q = contents q1 @ take ?k (drop (nat (i + 1)) (user_bytes s1 pt va (nat n)))"
      "pipewrite_loop fuel pr pi va (i + 1) n s1 = (let t = s1\<lparr>pipes := (pipes s1)(pi := q)\<rparr> in
         if ?k = nat (n - (i + 1)) then Ret (Inr n, wakeup (ChanPipeRead pi) t)
         else obind (sleep pr (ChanPipeWrite pi) (wakeup (ChanPipeRead pi) t)) (\<lambda>u. Ret (Inl (i + 1 + int ?k), u)))"
      using Suc.IH [OF pre(1-3) pre(4) pre(5-9)] unfolding p1(1) by blast
    have "take k (drop (nat i) (user_bytes s pt va (nat n))) = ?c # take ?k (drop (nat (i + 1)) (user_bytes s1 pt va (nat n)))"
      unfolding k using i(1) Suc.prems(2) by (simp add: s1_def nat_add_distrib Cons_nth_drop_Suc [symmetric])
    then have c: "contents q = contents ?q @ take k (drop (nat i) (user_bytes s pt va (nat n)))" using q(2) q1(2) by simp
    have e: "(?k = nat (n - (i + 1))) = (k = nat (n - i))" "i + 1 + int ?k = i + int k"
      "s1\<lparr>pipes := (pipes s1)(pi := q)\<rparr> = s\<lparr>pipes := (pipes s)(pi := q)\<rparr>" using k True by (auto simp: s1_def)
    show ?thesis using q(1) c q(3) [unfolded e, folded step] by blast
  qed
qed


section \<open>Reading\<close>

lemma piperead_loop_ok:
  assumes "pipe_ok (pipes s pi)" "0 \<le> i" "i \<le> n" "user_range s pt fs va (nat n)" "pt = p_pagetable (ptable s ! pr)" "nat (n - i) < fuel"
    and "k = min (nat (n - i)) (length (contents (pipes s pi)))"
  shows "\<exists>q m. pipe_ok q \<and> contents q = drop k (contents (pipes s pi)) \<and> pi_writeopen q = pi_writeopen (pipes s pi) \<and>
     copied s pt fs (va + of_int i) (take k (contents (pipes s pi))) m \<and>
     piperead_loop fuel pr pi va i n s = Ret (i + int k, s\<lparr>pipes := (pipes s)(pi := q), pmem := m\<rparr>)"
  using assms
proof (induction fuel arbitrary: i s k)
  case 0
  then show ?case by simp
next
  case (Suc fuel)
  let ?q = "pipes s pi"
  show ?case
  proof (cases "i < n \<and> contents ?q \<noteq> []")
    case False
    then have k: "k = 0" using Suc.prems(3,7) by auto
    have "copied s pt fs (va + of_int i) [] (pmem s)" using Suc.prems(4) by (intro copied_Nil) (simp add: user_range_def)
    then show ?thesis using False k Suc.prems(1) pipe_empty_iff [of ?q] by (intro exI [of _ ?q] exI [of _ "pmem s"]) auto
  next
    case True
    let ?c = "pi_data ?q ! (unat (pi_nread ?q) mod PIPESIZE)"
    define q1 where "q1 = ?q\<lparr>pi_nread := pi_nread ?q + 1\<rparr>"
    have q1: "pipe_ok q1" "contents ?q = ?c # contents q1" using pipe_get [OF Suc.prems(1) _ q1_def] True by blast+
    have i: "nat i < nat n" "of_int i = (of_nat (nat i) :: addr)" using True Suc.prems(2) by simp_all
    obtain m1 where m1: "copyout pt (va + of_int i) [?c] s = Ret (0, s\<lparr>pmem := m1\<rparr>)" "copied s pt fs (va + of_int i) [?c] m1"
      using copyout_byte [OF Suc.prems(4) i(1)] i(2) by metis
    define s1 where "s1 = s\<lparr>pmem := m1, pipes := (pipes s)(pi := q1)\<rparr>"
    have step: "piperead_loop (Suc fuel) pr pi va i n s = piperead_loop fuel pr pi va (i + 1) n s1"
      using True Suc.prems(5) m1(1) pipe_empty_iff [of ?q] by (simp add: s1_def q1_def Let_def)
    have p1: "pipes s1 pi = q1" by (simp add: s1_def)
    let ?k = "min (nat (n - (i + 1))) (length (contents q1))"
    have k: "k = Suc ?k" using True Suc.prems(2,7) q1(2) by auto
    have pre: "pipe_ok (pipes s1 pi)" "0 \<le> i + 1" "i + 1 \<le> n" "user_range s1 pt fs va (nat n)" "pt = p_pagetable (ptable s1 ! pr)"
      "nat (n - (i + 1)) < fuel" "?k = min (nat (n - (i + 1))) (length (contents (pipes s1 pi)))"
      using Suc.prems(2,3,5,6) True q1(1) p1 copied_range(1) [OF Suc.prems(4) m1(2)] by (auto simp: s1_def)
    obtain q m where q: "pipe_ok q" "contents q = drop ?k (contents q1)" "pi_writeopen q = pi_writeopen q1"
      "copied s1 pt fs (va + of_int (i + 1)) (take ?k (contents q1)) m"
      "piperead_loop fuel pr pi va (i + 1) n s1 = Ret (i + 1 + int ?k, s1\<lparr>pipes := (pipes s1)(pi := q), pmem := m\<rparr>)"
      using Suc.IH [OF pre] unfolding p1 by blast
    have "copied (s\<lparr>pmem := m1\<rparr>) pt fs (va + of_int i + of_nat (length [?c])) (take ?k (contents q1)) m"
      using q(4) by (simp add: s1_def add.assoc)
    moreover have "user_range s pt fs (va + of_int i) (length ([?c] @ take ?k (contents q1)))"
    proof -
      have "length ([?c] @ take ?k (contents q1)) \<le> nat n - nat i" using True Suc.prems(2) by auto
      then show ?thesis using range_take [OF range_drop [OF Suc.prems(4) i(1)]] i(2) by metis
    qed
    ultimately have "copied s pt fs (va + of_int i) ([?c] @ take ?k (contents q1)) m" using copied_append m1(2) by blast
    moreover have "piperead_loop (Suc fuel) pr pi va i n s = Ret (i + int k, s\<lparr>pipes := (pipes s)(pi := q), pmem := m\<rparr>)"
      using step q(5) k by (simp add: s1_def)
    moreover have "take k (contents ?q) = [?c] @ take ?k (contents q1)" "contents q = drop k (contents ?q)" "pi_writeopen q = pi_writeopen ?q"
      unfolding q1(2) k using q(2,3) by (simp_all add: q1_def)
    ultimately show ?thesis using q(1) by metis
  qed
qed

section \<open>The property\<close>

text \<open>C30. A pipe is a bounded first-in first-out queue of bytes, whatever the position of its wrapping counters.
  \<open>pipewrite\<close> appends the bytes of the writer's buffer from its current position on, as many as there is room for, returns the
  count when all are in and otherwise sleeps at the position reached; \<open>piperead\<close> removes the oldest bytes, as
  many as asked for or present, puts them in the reader's buffer, changes no other memory, and sleeps only
  when the pipe is empty with its write end open.  Both return, and both keep the pipe well formed.\<close>

theorem pipe_refines_queue:
  assumes "pipe_ok (pipes s pi)" "myproc s = Some pr" "killed pr s = 0" "pt = p_pagetable (ptable s ! pr)"
    and "user_range s pt fs va (nat n)" "0 \<le> i" "i \<le> n" "pi_readopen (pipes s pi)"
    and "room = min (nat (n - i)) (PIPESIZE - length (contents (pipes s pi)))" "avail = min (nat n) (length (contents (pipes s pi)))"
  shows "(\<exists>q. pipe_ok q \<and> contents q = contents (pipes s pi) @ take room (drop (nat i) (user_bytes s pt va (nat n))) \<and>
       pipewrite pi va i n s = (let t = wakeup (ChanPipeRead pi) (s\<lparr>pipes := (pipes s)(pi := q)\<rparr>) in
         if room = nat (n - i) then Ret (Inr n, t) else obind (sleep pr (ChanPipeWrite pi) t) (\<lambda>u. Ret (Inl (i + int room), u)))) \<and>
    (\<exists>q m. pipe_ok q \<and> contents q = drop avail (contents (pipes s pi)) \<and> copied s pt fs va (take avail (contents (pipes s pi))) m \<and>
       piperead pi va n s =
         (if contents (pipes s pi) = [] \<and> pi_writeopen (pipes s pi) then obind (sleep pr (ChanPipeRead pi) s) (\<lambda>u. Ret (Inl (), u))
          else Ret (Inr (int avail), wakeup (ChanPipeWrite pi) (s\<lparr>pipes := (pipes s)(pi := q), pmem := m\<rparr>))))"
proof (rule conjI)
  have w: "pipewrite pi va i n s = pipewrite_loop (Suc (nat (n - i))) pr pi va i n s"
    using assms(2) by (simp add: pipewrite_def del: pipewrite_loop.simps)
  show "\<exists>q. pipe_ok q \<and> contents q = contents (pipes s pi) @ take room (drop (nat i) (user_bytes s pt va (nat n))) \<and>
       pipewrite pi va i n s = (let t = wakeup (ChanPipeRead pi) (s\<lparr>pipes := (pipes s)(pi := q)\<rparr>) in
         if room = nat (n - i) then Ret (Inr n, t) else obind (sleep pr (ChanPipeWrite pi) t) (\<lambda>u. Ret (Inl (i + int room), u)))"
    unfolding w Let_def
    using pipewrite_loop_ok [OF assms(1,6,7,5,4,8,3) lessI assms(9)] unfolding Let_def .
  have n: "nat (n - 0) < Suc (nat n)" "avail = min (nat (n - 0)) (length (contents (pipes s pi)))" "0 \<le> n" using assms(6,7,10) by simp_all
  have r: "piperead pi va n s = (if contents (pipes s pi) = [] \<and> pi_writeopen (pipes s pi) then obind (sleep pr (ChanPipeRead pi) s) (\<lambda>u. Ret (Inl (), u))
     else obind (piperead_loop (Suc (nat n)) pr pi va 0 n s) (\<lambda>(i, s1). Ret (Inr i, wakeup (ChanPipeWrite pi) s1)))"
    using assms(2,3) by (simp add: piperead_def pipe_empty_iff del: piperead_loop.simps)
  obtain q m where q: "pipe_ok q" "contents q = drop avail (contents (pipes s pi))" "copied s pt fs va (take avail (contents (pipes s pi))) m"
    "piperead_loop (Suc (nat n)) pr pi va 0 n s = Ret (int avail, s\<lparr>pipes := (pipes s)(pi := q), pmem := m\<rparr>)"
    using piperead_loop_ok [OF assms(1) order_refl n(3) assms(5,4) n(1,2)] unfolding of_int_0 add_0_right add_0_left by blast
  show "\<exists>q m. pipe_ok q \<and> contents q = drop avail (contents (pipes s pi)) \<and> copied s pt fs va (take avail (contents (pipes s pi))) m \<and>
       piperead pi va n s =
         (if contents (pipes s pi) = [] \<and> pi_writeopen (pipes s pi) then obind (sleep pr (ChanPipeRead pi) s) (\<lambda>u. Ret (Inl (), u))
          else Ret (Inr (int avail), wakeup (ChanPipeWrite pi) (s\<lparr>pipes := (pipes s)(pi := q), pmem := m\<rparr>)))"
    unfolding r q(4) obind.simps prod.case using q(1-3) by blast
qed

text \<open>A pipe whose counters are about to wrap around, with one byte in it.\<close>

definition demo_pipe :: file_state where
  "demo_pipe = cons_state.extend demo_cons (file_state.fields [] (\<lambda>_. \<lparr>pi_data = (replicate PIPESIZE 0)[511 := 42],
     pi_nread = 0xFFFFFFFF, pi_nwrite = 0, pi_readopen = True, pi_writeopen = True\<rparr>) [])"

lemma demo_pipe_ok:
  "pipe_ok (pipes demo_pipe pi)" "contents (pipes demo_pipe pi) = [42]" "myproc demo_pipe = Some 3" "killed 3 demo_pipe = 0"
  "p_pagetable (ptable demo_pipe ! 3) = 0x80001000" "\<exists>fs. user_range demo_pipe 0x80001000 fs 0x3010 3" "pi_readopen (pipes demo_pipe pi)"
proof -
  have f: "pmem demo_pipe = pmem demo_cons" "freelist demo_pipe = freelist demo_cons" "kend demo_pipe = kend demo_cons"
    "ptable demo_pipe = ptable demo_cons" "cpus demo_pipe = cpus demo_cons" "hart demo_pipe = hart demo_cons"
    by (simp_all add: demo_pipe_def cons_state.defs file_state.defs)
  show "\<exists>fs. user_range demo_pipe 0x80001000 fs 0x3010 3" using demo_cons_ok(8) range_cong(1) [OF f(1-3)] by simp
  show "myproc demo_pipe = Some 3" "killed 3 demo_pipe = 0" "p_pagetable (ptable demo_pipe ! 3) = 0x80001000"
    using demo_cons_ok f by (simp_all add: myproc_def killed_def)
  show "pipe_ok (pipes demo_pipe pi)" "contents (pipes demo_pipe pi) = [42]" "pi_readopen (pipes demo_pipe pi)"
    by (simp_all add: demo_pipe_def cons_state.defs file_state.defs pipe_ok_def contents_def ring_seg_def)
qed

theorem pipe_refines_queue_witness:
  "(\<exists>t. pipewrite 5 0x3010 0 3 demo_pipe = Ret (Inr 3, t) \<and>
      contents (pipes t 5) = 42 # user_bytes demo_pipe 0x80001000 0x3010 3) \<and>
   (\<exists>t. piperead 5 0x3010 3 demo_pipe = Ret (Inr 1, t) \<and> contents (pipes t 5) = [])"
proof -
  note D = demo_pipe_ok
  obtain fs where fs: "user_range demo_pipe 0x80001000 fs 0x3010 (nat 3)" using D(6) by auto
  show ?thesis
    using pipe_refines_queue [OF D(1,3,4) D(5) [symmetric] fs order_refl _ D(7) refl refl, where pi = 5]
    by (auto simp: D(2) Let_def wakeup_def)
qed

end
