(* ===== verification/Spinlock.thy ===== *)
theory Spinlock
  imports Prelude
begin

text \<open>
  Spin locks (\<^verbatim>\<open>kernel/spinlock.c\<close>) at the grain of single memory accesses.  Every hart has a program
  point inside \<open>acquire\<close> or \<open>release\<close>, and the harts interleave in any order.  The rest of the development treats a section
  under a lock as one step; the theorem of this theory is what justifies it.
\<close>

section \<open>Interrupts\<close>

record hart_state =
  sstatus :: "64 word"
  noff :: int
  intena :: bool

definition SSTATUS_SIE :: "64 word" where "SSTATUS_SIE = 2"

definition intr_on :: "hart_state \<Rightarrow> hart_state" where
  "intr_on c = c\<lparr>sstatus := sstatus c OR SSTATUS_SIE\<rparr>"

definition intr_off :: "hart_state \<Rightarrow> hart_state" where
  "intr_off c = c\<lparr>sstatus := sstatus c AND NOT SSTATUS_SIE\<rparr>"

definition intr_get :: "hart_state \<Rightarrow> bool" where
  "intr_get c \<longleftrightarrow> sstatus c AND SSTATUS_SIE \<noteq> 0"

definition push_off :: "hart_state \<Rightarrow> hart_state" where
  "push_off c =
     (let old = intr_get c; c1 = intr_off c; c2 = (if noff c1 = 0 then c1\<lparr>intena := old\<rparr> else c1)
      in c2\<lparr>noff := noff c2 + 1\<rparr>)"

definition pop_off :: "hart_state \<Rightarrow> hart_state outcome" where
  "pop_off c =
     (if intr_get c then Panic ''pop_off - interruptible''
      else if noff c < 1 then Panic ''pop_off''
      else let c1 = c\<lparr>noff := noff c - 1\<rparr> in Ret (if noff c1 = 0 \<and> intena c1 then intr_on c1 else c1))"

section \<open>Locks\<close>

record spinlock =
  lk_locked :: uint
  lk_name :: string
  lk_cpu :: "nat option"

definition initlock :: "string \<Rightarrow> spinlock \<Rightarrow> spinlock" where
  "initlock name lk = lk\<lparr>lk_name := name, lk_locked := 0, lk_cpu := None\<rparr>"

text \<open>
  The program point of a hart: outside the lock code, or before a memory access of \<open>acquire\<close> or \<open>release\<close> on a lock.
  \<open>holding\<close> reads the lock word first and the owner only when the word is set.
\<close>

datatype spin_pc = Outside
  | AcqLocked nat | AcqOwner nat | Swap nat | SetOwner nat
  | RelLocked nat | RelOwner nat | ClearOwner nat | Unlock nat | PopOff nat
  | Panicked string nat

record spin_state =
  locks :: "nat \<Rightarrow> spinlock"
  harts :: "nat \<Rightarrow> hart_state"
  pcs :: "nat \<Rightarrow> spin_pc"
  pushed :: "nat \<Rightarrow> int"
  base :: "nat \<Rightarrow> bool"

abbreviation goto :: "nat \<Rightarrow> spin_pc \<Rightarrow> spin_state \<Rightarrow> spin_state" where
  "goto h p s \<equiv> s\<lparr>pcs := (pcs s)(h := p)\<rparr>"

abbreviation set_hart :: "nat \<Rightarrow> hart_state \<Rightarrow> spin_state \<Rightarrow> spin_state" where
  "set_hart h c s \<equiv> s\<lparr>harts := (harts s)(h := c)\<rparr>"

abbreviation set_lock :: "nat \<Rightarrow> spinlock \<Rightarrow> spin_state \<Rightarrow> spin_state" where
  "set_lock l k s \<equiv> s\<lparr>locks := (locks s)(l := k)\<rparr>"

definition acquire :: "nat \<Rightarrow> nat \<Rightarrow> spin_state \<Rightarrow> spin_state" where
  "acquire h l s = goto h (AcqLocked l) (set_hart h (push_off (harts s h)) s)"

definition release :: "nat \<Rightarrow> nat \<Rightarrow> spin_state \<Rightarrow> spin_state" where
  "release h l s = goto h (RelLocked l) s"

text \<open>The next access of hart \<open>h\<close>: the rest of \<open>acquire\<close> and of \<open>release\<close>.\<close>

definition access :: "nat \<Rightarrow> spin_state \<Rightarrow> spin_state" where
  "access h s =
     (case pcs s h of
        Outside \<Rightarrow> s
      | AcqLocked l \<Rightarrow> goto h (if lk_locked (locks s l) \<noteq> 0 then AcqOwner l else Swap l) s
      | AcqOwner l \<Rightarrow> goto h (if lk_cpu (locks s l) = Some h then Panicked ''acquire'' l else Swap l) s
      | Swap l \<Rightarrow>
          let s1 = set_lock l ((locks s l)\<lparr>lk_locked := 1\<rparr>) s
          in if lk_locked (locks s l) \<noteq> 0 then s1 else goto h (SetOwner l) s1
      | SetOwner l \<Rightarrow> goto h Outside (set_lock l ((locks s l)\<lparr>lk_cpu := Some h\<rparr>) s)
      | RelLocked l \<Rightarrow> goto h (if lk_locked (locks s l) \<noteq> 0 then RelOwner l else Panicked ''release'' l) s
      | RelOwner l \<Rightarrow> goto h (if lk_cpu (locks s l) = Some h then ClearOwner l else Panicked ''release'' l) s
      | ClearOwner l \<Rightarrow> goto h (Unlock l) (set_lock l ((locks s l)\<lparr>lk_cpu := None\<rparr>) s)
      | Unlock l \<Rightarrow> goto h (PopOff l) (set_lock l ((locks s l)\<lparr>lk_locked := 0\<rparr>) s)
      | PopOff l \<Rightarrow>
          (case pop_off (harts s h) of
             Ret c \<Rightarrow> goto h Outside (set_hart h c s)
           | Panic m \<Rightarrow> goto h (Panicked m l) s
           | Hang \<Rightarrow> s)
      | Panicked m l \<Rightarrow> s)"

text \<open>
  What the harts do: they call \<open>acquire\<close> and \<open>release\<close> on any lock, at any time; they pair \<open>push_off\<close> with \<open>pop_off\<close>
  (\<open>pushed\<close> counts the open ones); outside all of these they turn interrupts on or off; and \<open>sched\<close> restores \<^verbatim>\<open>intena\<close> after a switch.
  \<open>base\<close> records the interrupt state a hart has to return to.
\<close>

inductive spin_step :: "spin_state \<Rightarrow> spin_state \<Rightarrow> bool" where
  step_access: "spin_step s (access h s)"
| step_acquire: "pcs s h = Outside \<Longrightarrow> spin_step s (acquire h l s)"
| step_release: "pcs s h = Outside \<Longrightarrow> spin_step s (release h l s)"
| step_push: "pcs s h = Outside \<Longrightarrow>
    spin_step s (set_hart h (push_off (harts s h)) s\<lparr>pushed := (pushed s)(h := pushed s h + 1)\<rparr>)"
| step_pop: "pcs s h = Outside \<Longrightarrow> 0 < pushed s h \<Longrightarrow> pop_off (harts s h) = Ret c \<Longrightarrow>
    spin_step s (set_hart h c s\<lparr>pushed := (pushed s)(h := pushed s h - 1)\<rparr>)"
| step_intr: "pcs s h = Outside \<Longrightarrow> noff (harts s h) = 0 \<Longrightarrow>
    spin_step s (set_hart h (if b then intr_on (harts s h) else intr_off (harts s h)) s\<lparr>base := (base s)(h := b)\<rparr>)"
| step_sched: "pcs s h = Outside \<Longrightarrow> 0 < noff (harts s h) \<Longrightarrow>
    spin_step s (set_hart h ((harts s h)\<lparr>intena := b\<rparr>) s\<lparr>base := (base s)(h := b)\<rparr>)"

definition spin_boot :: "(nat \<Rightarrow> string) \<Rightarrow> (nat \<Rightarrow> spinlock) \<Rightarrow> (nat \<Rightarrow> 64 word) \<Rightarrow> spin_state" where
  "spin_boot names lks st =
     \<lparr>locks = (\<lambda>l. initlock (names l) (lks l)), harts = (\<lambda>h. \<lparr>sstatus = st h, noff = 0, intena = False\<rparr>),
      pcs = (\<lambda>_. Outside), pushed = (\<lambda>_. 0), base = (\<lambda>h. st h AND SSTATUS_SIE \<noteq> 0)\<rparr>"

inductive spin_reachable :: "spin_state \<Rightarrow> bool" where
  reach_boot: "spin_reachable (spin_boot names lks st)"
| reach_step: "spin_reachable s \<Longrightarrow> spin_step s t \<Longrightarrow> spin_reachable t"

section \<open>The invariant\<close>

text \<open>A hart owns a lock from its successful swap to its clearing of the lock word.\<close>

definition owns :: "spin_state \<Rightarrow> nat \<Rightarrow> nat \<Rightarrow> bool" where
  "owns s h l \<longleftrightarrow> lk_cpu (locks s l) = Some h \<or> pcs s h = SetOwner l \<or> pcs s h = Unlock l"

fun in_flight :: "spin_pc \<Rightarrow> int" where
  "in_flight (AcqLocked l) = 1"
| "in_flight (AcqOwner l) = 1"
| "in_flight (Swap l) = 1"
| "in_flight (PopOff l) = 1"
| "in_flight _ = 0"

definition hart_ok :: "spin_state \<Rightarrow> nat \<Rightarrow> bool" where
  "hart_ok s h \<longleftrightarrow> 0 \<le> pushed s h \<and> finite {l. owns s h l} \<and>
     noff (harts s h) = int (card {l. owns s h l}) + pushed s h + in_flight (pcs s h) \<and>
     (if 0 < noff (harts s h) then \<not> intr_get (harts s h) \<and> intena (harts s h) = base s h
      else intr_get (harts s h) = base s h)"

definition pc_ok :: "spin_state \<Rightarrow> nat \<Rightarrow> bool" where
  "pc_ok s h \<longleftrightarrow>
     (case pcs s h of
        ClearOwner l \<Rightarrow> lk_cpu (locks s l) = Some h
      | Unlock l \<Rightarrow> lk_cpu (locks s l) = None
      | Panicked m l \<Rightarrow> m = ''acquire'' \<and> owns s h l \<or> m = ''release'' \<and> \<not> owns s h l
      | _ \<Rightarrow> True)"

definition spin_inv :: "spin_state \<Rightarrow> bool" where
  "spin_inv s \<longleftrightarrow> (\<forall>l h h'. owns s h l \<longrightarrow> owns s h' l \<longrightarrow> h = h') \<and> (\<forall>l. lk_locked (locks s l) \<noteq> 0 \<longleftrightarrow> (\<exists>h. owns s h l)) \<and>
     (\<forall>h. pc_ok s h) \<and> (\<forall>h. (\<nexists>m l. pcs s h = Panicked m l) \<longrightarrow> hart_ok s h)"

lemma intr_flags [simp]: "intr_get (intr_on c)" "\<not> intr_get (intr_off c)" "noff (intr_on c) = noff c" "noff (intr_off c) = noff c"
  "intena (intr_on c) = intena c" "intena (intr_off c) = intena c" "intr_get (c\<lparr>noff := n\<rparr>) = intr_get c" "intr_get (c\<lparr>intena := b\<rparr>) = intr_get c"
proof -
  have "(sstatus c OR SSTATUS_SIE) AND SSTATUS_SIE = SSTATUS_SIE" "(sstatus c AND NOT SSTATUS_SIE) AND SSTATUS_SIE = 0"
    by (rule bit_word_eqI; auto simp: bit_simps)+
  then show "intr_get (intr_on c)" "\<not> intr_get (intr_off c)" by (simp_all add: intr_get_def intr_on_def intr_off_def SSTATUS_SIE_def)
qed (simp_all add: intr_on_def intr_off_def intr_get_def)

lemma push_off_fields [simp]:
  "noff (push_off c) = noff c + 1" "\<not> intr_get (push_off c)" "intena (push_off c) = (if noff c = 0 then intr_get c else intena c)"
  by (simp_all add: push_off_def Let_def)

lemma pop_off_ok:
  assumes "\<not> intr_get c" "0 < noff c"
  shows "\<exists>d. pop_off c = Ret d \<and> noff d = noff c - 1 \<and> intena d = intena c \<and> intr_get d = (noff c = 1 \<and> intena c)"
  using assms by (auto simp: pop_off_def Let_def)

lemma spin_invD:
  assumes "spin_inv s"
  shows "owns s h l \<Longrightarrow> owns s h' l \<Longrightarrow> h = h'" "lk_locked (locks s l) \<noteq> 0 \<longleftrightarrow> (\<exists>h. owns s h l)" "pc_ok s h"
    "(\<nexists>m l. pcs s h = Panicked m l) \<Longrightarrow> hart_ok s h"
  using assms unfolding spin_inv_def by blast+

text \<open>A step of hart \<open>h\<close> keeps the invariant when it takes only free locks and changes the owner field only of locks it owns.\<close>

lemma inv_step:
  assumes "spin_inv s" and O: "\<And>h' l. h' \<noteq> h \<Longrightarrow> owns t h' l = owns s h' l"
    and own: "\<And>l. owns t h l \<Longrightarrow> owns s h l \<or> lk_locked (locks s l) = 0"
    and L: "\<And>l. lk_locked (locks t l) \<noteq> 0 \<longleftrightarrow> (\<exists>h'. owns t h' l)"
    and C: "\<And>l. lk_cpu (locks t l) \<noteq> lk_cpu (locks s l) \<Longrightarrow> owns s h l"
    and F: "\<And>h'. h' \<noteq> h \<Longrightarrow> pcs t h' = pcs s h' \<and> harts t h' = harts s h' \<and> pushed t h' = pushed s h' \<and> base t h' = base s h'"
    and "pc_ok t h" "(\<nexists>m l. pcs t h = Panicked m l) \<Longrightarrow> hart_ok t h"
  shows "spin_inv t"
proof -
  note I = spin_invD [OF assms(1)]
  have "h1 = h2" if "owns t h1 l" "owns t h2 l" for h1 h2 l
    using that O own I(1,2) by metis
  moreover have "pc_ok t h'" for h'
  proof (cases "h' = h")
    case False
    have "lk_cpu (locks t l) = lk_cpu (locks s l)" if "owns s h' l" for l using C I(1) that False by blast
    then show ?thesis using I(3) [of h'] F [OF False] O [OF False]
      by (auto simp: pc_ok_def split: spin_pc.splits) (auto simp: owns_def)
  qed (use assms(7) in simp)
  moreover have "hart_ok t h'" if "\<nexists>m l. pcs t h' = Panicked m l" for h'
  proof (cases "h' = h")
    case False
    then show ?thesis using I(4) [of h'] that F [OF False] O [OF False] by (simp add: hart_ok_def)
  qed (use assms(8) that in simp)
  ultimately show ?thesis using L unfolding spin_inv_def by blast
qed

text \<open>The special case of a step that changes nobody's ownership.\<close>

lemma inv_same:
  assumes "spin_inv s" and O: "owns t = owns s"
    and L: "\<And>l. lk_locked (locks t l) \<noteq> 0 \<longleftrightarrow> lk_locked (locks s l) \<noteq> 0"
    and C: "\<And>l. lk_cpu (locks t l) \<noteq> lk_cpu (locks s l) \<Longrightarrow> owns s h l"
    and F: "\<And>h'. h' \<noteq> h \<Longrightarrow> pcs t h' = pcs s h' \<and> harts t h' = harts s h' \<and> pushed t h' = pushed s h' \<and> base t h' = base s h'"
    and "pc_ok t h" "(\<nexists>m l. pcs t h = Panicked m l) \<Longrightarrow> hart_ok t h"
  shows "spin_inv t"
  using inv_step [OF assms(1), of h t] O L C F assms(6,7) spin_invD(2) [OF assms(1)] by simp

lemma owns_goto [simp]:
  assumes "\<And>l. pcs s h \<noteq> SetOwner l \<and> pcs s h \<noteq> Unlock l" "\<And>l. p \<noteq> SetOwner l \<and> p \<noteq> Unlock l"
  shows "owns (goto h p s) = owns s"
  using assms by (auto simp: owns_def fun_eq_iff)

lemma owns_frame [simp]:
  "owns (s\<lparr>harts := x\<rparr>) = owns s" "owns (s\<lparr>pushed := y\<rparr>) = owns s" "owns (s\<lparr>base := z\<rparr>) = owns s"
  by (simp_all add: owns_def fun_eq_iff)

section \<open>Every step keeps it\<close>

text \<open>A step that only moves the program point, between points with the same count.\<close>

lemma inv_goto:
  assumes "spin_inv s" "\<And>l. pcs s h \<noteq> SetOwner l \<and> pcs s h \<noteq> Unlock l" "\<And>m l. pcs s h \<noteq> Panicked m l"
    and "\<And>l. p \<noteq> SetOwner l \<and> p \<noteq> Unlock l" "in_flight p = in_flight (pcs s h) \<or> (\<exists>m l. p = Panicked m l)" "pc_ok (goto h p s) h"
  shows "spin_inv (goto h p s)"
proof -
  have o: "owns (goto h p s) = owns s" using assms(2,4) by (rule owns_goto)
  show ?thesis
    by (rule inv_same [OF assms(1), of _ h]) (use assms spin_invD(4) [OF assms(1), of h] o in \<open>auto simp: hart_ok_def\<close>)
qed

text \<open>A step of hart \<open>h\<close> outside the lock code that changes only its own flags and counts.\<close>

lemma inv_flags:
  assumes "spin_inv s" "p = pcs s h \<or> pcs s h = Outside \<and> p = AcqLocked l \<or> pcs s h = PopOff l \<and> p = Outside" "\<And>m l. pcs s h \<noteq> Panicked m l"
    and t: "t = s\<lparr>pcs := (pcs s)(h := p), harts := (harts s)(h := c), pushed := (pushed s)(h := n), base := (base s)(h := b)\<rparr>"
    and "0 \<le> n" "noff c - n - in_flight p = noff (harts s h) - pushed s h - in_flight (pcs s h)"
    and "if 0 < noff c then \<not> intr_get c \<and> intena c = b else intr_get c = b"
  shows "spin_inv t"
proof -
  have o: "owns t = owns s" using assms(2) by (auto simp: owns_def fun_eq_iff t)
  show ?thesis
  proof (rule inv_same [OF assms(1) o, of h])
    show "pc_ok t h" using assms(2,3) spin_invD(3) [OF assms(1), of h] by (auto simp: pc_ok_def t split: spin_pc.splits)
    show "hart_ok t h" using spin_invD(4) [OF assms(1), of h] assms(3,5-7) by (auto simp: hart_ok_def o) (auto simp: t)
  qed (auto simp: t)
qed

lemma swap_step:
  assumes "spin_inv s" "pcs s h = Swap l"
  shows "spin_inv (access h s)"
proof (cases "lk_locked (locks s l) = 0")
  case False
  let ?t = "set_lock l ((locks s l)\<lparr>lk_locked := 1\<rparr>) s"
  have o: "owns ?t = owns s" by (auto simp: owns_def fun_eq_iff)
  have "spin_inv ?t"
    by (rule inv_same [OF assms(1) o, of h]) (use False assms(2) spin_invD(4) [OF assms(1), of h] o in \<open>auto simp: hart_ok_def pc_ok_def split: if_splits\<close>)
  then show ?thesis using assms(2) False by (simp add: access_def Let_def)
next
  case True
  let ?t = "goto h (SetOwner l) (set_lock l ((locks s l)\<lparr>lk_locked := 1\<rparr>) s)"
  note I = spin_invD [OF assms(1)]
  have free: "\<not> owns s h' l" for h' using True I(2) by blast
  have o: "owns ?t h' l' \<longleftrightarrow> owns s h' l' \<or> h' = h \<and> l' = l" for h' l'
    using assms(2) by (auto simp: owns_def)
  have set: "{l'. owns ?t h l'} = insert l {l'. owns s h l'}" using o by auto
  have "hart_ok ?t h" using I(4) [of h] assms(2) free unfolding hart_ok_def set by simp
  moreover have "lk_locked (locks ?t l') \<noteq> 0 \<longleftrightarrow> (\<exists>h'. owns ?t h' l')" for l' using I(2) [of l'] o by auto
  ultimately have "spin_inv ?t"
    by (intro inv_step [OF assms(1), of h]) (use o True in \<open>auto simp: pc_ok_def split: if_splits\<close>)
  then show ?thesis using assms(2) True by (simp add: access_def Let_def)
qed

lemma owner_steps:
  assumes "spin_inv s" "pcs s h = SetOwner l \<or> pcs s h = ClearOwner l"
  shows "spin_inv (access h s)"
proof -
  note I = spin_invD [OF assms(1)]
  have own: "owns s h l" using assms(2) I(3) [of h] by (auto simp: owns_def pc_ok_def)
  then have cpu: "lk_cpu (locks s l) = Some h' \<Longrightarrow> h' = h" for h' using I(1) by (auto simp: owns_def)
  have other: "h' \<noteq> h \<Longrightarrow> pcs s h' \<noteq> SetOwner l \<and> pcs s h' \<noteq> Unlock l" for h' using own I(1) unfolding owns_def by blast
  have t: "access h s = (if pcs s h = SetOwner l then goto h Outside (set_lock l ((locks s l)\<lparr>lk_cpu := Some h\<rparr>) s)
      else goto h (Unlock l) (set_lock l ((locks s l)\<lparr>lk_cpu := None\<rparr>) s))" using assms(2) by (auto simp: access_def)
  have o: "owns (access h s) = owns s"
    unfolding t using assms(2) cpu other own by (auto simp: owns_def fun_eq_iff)
  show ?thesis
  proof (rule inv_same [OF assms(1) o, of h])
    show "pc_ok (access h s) h" using assms(2) by (auto simp: t pc_ok_def)
    have "hart_ok s h" using I(4) assms(2) by auto
    then show "hart_ok (access h s) h" unfolding hart_ok_def o using assms(2) by (auto simp: t)
    fix l'
    show "lk_cpu (locks (access h s) l') \<noteq> lk_cpu (locks s l') \<Longrightarrow> owns s h l'" using own by (cases "l' = l") (auto simp: t split: if_splits)
  qed (auto simp: t)
qed

lemma unlock_step:
  assumes "spin_inv s" "pcs s h = Unlock l"
  shows "spin_inv (access h s)"
proof -
  note I = spin_invD [OF assms(1)]
  let ?t = "goto h (PopOff l) (set_lock l ((locks s l)\<lparr>lk_locked := 0\<rparr>) s)"
  have own: "owns s h l" "lk_cpu (locks s l) = None" using assms(2) I(3) [of h] by (auto simp: owns_def pc_ok_def)
  have o: "owns ?t h' l' \<longleftrightarrow> owns s h' l' \<and> \<not> (h' = h \<and> l' = l)" for h' l'
    using assms(2) own by (auto simp: owns_def)
  have set: "{l'. owns ?t h l'} = {l'. owns s h l'} - {l}" using o by auto
  have hk: "hart_ok s h" using I(4) assms(2) by auto
  then have fin: "finite {l'. owns s h l'}" by (simp add: hart_ok_def)
  have "int (card {l'. owns ?t h l'}) = int (card {l'. owns s h l'}) - 1"
    unfolding set using own(1) card_Suc_Diff1 [OF fin, of l] by simp
  then have "hart_ok ?t h" using hk fin assms(2) set by (auto simp: hart_ok_def)
  moreover have "lk_locked (locks ?t l') \<noteq> 0 \<longleftrightarrow> (\<exists>h'. owns ?t h' l')" for l'
    using I(1) [OF own(1)] I(2) [of l'] o by auto
  ultimately have "spin_inv ?t"
    by (intro inv_step [OF assms(1), of h]) (use o in \<open>auto simp: pc_ok_def split: if_splits\<close>)
  then show ?thesis using assms(2) by (simp add: access_def)
qed

lemma pop_step:
  assumes "spin_inv s" "pcs s h = PopOff l"
  shows "spin_inv (access h s)"
proof -
  have hk: "hart_ok s h" using spin_invD(4) [OF assms(1)] assms(2) by auto
  then have n: "0 < noff (harts s h)" "\<not> intr_get (harts s h)" using assms(2) by (auto simp: hart_ok_def split: if_splits)
  then obtain c where c: "pop_off (harts s h) = Ret c" "noff c = noff (harts s h) - 1" "intena c = intena (harts s h)"
    "intr_get c = (noff (harts s h) = 1 \<and> intena (harts s h))" using pop_off_ok by blast
  have t: "access h s = s\<lparr>pcs := (pcs s)(h := Outside), harts := (harts s)(h := c), pushed := (pushed s)(h := pushed s h), base := (base s)(h := base s h)\<rparr>"
    using assms(2) c(1) by (simp add: access_def)
  show ?thesis
    by (rule inv_flags [OF assms(1) _ _ t, where l = l]) (use hk n c(2-4) in \<open>simp_all add: assms(2) hart_ok_def\<close>)
qed

lemma access_inv:
  assumes "spin_inv s"
  shows "spin_inv (access h s)"
proof (cases "pcs s h")
  case (AcqOwner l)
  have "pc_ok (goto h (if lk_cpu (locks s l) = Some h then Panicked ''acquire'' l else Swap l) s) h"
    by (simp add: pc_ok_def owns_def)
  from inv_goto [OF assms _ _ _ _ this] show ?thesis by (auto simp: access_def AcqOwner)
next
  case (RelLocked l)
  have "\<not> owns s h l" if "lk_locked (locks s l) = 0" using spin_invD(2) [OF assms] that by blast
  then have "pc_ok (goto h (if lk_locked (locks s l) \<noteq> 0 then RelOwner l else Panicked ''release'' l) s) h"
    using RelLocked by (auto simp: pc_ok_def owns_def)
  from inv_goto [OF assms _ _ _ _ this] show ?thesis by (auto simp: access_def RelLocked)
next
  case (RelOwner l)
  have "pc_ok (goto h (if lk_cpu (locks s l) = Some h then ClearOwner l else Panicked ''release'' l) s) h"
    using RelOwner by (auto simp: pc_ok_def owns_def)
  from inv_goto [OF assms _ _ _ _ this] show ?thesis by (auto simp: access_def RelOwner)
next
  case (AcqLocked l)
  have "pc_ok (goto h (if lk_locked (locks s l) \<noteq> 0 then AcqOwner l else Swap l) s) h" by (simp add: pc_ok_def)
  from inv_goto [OF assms _ _ _ _ this] show ?thesis by (auto simp: access_def AcqLocked)
next
  case Outside
  then show ?thesis using assms by (simp add: access_def)
next
  case (Panicked m l)
  then show ?thesis using assms by (simp add: access_def)
qed (use assms swap_step owner_steps unlock_step pop_step in blast)+

lemma outside_ok: "spin_inv s \<Longrightarrow> pcs s h = Outside \<Longrightarrow> hart_ok s h"
  using spin_invD(4) by fastforce

lemma push_ok:
  assumes "hart_ok s h"
  shows "if 0 < noff (push_off (harts s h)) then \<not> intr_get (push_off (harts s h)) \<and> intena (push_off (harts s h)) = base s h
    else intr_get (push_off (harts s h)) = base s h"
proof -
  have "0 \<le> in_flight p" for p by (cases p) simp_all
  then have "0 \<le> noff (harts s h)" using assms by (simp add: hart_ok_def)
  then show ?thesis using assms by (simp add: hart_ok_def split: if_splits)
qed

lemma pop_ok:
  assumes "hart_ok s h" "0 < noff (harts s h)" "pop_off (harts s h) = Ret c"
  shows "if 0 < noff c then \<not> intr_get c \<and> intena c = base s h else intr_get c = base s h" "noff c = noff (harts s h) - 1"
proof -
  have i: "\<not> intr_get (harts s h)" "intena (harts s h) = base s h" using assms(1,2) by (simp_all add: hart_ok_def)
  then show "noff c = noff (harts s h) - 1" "if 0 < noff c then \<not> intr_get c \<and> intena c = base s h else intr_get c = base s h"
    using pop_off_ok [OF i(1) assms(2)] assms(2,3) by auto
qed

lemma spin_step_inv:
  assumes "spin_step s t" "spin_inv s"
  shows "spin_inv t"
  using assms
proof (induction rule: spin_step.induct)
  case (step_acquire s h l)
  note H = outside_ok [OF step_acquire(2,1)]
  have "acquire h l s = s\<lparr>pcs := (pcs s)(h := AcqLocked l), harts := (harts s)(h := push_off (harts s h)), pushed := (pushed s)(h := pushed s h), base := (base s)(h := base s h)\<rparr>"
    by (simp add: acquire_def)
  from inv_flags [OF step_acquire(2) _ _ this _ _ push_ok [OF H], of l] show ?case
    using H by (simp add: step_acquire(1) hart_ok_def)
next
  case (step_release s h l)
  then show ?case unfolding release_def by (intro inv_goto) (auto simp: pc_ok_def)
next
  case (step_push s h)
  note H = outside_ok [OF step_push(2,1)]
  have "set_hart h (push_off (harts s h)) s\<lparr>pushed := (pushed s)(h := pushed s h + 1)\<rparr> =
    s\<lparr>pcs := (pcs s)(h := Outside), harts := (harts s)(h := push_off (harts s h)), pushed := (pushed s)(h := pushed s h + 1), base := (base s)(h := base s h)\<rparr>"
    using step_push(1) by (simp add: fun_upd_idem)
  from inv_flags [OF step_push(2) _ _ this _ _ push_ok [OF H]] show ?case
    using H by (simp add: step_push(1) hart_ok_def)
next
  case (step_pop s h c)
  note H = outside_ok [OF step_pop(4,1)]
  have n: "0 < noff (harts s h)" using H step_pop(1,2) by (simp add: hart_ok_def)
  have "set_hart h c s\<lparr>pushed := (pushed s)(h := pushed s h - 1)\<rparr> =
    s\<lparr>pcs := (pcs s)(h := Outside), harts := (harts s)(h := c), pushed := (pushed s)(h := pushed s h - 1), base := (base s)(h := base s h)\<rparr>"
    using step_pop(1) by (simp add: fun_upd_idem)
  from inv_flags [OF step_pop(4) _ _ this _ _ pop_ok(1) [OF H n step_pop(3)]] show ?case
    using step_pop(2) pop_ok(2) [OF H n step_pop(3)] by (simp add: step_pop(1))
next
  case (step_intr s h b)
  note H = outside_ok [OF step_intr(3,1)]
  have "set_hart h (if b then intr_on (harts s h) else intr_off (harts s h)) s\<lparr>base := (base s)(h := b)\<rparr> =
    s\<lparr>pcs := (pcs s)(h := Outside), harts := (harts s)(h := if b then intr_on (harts s h) else intr_off (harts s h)), pushed := (pushed s)(h := pushed s h), base := (base s)(h := b)\<rparr>"
    using step_intr(1) by (simp add: fun_upd_idem)
  from inv_flags [OF step_intr(3) _ _ this] show ?case using H step_intr(2) by (simp add: step_intr(1) hart_ok_def)
next
  case (step_sched s h b)
  note H = outside_ok [OF step_sched(3,1)]
  have "set_hart h ((harts s h)\<lparr>intena := b\<rparr>) s\<lparr>base := (base s)(h := b)\<rparr> =
    s\<lparr>pcs := (pcs s)(h := Outside), harts := (harts s)(h := (harts s h)\<lparr>intena := b\<rparr>), pushed := (pushed s)(h := pushed s h), base := (base s)(h := b)\<rparr>"
    using step_sched(1) by (simp add: fun_upd_idem)
  from inv_flags [OF step_sched(3) _ _ this] show ?case using H step_sched(2) by (simp add: step_sched(1) hart_ok_def)
qed (rule access_inv)

lemma spin_reachable_inv: "spin_reachable s \<Longrightarrow> spin_inv s"
proof (induction rule: spin_reachable.induct)
  case (reach_boot names lks st)
  have "\<not> owns (spin_boot names lks st) h l" for h l by (simp add: owns_def spin_boot_def initlock_def)
  then show ?case by (simp add: spin_inv_def pc_ok_def hart_ok_def) (simp add: spin_boot_def initlock_def intr_get_def)
qed (rule spin_step_inv)


section \<open>The property\<close>

text \<open>C33. Spin locks exclude: in every state reached by any interleaving of the single memory accesses of \<open>acquire\<close>
  and \<open>release\<close> on all harts, with any pattern of calls, no lock has two owners, a lock word is set exactly while the lock has
  an owner, a hart that owns a lock runs with interrupts off, and a hart that owns none and has matched its \<open>push_off\<close> calls has
  the interrupt state it started from.  The only panics are the intended ones: \<open>acquire\<close> of a lock the hart owns and \<open>release\<close> of
  one it does not; \<open>pop_off\<close> never panics.\<close>

theorem spinlock_mutual_exclusion:
  assumes "spin_reachable s"
  shows "(owns s h l \<longrightarrow> owns s h' l \<longrightarrow> h = h') \<and> (lk_locked (locks s l) \<noteq> 0 \<longleftrightarrow> (\<exists>k. owns s k l)) \<and>
    (\<forall>m k. pcs s h = Panicked m k \<longrightarrow> m = ''acquire'' \<and> owns s h k \<or> m = ''release'' \<and> \<not> owns s h k) \<and>
    ((\<forall>m k. pcs s h \<noteq> Panicked m k) \<longrightarrow> owns s h l \<longrightarrow> \<not> intr_get (harts s h)) \<and>
    (pcs s h = Outside \<longrightarrow> pushed s h = 0 \<longrightarrow> (\<forall>k. \<not> owns s h k) \<longrightarrow> intr_get (harts s h) = base s h \<and> noff (harts s h) = 0)"
proof -
  note I = spin_invD [OF spin_reachable_inv [OF assms]]
  have p: "0 \<le> in_flight q" for q by (cases q) simp_all
  have off: "\<not> intr_get (harts s h)" if "\<forall>m k. pcs s h \<noteq> Panicked m k" "owns s h l"
  proof -
    have H: "hart_ok s h" using that(1) I(4) by blast
    then have "0 < card {l. owns s h l}" using that(2) by (auto simp: hart_ok_def card_gt_0_iff)
    then show ?thesis using H p [of "pcs s h"] by (simp add: hart_ok_def split: if_splits)
  qed
  have base: "intr_get (harts s h) = base s h \<and> noff (harts s h) = 0" if "pcs s h = Outside" "pushed s h = 0" "\<forall>k. \<not> owns s h k"
    using that I(4) [of h] by (simp add: hart_ok_def)
  have "m = ''acquire'' \<and> owns s h k \<or> m = ''release'' \<and> \<not> owns s h k" if "pcs s h = Panicked m k" for m k
    using I(3) [of h] that by (simp add: pc_ok_def)
  then show ?thesis using I(1,2) off base by blast
qed

text \<open>Hart 0 has taken lock 7, and hart 1 spins on it.\<close>

definition demo_spin :: spin_state where
  "demo_spin = access 1 (access 1 (access 1 (acquire 1 7 (access 0 (access 0 (access 0 (acquire 0 7
     (spin_boot (\<lambda>_. ''lk'') (\<lambda>_. \<lparr>lk_locked = 0, lk_name = [], lk_cpu = None\<rparr>) (\<lambda>_. 2)))))))))"

theorem spinlock_mutual_exclusion_witness:
  "spin_reachable demo_spin \<and> owns demo_spin 0 7 \<and> pcs demo_spin 1 = Swap 7 \<and> \<not> owns demo_spin 1 7 \<and> \<not> intr_get (harts demo_spin 0)"
proof -
  note defs = access_def acquire_def spin_boot_def initlock_def Let_def
  have a: "spin_reachable (access h s)" if "spin_reachable s" for h s using that spin_step.step_access by (rule reach_step)
  have q: "spin_reachable (acquire h l s)" if "spin_reachable s" "pcs s h = Outside" for h l s
    using that spin_step.step_acquire by (blast intro: reach_step)
  have r: "spin_reachable demo_spin" unfolding demo_spin_def
    by (intro a q reach_boot) (simp_all add: defs)
  have o: "owns demo_spin 0 7" "pcs demo_spin 1 = Swap 7" "pcs demo_spin 0 = Outside"
    by (simp_all add: owns_def demo_spin_def defs)
  show ?thesis using spinlock_mutual_exclusion [OF r, of 0 7 1] r o by auto
qed

end
