(* ===== verification/Grep.thy ===== *)
theory Grep
  imports Ulib
begin

text \<open>
  \<^verbatim>\<open>user/grep.c\<close>: the pattern matcher and the loop that cuts the input into lines.  The matcher is compared with a reference
  that says what a pattern means, and the loop with filtering the lines of the whole input, however the input arrives.
\<close>

section \<open>The matcher\<close>

function (sequential) matchhere :: "byte list \<Rightarrow> byte list \<Rightarrow> bool"
  and matchstar :: "byte \<Rightarrow> byte list \<Rightarrow> byte list \<Rightarrow> bool" where
  "matchhere [] str = True"
| "matchhere (c # re) str =
     (if hd0 re = 42 then matchstar c (tl re) str
      else if c = 36 \<and> re = [] then str = []
      else case str of [] \<Rightarrow> False | t # ts \<Rightarrow> if c = 46 \<or> c = t then matchhere re ts else False)"
| "matchstar c re str =
     (if matchhere re str then True
      else case str of [] \<Rightarrow> False | t # ts \<Rightarrow> if t = c \<or> c = 46 then matchstar c re ts else False)"
  by pat_completeness auto
termination
  by (relation "measure (\<lambda>x. case x of Inl (re, str) \<Rightarrow> 2 * (length re + length str)
      | Inr (c, re, str) \<Rightarrow> 2 * (length re + length str) + 1)") (auto simp: hd0_def split: list.splits)

declare matchstar.simps [simp del]

fun match_from :: "byte list \<Rightarrow> byte list \<Rightarrow> bool" where
  "match_from re [] = matchhere re []"
| "match_from re (t # ts) = (if matchhere re (t # ts) then True else match_from re ts)"

definition match :: "byte list \<Rightarrow> byte list \<Rightarrow> bool" where
  "match re str = (if hd0 re = 94 then matchhere (tl re) str else match_from re str)"

section \<open>The loop over the input\<close>

text \<open>The inner loop over the buffer: the output, and what is left after the last newline.\<close>

function grep_lines :: "byte list \<Rightarrow> byte list \<Rightarrow> byte list \<times> byte list" where
  "grep_lines pattern p =
     (case strchr p 10 of
        None \<Rightarrow> ([], p)
      | Some q \<Rightarrow>
          let (out, rest) = grep_lines pattern (drop (Suc q) p)
          in ((if match pattern (take q p) then take (Suc q) p else []) @ out, rest))"
  by auto

termination
  by (relation "measure (length \<circ> snd)") (auto dest: strchr_less)

declare grep_lines.simps [simp del]

definition buf_size :: nat where [simp]: "buf_size = 1024"

text \<open>
  The outer loop.  \<open>rd req inp\<close> is the number of bytes a read of \<open>req\<close> bytes delivers when \<open>inp\<close> is left; the buffer holds
  what earlier reads left over.
\<close>

fun grep_loop :: "nat \<Rightarrow> (nat \<Rightarrow> byte list \<Rightarrow> nat) \<Rightarrow> byte list \<Rightarrow> byte list \<Rightarrow> byte list \<Rightarrow> byte list option" where
  "grep_loop 0 rd pattern buf inp = None"
| "grep_loop (Suc fuel) rd pattern buf inp =
     (let n = rd (buf_size - length buf - 1) inp in
      if n > 0 then
        let (out, rest) = grep_lines pattern (buf @ take n inp)
        in map_option (\<lambda>o2. out @ o2) (grep_loop fuel rd pattern rest (drop n inp))
      else Some [])"

definition grep :: "(nat \<Rightarrow> byte list \<Rightarrow> nat) \<Rightarrow> byte list \<Rightarrow> byte list \<Rightarrow> byte list option" where
  "grep rd pattern inp = grep_loop (Suc (length inp)) rd pattern [] inp"

text \<open>What a read promises: nothing only at the end of the input or for an empty request, and never more than asked for.\<close>

definition read_ok :: "(nat \<Rightarrow> byte list \<Rightarrow> nat) \<Rightarrow> bool" where
  "read_ok rd \<longleftrightarrow> (\<forall>req inp. rd req inp \<le> min req (length inp) \<and> (0 < min req (length inp) \<longrightarrow> 0 < rd req inp))"

section \<open>The reference\<close>

datatype atom = One byte | Many byte

fun atoms :: "byte list \<Rightarrow> atom list" where
  "atoms [] = []"
| "atoms [c] = (if c = 36 then [] else [One c])"
| "atoms (c # d # re) = (if d = 42 then Many c # atoms re else One c # atoms (d # re))"

text \<open>Does the pattern end in a dollar that is not starred?\<close>

fun ends_line :: "byte list \<Rightarrow> bool" where
  "ends_line [] = False"
| "ends_line [c] = (c = 36)"
| "ends_line (c # d # re) = (if d = 42 then ends_line re else ends_line (d # re))"

definition accepts :: "byte \<Rightarrow> byte \<Rightarrow> bool" where
  "accepts c t \<longleftrightarrow> c = 46 \<or> c = t"

fun fits :: "atom \<Rightarrow> byte list \<Rightarrow> bool" where
  "fits (One c) w \<longleftrightarrow> (\<exists>t. w = [t] \<and> accepts c t)"
| "fits (Many c) w \<longleftrightarrow> (\<forall>t \<in> set w. accepts c t)"

definition spells :: "atom list \<Rightarrow> byte list \<Rightarrow> bool" where
  "spells as w \<longleftrightarrow> (\<exists>ws. w = concat ws \<and> list_all2 fits as ws)"

definition finds :: "byte list \<Rightarrow> byte list \<Rightarrow> bool" where
  "finds re str \<longleftrightarrow> (let body = (if hd0 re = 94 then tl re else re) in
     \<exists>pre w post. str = pre @ w @ post \<and> spells (atoms body) w \<and> (hd0 re = 94 \<longrightarrow> pre = []) \<and> (ends_line body \<longrightarrow> post = []))"

fun lines_of :: "byte list \<Rightarrow> byte list list \<times> byte list" where
  "lines_of [] = ([], [])"
| "lines_of (c # cs) = (let (ls, rest) = lines_of cs in
     if c = 10 then ([] # ls, rest) else case ls of [] \<Rightarrow> ([], c # rest) | l # ls' \<Rightarrow> ((c # l) # ls', rest))"

section \<open>The matcher finds what the reference says\<close>

lemma spells_Cons: "spells (a # as) w \<longleftrightarrow> (\<exists>u v. w = u @ v \<and> fits a u \<and> spells as v)"
proof
  assume "spells (a # as) w"
  then obtain u ws where "w = concat (u # ws)" "fits a u" "list_all2 fits as ws"
    by (auto simp: spells_def list_all2_Cons1)
  then show "\<exists>u v. w = u @ v \<and> fits a u \<and> spells as v" unfolding spells_def by auto
next
  assume "\<exists>u v. w = u @ v \<and> fits a u \<and> spells as v"
  then obtain u ws where "w = concat (u # ws)" "list_all2 fits (a # as) (u # ws)" by (auto simp: spells_def)
  then show "spells (a # as) w" unfolding spells_def by blast
qed

lemma spells_simps [simp]:
  "spells [] w \<longleftrightarrow> w = []"
  "spells (One c # as) w \<longleftrightarrow> (\<exists>t v. w = t # v \<and> accepts c t \<and> spells as v)"
  "spells (Many c # as) w \<longleftrightarrow> (\<exists>u v. w = u @ v \<and> (\<forall>t \<in> set u. accepts c t) \<and> spells as v)"
proof -
  show "spells [] w \<longleftrightarrow> w = []" by (auto simp: spells_def)
  show "spells (One c # as) w \<longleftrightarrow> (\<exists>t v. w = t # v \<and> accepts c t \<and> spells as v)"
    unfolding spells_Cons fits.simps by (metis append_Cons append_Nil)
  show "spells (Many c # as) w \<longleftrightarrow> (\<exists>u v. w = u @ v \<and> (\<forall>t \<in> set u. accepts c t) \<and> spells as v)"
    unfolding spells_Cons fits.simps ..
qed

definition here :: "byte list \<Rightarrow> byte list \<Rightarrow> bool" where
  "here re str \<longleftrightarrow> (\<exists>w post. str = w @ post \<and> spells (atoms re) w \<and> (ends_line re \<longrightarrow> post = []))"

lemma atoms_star: "hd0 re = 42 \<Longrightarrow> atoms (c # re) = Many c # atoms (tl re) \<and> ends_line (c # re) = ends_line (tl re)"
  by (cases re) auto

lemma atoms_one:
  "hd0 re \<noteq> 42 \<Longrightarrow> \<not> (c = 36 \<and> re = []) \<Longrightarrow> atoms (c # re) = One c # atoms re \<and> ends_line (c # re) = ends_line re"
  by (cases re) auto

lemma hereE:
  assumes "here re str"
  obtains w post where "str = w @ post" "spells (atoms re) w" "ends_line re \<longrightarrow> post = []"
  using assms unfolding here_def by blast

lemma hereI: "str = w @ post \<Longrightarrow> spells (atoms re) w \<Longrightarrow> ends_line re \<longrightarrow> post = [] \<Longrightarrow> here re str"
  unfolding here_def by blast

lemma here_star:
  assumes "hd0 re = 42"
  shows "here (c # re) str \<longleftrightarrow> (\<exists>u v. str = u @ v \<and> (\<forall>t \<in> set u. accepts c t) \<and> here (tl re) v)"
proof
  note A = atoms_star [OF assms, of c]
  assume "here (c # re) str"
  then obtain w post where w: "str = w @ post" "spells (atoms (c # re)) w" "ends_line (c # re) \<longrightarrow> post = []" by (rule hereE)
  then obtain u v where u: "w = u @ v" "\<forall>t \<in> set u. accepts c t" "spells (atoms (tl re)) v" using A by auto
  have "here (tl re) (v @ post)" using hereI [OF refl u(3)] w(3) A by blast
  then show "\<exists>u v. str = u @ v \<and> (\<forall>t \<in> set u. accepts c t) \<and> here (tl re) v"
    using u(1,2) w(1) by (intro exI [of _ u] exI [of _ "v @ post"]) simp
next
  note A = atoms_star [OF assms, of c]
  assume "\<exists>u v. str = u @ v \<and> (\<forall>t \<in> set u. accepts c t) \<and> here (tl re) v"
  then obtain u v where u: "str = u @ v" "\<forall>t \<in> set u. accepts c t" "here (tl re) v" by blast
  then obtain w post where w: "v = w @ post" "spells (atoms (tl re)) w" "ends_line (tl re) \<longrightarrow> post = []" by (blast elim: hereE)
  then have "spells (atoms (c # re)) (u @ w)" using u(2) A by auto
  then show "here (c # re) str" using u(1) w(1,3) A by (intro hereI [of str "u @ w" post]) simp_all
qed

lemma here_one:
  assumes "hd0 re \<noteq> 42" "\<not> (c = 36 \<and> re = [])"
  shows "here (c # re) str \<longleftrightarrow> (\<exists>t ts. str = t # ts \<and> accepts c t \<and> here re ts)"
proof
  note A = atoms_one [OF assms]
  assume "here (c # re) str"
  then obtain w post where w: "str = w @ post" "spells (atoms (c # re)) w" "ends_line (c # re) \<longrightarrow> post = []" by (rule hereE)
  then obtain t v where u: "w = t # v" "accepts c t" "spells (atoms re) v" using A by auto
  have "here re (v @ post)" using hereI [OF refl u(3)] w(3) A by blast
  then show "\<exists>t ts. str = t # ts \<and> accepts c t \<and> here re ts" using u(1,2) w(1) by simp
next
  note A = atoms_one [OF assms]
  assume "\<exists>t ts. str = t # ts \<and> accepts c t \<and> here re ts"
  then obtain t ts where u: "str = t # ts" "accepts c t" "here re ts" by blast
  then obtain w post where w: "ts = w @ post" "spells (atoms re) w" "ends_line re \<longrightarrow> post = []" by (blast elim: hereE)
  then have "spells (atoms (c # re)) (t # w)" using u(2) A by auto
  then show "here (c # re) str" using u(1) w(1,3) A by (intro hereI [of str "t # w" post]) simp_all
qed

lemma many_step:
  "(\<exists>u v. str = u @ v \<and> (\<forall>t \<in> set u. P t) \<and> Q v) \<longleftrightarrow>
     Q str \<or> (case str of [] \<Rightarrow> False | t # ts \<Rightarrow> P t \<and> (\<exists>u v. ts = u @ v \<and> (\<forall>t \<in> set u. P t) \<and> Q v))"
  (is "?L \<longleftrightarrow> ?R")
proof
  assume ?L
  then obtain u v where u: "str = u @ v" "\<forall>t \<in> set u. P t" "Q v" by blast
  then show ?R by (cases u) auto
next
  assume r: ?R
  show ?L
  proof (cases "Q str")
    case True
    then show ?thesis by (intro exI [of _ "[]"] exI [of _ str]) simp
  next
    case False
    then obtain t u v where "str = t # u @ v" "P t" "\<forall>t \<in> set u. P t" "Q v" using r by (auto split: list.splits)
    then show ?thesis by (intro exI [of _ "t # u"] exI [of _ v]) simp
  qed
qed

lemma matchhere_iff:
  "matchhere re str \<longleftrightarrow> here re str"
  "matchstar c re str \<longleftrightarrow> (\<exists>u v. str = u @ v \<and> (\<forall>t \<in> set u. accepts c t) \<and> here re v)"
proof (induction re str and c re str rule: matchhere_matchstar.induct)
  case (1 str)
  show ?case by (simp add: here_def)
next
  case (2 c re str)
  consider "hd0 re = 42" | "hd0 re \<noteq> 42" "c = 36" "re = []" | "hd0 re \<noteq> 42" "\<not> (c = 36 \<and> re = [])" by blast
  then show ?case
  proof cases
    case 1
    then show ?thesis using 2(1) here_star by simp
  next
    case 2
    then show ?thesis by (simp add: here_def)
  next
    case 3
    then show ?thesis using 2(2) [OF 3] here_one [OF 3, of str] by (auto simp: accepts_def split: list.splits)
  qed
next
  case (3 c re str)
  show ?case unfolding many_step [of str] matchstar.simps [of c re str] using 3 by (auto simp: accepts_def split: list.splits)
qed

lemma match_from_iff: "match_from re str \<longleftrightarrow> (\<exists>pre v. str = pre @ v \<and> here re v)"
proof (induction str)
  case (Cons t ts)
  have "(\<exists>pre v. t # ts = pre @ v \<and> here re v) \<longleftrightarrow> here re (t # ts) \<or> (\<exists>pre v. ts = pre @ v \<and> here re v)"
    using many_step [of "t # ts" "\<lambda>_. True" "here re"] by simp
  then show ?case using Cons by (simp add: matchhere_iff)
qed (simp add: matchhere_iff)

lemma match_finds: "match re str = finds re str"
proof -
  have "(\<exists>pre w post. str = pre @ w @ post \<and> P w post \<and> pre = []) \<longleftrightarrow> (\<exists>w post. str = w @ post \<and> P w post)" for P by auto
  then show ?thesis
    by (auto simp: match_def finds_def Let_def matchhere_iff match_from_iff here_def)
qed

section \<open>The loop prints the lines that match\<close>

lemma lines_of_open: "10 \<notin> set l \<Longrightarrow> lines_of l = ([], l)"
  by (induction l) auto

lemma lines_of_line:
  assumes "10 \<notin> set l" "lines_of xs = (ls, r)"
  shows "lines_of (l @ 10 # xs) = (l # ls, r)"
  using assms by (induction l) (auto split: list.splits)

lemma lines_of_rest: "lines_of xs = (ls, r) \<Longrightarrow> 10 \<notin> set r \<and> set r \<subseteq> set xs \<and> length r \<le> length xs"
proof (induction xs arbitrary: ls r)
  case (Cons c xs)
  obtain ls' r' where "lines_of xs = (ls', r')" by (metis surj_pair)
  then show ?case using Cons by (auto split: if_splits list.splits)
qed simp

lemma lines_of_append:
  assumes "lines_of xs = (ls, r)" "lines_of (r @ ys) = (ls2, r2)"
  shows "lines_of (xs @ ys) = (ls @ ls2, r2)"
  using assms
proof (induction xs arbitrary: ls r ls2 r2)
  case (Cons c xs)
  obtain ls' r' where l: "lines_of xs = (ls', r')" by (metis surj_pair)
  obtain ls3 r3 where m: "lines_of (r' @ ys) = (ls3, r3)" by (metis surj_pair)
  note IH = Cons.IH [OF l m]
  consider "c = 10" | "c \<noteq> 10" "ls' = []" | l0 ls0 where "c \<noteq> 10" "ls' = l0 # ls0" by (cases ls') auto
  then show ?case
  proof cases
    case 1
    then show ?thesis using Cons.prems IH l m by auto
  next
    case 2
    then show ?thesis using Cons.prems IH l m by (auto split: list.splits)
  next
    case 3
    then show ?thesis using Cons.prems IH l m by auto
  qed
qed auto

definition printed :: "byte list \<Rightarrow> byte list list \<Rightarrow> byte list" where
  "printed re ls = concat (map (\<lambda>l. l @ [10]) (filter (finds re) ls))"

lemma printed_append: "printed re (xs @ ys) = printed re xs @ printed re ys"
  by (simp add: printed_def)

lemma grep_lines_ok:
  assumes "0 \<notin> set p" "lines_of p = (ls, r)"
  shows "grep_lines re p = (printed re ls, r)"
  using assms
proof (induction re p arbitrary: ls r rule: grep_lines.induct)
  case (1 re p)
  show ?case
  proof (cases "strchr p 10")
    case None
    then have "10 \<notin> set p" using 1(2) by (simp add: strchr_None)
    then have "ls = []" "r = p" using 1(3) lines_of_open by simp_all
    then show ?thesis using None by (simp add: grep_lines.simps [of re p] printed_def)
  next
    case (Some q)
    then have q: "q < length p" "p ! q = 10" "10 \<notin> set (take q p)" using strchr_Some [OF 1(2)] by auto
    then have p: "p = take q p @ 10 # drop (Suc q) p" by (metis id_take_nth_drop)
    obtain ls' r' where l: "lines_of (drop (Suc q) p) = (ls', r')" by (metis surj_pair)
    have "lines_of p = (take q p # ls', r')" by (subst p) (rule lines_of_line [OF q(3) l])
    then have ls: "ls = take q p # ls'" "r = r'" using 1(3) by simp_all
    have "0 \<notin> set (drop (Suc q) p)" using 1(2) by (meson in_set_dropD)
    then have "grep_lines re (drop (Suc q) p) = (printed re ls', r')" using 1(1) [OF Some _ l] by simp
    moreover have "take (Suc q) p = take q p @ [10]" using q(1,2) by (simp add: take_Suc_conv_app_nth)
    ultimately show ?thesis using Some ls by (simp add: grep_lines.simps [of re p] match_finds printed_def)
  qed
qed

lemma first_line_long:
  assumes "10 \<notin> set b" "lines_of (b @ xs) = (l # ls, r)"
  shows "length b \<le> length l"
proof -
  obtain ls' r' where x: "lines_of xs = (ls', r')" by (metis surj_pair)
  have "lines_of (b @ xs) = (case ls' of [] \<Rightarrow> ([], b @ r') | l # ls' \<Rightarrow> ((b @ l) # ls', r'))"
    using assms(1) x by (induction b) (auto split: list.splits)
  then show ?thesis using assms(2) by (auto split: list.splits)
qed

lemma lines_of_short:
  assumes "lines_of xs = (ls, r)" "l \<in> set ls"
  shows "length l < length xs"
  using assms
proof (induction xs arbitrary: ls r l)
  case (Cons x xs)
  obtain ls' r' where x: "lines_of xs = (ls', r')" by (metis surj_pair)
  have "length y < length xs" "length y < Suc (length xs)" if "y \<in> set ls'" for y using Cons.IH [OF x that] by simp_all
  then show ?case using Cons.prems x by (auto split: if_splits list.splits)
qed simp

lemma grep_loop_ok:
  assumes "read_ok rd" "0 \<notin> set (buf @ inp)" "10 \<notin> set buf" "length buf < buf_size" "length inp < fuel"
    and "lines_of (buf @ inp) = (ls, r)"
  shows "grep_loop fuel rd re buf inp = Some (printed re (takeWhile (\<lambda>l. length l < buf_size - 1) ls))"
  using assms
proof (induction fuel arbitrary: buf inp ls r)
  case (Suc fuel)
  let ?req = "buf_size - length buf - 1"
  let ?n = "rd ?req inp"
  have n: "?n \<le> ?req" "?n \<le> length inp" "?n = 0 \<Longrightarrow> ?req = 0 \<or> inp = []" 
    using Suc.prems(1) [unfolded read_ok_def, rule_format, of ?req inp] by auto
  show ?case
  proof (cases "?n = 0")
    case True
    have "takeWhile (\<lambda>l. length l < buf_size - 1) ls = []"
    proof (cases "inp = []")
      case True
      then show ?thesis using Suc.prems(3,6) lines_of_open [of buf] by simp
    next
      case False
      then have "length buf = buf_size - 1" using n(3) True Suc.prems(4) by simp
      then show ?thesis using first_line_long [OF Suc.prems(3)] Suc.prems(6) by (cases ls) fastforce+
    qed
    then show ?thesis using True by (simp add: printed_def)
  next
    case False
    let ?p = "buf @ take ?n inp"
    obtain l1 r1 where l1: "lines_of ?p = (l1, r1)" by (metis surj_pair)
    obtain l2 r2 where l2: "lines_of (r1 @ drop ?n inp) = (l2, r2)" by (metis surj_pair)
    have "lines_of (?p @ drop ?n inp) = (l1 @ l2, r2)" by (rule lines_of_append [OF l1 l2])
    then have ls: "ls = l1 @ l2" using Suc.prems(6) by simp
    have r1: "10 \<notin> set r1" "set r1 \<subseteq> set ?p" "length r1 < buf_size" using lines_of_rest [OF l1] n(1) Suc.prems(4) by auto
    have z1: "0 \<notin> set ?p" using Suc.prems(2) by (auto dest: in_set_takeD)
    have z2: "0 \<notin> set (r1 @ drop ?n inp)" using Suc.prems(2) subsetD [OF r1(2)] z1 by (auto dest: in_set_dropD)
    have "grep_loop fuel rd re r1 (drop ?n inp) = Some (printed re (takeWhile (\<lambda>l. length l < buf_size - 1) l2))"
      using Suc.IH [OF Suc.prems(1) z2 r1(1,3) _ l2] Suc.prems(5) False n(2) by simp
    moreover have "takeWhile (\<lambda>l. length l < buf_size - 1) ls = l1 @ takeWhile (\<lambda>l. length l < buf_size - 1) l2"
      unfolding ls using lines_of_short [OF l1] n(1) Suc.prems(4) by (intro takeWhile_append2) fastforce
    ultimately show ?thesis using False grep_lines_ok [OF z1 l1] by (simp add: printed_append)
  qed
qed simp


text \<open>C37. For every pattern, every input without null bytes and every way of cutting it into reads, \<open>grep\<close> ends, and it prints, in order and each
  with its newline, exactly those lines that contain a match, up to the first line that does not fit the buffer, that is, has 1023 bytes or more;
  that line and everything after it is dropped without a message.  What a match is, is the reference semantics of patterns (literal characters, a
  dot, a starred character, anchors).\<close>

theorem grep_prints_matches:
  assumes "read_ok rd" "0 \<notin> set inp" "lines_of inp = (ls, rest)"
  shows "grep rd re inp = Some (concat (map (\<lambda>l. l @ [10]) (filter (finds re) (takeWhile (\<lambda>l. length l < buf_size - 1) ls))))"
  using grep_loop_ok [OF assms(1), of "[]" inp "Suc (length inp)" ls rest re] assms(2,3)
  by (simp add: grep_def printed_def)

text \<open>The pattern \<open>^a*b$\<close> on three lines that arrive one byte at a time.\<close>

theorem grep_prints_matches_witness:
  "grep (\<lambda>req inp. min 1 (min req (length inp))) [94, 97, 42, 98, 36] [97, 97, 98, 10, 98, 97, 10, 98, 10] = Some [97, 97, 98, 10, 98, 10]"
proof -
  let ?ls = "[[97, 97, 98], [98, 97], [98]] :: byte list list"
  have l: "lines_of [97, 97, 98, 10, 98, 97, 10, 98, 10] = (?ls, [])" by simp
  have f: "filter (finds [94, 97, 42, 98, 36]) ?ls = [[97, 97, 98], [98]]"
    by (simp flip: match_finds) (simp add: match_def matchstar.simps)
  have "read_ok (\<lambda>req inp. min 1 (min req (length inp)))" by (auto simp: read_ok_def)
  moreover have t: "takeWhile (\<lambda>l. length l < buf_size - 1) ?ls = ?ls" by simp
  ultimately show ?thesis using grep_prints_matches [OF _ _ l, of _ "[94, 97, 42, 98, 36]"] unfolding t f by simp
qed

end
