(* ===== verification/Printf.thy ===== *)
theory Printf
  imports Line_Edit
begin

text \<open>
  Formatted output of the user programs (\<^verbatim>\<open>user/printf.c\<close>), which shares the number routines with the kernel's \<open>printf\<close>, and what
  both print.  The kernel's characters go to \<open>consputc\<close>, the user's to \<open>write\<close>.
\<close>

definition u_digits :: "byte list" where
  "u_digits = [48, 49, 50, 51, 52, 53, 54, 55, 56, 57, 65, 66, 67, 68, 69, 70]"

section \<open>The user's format loop\<close>

text \<open>\<open>pct\<close> is the state after a percent sign, \<open>k\<close> the number of arguments used.\<close>

function (sequential) vprintf_loop ::
  "byte list \<Rightarrow> (addr \<Rightarrow> byte list) \<Rightarrow> (nat \<Rightarrow> 64 word) \<Rightarrow> byte list \<Rightarrow> bool \<Rightarrow> nat \<Rightarrow> byte list" where
  "vprintf_loop ds str ap [] pct k = []"
| "vprintf_loop ds str ap (c0 # fmt) False k =
     (if c0 = 37 then vprintf_loop ds str ap fmt True k else c0 # vprintf_loop ds str ap fmt False k)"
| "vprintf_loop ds str ap (c0 # fmt) True k =
     (let c1 = hd0 fmt; c2 = (if c1 \<noteq> 0 then hd0 (tl fmt) else 0) in
      if c0 = 100 then printint ds (arg_int (ap k)) 10 True @ vprintf_loop ds str ap fmt False (Suc k)
      else if c0 = 108 \<and> c1 = 100 then printint ds (ap k) 10 True @ vprintf_loop ds str ap (drop 1 fmt) False (Suc k)
      else if c0 = 108 \<and> c1 = 108 \<and> c2 = 100 then printint ds (ap k) 10 True @ vprintf_loop ds str ap (drop 2 fmt) False (Suc k)
      else if c0 = 117 then printint ds (arg_uint32 (ap k)) 10 False @ vprintf_loop ds str ap fmt False (Suc k)
      else if c0 = 108 \<and> c1 = 117 then printint ds (ap k) 10 False @ vprintf_loop ds str ap (drop 1 fmt) False (Suc k)
      else if c0 = 108 \<and> c1 = 108 \<and> c2 = 117 then printint ds (ap k) 10 False @ vprintf_loop ds str ap (drop 2 fmt) False (Suc k)
      else if c0 = 120 then printint ds (arg_uint32 (ap k)) 16 False @ vprintf_loop ds str ap fmt False (Suc k)
      else if c0 = 108 \<and> c1 = 120 then printint ds (ap k) 16 False @ vprintf_loop ds str ap (drop 1 fmt) False (Suc k)
      else if c0 = 108 \<and> c1 = 108 \<and> c2 = 120 then printint ds (ap k) 16 False @ vprintf_loop ds str ap (drop 2 fmt) False (Suc k)
      else if c0 = 112 then printptr ds (ap k) @ vprintf_loop ds str ap fmt False (Suc k)
      else if c0 = 99 then ucast (ap k) # vprintf_loop ds str ap fmt False (Suc k)
      else if c0 = 115 then arg_str str (ap k) @ vprintf_loop ds str ap fmt False (Suc k)
      else if c0 = 37 then 37 # vprintf_loop ds str ap fmt False k
      else 37 # c0 # vprintf_loop ds str ap fmt False k)"
  by pat_completeness auto
termination
  by (relation "measure (\<lambda>(ds, str, ap, fmt, pct, k). length fmt)") auto

definition vprintf :: "(addr \<Rightarrow> byte list) \<Rightarrow> (nat \<Rightarrow> 64 word) \<Rightarrow> byte list \<Rightarrow> byte list" where
  "vprintf str ap fmt = vprintf_loop u_digits str ap fmt False 0"

section \<open>Printed numbers\<close>

text \<open>The number a sequence of digits denotes, least digit first.\<close>

fun of_digits :: "nat \<Rightarrow> nat list \<Rightarrow> nat" where
  "of_digits b [] = 0"
| "of_digits b (i # is) = i + b * of_digits b is"

lemma digit_loop_ok:
  assumes "2 \<le> unat base" "unat x < unat base ^ fuel" "0 < fuel"
  shows "\<exists>is. digit_loop fuel ds x base = map ((!) ds) is \<and> is \<noteq> [] \<and> list_all (\<lambda>i. i < unat base) is \<and> of_digits (unat base) is = unat x \<and>
    (1 < length is \<longrightarrow> last is \<noteq> 0 \<and> unat base ^ (length is - 1) \<le> unat x)"
  using assms
proof (induction fuel arbitrary: x)
  case (Suc fuel)
  let ?b = "unat base"
  have m: "unat (x mod base) = unat x mod ?b" "unat (x div base) = unat x div ?b" by (simp_all add: unat_mod unat_div)
  have b: "unat x mod ?b < ?b" using Suc.prems(1) by simp
  show ?case
  proof (cases "x div base = 0")
    case True
    then have "unat x div ?b = 0" using m(2) by simp
    then have "unat x mod ?b = unat x" using Suc.prems(1) by (simp add: div_eq_0_iff)
    then show ?thesis using True b m by (intro exI [of _ "[unat x mod ?b]"]) simp
  next
    case False
    have d: "unat x div ?b \<noteq> 0" using False m(2) by (metis unat_eq_zero)
    have "unat (x div base) < ?b ^ fuel" unfolding m(2) using Suc.prems(1,2) by (simp add: less_mult_imp_div_less mult.commute)
    moreover from this d have "0 < fuel" unfolding m(2) by (cases fuel) auto
    ultimately obtain js where js: "digit_loop fuel ds (x div base) base = map ((!) ds) js" "js \<noteq> []" "list_all (\<lambda>i. i < ?b) js"
      "of_digits ?b js = unat x div ?b" "1 < length js \<longrightarrow> last js \<noteq> 0 \<and> ?b ^ (length js - 1) \<le> unat x div ?b"
      using Suc.IH [OF Suc.prems(1)] m(2) by metis
    have l: "last js \<noteq> 0 \<and> ?b ^ (length js - 1) \<le> unat x div ?b"
    proof (cases "1 < length js")
      case False
      then obtain j where "js = [j]" using js(2) by (cases js) auto
      then show ?thesis using js(4) d by simp
    qed (use js(5) in blast)
    have "?b ^ length js = ?b * ?b ^ (length js - 1)" using js(2) by (cases js) simp_all
    also have "\<dots> \<le> ?b * (unat x div ?b)" using l by simp
    also have "\<dots> \<le> unat x" by simp
    finally have "?b ^ length js \<le> unat x" .
    then show ?thesis using False b m js l by (intro exI [of _ "(unat x mod ?b) # js"]) simp
  qed
qed simp

lemma of_digits_rev: "foldl (\<lambda>v i. v * b + i) 0 (rev is) = of_digits b is"
  by (simp add: foldl_conv_foldr) (induction "is"; simp add: algebra_simps)

lemma unat_neg:
  assumes "sint (xx :: 64 word) < 0"
  shows "unat (- xx) = nat (- sint xx)" "nat (- sint xx) \<le> 2 ^ 63"
proof -
  have lo: "- (2 ^ 63) \<le> sint xx" using sint_ge [of xx] by simp
  have "- xx = word_of_int (- sint xx)" by simp
  then have "uint (- xx) = uint (word_of_int (- sint xx) :: 64 word)" by (rule arg_cong)
  also have "\<dots> = take_bit 64 (- sint xx)" by (simp only: unsigned_of_int) simp
  also have "\<dots> = - sint xx" using lo assms by (intro take_bit_int_eq_self) simp_all
  finally show "unat (- xx) = nat (- sint xx)" by (metis nat_uint_eq)
  show "nat (- sint xx) \<le> 2 ^ 63" using lo by simp
qed

lemma printint_ok:
  assumes "base = 10 \<or> base = 16" "neg = (sign \<and> sint xx < 0)"
  shows "\<exists>is. printint ds xx base sign = (if neg then [45] else []) @ map ((!) ds) is \<and> is \<noteq> [] \<and> list_all (\<lambda>i. i < unat base) is \<and>
    foldl (\<lambda>v i. v * unat base + i) 0 is = (if neg then nat (- sint xx) else unat xx) \<and> (1 < length is \<longrightarrow> hd is \<noteq> 0) \<and>
    length (printint ds xx base sign) \<le> 20"
proof -
  let ?x = "if neg then - xx else xx" and ?b = "unat base"
  have b: "?b = 10 \<or> ?b = 16" using assms(1) by auto
  have x: "unat ?x < 2 ^ 64" "neg \<Longrightarrow> unat ?x \<le> 2 ^ 63" using unsigned_less [of ?x, where 'a = nat] unat_neg [of xx] assms(2) by auto
  have "(2 :: nat) ^ 64 \<le> ?b ^ 64" using b by (intro power_mono) auto
  then have "unat ?x < ?b ^ 64" using x(1) by linarith
  then obtain js where js: "digit_loop 64 ds ?x base = map ((!) ds) js" "js \<noteq> []" "list_all (\<lambda>i. i < ?b) js" "of_digits ?b js = unat ?x"
    "1 < length js \<longrightarrow> last js \<noteq> 0 \<and> ?b ^ (length js - 1) \<le> unat ?x"
    using digit_loop_ok [of base ?x 64 ds] b by auto
  have out: "printint ds xx base sign = (if neg then [45] else []) @ map ((!) ds) (rev js)"
    using js(1) assms(2) by (simp add: printint_def Let_def rev_map)
  have "length (printint ds xx base sign) \<le> 20"
  proof (rule ccontr)
    assume "\<not> length (printint ds xx base sign) \<le> 20"
    then have l: "(if neg then 19 else 20) \<le> length js - 1" "1 < length js" unfolding out by (auto split: if_splits)
    have "(10 :: nat) ^ (if neg then 19 else 20) \<le> ?b ^ (length js - 1)"
      using b l(1) by (intro order_trans [OF power_increasing [OF l(1)] power_mono]) auto
    also have "\<dots> \<le> unat ?x" using js(5) l(2) by blast
    finally have f: "(10 :: nat) ^ (if neg then 19 else 20) \<le> unat ?x" .
    show False
    proof (cases neg)
      case False
      have "(2 :: nat) ^ 64 < 10 ^ 20" by simp
      then show ?thesis using f x(1) False by (metis (full_types) leD order_le_less_trans order_less_imp_le)
    qed (use f x(2) in simp)
  qed
  then show ?thesis using js out unat_neg [of xx] assms(2) of_digits_rev [of ?b js]
    by (intro exI [of _ "rev js"]) (auto simp: hd_rev list_all_rev)
qed

lemma atoi_loop_digits:
  assumes "\<And>i. i < 10 \<Longrightarrow> ds ! i = 48 + of_nat i" "list_all (\<lambda>i. i < 10) is"
  shows "atoi_loop (of_nat v) (map ((!) ds) is) = of_nat (foldl (\<lambda>v i. v * 10 + i) v is)"
  using assms(2)
proof (induction "is" arbitrary: v)
  case (Cons i "is")
  have i: "i < 10" "ds ! i = 48 + of_nat i" using Cons.prems assms(1) by auto
  have "i \<in> {0, 1, 2, 3, 4, 5, 6, 7, 8, 9}" using i(1) by auto
  then have r: "48 \<le> ds ! i" "ds ! i \<le> 57" "ucast (ds ! i) = (48 + of_nat i :: uint)" using i(2) by auto
  then show ?case using Cons r by (simp flip: Cons.IH)
qed simp

lemma digit_bytes: "i < 10 \<Longrightarrow> digits ! i = 48 + of_nat i" "i < 10 \<Longrightarrow> u_digits ! i = 48 + of_nat i"
proof -
  assume "i < 10"
  then have "i \<in> {0, 1, 2, 3, 4, 5, 6, 7, 8, 9}" by auto
  then show "digits ! i = 48 + of_nat i" "u_digits ! i = 48 + of_nat i" by (auto simp: digits_def u_digits_def)
qed

text \<open>C40. Printed numbers are right and fit: for every 64-bit value, base 10 or 16 and signedness, \<open>printint\<close> writes a minus sign exactly for a
  negative signed value, then digits without leading zeros that denote the value, and never more than the twenty characters of its buffer.
  An \<^verbatim>\<open>int\<close> printed in decimal by either \<open>printint\<close> is read back by \<open>atoi\<close> when it is not negative; a negative one is read as 0, since \<open>atoi\<close>
  stops at the minus sign.\<close>

theorem printint_roundtrip:
  assumes "base = 10 \<or> base = 16"
  shows "(let neg = (sign \<and> sint xx < 0) in
     \<exists>is. printint ds xx base sign = (if neg then [45] else []) @ map ((!) ds) is \<and> is \<noteq> [] \<and> list_all (\<lambda>i. i < unat base) is \<and>
       foldl (\<lambda>v i. v * unat base + i) 0 is = (if neg then nat (- sint xx) else unat xx) \<and> (1 < length is \<longrightarrow> hd is \<noteq> 0)) \<and>
    length (printint ds xx base sign) \<le> 20 \<and>
    (- (2 ^ 31) \<le> n \<and> n < 2 ^ 31 \<longrightarrow> atoi (printint digits (word_of_int n) 10 True) = (if n < 0 then 0 else n) \<and>
      atoi (printint u_digits (word_of_int n) 10 True) = (if n < 0 then 0 else n))"
proof -
  have at: "atoi (printint ds (word_of_int n) 10 True) = n"
    if n: "0 \<le> n" "n < 2 ^ 31" and ds: "\<And>i. i < 10 \<Longrightarrow> ds ! i = 48 + of_nat i" for ds
  proof -
    let ?x = "word_of_int n :: 64 word"
    have s: "sint ?x = n" using n by (simp add: signed_of_int signed_take_bit_int_eq_self)
    have u: "unat ?x = nat n" using n by (simp add: unsigned_of_int take_bit_int_eq_self)
    obtain "is" where i: "printint ds ?x 10 True = map ((!) ds) is" "list_all (\<lambda>i. i < 10) is" "foldl (\<lambda>v i. v * 10 + i) 0 is = nat n"
      using printint_ok [of 10 "sint ?x < 0" True ?x ds] s u n by auto
    have "atoi_loop 0 (printint ds ?x 10 True) = of_nat (nat n)"
      using atoi_loop_digits [OF ds i(2), of 0] i(1,3) by simp
    also have "\<dots> = word_of_int n" using n by simp
    finally show ?thesis using n by (simp add: atoi_def signed_of_int signed_take_bit_int_eq_self)
  qed
  have neg: "atoi (printint ds (word_of_int n) 10 True) = 0" if n: "- (2 ^ 31) \<le> n" "n < 0" for ds
  proof -
    let ?x = "word_of_int n :: 64 word"
    have "sint ?x < 0" using n by (simp add: signed_of_int signed_take_bit_int_eq_self)
    then obtain bs where "printint ds ?x 10 True = 45 # bs" using printint_ok [of 10 "sint ?x < 0" True ?x ds] by auto
    then show ?thesis by (simp add: atoi_def)
  qed
  have "atoi (printint ds (word_of_int n) 10 True) = (if n < 0 then 0 else n)"
    if "- (2 ^ 31) \<le> n" "n < 2 ^ 31" "ds = digits \<or> ds = u_digits" for ds
    using at [of ds] neg [of ds] digit_bytes that by (cases "n < 0") auto
  then show ?thesis using printint_ok [OF assms refl, where sign = sign and xx = xx and ds = ds] unfolding Let_def by blast
qed

theorem printint_roundtrip_witness:
  "atoi (printint digits (word_of_int 1205) 10 True) = 1205 \<and> atoi (printint digits (word_of_int (- 5)) 10 True) = 0 \<and> length (printint digits (- (2 ^ 63)) 10 True) \<le> 20"
  using printint_roundtrip [of 10 True "- (2 ^ 63)" digits 1205] printint_roundtrip [of 10 True 0 digits "- 5"] by auto

section \<open>The two format loops agree\<close>

lemma word_of_arg: "scast (ucast (w :: 64 word) :: uint) = (ucast w :: byte)"
  by (rule bit_word_eqI) (auto simp: bit_simps)

lemma printf_loop_same:
  assumes "0 \<notin> set fmt"
  shows "map word_of_int (printf_loop ds str ap fmt k) = vprintf_loop ds str ap fmt False k"
  using assms
proof (induction "length fmt" arbitrary: fmt k rule: less_induct)
  case less
  show ?case
  proof (cases fmt)
    case (Cons cx rest)
    have H: "map word_of_int (printf_loop ds str ap (drop j rest) k) = vprintf_loop ds str ap (drop j rest) False k" for j k
    proof (rule less.hyps)
      show "length (drop j rest) < length fmt" using Cons by simp
      show "0 \<notin> set (drop j rest)" using less.prems Cons in_set_dropD by fastforce
    qed
    show ?thesis
    proof (cases "cx = 37 \<and> rest \<noteq> []")
      case False
      then show ?thesis using Cons H [of 0] by (cases rest) auto
    next
      case True
      then obtain c0 r where r: "rest = c0 # r" by (cases rest) auto
      have c0: "c0 \<noteq> 0" using less.prems Cons r by simp
      have H1: "map word_of_int (printf_loop ds str ap r k) = vprintf_loop ds str ap r False k" for k using H [of 1] r by simp
      have H2: "map word_of_int (printf_loop ds str ap (drop j r) k) = vprintf_loop ds str ap (drop j r) False k" for j k
        using H [of "Suc j"] r by simp
      have k: "printf_loop ds str ap fmt k = printf_loop ds str ap (37 # c0 # r) k"
        "vprintf_loop ds str ap fmt False k = vprintf_loop ds str ap (c0 # r) True k" using True Cons r by simp_all
      show ?thesis unfolding k printf_loop.simps(2) [of ds str ap 37] vprintf_loop.simps(3) Let_def
        by (simp add: c0 H1 H2 word_of_arg if_distrib [of "map word_of_int"] cong: if_cong del: printf_loop.simps vprintf_loop.simps)
    qed
  qed simp
qed

lemma printf_no_backspace:
  assumes "\<And>k. (ucast (ap k) :: uint) \<noteq> 0x100"
  shows "256 \<notin> set (printf_loop ds str ap fmt k)"
proof (induction "length fmt" arbitrary: fmt k rule: less_induct)
  case less
  show ?case
  proof (cases fmt)
    case (Cons cx rest)
    have H: "256 \<notin> set (printf_loop ds str ap (drop j rest) k)" for j k using less.hyps [of "drop j rest"] Cons by simp
    have u: "256 \<noteq> uint b" for b :: byte using unsigned_less [of b, where 'a = int] by auto
    have "256 \<noteq> sint (ucast (ap k) :: uint)"
    proof
      assume "256 = sint (ucast (ap k) :: uint)"
      moreover have "word_of_int (sint (ucast (ap k) :: uint)) = (ucast (ap k) :: uint)" by simp
      ultimately have "ucast (ap k) = (0x100 :: uint)" by (metis word_of_int_numeral)
      then show False using assms [of k] by simp
    qed
    then show ?thesis unfolding Cons printf_loop.simps(2) Let_def
      using H [of 0] by (simp add: H u chars_small del: printf_loop.simps)
  qed simp
qed

text \<open>The kernel's \<open>printf\<close> and the user's \<open>vprintf\<close> interpret formats alike: for every format and arguments, what the kernel puts on the serial port
  is what the user's loop writes with the kernel's digits (the two differ only in the case of hexadecimal letters).  The hypothesis leaves out the one
  \<^verbatim>\<open>%c\<close> argument that \<open>consputc\<close> takes for its backspace code.\<close>

theorem printf_like_vprintf:
  assumes "0 \<notin> set fmt" "\<forall>k. (ucast (ap k) :: uint) \<noteq> 0x100"
  shows "uart_out (printf str ap fmt s) = uart_out s @ vprintf_loop digits str ap fmt False 0"
proof -
  have "BACKSPACE \<notin> set (printf_loop digits str ap fmt 0)" using printf_no_backspace [of ap] assms(2) by simp
  then show ?thesis by (simp add: printf_def fold_consputc printf_loop_same [OF assms(1)])
qed

text \<open>The format \<^verbatim>\<open>%d:%x%c\<close> with the arguments 12, 255 and an exclamation mark.\<close>

theorem printf_like_vprintf_witness:
  "uart_out (printf (\<lambda>_. []) (\<lambda>k. [12, 255, 33] ! min k 2) [37, 100, 58, 37, 120, 37, 99] demo_cons) =
     [49, 50, 58, 102, 102, 33]"
proof -
  let ?ap = "\<lambda>k. [12, 255, 33] ! min k 2 :: 64 word"
  have a: "\<forall>k. (ucast (?ap k) :: uint) \<noteq> 0x100"
  proof
    fix k :: nat
    have "min k 2 \<in> {0, 1, 2}" by auto
    then show "(ucast (?ap k) :: uint) \<noteq> 0x100" by auto
  qed
  have v: "vprintf_loop digits (\<lambda>_. []) ?ap [37, 100, 58, 37, 120, 37, 99] False 0 = [49, 50, 58, 102, 102, 33]"
  proof -
    have d: "digit_loop (numeral n) ds x base =
      ds ! unat (x mod base) # (if x div base \<noteq> 0 then digit_loop (pred_numeral n) ds (x div base) base else [])" for n ds x base
      by (simp add: numeral_eq_Suc)
    have p: "printint digits 12 10 True = [49, 50]" "printint digits 255 16 False = [102, 102]"
      by (simp_all add: printint_def digits_def d)
    show ?thesis by (simp add: arg_int_def arg_uint32_def p)
  qed
  have z: "0 \<notin> set [37, 100, 58, 37, 120, 37, 99 :: byte]" by simp
  show ?thesis unfolding printf_like_vprintf [OF z a] v by (simp add: demo_cons_ok(5))
qed

end
