(* ===== verification/Shell.thy ===== *)
theory Shell
  imports Sysfile Ulib
begin

text \<open>
  The shell's parser (\<^verbatim>\<open>user/sh.c\<close>).  The position \<^verbatim>\<open>*ps\<close> in the line is the rest of the line; a token is its bytes, which is what
  \<open>nulterminate\<close> makes of the pair of pointers the source keeps.  The recursive functions carry fuel: \<open>parsecmd\<close> gives
  four units for each byte, one for each of the four functions on the way down.
\<close>

section \<open>Commands\<close>

datatype cmd =
    EXEC "byte list list"
  | REDIR cmd "byte list" uint int
  | PIPE cmd cmd
  | LIST cmd cmd
  | BACK cmd

definition MAXARGS :: nat where [simp]: "MAXARGS = 10"

definition O_RDONLY :: uint where [simp]: "O_RDONLY = 0"

section \<open>Tokens\<close>

definition whitespace :: "byte list" where "whitespace = [32, 9, 13, 10, 11]"
definition symbols :: "byte list" where "symbols = [60, 124, 62, 38, 59, 40, 41]"

definition skip_white :: "byte list \<Rightarrow> byte list" where
  "skip_white s = dropWhile (\<lambda>c. strchr whitespace c \<noteq> None) s"

definition word_char :: "byte \<Rightarrow> bool" where
  "word_char c \<longleftrightarrow> strchr whitespace c = None \<and> strchr symbols c = None"

text \<open>The token code, the token and the rest of the line.\<close>

definition gettoken :: "byte list \<Rightarrow> byte \<times> byte list \<times> byte list" where
  "gettoken s =
     (case skip_white s of
        [] \<Rightarrow> (0, [], [])
      | c # r \<Rightarrow>
          if c = 124 \<or> c = 40 \<or> c = 41 \<or> c = 59 \<or> c = 38 \<or> c = 60 then (c, [c], skip_white r)
          else if c = 62 then (if hd0 r = 62 then (43, [c, c], skip_white (tl r)) else (c, [c], skip_white r))
          else (97, takeWhile word_char (c # r), skip_white (dropWhile word_char (c # r))))"

definition peek :: "byte list \<Rightarrow> byte list \<Rightarrow> bool \<times> byte list" where
  "peek s toks = (let s1 = skip_white s in (s1 \<noteq> [] \<and> hd0 s1 \<noteq> 0 \<and> strchr toks (hd0 s1) \<noteq> None, s1))"

section \<open>The parser\<close>

definition redircmd :: "cmd \<Rightarrow> byte list \<times> uint \<times> int \<Rightarrow> cmd" where
  "redircmd c r = (case r of (file, mode, fd) \<Rightarrow> REDIR c file mode fd)"

text \<open>The redirections read by \<open>parseredirs\<close>, in order.\<close>

fun parseredirs :: "nat \<Rightarrow> byte list \<Rightarrow> ((byte list \<times> uint \<times> int) list \<times> byte list) outcome" where
  "parseredirs 0 s = Hang"
| "parseredirs (Suc fuel) s =
     (let (b, s1) = peek s [60, 62] in
      if b then
        let (tok, _, s2) = gettoken s1; (t2, file, s3) = gettoken s2 in
        if t2 \<noteq> 97 then Panic ''missing file for redirection''
        else obind (parseredirs fuel s3) (\<lambda>(rs, s4).
          Ret ((if tok = 60 then (file, O_RDONLY, 0)
                else if tok = 62 then (file, O_WRONLY OR O_CREATE OR O_TRUNC, 1)
                else (file, O_WRONLY OR O_CREATE, 1)) # rs, s4))
      else Ret ([], s1))"

text \<open>The loop of \<open>parseexec\<close> over the words of a command: the words, the redirections among them, and the rest.\<close>

fun parseargs :: "nat \<Rightarrow> nat \<Rightarrow> byte list \<Rightarrow> (byte list list \<times> (byte list \<times> uint \<times> int) list \<times> byte list) outcome" where
  "parseargs 0 argc s = Hang"
| "parseargs (Suc fuel) argc s =
     (let (b, s1) = peek s [124, 41, 38, 59] in
      if b then Ret ([], [], s1)
      else
        let (tok, q, s2) = gettoken s1 in
        if tok = 0 then Ret ([], [], s2)
        else if tok \<noteq> 97 then Panic ''syntax''
        else if Suc argc \<ge> MAXARGS then Panic ''too many args''
        else
          obind (parseredirs (Suc (length s2)) s2) (\<lambda>(rs, s3).
          obind (parseargs fuel (Suc argc) s3) (\<lambda>(qs, rs', s4). Ret (q # qs, rs @ rs', s4))))"

fun parse_backs :: "nat \<Rightarrow> cmd \<Rightarrow> byte list \<Rightarrow> (cmd \<times> byte list) outcome" where
  "parse_backs 0 c s = Hang"
| "parse_backs (Suc fuel) c s =
     (let (b, s1) = peek s [38] in
      if b then let (_, _, s2) = gettoken s1 in parse_backs fuel (BACK c) s2 else Ret (c, s1))"

fun parseline :: "nat \<Rightarrow> byte list \<Rightarrow> (cmd \<times> byte list) outcome"
  and parsepipe :: "nat \<Rightarrow> byte list \<Rightarrow> (cmd \<times> byte list) outcome"
  and parseexec :: "nat \<Rightarrow> byte list \<Rightarrow> (cmd \<times> byte list) outcome"
  and parseblock :: "nat \<Rightarrow> byte list \<Rightarrow> (cmd \<times> byte list) outcome" where
  "parseline 0 s = Hang"
| "parseline (Suc fuel) s =
     obind (parsepipe fuel s) (\<lambda>(c, s1).
     obind (parse_backs (Suc (length s1)) c s1) (\<lambda>(c1, s2).
       let (b, s3) = peek s2 [59] in
       if b then let (_, _, s4) = gettoken s3 in obind (parseline fuel s4) (\<lambda>(c2, s5). Ret (LIST c1 c2, s5))
       else Ret (c1, s3)))"
| "parsepipe 0 s = Hang"
| "parsepipe (Suc fuel) s =
     obind (parseexec fuel s) (\<lambda>(c, s1).
       let (b, s2) = peek s1 [124] in
       if b then let (_, _, s3) = gettoken s2 in obind (parsepipe fuel s3) (\<lambda>(c2, s4). Ret (PIPE c c2, s4))
       else Ret (c, s2))"
| "parseexec 0 s = Hang"
| "parseexec (Suc fuel) s =
     (let (b, s1) = peek s [40] in
      if b then parseblock fuel s1
      else
        obind (parseredirs (Suc (length s1)) s1) (\<lambda>(rs, s2).
        obind (parseargs (Suc (length s2)) 0 s2) (\<lambda>(argv, rs', s3).
          Ret (foldl redircmd (EXEC argv) (rs @ rs'), s3))))"
| "parseblock 0 s = Hang"
| "parseblock (Suc fuel) s =
     (let (b, s1) = peek s [40] in
      if \<not> b then Panic ''parseblock''
      else
        let (_, _, s2) = gettoken s1 in
        obind (parseline fuel s2) (\<lambda>(c, s3).
          let (b2, s4) = peek s3 [41] in
          if \<not> b2 then Panic ''syntax - missing )''
          else
            let (_, _, s5) = gettoken s4 in
            obind (parseredirs (Suc (length s5)) s5) (\<lambda>(rs, s6). Ret (foldl redircmd c rs, s6))))"

definition parsecmd :: "byte list \<Rightarrow> cmd outcome" where
  "parsecmd s =
     obind (parseline (4 * length s + 4) s) (\<lambda>(c, s1).
       let (_, s2) = peek s1 [] in if s2 \<noteq> [] then Panic ''syntax'' else Ret c)"

section \<open>Tokens\<close>

lemma white_iff [simp]: "strchr whitespace c = None \<longleftrightarrow> c \<notin> {32, 9, 13, 10, 11}"
  by (subst strchr_None) (auto simp: whitespace_def)

lemma symbol_iff [simp]: "strchr symbols c = None \<longleftrightarrow> c \<notin> {60, 124, 62, 38, 59, 40, 41}"
  by (subst strchr_None) (auto simp: symbols_def)

lemma skip_white_skip [simp]: "skip_white (skip_white s) = skip_white s"
  by (simp add: skip_white_def dropWhile_idem)

lemma skip_white_length: "length (skip_white s) \<le> length s"
  unfolding skip_white_def by (rule length_dropWhile_le)

lemma skip_white_hd: "skip_white s = c # r \<Longrightarrow> c \<notin> {32, 9, 13, 10, 11}"
  by (auto simp: skip_white_def dropWhile_eq_Cons_conv)

lemma peek_snd [simp]: "snd (peek s toks) = skip_white s"
  by (simp add: peek_def Let_def)

lemma peek_skip [simp]: "peek (skip_white s) toks = peek s toks"
  by (simp add: peek_def Let_def)

lemma gettoken_skip [simp]: "gettoken (skip_white s) = gettoken s"
  by (simp add: gettoken_def)

lemma gettoken_symbol: "c \<in> {124, 40, 41, 59, 38, 60} \<Longrightarrow> skip_white s = c # u \<Longrightarrow> gettoken s = (c, [c], skip_white u)"
  by (auto simp: gettoken_def)

lemma gettoken_gt: "skip_white s = 62 # u \<Longrightarrow> gettoken s = (if hd0 u = 62 then (43, [62, 62], skip_white (tl u)) else (62, [62], skip_white u))"
  by (simp add: gettoken_def)

lemma gettoken_word:
  assumes "skip_white s = c # u" "c \<notin> {124, 40, 41, 59, 38, 60, 62}"
  shows "word_char c" "gettoken s = (97, c # takeWhile word_char u, skip_white (dropWhile word_char u))"
proof -
  show w: "word_char c" using assms(2) skip_white_hd [OF assms(1)] by (simp add: word_char_def)
  show "gettoken s = (97, c # takeWhile word_char u, skip_white (dropWhile word_char u))"
    using assms w by (simp add: gettoken_def)
qed

text \<open>A token takes at least one byte of the line.\<close>

lemma gettoken_shorter:
  assumes "gettoken s = (tok, q, r)" "skip_white s \<noteq> []"
  shows "length r < length (skip_white s) \<and> (tok = 97 \<longrightarrow> q \<noteq> [] \<and> list_all word_char q)"
proof -
  obtain c u where c: "skip_white s = c # u" using assms(2) by (cases "skip_white s") auto
  have u: "length (skip_white u) < Suc (length u)" "length (skip_white (tl u)) < Suc (length u)"
    "length (skip_white (dropWhile word_char u)) < Suc (length u)"
    using skip_white_length [of u] skip_white_length [of "tl u"] skip_white_length [of "dropWhile word_char u"] length_dropWhile_le [of word_char u]
    by simp_all
  consider "c \<in> {124, 40, 41, 59, 38, 60}" | "c = 62" | "c \<notin> {124, 40, 41, 59, 38, 60, 62}" by auto
  then show ?thesis
  proof cases
    case 1
    then show ?thesis using gettoken_symbol [OF 1 c] assms(1) c u by auto
  next
    case 2
    then show ?thesis using gettoken_gt [of s u] assms(1) c u by (simp split: if_splits)
  next
    case 3
    have "list_all word_char (takeWhile word_char u)" by (auto simp: list_all_iff dest: set_takeWhileD)
    then show ?thesis using gettoken_word [OF c 3] assms(1) c u by auto
  qed
qed

lemma peek_rest:
  assumes "peek s toks = (b, s1)"
  shows "s1 = skip_white s" "length s1 \<le> length s"
  using assms skip_white_length [of s] by (auto simp: peek_def Let_def)

lemma peek_take:
  assumes "peek s toks = (True, s1)" "gettoken s1 = (tok, q, s2)"
  shows "length s2 < length s"
proof -
  have "skip_white s1 \<noteq> []" using assms(1) by (auto simp: peek_def Let_def)
  then show ?thesis using gettoken_shorter [OF assms(2)] skip_white_length [of s1] peek_rest(2) [OF assms(1)] by linarith
qed

section \<open>Every line is parsed or rejected\<close>

definition word :: "byte list \<Rightarrow> bool" where
  "word w \<longleftrightarrow> w \<noteq> [] \<and> list_all word_char w"

definition redir_ok :: "byte list \<times> uint \<times> int \<Rightarrow> bool" where
  "redir_ok r \<longleftrightarrow> word (fst r) \<and> snd r \<in> {(O_RDONLY, 0), (O_WRONLY OR O_CREATE OR O_TRUNC, 1), (O_WRONLY OR O_CREATE, 1)}"

fun cmd_ok :: "cmd \<Rightarrow> bool" where
  "cmd_ok (EXEC argv) \<longleftrightarrow> length argv < MAXARGS \<and> list_all word argv"
| "cmd_ok (REDIR c file mode fd) \<longleftrightarrow> cmd_ok c \<and> redir_ok (file, mode, fd)"
| "cmd_ok (PIPE c d) \<longleftrightarrow> cmd_ok c \<and> cmd_ok d"
| "cmd_ok (LIST c d) \<longleftrightarrow> cmd_ok c \<and> cmd_ok d"
| "cmd_ok (BACK c) \<longleftrightarrow> cmd_ok c"

definition parse_errors :: "string set" where
  [simp]: "parse_errors = {''syntax'', ''too many args'', ''missing file for redirection'', ''parseblock'', ''syntax - missing )''}"

text \<open>The call ends, with a result in \<open>P\<close> or one of the messages of the parser.\<close>

fun yields :: "('a \<Rightarrow> bool) \<Rightarrow> 'a outcome \<Rightarrow> bool" where
  "yields P (Ret x) \<longleftrightarrow> P x"
| "yields P (Panic m) \<longleftrightarrow> m \<in> parse_errors"
| "yields P Hang \<longleftrightarrow> False"

lemma yields_bind:
  assumes "yields P r" "\<And>x. P x \<Longrightarrow> yields Q (f x)"
  shows "yields Q (obind r f)"
  using assms by (cases r) auto

lemma parseredirs_yields:
  "length s < fuel \<Longrightarrow> yields (\<lambda>(rs, r). list_all redir_ok rs \<and> length r \<le> length s) (parseredirs fuel s)"
proof (induction fuel arbitrary: s)
  case (Suc fuel)
  obtain b s1 where p: "peek s [60, 62] = (b, s1)" by (metis surj_pair)
  obtain tok w s2 where g: "gettoken s1 = (tok, w, s2)" by (metis surj_pair)
  obtain t2 fl s3 where g2: "gettoken s2 = (t2, fl, s3)" by (metis surj_pair)
  note l1 = peek_rest(2) [OF p]
  show ?case
  proof (cases b)
    case True
    then have l2: "length s2 < length s" using peek_take [OF _ g] p by simp
    show ?thesis
    proof (cases "t2 = 97")
      case t2: True
      have "skip_white s2 \<noteq> []" using g2 t2 by (auto simp: gettoken_def)
      then have l3: "length s3 < length s" "word fl" using gettoken_shorter [OF g2] t2 skip_white_length [of s2] l2 by (auto simp: word_def)
      then have IH: "yields (\<lambda>(rs, r). list_all redir_ok rs \<and> length r \<le> length s3) (parseredirs fuel s3)" using Suc by simp
      let ?r = "if tok = 60 then (fl, O_RDONLY, 0) else if tok = 62 then (fl, O_WRONLY OR O_CREATE OR O_TRUNC, 1) else (fl, O_WRONLY OR O_CREATE, 1)"
      have "parseredirs (Suc fuel) s = obind (parseredirs fuel s3) (\<lambda>(rs, s4). Ret (?r # rs, s4))" using p True g g2 t2 by simp
      moreover have "redir_ok ?r" using l3(2) by (simp add: redir_ok_def)
      ultimately show ?thesis using l3(1) by (auto intro!: yields_bind [OF IH])
    qed (use p True g g2 in simp)
  qed (use p l1 in simp)
qed simp

lemma parseargs_yields:
  "length s < fuel \<Longrightarrow> argc < MAXARGS \<Longrightarrow>
     yields (\<lambda>(qs, rs, r). list_all word qs \<and> length qs + argc < MAXARGS \<and> list_all redir_ok rs \<and> length r \<le> length s) (parseargs fuel argc s)"
proof (induction fuel arbitrary: s argc)
  case (Suc fuel)
  obtain b s1 where p: "peek s [124, 41, 38, 59] = (b, s1)" by (metis surj_pair)
  note l1 = peek_rest(2) [OF p]
  obtain tok q s2 where g: "gettoken s1 = (tok, q, s2)" by (metis surj_pair)
  show ?case
  proof (cases "b \<or> tok \<noteq> 97 \<or> MAXARGS \<le> Suc argc")
    case True
    have "tok = 0 \<Longrightarrow> length s2 \<le> length s"
      using gettoken_shorter [OF g] skip_white_length [of s1] l1 g by (cases "skip_white s1") (auto simp: gettoken_def)
    then show ?thesis using True p g l1 Suc.prems(2) by (auto simp: Let_def)
  next
    case False
    then have "skip_white s1 \<noteq> []" using g by (auto simp: gettoken_def)
    then have q: "length s2 < length s" "word q" using gettoken_shorter [OF g] False skip_white_length [of s1] l1 by (auto simp: word_def)
    have e: "parseargs (Suc fuel) argc s = obind (parseredirs (Suc (length s2)) s2) (\<lambda>(rs, s3).
        obind (parseargs fuel (Suc argc) s3) (\<lambda>(qs, rs', s4). Ret (q # qs, rs @ rs', s4)))" using False p g by simp
    have IH: "yields (\<lambda>(qs, rs, r). list_all word qs \<and> length qs + Suc argc < MAXARGS \<and> list_all redir_ok rs \<and> length r \<le> length s3) (parseargs fuel (Suc argc) s3)"
      if "length s3 \<le> length s2" for s3 using Suc.IH [of s3 "Suc argc"] Suc.prems(1) q(1) that False by simp
    show ?thesis unfolding e
      by (rule yields_bind [OF parseredirs_yields [OF lessI]]) (use q in \<open>auto intro!: yields_bind [OF IH] simp del: parseargs.simps\<close>)
  qed
qed simp

lemma parse_backs_yields:
  "length s < fuel \<Longrightarrow> cmd_ok c \<Longrightarrow> yields (\<lambda>(c, r). cmd_ok c \<and> length r \<le> length s) (parse_backs fuel c s)"
proof (induction fuel arbitrary: c s)
  case (Suc fuel)
  obtain b s1 where p: "peek s [38] = (b, s1)" by (metis surj_pair)
  note l1 = peek_rest(2) [OF p]
  obtain tok q s2 where g: "gettoken s1 = (tok, q, s2)" by (metis surj_pair)
  show ?case
  proof (cases b)
    case True
    then have l2: "length s2 < length s" using peek_take [OF _ g] p by simp
    have "yields (\<lambda>(c, r). cmd_ok c \<and> length r \<le> length s2) (parse_backs fuel (BACK c) s2)" using Suc l2 by simp
    then have "yields (\<lambda>(c, r). cmd_ok c \<and> length r \<le> length s) (parse_backs fuel (BACK c) s2)"
      using l2 by (cases "parse_backs fuel (BACK c) s2") auto
    then show ?thesis using p True g by simp
  qed (use p l1 Suc.prems(2) in simp)
qed simp

lemma redircmd_ok: "cmd_ok c \<Longrightarrow> list_all redir_ok rs \<Longrightarrow> cmd_ok (foldl redircmd c rs)"
  by (induction rs arbitrary: c) (auto simp: redircmd_def)

abbreviation parsed :: "byte list \<Rightarrow> cmd \<times> byte list \<Rightarrow> bool" where
  "parsed s \<equiv> \<lambda>(c, r). cmd_ok c \<and> length r \<le> length s"

lemma parsed_le: "length s \<le> length t \<Longrightarrow> parsed s x \<Longrightarrow> parsed t x"
  by auto

lemma yields_mono: "yields P r \<Longrightarrow> (\<And>x. P x \<Longrightarrow> Q x) \<Longrightarrow> yields Q r"
  by (cases r) auto

lemma parseline_step:
  assumes P: "\<And>s. 4 * length s + 2 < fuel \<Longrightarrow> yields (parsed s) (parsepipe fuel s)"
    and L: "\<And>s. 4 * length s + 3 < fuel \<Longrightarrow> yields (parsed s) (parseline fuel s)" and n: "4 * length s + 3 < Suc fuel"
  shows "yields (parsed s) (parseline (Suc fuel) s)"
proof -
  have "yields (parsed s) (let (b, s3) = peek s2 [59] in
       if b then let (_, _, s4) = gettoken s3 in obind (parseline fuel s4) (\<lambda>(c2, s5). Ret (LIST c1 c2, s5)) else Ret (c1, s3))"
    if c1: "cmd_ok c1" and s2: "length s2 \<le> length s" for c1 s2
  proof -
    obtain b s3 where p: "peek s2 [59] = (b, s3)" by (metis surj_pair)
    obtain tok q s4 where g: "gettoken s3 = (tok, q, s4)" by (metis surj_pair)
    have l: "length s3 \<le> length s" "b \<Longrightarrow> length s4 < length s" using peek_rest(2) [OF p] peek_take [OF _ g, of s2 "[59]"] p s2 by auto
    show ?thesis
    proof (cases b)
      case True
      have "yields (parsed s4) (parseline fuel s4)" using L [of s4] l(2) [OF True] n by simp
      then have "yields (parsed s) (obind (parseline fuel s4) (\<lambda>(c2, s5). Ret (LIST c1 c2, s5)))"
        by (rule yields_bind) (use c1 l(2) [OF True] in auto)
      then show ?thesis using True p g by simp
    qed (use p l(1) c1 in simp)
  qed
  then have B: "yields (parsed s) (obind (parse_backs (Suc (length s1)) c s1) (\<lambda>(c1, s2). let (b, s3) = peek s2 [59] in
       if b then let (_, _, s4) = gettoken s3 in obind (parseline fuel s4) (\<lambda>(c2, s5). Ret (LIST c1 c2, s5)) else Ret (c1, s3)))"
    if "cmd_ok c" "length s1 \<le> length s" for c s1
    using that by (intro yields_bind [OF parse_backs_yields [OF lessI that(1)]]) (auto simp del: parseline.simps)
  show ?thesis unfolding parseline.simps
    by (rule yields_bind [OF P]) (use n B in \<open>auto simp del: parse_backs.simps parseline.simps\<close>)
qed

lemma parsepipe_step:
  assumes E: "\<And>s. 4 * length s + 1 < fuel \<Longrightarrow> yields (parsed s) (parseexec fuel s)"
    and P: "\<And>s. 4 * length s + 2 < fuel \<Longrightarrow> yields (parsed s) (parsepipe fuel s)" and n: "4 * length s + 2 < Suc fuel"
  shows "yields (parsed s) (parsepipe (Suc fuel) s)"
proof -
  have "yields (parsed s) (let (b, s2) = peek s1 [124] in
       if b then let (_, _, s3) = gettoken s2 in obind (parsepipe fuel s3) (\<lambda>(c2, s4). Ret (PIPE c c2, s4)) else Ret (c, s2))"
    if c: "cmd_ok c" and s1: "length s1 \<le> length s" for c s1
  proof -
    obtain b s2 where p: "peek s1 [124] = (b, s2)" by (metis surj_pair)
    obtain tok q s3 where g: "gettoken s2 = (tok, q, s3)" by (metis surj_pair)
    have l: "length s2 \<le> length s" "b \<Longrightarrow> length s3 < length s" using peek_rest(2) [OF p] peek_take [OF _ g, of s1 "[124]"] p s1 by auto
    show ?thesis
    proof (cases b)
      case True
      have "yields (parsed s3) (parsepipe fuel s3)" using P [of s3] l(2) [OF True] n by simp
      then have "yields (parsed s) (obind (parsepipe fuel s3) (\<lambda>(c2, s4). Ret (PIPE c c2, s4)))"
        by (rule yields_bind) (use c l(2) [OF True] in auto)
      then show ?thesis using True p g by simp
    qed (use p l(1) c in simp)
  qed
  then show ?thesis unfolding parsepipe.simps
    by (intro yields_bind [OF E]) (use n in \<open>auto simp del: parsepipe.simps\<close>)
qed

lemma parseexec_step:
  assumes B: "\<And>s. 4 * length s < fuel \<Longrightarrow> yields (parsed s) (parseblock fuel s)" and n: "4 * length s + 1 < Suc fuel"
  shows "yields (parsed s) (parseexec (Suc fuel) s)"
proof -
  obtain b s1 where p: "peek s [40] = (b, s1)" by (metis surj_pair)
  note l = peek_rest(2) [OF p]
  have "yields (parsed s1) (parseblock fuel s1)" using B [of s1] n l by simp
  then have bl: "yields (parsed s) (parseblock fuel s1)" using l by (elim yields_mono) auto
  have A: "yields (parsed s) (obind (parseargs (Suc (length s2)) 0 s2) (\<lambda>(argv, rs', s3). Ret (foldl redircmd (EXEC argv) (rs @ rs'), s3)))"
    if "list_all redir_ok rs" "length s2 \<le> length s1" for rs s2
    by (rule yields_bind [OF parseargs_yields [OF lessI]]) (use that l in \<open>auto intro!: redircmd_ok simp del: foldl_append\<close>)
  have "yields (parsed s) (obind (parseredirs (Suc (length s1)) s1) (\<lambda>(rs, s2).
        obind (parseargs (Suc (length s2)) 0 s2) (\<lambda>(argv, rs', s3). Ret (foldl redircmd (EXEC argv) (rs @ rs'), s3))))"
    by (rule yields_bind [OF parseredirs_yields [OF lessI]]) (use A in \<open>auto simp del: parseargs.simps foldl_append\<close>)
  then show ?thesis using bl p by (simp del: parseredirs.simps parseargs.simps foldl_append)
qed

lemma parseblock_step:
  assumes L: "\<And>s. 4 * length s + 3 < fuel \<Longrightarrow> yields (parsed s) (parseline fuel s)" and n: "4 * length s < Suc fuel"
  shows "yields (parsed s) (parseblock (Suc fuel) s)"
proof -
  obtain b s1 where p: "peek s [40] = (b, s1)" by (metis surj_pair)
  obtain tok q s2 where g: "gettoken s1 = (tok, q, s2)" by (metis surj_pair)
  have C: "yields (parsed s) (let (b2, s4) = peek s3 [41] in
          if \<not> b2 then Panic ''syntax - missing )''
          else let (_, _, s5) = gettoken s4 in obind (parseredirs (Suc (length s5)) s5) (\<lambda>(rs, s6). Ret (foldl redircmd c rs, s6)))"
    if c: "cmd_ok c" and s3: "length s3 \<le> length s" for c s3
  proof -
    obtain b2 s4 where p2: "peek s3 [41] = (b2, s4)" by (metis surj_pair)
    obtain tok2 q2 s5 where g2: "gettoken s4 = (tok2, q2, s5)" by (metis surj_pair)
    have "b2 \<Longrightarrow> length s5 < length s" using peek_take [OF _ g2, of s3 "[41]"] p2 s3 by auto
    then have "b2 \<Longrightarrow> yields (parsed s) (obind (parseredirs (Suc (length s5)) s5) (\<lambda>(rs, s6). Ret (foldl redircmd c rs, s6)))"
      by (intro yields_bind [OF parseredirs_yields [OF lessI]]) (use c in \<open>auto intro: redircmd_ok\<close>)
    then show ?thesis using p2 g2 by (simp del: parseredirs.simps)
  qed
  show ?thesis
  proof (cases b)
    case True
    have l: "length s2 < length s" using peek_take [OF _ g, of s "[40]"] p True by simp
    then have "yields (parsed s2) (parseline fuel s2)" using L [of s2] n by simp
    then have "yields (parsed s) (obind (parseline fuel s2) (\<lambda>(c, s3). let (b2, s4) = peek s3 [41] in
          if \<not> b2 then Panic ''syntax - missing )''
          else let (_, _, s5) = gettoken s4 in obind (parseredirs (Suc (length s5)) s5) (\<lambda>(rs, s6). Ret (foldl redircmd c rs, s6))))"
      by (rule yields_bind) (use l C in \<open>auto simp del: parseredirs.simps\<close>)
    then show ?thesis using p True g by (simp del: parseredirs.simps)
  qed (use p in simp)
qed

lemma parse_yields:
  "(4 * length s + 3 < fuel \<longrightarrow> yields (parsed s) (parseline fuel s)) \<and>
   (4 * length s + 2 < fuel \<longrightarrow> yields (parsed s) (parsepipe fuel s)) \<and>
   (4 * length s + 1 < fuel \<longrightarrow> yields (parsed s) (parseexec fuel s)) \<and>
   (4 * length s < fuel \<longrightarrow> yields (parsed s) (parseblock fuel s))"
proof (induction fuel arbitrary: s)
  case (Suc fuel)
  then show ?case using parseline_step parsepipe_step parseexec_step parseblock_step by blast
qed simp

section \<open>Printing and parsing\<close>

fun print_redir :: "byte list \<times> uint \<times> int \<Rightarrow> byte list" where
  "print_redir (w, mode, fd) = (if mode = O_RDONLY then [60] else if mode = (O_WRONLY OR O_CREATE OR O_TRUNC) then [62] else [62, 62]) @ 32 # w"

definition print_args :: "byte list list \<Rightarrow> byte list" where
  "print_args argv = concat (map (\<lambda>a. 32 # a) argv)"

fun print_cmd :: "cmd \<Rightarrow> byte list" and print_atom :: "cmd \<Rightarrow> byte list" where
  "print_cmd (EXEC argv) = print_args argv"
| "print_cmd (REDIR c w mode fd) = print_atom c @ print_redir (w, mode, fd)"
| "print_cmd (PIPE c d) = print_atom c @ [124] @ print_atom d"
| "print_cmd (LIST c d) = print_atom c @ [59] @ print_atom d"
| "print_cmd (BACK c) = print_atom c @ [38]"
| "print_atom (EXEC argv) = print_cmd (EXEC argv)"
| "print_atom (REDIR c w mode fd) = print_cmd (REDIR c w mode fd)"
| "print_atom (PIPE c d) = [40] @ print_cmd (PIPE c d) @ [41]"
| "print_atom (LIST c d) = [40] @ print_cmd (LIST c d) @ [41]"
| "print_atom (BACK c) = [40] @ print_cmd (BACK c) @ [41]"

text \<open>What may follow a command: the end, or a symbol that ends it.\<close>

definition stop :: "byte list \<Rightarrow> bool" where
  "stop t \<longleftrightarrow> t = [] \<or> hd t \<in> {124, 41, 38, 59}"

definition word_end :: "byte list \<Rightarrow> bool" where
  "word_end r \<longleftrightarrow> r = [] \<or> \<not> word_char (hd r)"

lemma skip_white_simps [simp]: "skip_white [] = []" "skip_white (32 # s) = skip_white s" "c \<notin> {32, 9, 13, 10, 11} \<Longrightarrow> skip_white (c # s) = c # s"
  by (simp_all add: skip_white_def)

lemma skip_stop [simp]: "stop t \<Longrightarrow> skip_white t = t"
  by (cases t) (auto simp: stop_def)

lemma wordE:
  assumes "word w"
  obtains c u where "w = c # u" "word_char c" "list_all word_char u" "c \<notin> {32, 9, 13, 10, 11, 60, 124, 62, 38, 59, 40, 41}"
  using assms by (cases w) (auto simp: word_def word_char_def)

lemma skip_word [simp]: "word w \<Longrightarrow> skip_white (w @ r) = w @ r"
  by (erule wordE) simp

lemma gettoken_at_word:
  assumes "word w" "word_end r"
  shows "gettoken (w @ r) = (97, w, skip_white r)"
proof -
  obtain c u where w: "w = c # u" "word_char c" "list_all word_char u" "c \<notin> {32, 9, 13, 10, 11, 60, 124, 62, 38, 59, 40, 41}" by (rule wordE [OF assms(1)])
  have "skip_white (w @ r) = c # (u @ r)" using skip_word [OF assms(1)] w(1) by simp
  then have "gettoken (w @ r) = (97, c # takeWhile word_char (u @ r), skip_white (dropWhile word_char (u @ r)))"
    using w(4) by (intro gettoken_word(2)) simp_all
  moreover have "takeWhile word_char (u @ r) = u" "dropWhile word_char (u @ r) = r"
    using assms(2) w(3) by (cases r; simp add: word_end_def list_all_iff takeWhile_append2 dropWhile_append2)+
  ultimately show ?thesis using w(1) by simp
qed

lemma peek_simps:
  "peek [] toks = (False, [])" "word w \<Longrightarrow> set toks \<subseteq> set symbols \<Longrightarrow> 0 \<notin> set toks \<Longrightarrow> peek (w @ r) toks = (False, w @ r)"
  "c \<notin> {32, 9, 13, 10, 11} \<Longrightarrow> peek (c # s) toks = (c \<noteq> 0 \<and> strchr toks c \<noteq> None, c # s)"
proof -
  show "peek [] toks = (False, [])" by (simp add: peek_def)
  show "c \<notin> {32, 9, 13, 10, 11} \<Longrightarrow> peek (c # s) toks = (c \<noteq> 0 \<and> strchr toks c \<noteq> None, c # s)" by (simp add: peek_def Let_def)
  assume a: "word w" "set toks \<subseteq> set symbols" "0 \<notin> set toks"
  obtain c u where w: "w = c # u" "c \<notin> {32, 9, 13, 10, 11, 60, 124, 62, 38, 59, 40, 41}" by (rule wordE [OF a(1)])
  then have "c \<notin> set toks" using a(2) by (auto simp: symbols_def)
  then have "strchr toks c = None" using strchr_None [OF a(3)] by simp
  then show "peek (w @ r) toks = (False, w @ r)" using skip_word [OF a(1), of r] w(1) by (simp add: peek_def Let_def)
qed

lemma parseredirs_skip: "parseredirs fuel (skip_white s) = parseredirs fuel s"
  by (cases fuel) simp_all

lemma parseargs_skip: "parseargs fuel argc (skip_white s) = parseargs fuel argc s"
  by (cases fuel) simp_all

lemma print_redir_hd: "\<exists>c u. print_redir r = c # u \<and> (c = 60 \<or> c = 62)"
  by (cases r) auto

lemma word_end_redirs: "stop t \<Longrightarrow> word_end (concat (map print_redir rs) @ t)"
proof (cases rs)
  case (Cons r rs')
  obtain c u where "print_redir r = c # u" "c = 60 \<or> c = 62" using print_redir_hd by blast
  then show ?thesis using Cons by (auto simp: word_end_def word_char_def)
qed (auto simp: word_end_def stop_def word_char_def)

lemma redir_print:
  assumes "redir_ok r" "r = (w, mode, fd)" "word_end rest"
  obtains tok q where "peek (print_redir r @ rest) [60, 62] = (True, print_redir r @ rest)" "gettoken (print_redir r @ rest) = (tok, q, w @ rest)"
    "r = (if tok = 60 then (w, O_RDONLY, 0) else if tok = 62 then (w, O_WRONLY OR O_CREATE OR O_TRUNC, 1) else (w, O_WRONLY OR O_CREATE, 1))"
proof -
  have w: "word w" and m: "(mode, fd) \<in> {(O_RDONLY, 0), (O_WRONLY OR O_CREATE OR O_TRUNC, 1), (O_WRONLY OR O_CREATE, 1)}"
    using assms(1,2) by (auto simp: redir_ok_def)
  consider "mode = O_RDONLY" "fd = 0" | "mode = (O_WRONLY OR O_CREATE OR O_TRUNC)" "fd = 1" | "mode = (O_WRONLY OR O_CREATE)" "fd = 1" using m by auto
  then show ?thesis
  proof cases
    case 1
    then show ?thesis using that [of 60 "[60]"] w assms(2) gettoken_symbol [of 60 "60 # 32 # w @ rest" "32 # w @ rest"] by (simp add: peek_simps)
  next
    case 2
    then show ?thesis using that [of 62 "[62]"] w assms(2) gettoken_gt [of "62 # 32 # w @ rest" "32 # w @ rest"] by (simp add: peek_simps)
  next
    case 3
    then show ?thesis using that [of 43 "[62, 62]"] w assms(2) gettoken_gt [of "62 # 62 # 32 # w @ rest" "62 # 32 # w @ rest"] by (simp add: peek_simps)
  qed
qed

lemma parseredirs_print:
  assumes "list_all redir_ok rs" "stop t" "length (concat (map print_redir rs) @ t) < fuel"
  shows "parseredirs fuel (concat (map print_redir rs) @ t) = Ret (rs, t)"
  using assms
proof (induction rs arbitrary: fuel)
  case Nil
  then obtain f where "fuel = Suc f" by (cases fuel) auto
  moreover have "peek t [60, 62] = (False, t)" using Nil(2) by (cases t) (auto simp: stop_def peek_simps)
  ultimately show ?case by simp
next
  case (Cons r rs)
  obtain f where f: "fuel = Suc f" using Cons.prems(3) by (cases fuel) auto
  obtain w mode fd where r: "r = (w, mode, fd)" by (cases r) auto
  let ?rest = "concat (map print_redir rs) @ t"
  have w: "word w" using Cons.prems(1) r by (simp add: redir_ok_def)
  obtain tok q where g: "peek (print_redir r @ ?rest) [60, 62] = (True, print_redir r @ ?rest)" "gettoken (print_redir r @ ?rest) = (tok, q, w @ ?rest)"
    "r = (if tok = 60 then (w, O_RDONLY, 0) else if tok = 62 then (w, O_WRONLY OR O_CREATE OR O_TRUNC, 1) else (w, O_WRONLY OR O_CREATE, 1))"
    using redir_print [OF _ r word_end_redirs [OF Cons.prems(2)], of rs] Cons.prems(1) by auto
  have "0 < length (print_redir r)" using print_redir_hd [of r] by auto
  then have "length ?rest < f" using Cons.prems(3) f by (simp del: length_greater_0_conv)
  then have "parseredirs f ?rest = Ret (rs, t)" using Cons by simp
  then show ?case using g(1,2) gettoken_at_word [OF w word_end_redirs [OF Cons.prems(2)]] f
    by (simp add: parseredirs_skip) (use g(3) in auto)
qed

abbreviation redirs_text :: "(byte list \<times> uint \<times> int) list \<Rightarrow> byte list" where
  "redirs_text rs \<equiv> concat (map print_redir rs)"

lemma skip_redirs: "stop t \<Longrightarrow> skip_white (redirs_text rs @ t) = redirs_text rs @ t"
proof (cases rs)
  case (Cons r rs')
  obtain c u where "print_redir r = c # u" "c = 60 \<or> c = 62" using print_redir_hd by blast
  then show ?thesis using Cons by auto
qed simp

lemma redirs_hd:
  assumes "stop t" "redirs_text rs @ t = c # u"
  shows "c \<in> {60, 62, 124, 41, 38, 59}"
proof (cases rs)
  case Nil
  then show ?thesis using assms by (auto simp: stop_def)
next
  case (Cons r rs')
  obtain d v where "print_redir r = d # v" "d = 60 \<or> d = 62" using print_redir_hd by blast
  then show ?thesis using assms(2) Cons by auto
qed

lemma parseargs_stop:
  assumes "stop t" "0 < fuel"
  shows "parseargs fuel argc t = Ret ([], [], t)"
proof -
  obtain f where f: "fuel = Suc f" using assms(2) by (cases fuel) auto
  show ?thesis
  proof (cases t)
    case Nil
    then show ?thesis by (simp add: f peek_simps gettoken_def)
  next
    case (Cons c u)
    then have "peek t [124, 41, 38, 59] = (True, t)" using assms(1) by (auto simp: stop_def peek_simps)
    then show ?thesis by (simp add: f)
  qed
qed

lemma parseargs_print:
  assumes "list_all word argv" "list_all redir_ok rs" "stop t" "argc + length argv < MAXARGS" "argv = [] \<longrightarrow> rs = []"
    and "length argv < fuel"
  shows "parseargs fuel argc (print_args argv @ redirs_text rs @ t) = Ret (argv, rs, t)"
  using assms
proof (induction argv arbitrary: fuel argc)
  case Nil
  then show ?case using parseargs_stop [OF Nil(3)] by (simp add: print_args_def)
next
  case (Cons a argv)
  obtain f where f: "fuel = Suc f" using Cons.prems(6) by (cases fuel) auto
  let ?rest = "print_args argv @ redirs_text rs @ t"
  have s: "print_args (a # argv) @ redirs_text rs @ t = 32 # a @ ?rest" by (simp add: print_args_def)
  have a: "word a" using Cons.prems(1) by simp
  have "word_end ?rest" using word_end_redirs [OF Cons.prems(3), of rs] by (cases argv) (simp_all add: print_args_def word_end_def word_char_def)
  then have g: "gettoken (a @ ?rest) = (97, a, skip_white ?rest)" by (rule gettoken_at_word [OF a])
  have "peek (32 # a @ ?rest) [124, 41, 38, 59] = peek (a @ ?rest) [124, 41, 38, 59]" using peek_skip [of "32 # a @ ?rest"] a by (metis peek_skip skip_white_simps(2))
  also have "\<dots> = (False, a @ ?rest)" using a by (rule peek_simps(2)) (simp_all add: symbols_def)
  finally have p: "peek (32 # a @ ?rest) [124, 41, 38, 59] = (False, a @ ?rest)" .
  let ?s2 = "skip_white ?rest"
  have e: "parseargs fuel argc (32 # a @ ?rest) = obind (parseredirs (Suc (length ?s2)) ?s2) (\<lambda>(rs, s3).
        obind (parseargs f (Suc argc) s3) (\<lambda>(qs, rs', s4). Ret (a # qs, rs @ rs', s4)))" using p g f Cons.prems(4) by simp
  show ?case
  proof (cases argv)
    case Nil
    then have "parseredirs (Suc (length ?s2)) ?s2 = Ret (rs, t)"
      using parseredirs_print [OF Cons.prems(2,3) lessI] skip_redirs [OF Cons.prems(3)] by (simp add: print_args_def)
    moreover have "parseargs f (Suc argc) t = Ret ([], [], t)" using Cons.prems(3,6) f Nil by (intro parseargs_stop) simp_all
    ultimately show ?thesis unfolding s e using Nil by simp
  next
    case (Cons a2 argv2)
    have w2: "word a2" using Cons.prems(1) Cons by simp
    then have s2: "?s2 = a2 @ print_args argv2 @ redirs_text rs @ t" using Cons by (simp add: print_args_def)
    have "peek ?s2 [60, 62] = (False, ?s2)" unfolding s2 using w2 by (rule peek_simps(2)) (simp_all add: symbols_def)
    then have "parseredirs (Suc (length ?s2)) ?s2 = Ret ([], ?s2)" by simp
    moreover have "parseargs f (Suc argc) ?rest = Ret (argv, rs, t)"
      using Cons.IH [of "Suc argc" f] Cons.prems f Cons by (simp add: print_args_def)
    ultimately show ?thesis unfolding s e by (simp add: parseargs_skip)
  qed
qed

lemma parse_skip:
  "parseexec fuel (skip_white s) = parseexec fuel s" "parsepipe fuel (skip_white s) = parsepipe fuel s" "parseline fuel (skip_white s) = parseline fuel s"
proof -
  show e: "parseexec fuel (skip_white s) = parseexec fuel s" for fuel by (cases fuel) simp_all
  show p: "parsepipe fuel (skip_white s) = parsepipe fuel s" for fuel by (cases fuel) (simp_all add: e)
  show "parseline fuel (skip_white s) = parseline fuel s" by (cases fuel) (simp_all add: p)
qed

text \<open>\<open>reads c\<close>: the printed form of \<open>c\<close>, followed by redirections and the end of a command, is read back by \<open>parseexec\<close>.\<close>

definition reads :: "cmd \<Rightarrow> bool" where
  "reads c \<longleftrightarrow> (\<forall>rs t fuel. list_all redir_ok rs \<longrightarrow> stop t \<longrightarrow> 4 * length (print_atom c @ redirs_text rs @ t) + 1 < fuel \<longrightarrow>
     parseexec fuel (print_atom c @ redirs_text rs @ t) = Ret (foldl redircmd c rs, t))"

lemma readsD: "reads c \<Longrightarrow> stop t \<Longrightarrow> 4 * length (print_atom c @ t) + 1 < fuel \<Longrightarrow> parseexec fuel (print_atom c @ t) = Ret (c, t)"
  unfolding reads_def by (drule spec [of _ "[]"]) simp

lemma pipe_of_reads:
  assumes "reads c" "stop t" "t = [] \<or> hd t \<noteq> 124" "4 * length (print_atom c @ t) + 2 < fuel"
  shows "parsepipe fuel (print_atom c @ t) = Ret (c, t)"
proof -
  obtain f where f: "fuel = Suc f" using assms(4) by (cases fuel) auto
  have "parseexec f (print_atom c @ t) = Ret (c, t)" using readsD [OF assms(1,2)] assms(4) f by simp
  moreover have "peek t [124] = (False, t)" using assms(2,3) by (cases t) (auto simp: stop_def peek_simps)
  ultimately show ?thesis by (simp add: f)
qed

lemma pipe_of_two:
  assumes "reads c" "reads d" "stop t" "t = [] \<or> hd t \<noteq> 124" "4 * length (print_atom c @ 124 # print_atom d @ t) + 2 < fuel"
  shows "parsepipe fuel (print_atom c @ 124 # print_atom d @ t) = Ret (PIPE c d, t)"
proof -
  obtain f where f: "fuel = Suc f" using assms(5) by (cases fuel) auto
  let ?r = "print_atom d @ t"
  have "parseexec f (print_atom c @ 124 # ?r) = Ret (c, 124 # ?r)" using readsD [OF assms(1), of "124 # ?r" f] assms(5) f by (simp add: stop_def)
  moreover have "peek (124 # ?r) [124] = (True, 124 # ?r)" "gettoken (124 # ?r) = (124, [124], skip_white ?r)"
    by (simp add: peek_simps, rule gettoken_symbol) simp_all
  moreover have "parsepipe f ?r = Ret (d, t)" using pipe_of_reads [OF assms(2-4)] assms(5) f by simp
  ultimately show ?thesis by (simp add: f parse_skip)
qed

text \<open>The end of a line inside or outside parentheses.\<close>

definition line_end :: "byte list \<Rightarrow> bool" where
  "line_end t \<longleftrightarrow> t = [] \<or> hd t = 41"

lemma line_end_stop: "line_end t \<Longrightarrow> stop t \<and> (t = [] \<or> hd t \<noteq> 124) \<and> peek t [38] = (False, t) \<and> peek t [59] = (False, t)"
  by (cases t) (auto simp: line_end_def stop_def peek_simps)

lemma line_of_pipe:
  assumes "parsepipe f s = Ret (c, t)" "line_end t"
  shows "parseline (Suc f) s = Ret (c, t)"
  using assms(1) line_end_stop [OF assms(2)] by simp

lemma line_of_reads:
  assumes "reads c" "line_end t" "4 * length (print_atom c @ t) + 3 < fuel"
  shows "parseline fuel (print_atom c @ t) = Ret (c, t)"
proof -
  obtain f where f: "fuel = Suc f" using assms(3) by (cases fuel) auto
  have "parsepipe f (print_atom c @ t) = Ret (c, t)" using pipe_of_reads [OF assms(1)] line_end_stop [OF assms(2)] assms(3) f by simp
  then show ?thesis unfolding f using assms(2) by (rule line_of_pipe)
qed

lemma line_of_back:
  assumes "reads c" "line_end t" "4 * length (print_atom c @ 38 # t) + 3 < fuel"
  shows "parseline fuel (print_atom c @ 38 # t) = Ret (BACK c, t)"
proof -
  obtain f where f: "fuel = Suc f" using assms(3) by (cases fuel) auto
  have "parsepipe f (print_atom c @ 38 # t) = Ret (c, 38 # t)" using pipe_of_reads [OF assms(1), of "38 # t" f] assms(3) f by (simp add: stop_def)
  moreover have "peek (38 # t) [38] = (True, 38 # t)" "gettoken (38 # t) = (38, [38], t)"
    using gettoken_symbol [of 38 "38 # t" t] line_end_stop [OF assms(2)] by (simp_all add: peek_simps)
  ultimately show ?thesis using line_end_stop [OF assms(2)] by (simp add: f)
qed

lemma line_of_list:
  assumes "reads c" "reads d" "line_end t" "4 * length (print_atom c @ 59 # print_atom d @ t) + 3 < fuel"
  shows "parseline fuel (print_atom c @ 59 # print_atom d @ t) = Ret (LIST c d, t)"
proof -
  obtain f where f: "fuel = Suc f" using assms(4) by (cases fuel) auto
  let ?r = "print_atom d @ t"
  have "parsepipe f (print_atom c @ 59 # ?r) = Ret (c, 59 # ?r)" using pipe_of_reads [OF assms(1), of "59 # ?r" f] assms(4) f by (simp add: stop_def)
  moreover have "peek (59 # ?r) [38] = (False, 59 # ?r)" "peek (59 # ?r) [59] = (True, 59 # ?r)" "gettoken (59 # ?r) = (59, [59], skip_white ?r)"
    by (simp add: peek_simps, simp add: peek_simps, rule gettoken_symbol) simp_all
  moreover have "parseline f ?r = Ret (d, t)" using line_of_reads [OF assms(2,3), of f] assms(4) f by simp
  ultimately show ?thesis by (simp add: f parse_skip)
qed

lemma reads_block:
  assumes "\<And>t fuel. line_end t \<Longrightarrow> 4 * length (print_cmd c @ t) + 3 < fuel \<Longrightarrow> parseline fuel (print_cmd c @ t) = Ret (c, t)"
    and "print_atom c = 40 # print_cmd c @ [41]"
  shows "reads c"
  unfolding reads_def
proof (intro allI impI)
  fix rs t fuel
  assume rs: "list_all redir_ok rs" and t: "stop t" and n: "4 * length (print_atom c @ redirs_text rs @ t) + 1 < fuel"
  let ?t = "redirs_text rs @ t" and ?s = "print_cmd c @ 41 # redirs_text rs @ t"
  obtain f g where f: "fuel = Suc f" "f = Suc g" using n by (cases fuel; cases "fuel - 1") auto
  have s: "print_atom c @ ?t = 40 # ?s" using assms(2) by simp
  have "parseline g (skip_white ?s) = Ret (c, 41 # ?t)" unfolding parse_skip
    using assms(1) [of "41 # ?t" g] n f assms(2) by (simp add: line_end_def)
  moreover have "peek (40 # ?s) [40] = (True, 40 # ?s)" "peek (41 # ?t) [41] = (True, 41 # ?t)" by (simp_all add: peek_simps)
  moreover have "gettoken (40 # ?s) = (40, [40], skip_white ?s)" "gettoken (41 # ?t) = (41, [41], ?t)"
    using gettoken_symbol [of 40 "40 # ?s" ?s] gettoken_symbol [of 41 "41 # ?t" ?t] skip_redirs [OF t] by simp_all
  moreover have "parseredirs (Suc (length ?t)) ?t = Ret (rs, t)" by (rule parseredirs_print [OF rs t]) simp
  ultimately show "parseexec fuel (print_atom c @ redirs_text rs @ t) = Ret (foldl redircmd c rs, t)"
    unfolding s f by (simp del: parseredirs.simps parseline.simps)
qed

lemma reads_exec:
  assumes "list_all word argv" "length argv < MAXARGS"
  shows "reads (EXEC argv)"
  unfolding reads_def
proof (intro allI impI)
  fix rs t fuel
  assume rs: "list_all redir_ok rs" and t: "stop t" and n: "4 * length (print_atom (EXEC argv) @ redirs_text rs @ t) + 1 < fuel"
  have "0 < fuel" using n by linarith
  then obtain f where f: "fuel = Suc f" using gr0_implies_Suc by blast
  let ?t = "redirs_text rs @ t"
  show "parseexec fuel (print_atom (EXEC argv) @ redirs_text rs @ t) = Ret (foldl redircmd (EXEC argv) rs, t)"
  proof (cases argv)
    case Nil
    have "peek ?t [40] = (False, ?t)"
    proof (cases ?t)
      case Nil
      then show ?thesis by (simp only: peek_simps)
    next
      case (Cons c u)
      then have "c \<in> {60, 62, 124, 41, 38, 59}" by (rule redirs_hd [OF t])
      then show ?thesis unfolding Cons by (auto simp: peek_simps)
    qed
    moreover have "parseredirs (Suc (length ?t)) ?t = Ret (rs, t)" by (rule parseredirs_print [OF rs t]) simp
    ultimately show ?thesis using Nil parseargs_stop [OF t] by (simp add: f print_args_def del: parseredirs.simps parseargs.simps)
  next
    case (Cons a argv')
    let ?r = "a @ print_args argv' @ ?t"
    have a: "word a" using assms(1) Cons by simp
    have s: "print_atom (EXEC argv) @ ?t = 32 # ?r" "skip_white (32 # ?r) = ?r" using Cons a by (simp_all add: print_args_def)
    have "peek (32 # ?r) [40] = (False, ?r)" "peek ?r [60, 62] = (False, ?r)"
      using peek_simps(2) [OF a, of "[40]" "print_args argv' @ ?t"] peek_simps(2) [OF a, of "[60, 62]" "print_args argv' @ ?t"] peek_skip [of "32 # ?r" "[40]"] s(2)
      by (simp_all add: symbols_def)
    moreover have "parseargs (Suc (length ?r)) 0 ?r = Ret (argv, rs, t)"
    proof -
      have "length argv' \<le> length (print_args argv')" by (induction argv') (simp_all add: print_args_def)
      then have "length argv < Suc (length ?r)" using a Cons by (cases a) (simp_all add: word_def)
      then have "parseargs (Suc (length ?r)) 0 (print_args argv @ ?t) = Ret (argv, rs, t)"
        using assms(2) Cons by (intro parseargs_print [OF assms(1) rs t]) simp_all
      moreover have "print_args argv @ ?t = 32 # ?r" using s(1) by simp
      ultimately show ?thesis using parseargs_skip [of "Suc (length ?r)" 0 "32 # ?r"] s(2) by (simp del: parseargs.simps)
    qed
    ultimately show ?thesis unfolding s(1) by (simp add: f del: parseargs.simps)
  qed
qed

lemma reads_all: "cmd_ok c \<Longrightarrow> reads c"
proof (induction c)
  case (EXEC argv)
  then show ?case by (simp add: reads_exec)
next
  case (REDIR c w mode fd)
  then have r: "redir_ok (w, mode, fd)" "reads c" by simp_all
  show ?case unfolding reads_def
  proof (intro allI impI)
    fix rs t fuel
    assume a: "list_all redir_ok rs" "stop t" "4 * length (print_atom (REDIR c w mode fd) @ redirs_text rs @ t) + 1 < fuel"
    have "parseexec fuel (print_atom c @ redirs_text ((w, mode, fd) # rs) @ t) = Ret (foldl redircmd c ((w, mode, fd) # rs), t)"
      using a r unfolding reads_def by (elim allE [of _ "(w, mode, fd) # rs"] allE [of _ t] allE [of _ fuel]) simp
    then show "parseexec fuel (print_atom (REDIR c w mode fd) @ redirs_text rs @ t) = Ret (foldl redircmd (REDIR c w mode fd) rs, t)"
      by (simp add: redircmd_def del: print_redir.simps)
  qed
next
  case (PIPE c d)
  have "parseline fuel (print_cmd (PIPE c d) @ t) = Ret (PIPE c d, t)" if t: "line_end t" "4 * length (print_cmd (PIPE c d) @ t) + 3 < fuel" for t fuel
  proof -
    obtain f where f: "fuel = Suc f" using t(2) by (cases fuel) auto
    have "parsepipe f (print_cmd (PIPE c d) @ t) = Ret (PIPE c d, t)"
      using pipe_of_two [of c d t f] PIPE line_end_stop [OF t(1)] t(2) f by simp
    then show ?thesis unfolding f using t(1) by (rule line_of_pipe)
  qed
  then show ?case by (rule reads_block) simp_all
next
  case (LIST c d)
  then have "parseline fuel (print_cmd (LIST c d) @ t) = Ret (LIST c d, t)" if "line_end t" "4 * length (print_cmd (LIST c d) @ t) + 3 < fuel" for t fuel
    using line_of_list [of c d t fuel] that by simp
  then show ?case by (rule reads_block) simp_all
next
  case (BACK c)
  then have "parseline fuel (print_cmd (BACK c) @ t) = Ret (BACK c, t)" if "line_end t" "4 * length (print_cmd (BACK c) @ t) + 3 < fuel" for t fuel
    using line_of_back [of c t fuel] that by simp
  then show ?case by (rule reads_block) simp_all
qed

lemma parsecmd_yields: "yields cmd_ok (parsecmd s)"
proof -
  have "yields (parsed s) (parseline (4 * length s + 4) s)" using parse_yields [of s "4 * length s + 4"] by simp
  then show "yields cmd_ok (parsecmd s)" unfolding parsecmd_def
    by (rule yields_bind) (auto split: prod.splits)
qed

section \<open>The properties\<close>

text \<open>C34. The shell's parser is total and sound: on every line it ends, and either rejects the line with one of its messages or returns a
  well-formed command, in which every program has fewer than \<open>MAXARGS\<close> arguments, all names are non-empty words free of blanks and operators, and
  every redirection has one of the three modes.\<close>

theorem parsecmd_well_formed: "(\<exists>c. parsecmd s = Ret c \<and> cmd_ok c) \<or> (\<exists>m. m \<in> parse_errors \<and> parsecmd s = Panic m)"
  using parsecmd_yields [of s] by (cases "parsecmd s") auto

text \<open>C35. Parsing inverts printing: every well-formed command, printed with parentheses around compound parts, is read back as the same tree, so
  the grammar expresses every well-formed command and its operators bind as the tree says.\<close>

theorem parsecmd_print:
  assumes "cmd_ok c"
  shows "parsecmd (print_atom c) = Ret c"
proof -
  have "parseline (4 * length (print_atom c) + 4) (print_atom c @ []) = Ret (c, [])"
    by (rule line_of_reads [OF reads_all [OF assms]]) (simp_all add: line_end_def)
  then show ?thesis by (simp add: parsecmd_def peek_simps del: parseline.simps)
qed

text \<open>The command \<^verbatim>\<open>( ( a b > f | c ) & ; d )\<close>.\<close>

theorem parsecmd_print_witness:
  "parsecmd (print_atom (LIST (BACK (PIPE (REDIR (EXEC [[97], [98]]) [102] 0x601 1) (EXEC [[99]]))) (EXEC [[100]]))) =
     Ret (LIST (BACK (PIPE (REDIR (EXEC [[97], [98]]) [102] 0x601 1) (EXEC [[99]]))) (EXEC [[100]]))"
  by (rule parsecmd_print) (simp add: word_def word_char_def redir_ok_def)

end
