(* ===== verification/Shell_Run.thy ===== *)
theory Shell_Run
  imports Shell "HOL-Library.Sublist"
begin

text \<open>
  Running commands in the shell (\<^verbatim>\<open>runcmd\<close>, \<^verbatim>\<open>getcmd\<close> and \<^verbatim>\<open>main\<close> of \<^verbatim>\<open>user/sh.c\<close>).  A process is the list of its observable actions, and a fork
  carries the list of the child; what follows an \<open>Exec\<close> is what the process does when the call has failed.  An \<open>open\<close>, \<open>pipe\<close>, \<open>fork\<close>,
  \<open>exec\<close> or \<open>chdir\<close> takes its answer from \<open>w\<close>, which is asked at the position of the call in the tree of commands, so a statement for every
  \<open>w\<close> covers every pattern of failures of these calls.  The position is also recorded in \<open>Exec\<close> and \<open>Chdir\<close>, where it names the command.
  A \<open>read\<close> delivers the next byte of the input, or nothing at its end, and the parser obtains the memory it asks for.
\<close>

section \<open>File descriptors\<close>

datatype target = Given nat | Opened "byte list" uint | PipeEnd bool "nat list"

type_synonym fdtable = "target option list"

definition fd_close :: "int \<Rightarrow> fdtable \<Rightarrow> fdtable" where
  "fd_close fd f = (if 0 \<le> fd \<and> nat fd < length f then f[nat fd := None] else f)"

definition fd_alloc :: "target \<Rightarrow> fdtable \<Rightarrow> (nat \<times> fdtable) option" where
  "fd_alloc t f = (case find (\<lambda>i. f ! i = None) [0..<length f] of None \<Rightarrow> None | Some i \<Rightarrow> Some (i, f[i := Some t]))"

definition fd_dup :: "nat \<Rightarrow> fdtable \<Rightarrow> fdtable" where
  "fd_dup p f = (case f ! p of None \<Rightarrow> f | Some t \<Rightarrow> (case fd_alloc t f of None \<Rightarrow> f | Some (_, f1) \<Rightarrow> f1))"

definition fd_pipe :: "nat list \<Rightarrow> fdtable \<Rightarrow> (nat \<times> nat \<times> fdtable) option" where
  "fd_pipe k f =
     (case fd_alloc (PipeEnd False k) f of
        None \<Rightarrow> None
      | Some (p0, f1) \<Rightarrow> (case fd_alloc (PipeEnd True k) f1 of None \<Rightarrow> None | Some (p1, f2) \<Rightarrow> Some (p0, p1, f2)))"

section \<open>Commands\<close>

datatype event =
    Fork "event list"
  | Wait fdtable
  | Exec "nat list" "byte list list" fdtable
  | Chdir "nat list" "byte list"
  | Message string "byte list"
  | Exit int

definition sh_panic :: "string \<Rightarrow> event list" where
  "sh_panic m = [Message m [], Exit 1]"

definition fork1 :: "bool \<Rightarrow> event list \<Rightarrow> event list \<Rightarrow> event list" where
  "fork1 ok child rest = (if ok then Fork child # rest else sh_panic ''fork'')"

fun runcmd :: "(nat list \<Rightarrow> bool) \<Rightarrow> nat list \<Rightarrow> cmd \<Rightarrow> fdtable \<Rightarrow> event list" where
  "runcmd w k (EXEC argv) f =
     (if argv = [] then [Exit 1]
      else Exec k argv f # (if w (0 # k) then [] else [Message ''exec %s failed'' (hd argv), Exit 0]))"
| "runcmd w k (REDIR c file mode fd) f =
     (case (if w (0 # k) then fd_alloc (Opened file mode) (fd_close fd f) else None) of
        None \<Rightarrow> [Message ''open %s failed'' file, Exit 1]
      | Some (_, f1) \<Rightarrow> runcmd w (5 # k) c f1)"
| "runcmd w k (LIST c d) f = fork1 (w (1 # k)) (runcmd w (3 # k) c f) (Wait f # runcmd w (4 # k) d f)"
| "runcmd w k (PIPE c d) f =
     (case (if w (0 # k) then fd_pipe k f else None) of
        None \<Rightarrow> sh_panic ''pipe''
      | Some (p0, p1, f1) \<Rightarrow>
          let close_both = \<lambda>f. fd_close (int p1) (fd_close (int p0) f); f2 = close_both f1 in
          fork1 (w (1 # k)) (runcmd w (3 # k) c (close_both (fd_dup p1 (fd_close 1 f1))))
            (fork1 (w (2 # k)) (runcmd w (4 # k) d (close_both (fd_dup p0 (fd_close 0 f1)))) [Wait f2, Wait f2, Exit 0]))"
| "runcmd w k (BACK c) f = fork1 (w (1 # k)) (runcmd w (3 # k) c f) [Exit 0]"

definition run_line :: "(nat list \<Rightarrow> bool) \<Rightarrow> nat list \<Rightarrow> byte list \<Rightarrow> fdtable \<Rightarrow> event list" where
  "run_line w k s f = (case parsecmd s of Ret c \<Rightarrow> runcmd w k c f | Panic m \<Rightarrow> sh_panic m | Hang \<Rightarrow> [])"

section \<open>The command loop\<close>

definition getcmd :: "byte list \<Rightarrow> byte list \<times> byte list" where
  "getcmd inp = (let (buf, rest) = gets 100 inp in (takeWhile (\<lambda>c. c \<noteq> 0) buf, rest))"

fun open_console :: "nat \<Rightarrow> (nat list \<Rightarrow> bool) \<Rightarrow> fdtable \<Rightarrow> fdtable" where
  "open_console 0 w f = f"
| "open_console (Suc fuel) w f =
     (case (if w [fuel] then fd_alloc (Opened [99, 111, 110, 115, 111, 108, 101] O_RDWR) f else None) of
        None \<Rightarrow> f
      | Some (fd, f1) \<Rightarrow> if 3 \<le> fd then fd_close (int fd) f1 else open_console fuel w f1)"

definition is_cd :: "byte list \<Rightarrow> bool" where
  "is_cd cmd \<longleftrightarrow> hd0 cmd = 99 \<and> hd0 (tl cmd) = 100 \<and> hd0 (tl (tl cmd)) = 32"

fun main_loop :: "nat \<Rightarrow> (nat list \<Rightarrow> bool) \<Rightarrow> nat \<Rightarrow> fdtable \<Rightarrow> byte list \<Rightarrow> event list" where
  "main_loop 0 w n f inp = []"
| "main_loop (Suc fuel) w n f inp =
     Message ''$ '' [] #
     (let (line, rest) = getcmd inp; cmd = dropWhile (\<lambda>c. c = 32 \<or> c = 9) line in
      if line = [] then [Exit 0]
      else if hd0 cmd = 10 then main_loop fuel w (Suc n) f rest
      else if is_cd cmd then
        let dir = drop 3 (butlast cmd) in
        Chdir [n] dir # (if w [0, n] then [] else [Message ''cannot cd %s'' dir]) @ main_loop fuel w (Suc n) f rest
      else fork1 (w [1, n]) (run_line w [n] cmd f) (Wait f # main_loop fuel w (Suc n) f rest))"

definition sh_main :: "(nat list \<Rightarrow> bool) \<Rightarrow> fdtable \<Rightarrow> byte list \<Rightarrow> event list" where
  "sh_main w f inp = main_loop (length inp + 1) w 0 (open_console 4 w f) inp"

section \<open>What the commands should be wired to\<close>

type_synonym wiring = "byte list list \<times> target \<times> target \<times> target"

text \<open>The programs of a command, in order, each with its standard input, output and error.\<close>

fun wire :: "nat list \<Rightarrow> cmd \<Rightarrow> target \<Rightarrow> target \<Rightarrow> target \<Rightarrow> wiring list" where
  "wire k (EXEC argv) i out e = (if argv = [] then [] else [(argv, i, out, e)])"
| "wire k (REDIR c file mode fd) i out e =
     (if fd = 0 then wire (5 # k) c (Opened file mode) out e else wire (5 # k) c i (Opened file mode) e)"
| "wire k (LIST c d) i out e = wire (3 # k) c i out e @ wire (4 # k) d i out e"
| "wire k (PIPE c d) i out e = wire (3 # k) c i (PipeEnd True k) e @ wire (4 # k) d (PipeEnd False k) out e"
| "wire k (BACK c) i out e = wire (3 # k) c i out e"

definition std :: "target \<Rightarrow> target \<Rightarrow> target \<Rightarrow> fdtable" where
  "std i out e = [Some i, Some out, Some e] @ replicate (NOFILE - 3) None"

definition wired :: "wiring \<Rightarrow> byte list list \<times> fdtable" where
  "wired = (\<lambda>(argv, i, out, e). (argv, std i out e))"

fun execs :: "event list \<Rightarrow> (byte list list \<times> fdtable) list" where
  "execs [] = []"
| "execs (Fork es # r) = execs es @ execs r"
| "execs (Exec k argv f # r) = (argv, f) # execs r"
| "execs (_ # r) = execs r"

text \<open>The tables of the processes that wait, and whether every process waits only for children it has.\<close>

fun waits :: "event list \<Rightarrow> fdtable list" where
  "waits [] = []"
| "waits (Fork es # r) = waits es @ waits r"
| "waits (Wait f # r) = f # waits r"
| "waits (_ # r) = waits r"

fun balanced :: "nat \<Rightarrow> event list \<Rightarrow> bool" where
  "balanced n [] \<longleftrightarrow> True"
| "balanced n (Fork es # r) \<longleftrightarrow> balanced 0 es \<and> balanced (Suc n) r"
| "balanced n (Wait f # r) \<longleftrightarrow> 0 < n \<and> balanced (n - 1) r"
| "balanced n (_ # r) \<longleftrightarrow> balanced n r"

text \<open>The lines of a session, and the programs they should run.\<close>

lemma getcmd_shorter: "getcmd inp = (line, rest) \<Longrightarrow> line \<noteq> [] \<Longrightarrow> length rest < length inp"
proof -
  assume g: "getcmd inp = (line, rest)" "line \<noteq> []"
  obtain buf where b: "gets 100 inp = (buf, rest)" "line = takeWhile (\<lambda>c. c \<noteq> 0) buf"
    using g(1) by (auto simp: getcmd_def split: prod.splits)
  have "buf @ rest = inp" using b(1) gets_loop_splits[of 99 inp buf rest] by (simp add: gets_def)
  then show "length rest < length inp" using b(2) g(2) by (cases buf) auto
qed

function shell_lines :: "byte list \<Rightarrow> byte list list" where
  "shell_lines inp = (case getcmd inp of (line, rest) \<Rightarrow> if line = [] then [] else line # shell_lines rest)"
  by auto
termination
  by (relation "measure length") (auto intro: getcmd_shorter[OF sym])

declare shell_lines.simps [simp del]

definition line_wiring :: "nat \<Rightarrow> byte list \<Rightarrow> target \<Rightarrow> target \<Rightarrow> target \<Rightarrow> wiring list" where
  "line_wiring n line i out e =
     (let cmd = dropWhile (\<lambda>c. c = 32 \<or> c = 9) line in
      if hd0 cmd = 10 \<or> is_cd cmd then []
      else (case parsecmd cmd of Ret c \<Rightarrow> wire [n] c i out e | _ \<Rightarrow> []))"

fun session_wiring :: "nat \<Rightarrow> byte list list \<Rightarrow> target \<Rightarrow> target \<Rightarrow> target \<Rightarrow> wiring list" where
  "session_wiring n [] i out e = []"
| "session_wiring n (line # ls) i out e = line_wiring n line i out e @ session_wiring (Suc n) ls i out e"

section \<open>Lemmas\<close>

lemma std_simps:
  "fd_pipe k (std i out e) = Some (3, 4, [Some i, Some out, Some e, Some (PipeEnd False k), Some (PipeEnd True k)] @ replicate 11 None)"
  "fd_close 4 (fd_close 3 (fd_dup 4 (fd_close 1 ([Some i, Some out, Some e, Some (PipeEnd False k), Some (PipeEnd True k)] @ replicate 11 None)))) = std i (PipeEnd True k) e"
  "fd_close 4 (fd_close 3 (fd_dup 3 (fd_close 0 ([Some i, Some out, Some e, Some (PipeEnd False k), Some (PipeEnd True k)] @ replicate 11 None)))) = std (PipeEnd False k) out e"
  "fd_close 4 (fd_close 3 ([Some i, Some out, Some e, Some (PipeEnd False k), Some (PipeEnd True k)] @ replicate 11 None)) = std i out e"
  "fd_alloc t (fd_close 0 (std i out e)) = Some (0, std t out e)"
  "fd_alloc t (fd_close 1 (std i out e)) = Some (1, std i t e)"
  by (simp_all add: std_def fd_pipe_def fd_close_def fd_dup_def fd_alloc_def upt_conv_Cons numeral_eq_Suc del: upt_Suc)

lemma runcmd_simps:
  "runcmd w k (PIPE c d) (std i out e) =
     (if w (0 # k) then fork1 (w (1 # k)) (runcmd w (3 # k) c (std i (PipeEnd True k) e))
        (fork1 (w (2 # k)) (runcmd w (4 # k) d (std (PipeEnd False k) out e)) [Wait (std i out e), Wait (std i out e), Exit 0])
      else sh_panic ''pipe'')"
  "fd \<in> {0, 1} \<Longrightarrow> runcmd w k (REDIR c file mode fd) (std i out e) =
     (if w (0 # k) then runcmd w (5 # k) c (if fd = 0 then std (Opened file mode) out e else std i (Opened file mode) e)
      else [Message ''open %s failed'' file, Exit 1])"
  by (auto simp: std_simps std_simps(2-4)[simplified] Let_def)

lemmas fork_simps = fork1_def sh_panic_def

lemma runcmd_execs_subseq:
  "cmd_ok c \<Longrightarrow> subseq (execs (runcmd w k c (std i out e))) (map wired (wire k c i out e))"
proof (induction c arbitrary: k i out e)
  case (REDIR c name mode fd)
  then have fd: "fd \<in> {0, 1}" by (auto simp: redir_ok_def)
  show ?case using REDIR fd unfolding runcmd_simps(2)[OF fd] by (auto simp del: runcmd.simps)
qed (auto simp: runcmd_simps(1) wired_def fork_simps list_emb_append_mono simp del: runcmd.simps(4))

lemma runcmd_execs:
  "cmd_ok c \<Longrightarrow> execs (runcmd (\<lambda>_. True) k c (std i out e)) = map wired (wire k c i out e)"
proof (induction c arbitrary: k i out e)
  case (REDIR c name mode fd)
  then have fd: "fd \<in> {0, 1}" by (auto simp: redir_ok_def)
  show ?case using REDIR fd unfolding runcmd_simps(2)[OF fd] by (auto simp del: runcmd.simps)
qed (auto simp: runcmd_simps(1) wired_def fork_simps simp del: runcmd.simps(4))

lemma runcmd_waits:
  "cmd_ok c \<Longrightarrow> f \<in> set (waits (runcmd w k c (std i out e))) \<Longrightarrow> \<exists>i out e. f = std i out e"
proof (induction c arbitrary: k i out e)
  case (REDIR c name mode fd)
  then have fd: "fd \<in> {0, 1}" by (auto simp: redir_ok_def)
  show ?case using REDIR fd unfolding runcmd_simps(2)[OF fd] by (auto simp del: runcmd.simps split: if_splits)
qed (auto simp: runcmd_simps(1) fork_simps simp del: runcmd.simps(4) split: if_splits)

lemma runcmd_balanced:
  "cmd_ok c \<Longrightarrow> balanced n (runcmd w k c (std i out e))"
proof (induction c arbitrary: k i out e n)
  case (REDIR c name mode fd)
  then have fd: "fd \<in> {0, 1}" by (auto simp: redir_ok_def)
  show ?case using REDIR fd unfolding runcmd_simps(2)[OF fd] by (auto simp del: runcmd.simps)
qed (auto simp: runcmd_simps(1) fork_simps simp del: runcmd.simps(4))

lemma run_line_facts:
  shows "subseq (execs (run_line w k s (std i out e))) (map wired (case parsecmd s of Ret c \<Rightarrow> wire k c i out e | _ \<Rightarrow> []))"
    and "execs (run_line (\<lambda>_. True) k s (std i out e)) = map wired (case parsecmd s of Ret c \<Rightarrow> wire k c i out e | _ \<Rightarrow> [])"
    and "f \<in> set (waits (run_line w k s (std i out e))) \<Longrightarrow> \<exists>i out e. f = std i out e"
    and "balanced n (run_line w k s (std i out e))"
  using parsecmd_yields[of s] runcmd_waits
  by (cases "parsecmd s"; force simp: run_line_def sh_panic_def runcmd_execs runcmd_execs_subseq runcmd_balanced)+

lemma open_console_std: "open_console fuel w (std i out e) = std i out e"
  by (cases fuel) (simp_all add: std_def fd_close_def fd_alloc_def upt_conv_Cons numeral_eq_Suc del: upt_Suc)

lemma main_loop_execs_subseq:
  "subseq (execs (main_loop fuel w n (std i out e) inp)) (map wired (session_wiring n (shell_lines inp) i out e))"
proof (induction fuel arbitrary: n inp)
  case (Suc fuel)
  obtain line rest where g: "getcmd inp = (line, rest)" by (cases "getcmd inp")
  show ?case
    using Suc.IH[of "Suc n" rest] run_line_facts(1)
    by (auto simp: g Let_def shell_lines.simps[of inp] line_wiring_def fork_simps list_emb_append_mono)
qed simp

lemma main_loop_execs:
  "length inp < fuel \<Longrightarrow> execs (main_loop fuel (\<lambda>_. True) n (std i out e) inp) = map wired (session_wiring n (shell_lines inp) i out e)"
proof (induction fuel arbitrary: n inp)
  case (Suc fuel)
  obtain line rest where g: "getcmd inp = (line, rest)" by (cases "getcmd inp")
  have "line \<noteq> [] \<Longrightarrow> length rest < fuel" using getcmd_shorter[OF g] Suc.prems by simp
  then show ?case
    using Suc.IH[of rest "Suc n"] 
    by (auto simp: g Let_def shell_lines.simps[of inp] line_wiring_def fork_simps run_line_facts(2))
qed simp

lemma main_loop_waits:
  "f \<in> set (waits (main_loop fuel w n (std i out e) inp)) \<Longrightarrow> \<exists>i out e. f = std i out e"
proof (induction fuel arbitrary: n inp)
  case (Suc fuel)
  obtain line rest where g: "getcmd inp = (line, rest)" by (cases "getcmd inp")
  show ?case
    using Suc.prems Suc.IH[of "Suc n" rest] run_line_facts(3)
    by (auto simp: g Let_def fork_simps split: if_splits)
qed simp

lemma main_loop_balanced: "balanced b (main_loop fuel w n (std i out e) inp)"
proof (induction fuel arbitrary: n inp b)
  case (Suc fuel)
  obtain line rest where g: "getcmd inp = (line, rest)" by (cases "getcmd inp")
  show ?case using Suc.IH run_line_facts(4) by (auto simp: g Let_def fork_simps)
qed simp

lemma main_loop_ends:
  "length inp < fuel \<Longrightarrow> main_loop fuel w n f inp \<noteq> [] \<and> last (main_loop fuel w n f inp) \<in> {Exit 0, Exit 1}"
proof (induction fuel arbitrary: n inp)
  case (Suc fuel)
  obtain line rest where g: "getcmd inp = (line, rest)" by (cases "getcmd inp")
  have "line \<noteq> [] \<Longrightarrow> length rest < fuel" using getcmd_shorter[OF g] Suc.prems by simp
  then show ?case using Suc.IH[of rest "Suc n"] by (auto simp: g Let_def fork_simps)
qed simp

text \<open>Missing standard descriptors are opened on the console.\<close>

definition or_console :: "target option \<Rightarrow> target" where
  "or_console t = (case t of None \<Rightarrow> Opened [99, 111, 110, 115, 111, 108, 101] O_RDWR | Some t \<Rightarrow> t)"

lemma open_console_fills:
  "open_console 4 (\<lambda>_. True) ([a, b, c] @ replicate (NOFILE - 3) None) = std (or_console a) (or_console b) (or_console c)"
  by (cases a; cases b; cases c)
    (simp_all add: std_def or_console_def fd_close_def fd_alloc_def upt_conv_Cons numeral_eq_Suc del: upt_Suc)

end
