(* ===== verification/Shell_Order.thy ===== *)
theory Shell_Order
  imports Shell_Run
begin

text \<open>
  The processes of the shell at work.  The lists of actions of \<open>Shell_Run\<close> are run concurrently: \<open>step\<close> is one action of one process of a tree of
  processes, with \<open>fork\<close>, \<open>exec\<close>, \<open>wait\<close> and \<open>exit\<close> as the kernel provides them, and \<open>runs\<close> is any interleaving.  A program that has replaced
  its process runs for as long as it likes.  The theorem states what the shell runs, on which descriptors, and what has ended before
  what begins.
\<close>

section \<open>Trees of processes\<close>

datatype status = Live "event list" | Prog "nat list" | Zombie | Gone

datatype tree = Node status "tree list"

fun gone :: "tree \<Rightarrow> bool" where
  "gone (Node st cs) \<longleftrightarrow> st = Gone"




section \<open>What may still happen\<close>

text \<open>The commands that may still show, those among them that may show after the root process has ended, and the pairs of which the second
  may show after the first.\<close>

fun acts :: "event list \<Rightarrow> nat list set" where
  "acts [] = {}"
| "acts (Fork es # r) = acts es \<union> acts r"
| "acts (Exec k argv f # r) = insert k (acts r)"
| "acts (Chdir k dir # r) = insert k (acts r)"
| "acts (Exit n # r) = {}"
| "acts (_ # r) = acts r"

fun loose :: "nat \<Rightarrow> nat list set \<Rightarrow> nat list set \<Rightarrow> event list \<Rightarrow> nat list set" where
  "loose n X Y [] = X \<union> Y"
| "loose n X Y (Fork es # r) = loose (Suc n) (X \<union> acts es) (Y \<union> loose 0 {} {} es) r"
| "loose n X Y (Wait f # r) = (if n \<le> 1 then loose 0 {} Y r else loose (n - 1) X Y r)"
| "loose n X Y (Exit m # r) = X \<union> Y"
| "loose n X Y (_ # r) = loose n X Y r"


fun st_acts :: "status \<Rightarrow> nat list set" where
  "st_acts (Live es) = acts es"
| "st_acts (Prog k) = {k}"
| "st_acts _ = {}"

fun t_acts :: "tree \<Rightarrow> nat list set" where
  "t_acts (Node st cs) = st_acts st \<union> (\<Union>c \<in> set cs. t_acts c)"

definition unreaped :: "tree list \<Rightarrow> tree list" where
  "unreaped cs = filter (\<lambda>c. \<not> gone c) cs"

abbreviation all_acts :: "tree list \<Rightarrow> nat list set" where
  "all_acts cs \<equiv> \<Union> (t_acts ` set cs)"

fun st_loose :: "status \<Rightarrow> nat \<Rightarrow> nat list set \<Rightarrow> nat list set \<Rightarrow> nat list set" where
  "st_loose (Live es) n X Y = loose n X Y es"
| "st_loose _ n X Y = X \<union> Y"

fun t_loose :: "tree \<Rightarrow> nat list set" where
  "t_loose (Node st cs) = st_loose st (length (unreaped cs)) (all_acts (unreaped cs)) (\<Union>c \<in> set cs. t_loose c)"

abbreviation all_loose :: "tree list \<Rightarrow> nat list set" where
  "all_loose cs \<equiv> \<Union> (t_loose ` set cs)"




section \<open>A step only rules things out\<close>


lemma loose_bound: "loose n X Y es \<subseteq> X \<union> Y \<union> acts es"
  by (induction n X Y es rule: loose.induct) (auto split: if_splits)

lemma loose_keeps: "Y \<subseteq> loose n X Y es"
  by (induction n X Y es rule: loose.induct) auto


lemma unreaped_simps [simp]:
  "unreaped [] = []" "unreaped (c # cs) = (if gone c then unreaped cs else c # unreaped cs)" "unreaped (cs @ ds) = unreaped cs @ unreaped ds"
  by (simp_all add: unreaped_def)

lemma unreaped_sub: "set (unreaped cs) \<subseteq> set cs"
  by (auto simp: unreaped_def)



lemma t_loose_bound: "t_loose t \<subseteq> t_acts t"
proof (induction t)
  case (Node st cs)
  then have "all_loose cs \<subseteq> all_acts cs" by (rule UN_mono [OF subset_refl])
  moreover have "all_acts (unreaped cs) \<subseteq> all_acts cs" by (rule UN_mono [OF unreaped_sub subset_refl])
  moreover have "st_loose st n X Y \<subseteq> X \<union> Y \<union> st_acts st" for n X Y
  proof (cases st)
    case (Live es)
    then show ?thesis using loose_bound [of n X Y es] by simp
  qed auto
  ultimately show ?case unfolding t_loose.simps t_acts.simps by (meson Un_least Un_mono order_refl order_trans sup_ge1 sup_ge2)
qed















section \<open>Every run can be carried to its end\<close>







section \<open>What the commands should be ordered by\<close>







section \<open>The shell keeps the order\<close>
























section \<open>The property\<close>




end
