(* ===== verification/Umalloc.thy ===== *)
theory Umalloc
  imports Prelude
begin

text \<open>
  The user-level memory allocator (\<^verbatim>\<open>user/umalloc.c\<close>), a circular list of free blocks in address order.  Addresses and sizes are natural numbers, sizes in
  units of the 16-byte header, with the wrap-around of \<^verbatim>\<open>uint\<close> sizes and of pointers written out.  \<open>b0\<close> is the address of the static header
  \<^verbatim>\<open>base\<close>; \<open>grant n brk\<close> says whether the kernel has the memory to
  move the break up by \<open>n\<close> bytes.
\<close>

section \<open>The functions\<close>

record uheap =
  h_ptr :: "nat \<Rightarrow> nat"
  h_size :: "nat \<Rightarrow> nat"
  freep :: nat
  u_brk :: nat

definition hsz :: nat where [simp]: "hsz = 16"

definition hend :: "uheap \<Rightarrow> nat \<Rightarrow> nat" where
  "hend s p = (p + hsz * h_size s p) mod 2 ^ 64"

abbreviation set_ptr :: "nat \<Rightarrow> nat \<Rightarrow> uheap \<Rightarrow> uheap" where
  "set_ptr p q s \<equiv> s\<lparr>h_ptr := (h_ptr s)(p := q)\<rparr>"

abbreviation set_size :: "nat \<Rightarrow> nat \<Rightarrow> uheap \<Rightarrow> uheap" where
  "set_size p n s \<equiv> s\<lparr>h_size := (h_size s)(p := n mod 2 ^ 32)\<rparr>"

definition search_stop :: "uheap \<Rightarrow> nat \<Rightarrow> nat \<Rightarrow> bool" where
  "search_stop s bp p \<longleftrightarrow> p < bp \<and> bp < h_ptr s p \<or> h_ptr s p \<le> p \<and> (p < bp \<or> bp < h_ptr s p)"

fun free_search :: "nat \<Rightarrow> uheap \<Rightarrow> nat \<Rightarrow> nat \<Rightarrow> nat outcome" where
  "free_search 0 s bp p = Hang"
| "free_search (Suc fuel) s bp p = (if search_stop s bp p then Ret p else free_search fuel s bp (h_ptr s p))"

definition free_join :: "nat \<Rightarrow> nat \<Rightarrow> uheap \<Rightarrow> uheap" where
  "free_join bp p s =
     (let q = h_ptr s p;
          s1 = (if hend s bp = q then set_ptr bp (h_ptr s q) (set_size bp (h_size s bp + h_size s q) s) else set_ptr bp q s);
          s2 = (if hend s1 p = bp then set_ptr p (h_ptr s1 bp) (set_size p (h_size s1 p + h_size s1 bp) s1) else set_ptr p bp s1)
      in s2\<lparr>freep := p\<rparr>)"

definition list_fuel :: "uheap \<Rightarrow> nat" where
  "list_fuel s = u_brk s div hsz + 2"

definition free :: "nat \<Rightarrow> uheap \<Rightarrow> uheap outcome" where
  "free ap s = (let bp = ap - hsz in obind (free_search (list_fuel s) s bp (freep s)) (\<lambda>p. Ret (free_join bp p s)))"

definition sbrk :: "(int \<Rightarrow> nat \<Rightarrow> bool) \<Rightarrow> int \<Rightarrow> uheap \<Rightarrow> nat option \<times> uheap" where
  "sbrk grant n s =
     (let addr = u_brk s; new = nat ((int addr + n) mod 2 ^ 64) in
      if n > 0 then (if grant n addr then (Some addr, s\<lparr>u_brk := new\<rparr>) else (None, s))
      else (Some addr, if new < addr then s\<lparr>u_brk := new\<rparr> else s))"

definition morecore :: "(int \<Rightarrow> nat \<Rightarrow> bool) \<Rightarrow> nat \<Rightarrow> uheap \<Rightarrow> (nat \<times> uheap) outcome" where
  "morecore grant nu s =
     (let nu1 = (if nu < 4096 then 4096 else nu) in
      case sbrk grant (sint (word_of_int (int (nu1 * hsz)) :: uint)) s of
        (None, s1) \<Rightarrow> Ret (0, s1)
      | (Some hp, s1) \<Rightarrow> obind (free (hp + hsz) (set_size hp nu1 s1)) (\<lambda>s2. Ret (freep s2, s2)))"

definition take_block :: "nat \<Rightarrow> nat \<Rightarrow> nat \<Rightarrow> uheap \<Rightarrow> nat \<times> uheap" where
  "take_block nunits prevp p s =
     (let (p1, s1) = (if h_size s p = nunits then (p, set_ptr prevp (h_ptr s p) s)
                      else let s1 = set_size p (h_size s p - nunits) s; p1 = hend s1 p in (p1, set_size p1 nunits s1))
      in (p1 + hsz, s1\<lparr>freep := prevp\<rparr>))"

fun malloc_loop :: "nat \<Rightarrow> (int \<Rightarrow> nat \<Rightarrow> bool) \<Rightarrow> nat \<Rightarrow> nat \<Rightarrow> nat \<Rightarrow> uheap \<Rightarrow> (nat \<times> uheap) outcome" where
  "malloc_loop 0 grant nunits prevp p s = Hang"
| "malloc_loop (Suc fuel) grant nunits prevp p s =
     (if nunits \<le> h_size s p then Ret (take_block nunits prevp p s)
      else if p = freep s then
        obind (morecore grant nunits s) (\<lambda>(p1, s1).
          if p1 = 0 then Ret (0, s1) else malloc_loop fuel grant nunits p1 (h_ptr s1 p1) s1)
      else malloc_loop fuel grant nunits p (h_ptr s p) s)"

definition malloc :: "(int \<Rightarrow> nat \<Rightarrow> bool) \<Rightarrow> nat \<Rightarrow> nat \<Rightarrow> uheap \<Rightarrow> (nat \<times> uheap) outcome" where
  "malloc grant b0 nbytes s =
     (let nunits = ((nbytes + hsz - 1) div hsz + 1) mod 2 ^ 32;
          s1 = (if freep s = 0 then set_size b0 0 (set_ptr b0 b0 s\<lparr>freep := b0\<rparr>) else s);
          prevp = freep s1
      in malloc_loop (2 * list_fuel s + 4) grant nunits prevp (h_ptr s1 prevp) s1)"

section \<open>The invariant\<close>

text \<open>\<open>path s p xs q\<close>: the links from \<open>p\<close> lead through \<open>xs\<close> to \<open>q\<close>.\<close>

fun path :: "uheap \<Rightarrow> nat \<Rightarrow> nat list \<Rightarrow> nat \<Rightarrow> bool" where
  "path s p [] q \<longleftrightarrow> h_ptr s p = q"
| "path s p (x # xs) q \<longleftrightarrow> h_ptr s p = x \<and> path s x xs q"

text \<open>\<open>spaced s e xs hi\<close>: blocks in address order with a gap before each one, from \<open>e\<close> up to \<open>hi\<close>.\<close>

fun spaced :: "uheap \<Rightarrow> nat \<Rightarrow> nat list \<Rightarrow> nat \<Rightarrow> bool" where
  "spaced s e [] hi \<longleftrightarrow> e \<le> hi"
| "spaced s e (x # xs) hi \<longleftrightarrow> e < x \<and> 0 < h_size s x \<and> spaced s (x + hsz * h_size s x) xs hi"

definition range_of :: "uheap \<Rightarrow> nat \<Rightarrow> nat set" where
  "range_of s x = {x ..< x + hsz * h_size s x}"

definition space :: "uheap \<Rightarrow> nat list \<Rightarrow> nat set" where
  "space s xs = (\<Union>x \<in> set xs. range_of s x)"

definition heap_limit :: nat where "heap_limit = 2 ^ 36"

definition heap_inv :: "nat \<Rightarrow> uheap \<Rightarrow> nat list \<Rightarrow> nat set \<Rightarrow> bool" where
  "heap_inv b0 s bs al \<longleftrightarrow> 0 < b0 \<and> b0 + hsz \<le> u_brk s \<and> path s b0 bs b0 \<and> h_size s b0 = 0 \<and> spaced s (b0 + hsz - 1) bs (u_brk s) \<and> freep s \<in> set (b0 # bs) \<and>
     u_brk s \<le> heap_limit \<and>
     (\<forall>a \<in> al. b0 + hsz \<le> a \<and> 0 < h_size s a \<and> a + hsz * h_size s a \<le> u_brk s \<and> range_of s a \<inter> space s bs = {} \<and>
        (\<forall>c \<in> al. c \<noteq> a \<longrightarrow> range_of s a \<inter> range_of s c = {}))"

section \<open>Lemmas\<close>

lemma path_append: "path s p (xs @ y # ys) q \<longleftrightarrow> path s p xs y \<and> path s y ys q"
  by (induction xs arbitrary: p) auto

lemma path_relink:
  assumes "path s p xs q" "distinct (p # xs)" "\<forall>x \<in> set (butlast (p # xs)). h_ptr t x = h_ptr s x" "h_ptr t (last (p # xs)) = v"
  shows "path t p xs v"
  using assms by (induction xs arbitrary: p) (auto split: if_splits)

lemma path_cong:
  assumes "path s p xs q" "\<forall>x \<in> set (p # xs). h_ptr t x = h_ptr s x"
  shows "path t p xs q"
  using assms by (induction xs arbitrary: p) auto

lemma path_start:
  assumes "path s q xs r" "h_ptr t p = h_ptr s q" "\<forall>x \<in> set xs. h_ptr t x = h_ptr s x"
  shows "path t p xs r"
  using assms path_cong[of s "hd xs" "tl xs" r t] by (cases xs) auto

lemma path_last: "path s p xs q \<Longrightarrow> h_ptr s (last (p # xs)) = q"
  by (induction xs arbitrary: p) auto

lemma path_circle:
  assumes "path s b bs b" "x \<in> set (b # bs)" "distinct (b # bs)"
  shows "\<exists>zs. path s x zs x \<and> set (x # zs) = set (b # bs) \<and> length zs = length bs \<and> x \<notin> set zs"
proof (cases "x = b")
  case True
  then show ?thesis using assms by auto
next
  case False
  then obtain xs ys where bs: "bs = xs @ x # ys"
    using assms(2) by (auto dest: split_list)
  then have "path s x (ys @ b # xs) x"
    using assms(1) by (simp add: path_append)
  then show ?thesis using assms(3) bs by (intro exI[of _ "ys @ b # xs"]) auto
qed

lemma path_pred:
  assumes "path s b bs b" "x \<in> set (b # bs)" "x \<noteq> b" "u \<in> set (b # bs)" "h_ptr s u = x" "distinct (b # bs)"
  shows "\<exists>xs ys. bs = xs @ x # ys \<and> u = last (b # xs)"
proof -
  have "\<exists>xs ys. bs = xs @ x # ys \<and> u = last (c # xs)" if "path s c bs b" "u \<in> set (c # bs)" "x \<noteq> b" "h_ptr s u = x" for c
    using that
  proof (induction bs arbitrary: c)
    case (Cons y bs)
    show ?case
    proof (cases "u = c")
      case True
      then show ?thesis using Cons.prems by (intro exI[of _ "[]"] exI[of _ bs]) auto
    next
      case False
      then obtain xs ys where "bs = xs @ x # ys" "u = last (y # xs)"
        using Cons.IH[of y] Cons.prems by auto
      then show ?thesis by (intro exI[of _ "y # xs"] exI[of _ ys]) auto
    qed
  qed auto
  then show ?thesis using assms by blast
qed

fun fend :: "uheap \<Rightarrow> nat \<Rightarrow> nat list \<Rightarrow> nat" where
  "fend s e [] = e"
| "fend s e (x # xs) = fend s (x + hsz * h_size s x) xs"

lemma fend_snoc [simp]: "fend s e (xs @ [x]) = x + hsz * h_size s x"
  by (induction xs arbitrary: e) auto

lemma spaced_append: "spaced s e (xs @ ys) hi \<longleftrightarrow> spaced s e xs (fend s e xs) \<and> spaced s (fend s e xs) ys hi"
  by (induction xs arbitrary: e) auto

lemma spaced_fend: "spaced s e xs hi \<Longrightarrow> spaced s e xs (fend s e xs)"
  by (induction xs arbitrary: e) auto

lemma spaced_cong:
  assumes "spaced s e xs hi" "\<forall>x \<in> set xs. h_size t x = h_size s x"
  shows "spaced t e xs hi"
  using assms by (induction xs arbitrary: e) auto

lemma fend_cong: "\<forall>x \<in> set xs. h_size t x = h_size s x \<Longrightarrow> fend t e xs = fend s e xs"
  by (induction xs arbitrary: e) auto

lemma spaced_bounds:
  assumes "spaced s e xs hi"
  shows "e \<le> fend s e xs \<and> fend s e xs \<le> hi \<and> (\<forall>x \<in> set xs. e < x \<and> 0 < h_size s x \<and> x + hsz * h_size s x \<le> fend s e xs)"
  using assms by (induction xs arbitrary: e) fastforce+

lemma spaced_sorted: "spaced s e xs hi \<Longrightarrow> sorted_wrt (<) xs"
proof (induction xs arbitrary: e)
  case (Cons x xs)
  then have "sorted_wrt (<) xs" "\<forall>y \<in> set xs. x + hsz * h_size s x < y"
    using spaced_bounds[of s "x + hsz * h_size s x" xs hi] by auto
  then show ?case by auto
qed simp

lemma space_simps [simp]: "space s [] = {}" "space s (x # xs) = range_of s x \<union> space s xs" "space s (xs @ ys) = space s xs \<union> space s ys"
  by (auto simp: space_def)

lemma space_cong: "\<forall>x \<in> set xs. h_size t x = h_size s x \<Longrightarrow> space t xs = space s xs"
  by (auto simp: space_def range_of_def)

lemma spaced_length:
  assumes "spaced s e xs hi"
  shows "e + hsz * length xs \<le> hi"
  using assms
proof (induction xs arbitrary: e)
  case (Cons x xs)
  then have "x + hsz * h_size s x + hsz * length xs \<le> hi" "e < x" "hsz * 1 \<le> hsz * h_size s x"
    by auto
  then show ?case by simp
qed auto

lemma spaced_mono: "spaced s e xs hi \<Longrightarrow> e' \<le> e \<Longrightarrow> hi \<le> hi' \<Longrightarrow> spaced s e' xs hi'"
  by (induction xs arbitrary: e e') auto

lemma spaced_split:
  assumes "spaced s e bs hi" "e \<le> bp" "0 < h_size s bp" "bp + hsz * h_size s bp \<le> hi" "range_of s bp \<inter> space s bs = {}"
  shows "\<exists>xs ys. bs = xs @ ys \<and> fend s e xs \<le> bp \<and> (\<forall>y \<in> set ys. bp + hsz * h_size s bp \<le> y)"
  using assms
proof (induction bs arbitrary: e)
  case (Cons x bs)
  have dj: "range_of s bp \<inter> range_of s x = {}" and "range_of s bp \<inter> space s bs = {}"
    using Cons.prems by (auto simp: space_def)
  show ?case
  proof (cases "bp < x")
    case True
    have "x \<in> range_of s x" using Cons.prems by (simp add: range_of_def)
    then have "x \<notin> range_of s bp" using dj by auto
    then have "bp + hsz * h_size s bp \<le> x" using True by (simp add: range_of_def)
    moreover have "\<forall>y \<in> set bs. x \<le> y"
      using spaced_sorted[OF Cons.prems(1)] by auto
    ultimately show ?thesis
      using Cons.prems by (intro exI[of _ "[]"] exI[of _ "x # bs"]) auto
  next
    case False
    have "bp \<in> range_of s bp" using Cons.prems by (simp add: range_of_def)
    then have "bp \<notin> range_of s x" using dj by auto
    then have "x + hsz * h_size s x \<le> bp" using False by (simp add: range_of_def)
    then obtain xs ys where "bs = xs @ ys" "fend s (x + hsz * h_size s x) xs \<le> bp" "\<forall>y \<in> set ys. bp + hsz * h_size s bp \<le> y"
      using Cons.IH[of "x + hsz * h_size s x"] Cons.prems \<open>range_of s bp \<inter> space s bs = {}\<close> by auto
    then show ?thesis by (intro exI[of _ "x # xs"] exI[of _ ys]) auto
  qed
qed auto

section \<open>Free\<close>

lemma free_search_finds:
  assumes "path s x zs y" "z \<in> set (x # zs)" "search_stop s bp z" "length zs < fuel"
  shows "\<exists>z \<in> set (x # zs). search_stop s bp z \<and> free_search fuel s bp x = Ret z"
  using assms
proof (induction zs arbitrary: x fuel)
  case Nil
  then show ?case by (cases fuel) auto
next
  case (Cons w zs)
  then obtain f where f: "fuel = Suc f" by (cases fuel) auto
  show ?case
  proof (cases "search_stop s bp x")
    case True
    then show ?thesis by (simp add: f)
  next
    case False
    then have "\<exists>z \<in> set (w # zs). search_stop s bp z \<and> free_search f s bp w = Ret z"
      using Cons f by (intro Cons.IH) auto
    then show ?thesis using False Cons.prems(1) by (auto simp: f)
  qed
qed

lemma search_stop_below:
  assumes "path s c xs q" "sorted_wrt (<) (c # xs)" "\<forall>x \<in> set (c # xs). x < bp" "bp < q \<or> q \<le> last (c # xs)" "z \<in> set (c # xs)"
  shows "search_stop s bp z \<longleftrightarrow> z = last (c # xs)"
  using assms
proof (induction xs arbitrary: c)
  case (Cons x xs)
  have "c < last (x # xs)" using Cons.prems(2) last_in_set[of "x # xs"] by auto
  then show ?case
    using Cons by (cases "z = c") (auto simp: search_stop_def)
qed (auto simp: search_stop_def)

lemma search_stop_above:
  assumes "path s c ys b" "sorted_wrt (<) (c # ys)" "bp < c" "b < bp" "z \<in> set (c # ys)"
  shows "\<not> search_stop s bp z"
  using assms
proof (induction ys arbitrary: c)
  case (Cons y ys)
  show ?case
  proof (cases "z = c")
    case True
    then show ?thesis using Cons.prems by (auto simp: search_stop_def)
  next
    case False
    then show ?thesis using Cons.prems by (intro Cons.IH[of y]) auto
  qed
qed (auto simp: search_stop_def)

lemma search_stop_iff:
  assumes p: "path s b (xs @ ys) b" and so: "sorted_wrt (<) (b # xs @ ys)" and lt: "\<forall>x \<in> set (b # xs). x < bp" and gt: "\<forall>y \<in> set ys. bp < y"
    and z: "z \<in> set (b # xs @ ys)"
  shows "search_stop s bp z \<longleftrightarrow> z = last (b # xs)"
proof (cases ys)
  case Nil
  have "b \<le> last (b # xs)" using so Nil last_in_set[of xs] by (auto intro: less_imp_le)
  then show ?thesis using search_stop_below[of s b xs b bp z] assms Nil by auto
next
  case (Cons y ys')
  have pp: "path s b xs y" "path s y ys' b" using p Cons by (auto simp: path_append)
  show ?thesis
  proof (cases "z \<in> set (b # xs)")
    case True
    have "sorted_wrt (<) (b # xs)" using so by (simp add: sorted_wrt_append)
    then show ?thesis using search_stop_below[OF pp(1) _ lt _ True] gt Cons by simp
  next
    case False
    have "last (b # xs) \<in> set (b # xs)" by (rule last_in_set) simp
    moreover have "\<not> search_stop s bp z"
      using search_stop_above[OF pp(2), of bp z] False z so gt lt Cons by (auto simp: sorted_wrt_append)
    ultimately show ?thesis using False by auto
  qed
qed

definition join_up :: "nat \<Rightarrow> nat \<Rightarrow> uheap \<Rightarrow> uheap" where
  "join_up bp q s = (if hend s bp = q then set_ptr bp (h_ptr s q) (set_size bp (h_size s bp + h_size s q) s) else set_ptr bp q s)"

definition join_down :: "nat \<Rightarrow> nat \<Rightarrow> uheap \<Rightarrow> uheap" where
  "join_down bp p s = (if hend s p = bp then set_ptr p (h_ptr s bp) (set_size p (h_size s p + h_size s bp) s) else set_ptr p bp s)"

lemma free_join_eq: "free_join bp p s = (join_down bp p (join_up bp (h_ptr s p) s))\<lparr>freep := p\<rparr>"
  by (simp add: free_join_def join_up_def join_down_def Let_def)

lemma hend_small: "p + hsz * h_size s p \<le> heap_limit \<Longrightarrow> hend s p = p + hsz * h_size s p"
  by (simp add: hend_def heap_limit_def)

lemma size_small: "0 < p \<Longrightarrow> p + hsz * n \<le> heap_limit \<Longrightarrow> n mod 2 ^ 32 = n"
  by (simp add: heap_limit_def)

lemma join_up_ok:
  fixes s bp q defines "t \<equiv> join_up bp q s"
  assumes p: "path s p ys b0" and q: "q = h_ptr s p" and b: "b0 < bp" and hi: "hi \<le> heap_limit"
    and sp: "spaced s e ys hi" "bp + hsz * h_size s bp \<le> hi" "0 < h_size s bp" "\<forall>y \<in> set ys. bp + hsz * h_size s bp \<le> y"
  shows "\<exists>ys'. path t bp ys' b0 \<and> spaced t (bp + hsz * h_size t bp) ys' hi \<and> set ys' \<subseteq> set ys \<and> h_size s bp \<le> h_size t bp \<and>
    range_of t bp \<union> space s ys' = range_of s bp \<union> space s ys"
proof -
  have h: "hend s bp = bp + hsz * h_size s bp" by (rule hend_small) (use sp(2) hi in linarith)
  have nb: "bp \<notin> set ys" using sp(3,4) by force
  show ?thesis
  proof (cases "hend s bp = q")
    case True
    then obtain ys' where ys: "ys = q # ys'" using q p h b by (cases ys) auto
    have q': "bp + hsz * h_size s bp = q" using True h by simp
    have "q + hsz * h_size s q \<le> fend s e ys" "fend s e ys \<le> hi"
      using spaced_bounds[OF sp(1)] by (auto simp: ys)
    then have le: "q + hsz * h_size s q \<le> hi" by (rule order_trans)
    then have m: "(h_size s bp + h_size s q) mod 2 ^ 32 = h_size s bp + h_size s q"
      using q' b hi by (intro size_small[of bp]) (auto simp: algebra_simps)
    have t: "t = s\<lparr>h_ptr := (h_ptr s)(bp := h_ptr s q), h_size := (h_size s)(bp := h_size s bp + h_size s q)\<rparr>"
      using True m by (simp add: t_def join_up_def)
    have "path t bp ys' b0"
      by (rule path_start[of s q]) (use p ys nb in \<open>auto simp: t\<close>)
    moreover have e: "bp + hsz * h_size t bp = q + hsz * h_size s q" using q' by (simp add: t algebra_simps)
    have "spaced s (q + hsz * h_size s q) ys' hi" using sp(1) by (simp add: ys)
    then have "spaced t (bp + hsz * h_size t bp) ys' hi"
      unfolding e by (rule spaced_cong) (use nb in \<open>auto simp: t ys\<close>)
    moreover have "range_of t bp = range_of s bp \<union> range_of s q"
      using q' by (auto simp: range_of_def t)
    ultimately show ?thesis
      using ys by (intro exI[of _ ys']) (auto simp: space_def t)
  next
    case False
    have t: "t = s\<lparr>h_ptr := (h_ptr s)(bp := q)\<rparr>" using False by (simp add: t_def join_up_def)
    have "path t bp ys b0"
      by (rule path_start[of s p]) (use p q nb in \<open>auto simp: t\<close>)
    moreover have "spaced t (bp + hsz * h_size t bp) ys hi"
    proof (cases ys)
      case (Cons y ys')
      then have "bp + hsz * h_size s bp < y" using False h sp(4) p q by force
      then have "spaced s (bp + hsz * h_size s bp) ys hi" using sp(1) by (simp add: Cons)
      then have "spaced t (bp + hsz * h_size s bp) ys hi" by (rule spaced_cong) (simp add: t)
      then show ?thesis by (simp add: t)
    qed (use sp in \<open>auto simp: t\<close>)
    ultimately show ?thesis
      by (intro exI[of _ ys]) (auto simp: t range_of_def)
  qed
qed

lemma join_down_merge:
  fixes s bp p defines "t \<equiv> join_down bp p s"
  assumes h: "hend s p = bp" "p + hsz * h_size s p \<le> heap_limit" and m: "0 < p" "bp + hsz * h_size s bp \<le> heap_limit"
    and pa: "path s b0 xs p" "path s bp ys b0" and d: "p \<notin> set (b0 # xs)" and ny: "\<forall>y \<in> set ys. bp < y"
    and sp: "spaced s e (xs @ [p]) m" "spaced s (bp + hsz * h_size s bp) ys hi"
  shows "path t b0 (xs @ p # ys) b0 \<and> spaced t e (xs @ p # ys) hi \<and> h_size t b0 = h_size s b0 \<and>
    space t (xs @ p # ys) = space s (xs @ p # bp # ys) \<and> range_of s bp \<subseteq> range_of t p"
proof -
  have pe: "p + hsz * h_size s p = bp" using h hend_small[of p s] by simp
  then have "(h_size s p + h_size s bp) mod 2 ^ 32 = h_size s p + h_size s bp"
    using m by (intro size_small[of p]) (auto simp: algebra_simps)
  then have t: "t = s\<lparr>h_ptr := (h_ptr s)(p := h_ptr s bp), h_size := (h_size s)(p := h_size s p + h_size s bp)\<rparr>"
    using h(1) by (simp add: t_def join_down_def)
  have py: "p \<notin> set ys" using ny pe by auto
  have "path t b0 xs p"
    by (rule path_cong[OF pa(1)]) (use d in \<open>auto simp: t\<close>)
  moreover have "path t p ys b0"
    by (rule path_start[OF pa(2)]) (use py in \<open>auto simp: t\<close>)
  moreover have "spaced s e xs (fend s e xs)" "fend s e xs < p" "0 < h_size s p"
    using sp(1) by (auto simp: spaced_append)
  then have "spaced t e xs (fend t e xs)" "fend t e xs < p" "0 < h_size t p"
    using d fend_cong[of xs t s e] spaced_cong[of s e xs "fend s e xs" t] by (auto simp: t)
  moreover have e: "p + hsz * h_size t p = bp + hsz * h_size s bp" using pe by (simp add: t algebra_simps)
  have "spaced t (p + hsz * h_size t p) ys hi"
    unfolding e by (rule spaced_cong[OF sp(2)]) (use py in \<open>auto simp: t\<close>)
  moreover have "range_of t p = range_of s p \<union> range_of s bp" using pe by (auto simp: range_of_def t)
  moreover have "space t xs = space s xs" "space t ys = space s ys"
    by (rule space_cong; use d py in \<open>auto simp: t\<close>)+
  moreover have "h_size t b0 = h_size s b0" using d by (auto simp: t)
  ultimately show ?thesis
    by (simp add: path_append spaced_append Un_assoc)
qed

lemma join_down_link:
  fixes s bp p defines "t \<equiv> join_down bp p s"
  assumes h: "hend s p \<noteq> bp" and p: "p = last (b0 # xs)" and pa: "path s b0 xs q" "path s bp ys b0" and d: "distinct (b0 # xs)" "p \<notin> set (bp # ys)"
    and sp: "spaced s e xs m" "fend s e xs < bp" "spaced s (bp + hsz * h_size s bp) ys hi" "0 < h_size s bp"
  shows "path t b0 (xs @ bp # ys) b0 \<and> spaced t e (xs @ bp # ys) hi \<and> h_size t = h_size s"
proof -
  have t: "t = s\<lparr>h_ptr := (h_ptr s)(p := bp)\<rparr>" using h by (simp add: t_def join_down_def)
  have "x \<noteq> p" if "x \<in> set (butlast (b0 # xs))" for x
    using that d(1) p append_butlast_last_id[of "b0 # xs"] distinct_append[of "butlast (b0 # xs)" "[p]"] by auto
  then have "path t b0 xs bp"
    by (intro path_relink[OF pa(1) d(1)]) (auto simp: t p)
  moreover have "path t bp ys b0"
    by (rule path_cong[OF pa(2)]) (use d(2) in \<open>auto simp: t\<close>)
  moreover have "spaced s e xs (fend s e xs)" by (rule spaced_fend[OF sp(1)])
  then have "spaced s e (xs @ bp # ys) hi" using sp by (simp add: spaced_append)
  then have "spaced t e (xs @ bp # ys) hi" by (rule spaced_cong) (simp add: t)
  ultimately show ?thesis by (simp add: path_append t)
qed

lemma join_down_ok:
  fixes s bp xs b0 defines "t \<equiv> join_down bp (last (b0 # xs)) s"
  assumes p: "path s b0 xs q" "path s bp ys b0" and d: "distinct (b0 # xs)" and b: "0 < b0" "h_size s b0 = 0" "b0 + hsz \<le> bp"
    and hi: "hi \<le> heap_limit" "0 < h_size s bp"
    and sp: "spaced s (b0 + hsz - 1) xs m" "fend s (b0 + hsz - 1) xs \<le> bp" "spaced s (bp + hsz * h_size s bp) ys hi"
  shows "\<exists>zs. path t b0 zs b0 \<and> spaced t (b0 + hsz - 1) zs hi \<and> set xs \<subseteq> set zs \<and> set zs \<subseteq> set (xs @ bp # ys) \<and> h_size t b0 = 0 \<and>
    space t zs = space s (xs @ bp # ys) \<and> (\<exists>z \<in> set zs. range_of s bp \<subseteq> range_of t z)"
proof -
  have le: "bp + hsz * h_size s bp \<le> heap_limit" using spaced_bounds[OF sp(3)] hi(1) by simp
  have ny: "\<forall>y \<in> set ys. bp < y" using spaced_bounds[OF sp(3)] by auto
  have nx: "\<forall>x \<in> set (b0 # xs). x < bp" using spaced_bounds[OF sp(1)] sp(2) b(3) by fastforce
  have lim: "fend s (b0 + hsz - 1) xs \<le> heap_limit" using sp(2) le by linarith
  show ?thesis
  proof (cases "hend s (last (b0 # xs)) = bp")
    case True
    have "xs \<noteq> []" using True b lim hend_small[of b0 s] by auto
    then obtain xs' p where xs: "xs = xs' @ [p]" by (metis rev_exhaust)
    have "b0 < p" using spaced_bounds[OF sp(1)] by (auto simp: xs)
    have t: "t = join_down bp p s" by (simp add: t_def xs)
    have "path t b0 (xs' @ p # ys) b0 \<and> spaced t (b0 + hsz - 1) (xs' @ p # ys) hi \<and> h_size t b0 = h_size s b0 \<and>
      space t (xs' @ p # ys) = space s (xs' @ p # bp # ys) \<and> range_of s bp \<subseteq> range_of t p"
      unfolding t by (rule join_down_merge[OF _ _ _ le _ p(2) _ ny sp(1)[unfolded xs] sp(3)])
        (use True lim p(1) d \<open>b0 < p\<close> in \<open>auto simp: xs path_append\<close>)
    then show ?thesis using b(2) by (intro exI[of _ "xs' @ p # ys"]) (auto simp: xs)
  next
    case False
    have "fend s (b0 + hsz - 1) xs < bp"
    proof (cases xs rule: rev_cases)
      case (snoc xs' p)
      then have "p + hsz * h_size s p \<noteq> bp" using False lim hend_small[of p s] by simp
      then show ?thesis using sp(2) snoc by simp
    qed (use b in simp)
    then have "path t b0 (xs @ bp # ys) b0 \<and> spaced t (b0 + hsz - 1) (xs @ bp # ys) hi \<and> h_size t = h_size s"
      unfolding t_def using join_down_link[OF False refl p d _ sp(1) _ sp(3) hi(2)] nx ny last_in_set[of "b0 # xs"] by force
    then show ?thesis using b(2) by (intro exI[of _ "xs @ bp # ys"]) (auto simp: space_def range_of_def)
  qed
qed

lemma path_split: "path s b (xs @ ys) c \<Longrightarrow> path s (last (b # xs)) ys c \<and> path s b xs (h_ptr s (last (b # xs)))"
  by (induction xs arbitrary: b) (auto split: if_splits)

lemma join_up_frame:
  "x \<noteq> bp \<Longrightarrow> h_ptr (join_up bp q s) x = h_ptr s x" "x \<noteq> bp \<Longrightarrow> h_size (join_up bp q s) x = h_size s x"
  "u_brk (join_up bp q s) = u_brk s"
  by (simp_all add: join_up_def)

lemma join_down_frame:
  "x \<noteq> p \<Longrightarrow> h_size (join_down bp p s) x = h_size s x" "u_brk (join_down bp p s) = u_brk s"
  by (simp_all add: join_down_def)

lemma freep_upd [simp]:
  "path (s\<lparr>freep := p\<rparr>) x xs y = path s x xs y" "spaced (s\<lparr>freep := p\<rparr>) e xs hi = spaced s e xs hi"
  "range_of (s\<lparr>freep := p\<rparr>) x = range_of s x" "space (s\<lparr>freep := p\<rparr>) xs = space s xs"
proof -
  show "path (s\<lparr>freep := p\<rparr>) x xs y = path s x xs y" by (induction xs arbitrary: x) auto
  show "spaced (s\<lparr>freep := p\<rparr>) e xs hi = spaced s e xs hi" by (induction xs arbitrary: e) auto
  show "range_of (s\<lparr>freep := p\<rparr>) x = range_of s x" "space (s\<lparr>freep := p\<rparr>) xs = space s xs"
    by (simp_all add: range_of_def space_def)
qed

lemma heap_invI:
  assumes "0 < b0" "b0 + hsz \<le> u_brk s" "path s b0 bs b0" "h_size s b0 = 0" "spaced s (b0 + hsz - 1) bs (u_brk s)" "freep s \<in> set (b0 # bs)" "u_brk s \<le> heap_limit"
    and "\<And>a. a \<in> al \<Longrightarrow> b0 + hsz \<le> a \<and> 0 < h_size s a \<and> a + hsz * h_size s a \<le> u_brk s \<and> range_of s a \<inter> space s bs = {}"
    and "\<And>a c. a \<in> al \<Longrightarrow> c \<in> al \<Longrightarrow> c \<noteq> a \<Longrightarrow> range_of s a \<inter> range_of s c = {}"
  shows "heap_inv b0 s bs al"
  using assms unfolding heap_inv_def by blast

lemma heap_invD:
  assumes "heap_inv b0 s bs al"
  shows "0 < b0" "path s b0 bs b0" "h_size s b0 = 0" "spaced s (b0 + hsz - 1) bs (u_brk s)" "freep s \<in> set (b0 # bs)" "u_brk s \<le> heap_limit"
    "a \<in> al \<Longrightarrow> b0 + hsz \<le> a" "a \<in> al \<Longrightarrow> 0 < h_size s a" "a \<in> al \<Longrightarrow> a + hsz * h_size s a \<le> u_brk s"
    "a \<in> al \<Longrightarrow> range_of s a \<inter> space s bs = {}" "a \<in> al \<Longrightarrow> c \<in> al \<Longrightarrow> c \<noteq> a \<Longrightarrow> range_of s a \<inter> range_of s c = {}"
    "a \<in> al \<Longrightarrow> a \<notin> set (b0 # bs)" "b0 + hsz \<le> u_brk s"
proof -
  show al: "0 < b0" "path s b0 bs b0" "h_size s b0 = 0" "spaced s (b0 + hsz - 1) bs (u_brk s)" "freep s \<in> set (b0 # bs)" "u_brk s \<le> heap_limit"
    "a \<in> al \<Longrightarrow> b0 + hsz \<le> a" "a \<in> al \<Longrightarrow> 0 < h_size s a" "a \<in> al \<Longrightarrow> a + hsz * h_size s a \<le> u_brk s"
    "a \<in> al \<Longrightarrow> range_of s a \<inter> space s bs = {}" "a \<in> al \<Longrightarrow> c \<in> al \<Longrightarrow> c \<noteq> a \<Longrightarrow> range_of s a \<inter> range_of s c = {}" "b0 + hsz \<le> u_brk s" for a c
    using assms unfolding heap_inv_def by blast+
  assume a: "a \<in> al"
  then have "a \<in> range_of s a" using al(8)[of a] by (simp add: range_of_def)
  then show "a \<notin> set (b0 # bs)" using al(7,10)[OF a] by (auto simp: space_def)
qed

lemma heap_inv_sorted: "heap_inv b0 s bs al \<Longrightarrow> sorted_wrt (<) (b0 # bs)"
  using spaced_bounds[of s "b0 + hsz - 1" bs "u_brk s"] by (auto simp: heap_inv_def dest: spaced_sorted)

lemma sorted_distinct: "sorted_wrt (<) (xs :: nat list) \<Longrightarrow> distinct xs"
  by (induction xs) auto

lemma distinct_length_le: "distinct zs \<Longrightarrow> set zs \<subseteq> set ys \<Longrightarrow> length zs \<le> length ys"
  by (metis card_length card_mono distinct_card finite_set order_trans)

lemma heap_inv_length: "heap_inv b0 s bs al \<Longrightarrow> length bs + 1 < list_fuel s"
  using spaced_length[of s "b0 + hsz - 1" bs "u_brk s"] by (simp add: heap_inv_def list_fuel_def)

lemma heap_inv_split:
  assumes inv: "heap_inv b0 s bs al" and bp: "bp \<in> al"
  shows "\<exists>xs ys. bs = xs @ ys \<and> fend s (b0 + hsz - 1) xs \<le> bp \<and> (\<forall>y \<in> set ys. bp + hsz * h_size s bp \<le> y) \<and>
    (\<forall>x \<in> set (b0 # xs). x < bp) \<and> (\<forall>y \<in> set ys. bp < y)"
proof -
  have sp: "spaced s (b0 + hsz - 1) bs (u_brk s)" and a: "b0 + hsz \<le> bp" "0 < h_size s bp" "bp + hsz * h_size s bp \<le> u_brk s"
    "range_of s bp \<inter> space s bs = {}"
    using inv bp by (auto simp: heap_inv_def)
  have "b0 + hsz - 1 \<le> bp" using a(1) by simp
  from spaced_split[OF sp this a(2-4)] obtain xs ys where
    x: "bs = xs @ ys" "fend s (b0 + hsz - 1) xs \<le> bp" "\<forall>y \<in> set ys. bp + hsz * h_size s bp \<le> y" by blast
  have "spaced s (b0 + hsz - 1) xs (fend s (b0 + hsz - 1) xs)" using sp by (simp only: x(1) spaced_append)
  from spaced_bounds[OF this] have "\<forall>x \<in> set (b0 # xs). x < bp" using x(2) a(1) by fastforce
  moreover have "\<forall>y \<in> set ys. bp < y" using x(3) a(2) by fastforce
  ultimately show ?thesis using x by blast
qed

lemma free_search_ok:
  assumes inv: "heap_inv b0 s (xs @ ys) al" and lt: "\<forall>x \<in> set (b0 # xs). x < bp" and gt: "\<forall>y \<in> set ys. bp < y"
  shows "free_search (list_fuel s) s bp (freep s) = Ret (last (b0 # xs))"
proof -
  have so: "sorted_wrt (<) (b0 # xs @ ys)" by (rule heap_inv_sorted[OF inv])
  have pa: "path s b0 (xs @ ys) b0" "freep s \<in> set (b0 # xs @ ys)" using inv by (auto simp: heap_inv_def)
  from path_circle[OF pa sorted_distinct[OF so]] obtain zs where
    z: "path s (freep s) zs (freep s)" "set (freep s # zs) = set (b0 # xs @ ys)" "length zs = length (xs @ ys)" by blast
  have l: "last (b0 # xs) \<in> set (freep s # zs)"
    unfolding z(2) using last_in_set[of "b0 # xs"] by auto
  have st: "search_stop s bp w \<longleftrightarrow> w = last (b0 # xs)" if "w \<in> set (freep s # zs)" for w
    using search_stop_iff[OF pa(1) so lt gt] that unfolding z(2) by blast
  have "length zs < list_fuel s" using heap_inv_length[OF inv] z(3) by simp
  from free_search_finds[OF z(1) l _ this] st l show ?thesis by blast
qed

lemma free_join_ok:
  fixes s bp b0 xs defines "t \<equiv> free_join bp (last (b0 # xs)) s"
  assumes inv: "heap_inv b0 s (xs @ ys) al" and bp: "bp \<in> al"
    and x: "fend s (b0 + hsz - 1) xs \<le> bp" "\<forall>y \<in> set ys. bp + hsz * h_size s bp \<le> y" "\<forall>x \<in> set (b0 # xs). x < bp"
  shows "\<exists>zs. path t b0 zs b0 \<and> spaced t (b0 + hsz - 1) zs (u_brk s) \<and> set xs \<subseteq> set zs \<and> h_size t b0 = 0 \<and>
    space t zs = space s (xs @ ys) \<union> range_of s bp \<and> (\<exists>z \<in> set zs. range_of s bp \<subseteq> range_of t z) \<and> set zs \<subseteq> insert bp (set (xs @ ys))"
proof -
  let ?p = "last (b0 # xs)"
  let ?u = "join_up bp (h_ptr s ?p) s"
  have sp: "spaced s (b0 + hsz - 1) (xs @ ys) (u_brk s)" and hi: "u_brk s \<le> heap_limit" "0 < b0" "h_size s b0 = 0"
    and pa: "path s b0 (xs @ ys) b0"
    and a: "b0 + hsz \<le> bp" "0 < h_size s bp" "bp + hsz * h_size s bp \<le> u_brk s"
    using inv bp by (auto simp: heap_inv_def)
  have d: "distinct (b0 # xs)" using sorted_distinct[OF heap_inv_sorted[OF inv]] by auto
  have nb: "bp \<notin> set (b0 # xs)" using x(3) by auto
  have ps: "path s ?p ys b0" "path s b0 xs (h_ptr s ?p)" using path_split[OF pa] by auto
  have ss: "spaced s (b0 + hsz - 1) xs (fend s (b0 + hsz - 1) xs)" "spaced s (fend s (b0 + hsz - 1) xs) ys (u_brk s)"
    using sp by (simp_all only: spaced_append)
  have bb: "b0 < bp" using a(1) by simp
  obtain ys' where y: "path ?u bp ys' b0" "spaced ?u (bp + hsz * h_size ?u bp) ys' (u_brk s)" "set ys' \<subseteq> set ys" "h_size s bp \<le> h_size ?u bp"
    "range_of ?u bp \<union> space s ys' = range_of s bp \<union> space s ys"
    using join_up_ok[OF ps(1) refl bb hi(1) ss(2) a(3) a(2) x(2)] by blast
  have px: "path ?u b0 xs (h_ptr s ?p)" by (rule path_cong[OF ps(2)]) (use nb in \<open>auto intro!: join_up_frame\<close>)
  have sz: "\<forall>x \<in> set xs. h_size ?u x = h_size s x" using nb by (auto intro!: join_up_frame)
  have "bp \<notin> set ys" using x(2) a(2) by fastforce
  then have sy: "space ?u ys' = space s ys'" using y(3) by (intro space_cong) (auto intro!: join_up_frame)
  have "h_size ?u b0 = 0" "0 < h_size ?u bp" using nb hi(3) a(2) y(4) by (auto simp: join_up_frame)
  with join_down_ok[OF px y(1) d hi(2) _ a(1) hi(1) _ spaced_cong[OF ss(1) sz] _ y(2)] x(1) fend_cong[OF sz]
  obtain zs where z: "path (join_down bp ?p ?u) b0 zs b0" "spaced (join_down bp ?p ?u) (b0 + hsz - 1) zs (u_brk s)" "set xs \<subseteq> set zs"
    "h_size (join_down bp ?p ?u) b0 = 0" "space (join_down bp ?p ?u) zs = space ?u (xs @ bp # ys')"
    "\<exists>z \<in> set zs. range_of ?u bp \<subseteq> range_of (join_down bp ?p ?u) z" "set zs \<subseteq> set (xs @ bp # ys')" by auto
  have "range_of s bp \<subseteq> range_of ?u bp" using y(4) by (auto simp: range_of_def)
  then have "\<exists>z \<in> set zs. range_of s bp \<subseteq> range_of (join_down bp ?p ?u) z" using z(6) by blast
  moreover have "space (join_down bp ?p ?u) zs = space s (xs @ ys) \<union> range_of s bp"
    using z(5) y(5) space_cong[OF sz] sy by auto
  moreover have "set zs \<subseteq> insert bp (set (xs @ ys))" using z(7) y(3) by auto
  ultimately show ?thesis
    using z(1-4) unfolding t_def free_join_eq freep_upd by (intro exI[of _ zs]) simp
qed

lemma free_join_frame:
  "x \<noteq> bp \<Longrightarrow> x \<noteq> p \<Longrightarrow> h_size (free_join bp p s) x = h_size s x" "u_brk (free_join bp p s) = u_brk s" "freep (free_join bp p s) = p"
  by (simp_all add: free_join_eq join_up_frame join_down_frame)

lemma free_ok:
  assumes inv: "heap_inv b0 s bs al" and bp: "bp \<in> al"
  shows "\<exists>t zs. free (bp + hsz) s = Ret t \<and> heap_inv b0 t zs (al - {bp}) \<and> space t zs = space s bs \<union> range_of s bp \<and>
    (\<exists>z \<in> set zs. range_of s bp \<subseteq> range_of t z) \<and> (\<forall>a \<in> al - {bp}. h_size t a = h_size s a) \<and> u_brk t = u_brk s \<and> length zs \<le> length bs + 1"
proof -
  obtain xs ys where bs: "bs = xs @ ys" and x: "fend s (b0 + hsz - 1) xs \<le> bp" "\<forall>y \<in> set ys. bp + hsz * h_size s bp \<le> y"
    "\<forall>x \<in> set (b0 # xs). x < bp" "\<forall>y \<in> set ys. bp < y"
    using heap_inv_split[OF inv bp] by blast
  let ?p = "last (b0 # xs)" let ?t = "free_join bp ?p s"
  have r: "free (bp + hsz) s = Ret ?t"
    using free_search_ok[OF inv[unfolded bs] x(3,4)] by (simp add: free_def Let_def)
  obtain zs where z: "path ?t b0 zs b0" "spaced ?t (b0 + hsz - 1) zs (u_brk s)" "set xs \<subseteq> set zs" "h_size ?t b0 = 0"
    "space ?t zs = space s (xs @ ys) \<union> range_of s bp" "\<exists>z \<in> set zs. range_of s bp \<subseteq> range_of ?t z" "set zs \<subseteq> insert bp (set (xs @ ys))"
    using free_join_ok[OF inv[unfolded bs] bp x(1-3)] by blast
  have p: "?p \<in> set (b0 # xs)" by (rule last_in_set) simp
  have sz: "h_size ?t a = h_size s a" if "a \<in> al - {bp}" for a
    using that heap_invD(12)[OF inv, of a] p by (intro free_join_frame) (auto simp: bs)
  then have rg: "range_of ?t a = range_of s a" if "a \<in> al - {bp}" for a using that by (simp add: range_of_def)
  have "heap_inv b0 ?t zs (al - {bp})"
  proof (rule heap_invI)
    fix a assume a: "a \<in> al - {bp}"
    then show "b0 + hsz \<le> a \<and> 0 < h_size ?t a \<and> a + hsz * h_size ?t a \<le> u_brk ?t \<and> range_of ?t a \<inter> space ?t zs = {}"
      using heap_invD(7-10)[OF inv, of a] heap_invD(11)[OF inv, of a bp] bp unfolding z(5) rg[OF a] sz[OF a] free_join_frame bs by blast
    fix c assume c: "c \<in> al - {bp}" "c \<noteq> a"
    then show "range_of ?t a \<inter> range_of ?t c = {}" using heap_invD(11)[OF inv, of a c] a unfolding rg[OF a] rg[OF c(1)] by blast
  qed (use z p heap_invD[OF inv] in \<open>auto simp: free_join_frame\<close>)
  moreover have "length zs \<le> length bs + 1"
    using distinct_length_le[of zs "bp # bs"] sorted_distinct[OF heap_inv_sorted[OF calculation]] z(7) by (auto simp: bs)
  ultimately show ?thesis using r z(5,6) sz free_join_frame(2)[of bp ?p s] unfolding bs by blast
qed

section \<open>Malloc\<close>

definition grant_ok :: "(int \<Rightarrow> nat \<Rightarrow> bool) \<Rightarrow> bool" where
  "grant_ok grant \<longleftrightarrow> (\<forall>n b. grant n b \<longrightarrow> int b + n \<le> int heap_limit)"

abbreviation core_units :: "nat \<Rightarrow> nat" where
  "core_units nu \<equiv> (if nu < 4096 then 4096 else nu)"

lemma heap_inv_grow:
  fixes s nu defines "t \<equiv> set_size (u_brk s) nu (s\<lparr>u_brk := u_brk s + hsz * nu\<rparr>)"
  assumes inv: "heap_inv b0 s bs al" and nu: "0 < nu" "u_brk s + hsz * nu \<le> heap_limit"
  shows "heap_inv b0 t bs (insert (u_brk s) al) \<and> (\<forall>a \<in> al. h_size t a = h_size s a) \<and> u_brk s \<notin> al \<and> h_size t (u_brk s) = nu"
proof -
  note D = heap_invD[OF inv]
  have b: "0 < u_brk s" using D(1,13) by simp
  have m: "nu mod 2 ^ 32 = nu" by (rule size_small[OF b nu(2)])
  have t: "h_size t = (h_size s)(u_brk s := nu)" "h_ptr t = h_ptr s" "u_brk t = u_brk s + hsz * nu" "freep t = freep s"
    using m by (simp_all add: t_def)
  have lt: "x < u_brk s" if "x \<in> al \<or> x \<in> set (b0 # bs)" for x
    using that D(8,9)[of x] D(1,13) spaced_bounds[OF D(4)] by fastforce
  have sz: "h_size t x = h_size s x" if "x \<in> al \<or> x \<in> set (b0 # bs)" for x using lt[OF that] by (simp add: t)
  have rg: "range_of t x = range_of s x" if "x \<in> al \<or> x \<in> set (b0 # bs)" for x using sz[OF that] by (simp add: range_of_def)
  have sp: "space t bs = space s bs" by (rule space_cong) (use sz in auto)
  have below: "x < u_brk s" if "x \<in> space s bs \<or> (\<exists>a \<in> al. x \<in> range_of s a)" for x
    using that D(9) spaced_bounds[OF D(4)] by (fastforce simp: space_def range_of_def)
  have new: "u_brk s \<le> x" if "x \<in> range_of t (u_brk s)" for x using that by (simp add: range_of_def)
  have dj: "range_of t (u_brk s) \<inter> space s bs = {}" "a \<in> al \<Longrightarrow> range_of t (u_brk s) \<inter> range_of s a = {}" for a
    using below new by (fastforce simp: disjoint_iff)+
  have "heap_inv b0 t bs (insert (u_brk s) al)"
  proof (rule heap_invI)
    show "path t b0 bs b0" by (rule path_cong[OF D(2)]) (simp add: t)
    show "spaced t (b0 + hsz - 1) bs (u_brk t)"
      by (rule spaced_mono[OF spaced_cong[OF D(4)]]) (use sz in \<open>auto simp: t(3)\<close>)
    fix a assume a: "a \<in> insert (u_brk s) al"
    show "b0 + hsz \<le> a \<and> 0 < h_size t a \<and> a + hsz * h_size t a \<le> u_brk t \<and> range_of t a \<inter> space t bs = {}"
    proof (cases "a \<in> al")
      case True
      then show ?thesis using D(7-10)[OF True] sz rg by (simp add: sp t(3))
    next
      case False
      then have "a = u_brk s" using a by simp
      then show ?thesis using D(13) nu dj(1) by (simp add: t sp)
    qed
    fix c assume c: "c \<in> insert (u_brk s) al" "c \<noteq> a"
    show "range_of t a \<inter> range_of t c = {}"
    proof (cases "a \<in> al \<and> c \<in> al")
      case True
      then show ?thesis using D(11)[of a c] c(2) rg by simp
    next
      case False
      then show ?thesis using a c rg dj(2) by (cases "a = u_brk s") (auto simp: Int_commute)
    qed
  qed (use D nu sz in \<open>auto simp: t(3,4)\<close>)
  then show ?thesis using sz lt by (auto simp: t)
qed

lemma sint_bytes:
  assumes "n < 2 ^ 27"
  shows "sint (word_of_int (int (n * hsz)) :: uint) = int (hsz * n)"
proof -
  have "sint (word_of_int k :: uint) = k" if "0 \<le> k" "k < 2 ^ 31" for k
    using that by (simp add: signed_of_int signed_take_bit_int_eq_self)
  from this[of "int (n * hsz)"] show ?thesis using assms by (simp only: hsz_def mult.commute) simp
qed

lemma sbrk_up:
  assumes "grant (int n) (u_brk s)" "0 < n" "u_brk s + n \<le> heap_limit"
  shows "sbrk grant (int n) s = (Some (u_brk s), s\<lparr>u_brk := u_brk s + n\<rparr>)"
proof -
  have "(int (u_brk s) + int n) mod 2 ^ 64 = int (u_brk s + n)" using assms(3) by (simp add: heap_limit_def)
  then show ?thesis using assms(1,2) unfolding sbrk_def Let_def by (simp only: nat_int) simp
qed

lemma morecore_ok:
  assumes inv: "heap_inv b0 s bs al" and nu: "nu < 2 ^ 27" and g: "grant_ok grant"
  shows "if grant (int (hsz * core_units nu)) (u_brk s)
    then \<exists>t zs. morecore grant nu s = Ret (freep t, t) \<and> heap_inv b0 t zs al \<and> (\<exists>z \<in> set zs. nu \<le> h_size t z) \<and>
      (\<forall>a \<in> al. h_size t a = h_size s a) \<and> length zs \<le> length bs + 1
    else morecore grant nu s = Ret (0, s)"
proof -
  let ?n = "core_units nu" let ?hp = "u_brk s"
  let ?u = "set_size ?hp ?n (s\<lparr>u_brk := ?hp + hsz * ?n\<rparr>)"
  have n: "?n < 2 ^ 27" "0 < ?n" "nu \<le> ?n" using nu by auto
  show ?thesis
  proof (cases "grant (int (hsz * ?n)) ?hp")
    case True
    then have "int ?hp + int (hsz * ?n) \<le> int heap_limit" using g unfolding grant_ok_def by blast
    then have lim: "?hp + hsz * ?n \<le> heap_limit" by linarith
    have u: "heap_inv b0 ?u bs (insert ?hp al)" "\<forall>a \<in> al. h_size ?u a = h_size s a" "?hp \<notin> al" "h_size ?u ?hp = ?n"
      using heap_inv_grow[OF inv n(2) lim] by blast+
    from free_ok[OF u(1), of ?hp] obtain t zs where t: "free (?hp + hsz) ?u = Ret t" "heap_inv b0 t zs (insert ?hp al - {?hp})"
      "\<exists>z \<in> set zs. range_of ?u ?hp \<subseteq> range_of t z" "\<forall>a \<in> insert ?hp al - {?hp}. h_size t a = h_size ?u a" "length zs \<le> length bs + 1"
      by blast
    have al: "insert ?hp al - {?hp} = al" using u(3) by auto
    have sb: "sbrk grant (sint (word_of_int (int (?n * hsz)) :: uint)) s = (Some ?hp, s\<lparr>u_brk := ?hp + hsz * ?n\<rparr>)"
      unfolding sint_bytes[OF n(1)] by (rule sbrk_up[where grant = grant and s = s, OF True _ lim]) (use n(2) in simp)
    have "morecore grant nu s = Ret (freep t, t)"
      using t(1) unfolding morecore_def Let_def sb by (simp del: hsz_def)
    moreover obtain z where z: "z \<in> set zs" "range_of ?u ?hp \<subseteq> range_of t z" using t(3) by blast
    have "card (range_of ?u ?hp) \<le> card (range_of t z)" by (rule card_mono[OF _ z(2)]) (simp add: range_of_def)
    then have "?n \<le> h_size t z" unfolding range_of_def u(4) by simp
    ultimately show ?thesis using True t(2,4,5) u(2) z(1) n(3) unfolding al by (auto intro: order_trans)
  next
    case False
    then have "sbrk grant (sint (word_of_int (int (?n * hsz)) :: uint)) s = (None, s)"
      unfolding sint_bytes[OF n(1)] using n(2) by (simp add: sbrk_def Let_def)
    then show ?thesis using False by (simp add: morecore_def Let_def)
  qed
qed

lemma malloc_walk:
  assumes "path s pv zs x" "freep s = x" "x \<notin> set zs"
  shows "(\<exists>u p. u \<in> set (pv # zs) \<and> h_ptr s u = p \<and> p \<in> set (zs @ [x]) \<and> nunits \<le> h_size s p \<and>
      malloc_loop (Suc (length zs) + f) grant nunits pv (h_ptr s pv) s = Ret (take_block nunits u p s)) \<or>
    ((\<forall>z \<in> set (zs @ [x]). h_size s z < nunits) \<and> malloc_loop (Suc (length zs) + f) grant nunits pv (h_ptr s pv) s =
      obind (morecore grant nunits s) (\<lambda>(p1, s1). if p1 = 0 then Ret (0, s1) else malloc_loop f grant nunits p1 (h_ptr s1 p1) s1))"
  using assms
proof (induction zs arbitrary: pv)
  case Nil
  then show ?case by auto
next
  case (Cons z zs)
  then have z: "h_ptr s pv = z" "path s z zs x" "z \<noteq> x" "x \<notin> set zs" by auto
  show ?case
  proof (cases "nunits \<le> h_size s z")
    case True
    then show ?thesis using z by (intro disjI1 exI[of _ pv] exI[of _ z]) auto
  next
    case False
    then have "malloc_loop (Suc (length (z # zs)) + f) grant nunits pv (h_ptr s pv) s =
      malloc_loop (Suc (length zs) + f) grant nunits z (h_ptr s z) s"
      using z Cons.prems(2) by simp
    then show ?thesis using Cons.IH[OF z(2) Cons.prems(2) z(4)] False by (auto simp del: malloc_loop.simps)
  qed
qed

lemma spaced_member:
  assumes "spaced s e (xs @ p # ys) hi"
  shows "fend s e xs < p" "0 < h_size s p" "\<forall>x \<in> set xs. x + hsz * h_size s x < p" "\<forall>y \<in> set ys. p + hsz * h_size s p < y"
    "p + hsz * h_size s p \<le> hi" "range_of s p \<inter> space s (xs @ ys) = {}"
proof -
  have a: "spaced s e xs (fend s e xs)" "fend s e xs < p" "0 < h_size s p" "spaced s (p + hsz * h_size s p) ys hi"
    using assms by (auto simp: spaced_append)
  then show "fend s e xs < p" "0 < h_size s p" by auto
  show x: "\<forall>x \<in> set xs. x + hsz * h_size s x < p" using spaced_bounds[OF a(1)] a(2) by fastforce
  show y: "\<forall>y \<in> set ys. p + hsz * h_size s p < y" "p + hsz * h_size s p \<le> hi" using spaced_bounds[OF a(4)] by auto
  have "range_of s p \<inter> range_of s x = {}" if "x \<in> set xs \<union> set ys" for x
    using x y(1) that by (fastforce simp: range_of_def disjoint_iff)
  then show "range_of s p \<inter> space s (xs @ ys) = {}" by (auto simp: space_def)
qed

lemma take_whole:
  fixes s u p defines "t \<equiv> (set_ptr u (h_ptr s p) s)\<lparr>freep := u\<rparr>"
  assumes inv: "heap_inv b0 s (xs @ p # ys) al" and u: "u = last (b0 # xs)"
  shows "heap_inv b0 t (xs @ ys) (insert p al)"
proof -
  note D = heap_invD[OF inv] and M = spaced_member[OF heap_invD(4)[OF inv]]
  have d: "distinct (b0 # xs @ p # ys)" by (rule sorted_distinct[OF heap_inv_sorted[OF inv]])
  have ps: "path s b0 xs p" "path s p ys b0" using D(2) by (auto simp: path_append)
  have t: "h_size t = h_size s" "h_ptr t = (h_ptr s)(u := h_ptr s p)" "u_brk t = u_brk s" "freep t = u" by (simp_all add: t_def)
  have rg: "range_of t x = range_of s x" "space t zs = space s zs" for x zs by (simp_all add: range_of_def space_def t)
  have uin: "u \<in> set (b0 # xs)" unfolding u by (rule last_in_set) simp
  have "x \<noteq> u" if "x \<in> set (butlast (b0 # xs))" for x
    using that d u append_butlast_last_id[of "b0 # xs"] distinct_append[of "butlast (b0 # xs)" "[u]"] by auto
  then have "path t b0 xs (h_ptr s p)" by (intro path_relink[OF ps(1)]) (use d in \<open>auto simp: t u\<close>)
  moreover have "path t p ys b0" by (rule path_cong[OF ps(2)]) (use d uin in \<open>auto simp: t\<close>)
  moreover have "h_ptr t p = h_ptr s p" using d uin by (auto simp: t)
  ultimately have "path t b0 (xs @ ys) b0" by (cases ys) (auto simp: path_append)
  moreover have "spaced s (fend s (b0 + hsz - 1) xs) ys (u_brk s)"
    using D(4) M(1) by (auto simp: spaced_append intro: spaced_mono)
  then have "spaced s (b0 + hsz - 1) (xs @ ys) (u_brk t)" using D(4) by (simp add: spaced_append t)
  then have "spaced t (b0 + hsz - 1) (xs @ ys) (u_brk t)" by (rule spaced_cong) (simp add: t)
  moreover have "b0 + hsz \<le> p" using spaced_bounds[OF D(4)] by fastforce
  then have "b0 + hsz \<le> a \<and> 0 < h_size t a \<and> a + hsz * h_size t a \<le> u_brk t \<and> range_of t a \<inter> space t (xs @ ys) = {}"
    if "a \<in> insert p al" for a
    using that D(7-10)[of a] M(2,5,6) by (auto simp: rg t)
  moreover have "range_of t a \<inter> range_of t c = {}" if "a \<in> insert p al" "c \<in> insert p al" "c \<noteq> a" for a c
    using that D(10,11)[of a] D(10)[of c] by (auto simp: rg)
  ultimately show ?thesis
    using D(1,3,6,13) uin by (intro heap_invI) (auto simp: t)
qed

lemma take_tail:
  fixes s u p n defines "p1 \<equiv> p + hsz * (h_size s p - n)"
  defines "t \<equiv> s\<lparr>h_size := (h_size s)(p := h_size s p - n, p1 := n), freep := u\<rparr>"
  assumes inv: "heap_inv b0 s (xs @ p # ys) al" and u: "u \<in> set (b0 # xs @ p # ys)" and n: "0 < n" "n < h_size s p"
  shows "heap_inv b0 t (xs @ p # ys) (insert p1 al) \<and> p1 \<notin> al"
proof -
  note D = heap_invD[OF inv] and M = spaced_member[OF heap_invD(4)[OF inv]]
  have e: "p < p1" "p1 + hsz * n = p + hsz * h_size s p" using n by (auto simp: p1_def diff_mult_distrib2)
  have t: "h_ptr t = h_ptr s" "u_brk t = u_brk s" "freep t = u" "h_size t p1 = n" "h_size t p = h_size s p - n"
    "x \<noteq> p \<Longrightarrow> x \<noteq> p1 \<Longrightarrow> h_size t x = h_size s x" for x using e by (simp_all add: t_def)
  have pr: "p \<in> range_of s p" "p1 \<in> range_of s p" using e n by (auto simp: range_of_def)
  have rp: "range_of t p = {p ..< p1}" "range_of t p1 \<subseteq> range_of s p" "{p ..< p1} \<subseteq> range_of s p" "{p ..< p1} \<inter> range_of t p1 = {}"
    using e n by (simp_all add: range_of_def t(4,5) flip: p1_def) auto
  have bp: "b0 + hsz \<le> p" using spaced_bounds[OF D(4)] by fastforce
  have na: "a \<noteq> p \<and> a \<noteq> p1" if "a \<in> al" for a
  proof -
    have "a \<in> range_of s a" using D(8)[OF that] by (simp add: range_of_def)
    then show ?thesis using D(10)[OF that] pr by auto
  qed
  have nb: "x \<noteq> p \<and> x \<noteq> p1" if "x \<in> set xs \<union> set ys" for x
    using that M(3,4) e n by fastforce
  have "b0 \<noteq> p \<and> b0 \<noteq> p1" using bp e by auto
  then have sb: "h_size t b0 = 0" using D(3) t(6) by simp
  have rg: "range_of t a = range_of s a" if "a \<in> al" for a using na[OF that] by (simp add: range_of_def t(6))
  have sp: "space t xs = space s xs" "space t ys = space s ys" by (rule space_cong; use nb t(6) in auto)+
  have "path t b0 (xs @ p # ys) b0" by (rule path_cong[OF D(2)]) (simp add: t)
  moreover have ss: "spaced s (b0 + hsz - 1) xs (fend s (b0 + hsz - 1) xs)" "spaced s p1 ys (u_brk s)"
    using D(4) e by (auto simp: spaced_append intro: spaced_mono)
  have "spaced t (b0 + hsz - 1) xs (fend s (b0 + hsz - 1) xs)" "spaced t p1 ys (u_brk s)"
    by (rule spaced_cong[OF ss(1)] spaced_cong[OF ss(2)]; use nb t(6) in auto)+
  moreover have "fend t (b0 + hsz - 1) xs = fend s (b0 + hsz - 1) xs" by (rule fend_cong) (use nb t(6) in auto)
  ultimately have "path t b0 (xs @ p # ys) b0" "spaced t (b0 + hsz - 1) (xs @ p # ys) (u_brk t)"
    using M(1) n by (simp_all add: spaced_append t(2,5) p1_def)
  moreover have "b0 + hsz \<le> a \<and> 0 < h_size t a \<and> a + hsz * h_size t a \<le> u_brk t \<and> range_of t a \<inter> space t (xs @ p # ys) = {}"
    if "a \<in> insert p1 al" for a
  proof (cases "a = p1")
    case True
    have "range_of t p1 \<inter> space s (xs @ ys) = {}" using M(6) rp(2) by blast
    then show ?thesis using True bp e n M(5) rp(4) by (auto simp: t sp rp(1))
  next
    case False
    then have a: "a \<in> al" using that by simp
    then show ?thesis using D(7-10)[OF a] na[OF a] rp(3) by (auto simp: t sp rp(1) rg[OF a])
  qed
  moreover have dj: "range_of t p1 \<inter> range_of t c = {}" if "c \<in> al" for c
    using D(10)[OF that] rp(2) unfolding rg[OF that] space_simps by blast
  have "range_of t a \<inter> range_of t c = {}" if "a \<in> insert p1 al" "c \<in> insert p1 al" "c \<noteq> a" for a c
    using that D(11)[of a c] dj[of a] dj[of c] by (cases "a = p1"; cases "c = p1") (simp_all add: rg Int_commute)
  ultimately have "heap_inv b0 t (xs @ p # ys) (insert p1 al)"
    using D(1,6,13) u sb by (intro heap_invI) (auto simp: t)
  then show ?thesis using na[of p1] by blast
qed

lemma take_ok:
  assumes inv: "heap_inv b0 s bs al" and u: "u \<in> set (b0 # bs)" "h_ptr s u = p" "p \<in> set (b0 # bs)" and n: "0 < n" "n \<le> h_size s p"
  shows "\<exists>p1 t zs. take_block n u p s = (p1 + hsz, t) \<and> heap_inv b0 t zs (insert p1 al) \<and> p1 \<notin> al \<and> h_size t p1 = n \<and>
    (\<forall>a \<in> al. h_size t a = h_size s a)"
proof -
  note D = heap_invD[OF inv]
  have "p \<noteq> b0" using n D(3) by auto
  then obtain xs ys where bs: "bs = xs @ p # ys" "u = last (b0 # xs)"
    using path_pred[OF D(2) u(3) _ u(1,2) sorted_distinct[OF heap_inv_sorted[OF inv]]] by blast
  have pa: "p \<notin> al" using D(12) u(3) by blast
  show ?thesis
  proof (cases "h_size s p = n")
    case True
    then show ?thesis
      using take_whole[OF inv[unfolded bs(1)] bs(2)] pa
      by (intro exI[of _ p] exI[of _ "(set_ptr u (h_ptr s p) s)\<lparr>freep := u\<rparr>"] exI[of _ "xs @ ys"]) (simp add: take_block_def)
  next
    case False
    let ?p1 = "p + hsz * (h_size s p - n)"
    let ?t = "s\<lparr>h_size := (h_size s)(p := h_size s p - n, ?p1 := n), freep := u\<rparr>"
    have n': "n < h_size s p" using False n by simp
    have ta: "heap_inv b0 ?t bs (insert ?p1 al) \<and> ?p1 \<notin> al"
      unfolding bs(1) by (rule take_tail[OF inv[unfolded bs(1)] u(1)[unfolded bs(1)] n(1) n'])
    have le: "p + hsz * h_size s p \<le> heap_limit" "0 < p"
      using spaced_bounds[OF D(4)] D(6) by (auto simp: bs(1))
    have m: "h_size s p mod 2 ^ 32 = h_size s p" by (rule size_small[OF le(2,1)])
    then have m': "(h_size s p - n) mod 2 ^ 32 = h_size s p - n" "n mod 2 ^ 32 = n"
      using n' mod_less_divisor[of "2 ^ 32" "h_size s p"] by auto
    have h: "hend (s\<lparr>h_size := (h_size s)(p := h_size s p - n)\<rparr>) p = ?p1"
      using hend_small[of p "s\<lparr>h_size := (h_size s)(p := h_size s p - n)\<rparr>"] le by simp
    have "take_block n u p s = (?p1 + hsz, ?t)"
      using False m' by (simp add: take_block_def Let_def h del: hsz_def)
    moreover have "\<forall>a \<in> al. h_size ?t a = h_size s a" using ta pa by auto
    ultimately show ?thesis using ta by (intro exI[of _ ?p1] exI[of _ ?t] exI[of _ bs]) simp
  qed
qed

lemma malloc_scan:
  assumes inv: "heap_inv b0 s bs al" and n: "0 < n"
  shows "(\<exists>p1 t zs. malloc_loop (Suc (length bs) + f) grant n (freep s) (h_ptr s (freep s)) s = Ret (p1 + hsz, t) \<and>
      heap_inv b0 t zs (insert p1 al) \<and> p1 \<notin> al \<and> h_size t p1 = n \<and> (\<forall>a \<in> al. h_size t a = h_size s a)) \<or>
    ((\<forall>z \<in> set bs. h_size s z < n) \<and> malloc_loop (Suc (length bs) + f) grant n (freep s) (h_ptr s (freep s)) s =
      obind (morecore grant n s) (\<lambda>(p1, s1). if p1 = 0 then Ret (0, s1) else malloc_loop f grant n p1 (h_ptr s1 p1) s1))"
proof -
  note D = heap_invD[OF inv]
  from path_circle[OF D(2,5) sorted_distinct[OF heap_inv_sorted[OF inv]]] obtain zs where
    z: "path s (freep s) zs (freep s)" "set (freep s # zs) = set (b0 # bs)" "length zs = length bs" "freep s \<notin> set zs" by blast
  from malloc_walk[OF z(1) refl z(4), of n f grant] show ?thesis
  proof (elim disjE exE conjE)
    fix u p assume u: "u \<in> set (freep s # zs)" "h_ptr s u = p" "p \<in> set (zs @ [freep s])" "n \<le> h_size s p"
      and r: "malloc_loop (Suc (length zs) + f) grant n (freep s) (h_ptr s (freep s)) s = Ret (take_block n u p s)"
    have "u \<in> set (b0 # bs)" "p \<in> set (b0 # bs)" using u z(2) by auto
    from take_ok[OF inv this(1) u(2) this(2) n u(4)] r z(3) show ?thesis by auto
  next
    assume "\<forall>z \<in> set (zs @ [freep s]). h_size s z < n"
    moreover have "set bs \<subseteq> set (zs @ [freep s])" using equalityD2[OF z(2)] by auto
    ultimately have "\<forall>z \<in> set bs. h_size s z < n" by blast
    moreover assume "malloc_loop (Suc (length zs) + f) grant n (freep s) (h_ptr s (freep s)) s =
      obind (morecore grant n s) (\<lambda>(p1, s1). if p1 = 0 then Ret (0, s1) else malloc_loop f grant n p1 (h_ptr s1 p1) s1)"
    ultimately show ?thesis using z(3) by simp
  qed
qed

abbreviation units :: "nat \<Rightarrow> nat" where
  "units nbytes \<equiv> (nbytes + hsz - 1) div hsz + 1"

lemma units_small: "nbytes \<le> 2 ^ 31 - 32 \<Longrightarrow> units nbytes < 2 ^ 27"
  by simp

lemma malloc_run:
  assumes inv: "heap_inv b0 s bs al" and n: "0 < n" "n < 2 ^ 27" and g: "grant_ok grant" and f: "2 * length bs + 3 \<le> fuel"
  shows "(\<exists>p1 t zs. malloc_loop fuel grant n (freep s) (h_ptr s (freep s)) s = Ret (p1 + hsz, t) \<and>
      heap_inv b0 t zs (insert p1 al) \<and> p1 \<notin> al \<and> h_size t p1 = n \<and> (\<forall>a \<in> al. h_size t a = h_size s a)) \<or>
    ((\<forall>z \<in> set bs. h_size s z < n) \<and> \<not> grant (int (hsz * core_units n)) (u_brk s) \<and>
      malloc_loop fuel grant n (freep s) (h_ptr s (freep s)) s = Ret (0, s))"
proof -
  obtain k where k: "fuel = Suc (length bs) + (length bs + 2 + k)" using f le_Suc_ex[OF f] by auto
  let ?f = "length bs + 2 + k"
  consider (found) "\<exists>p1 t zs. malloc_loop fuel grant n (freep s) (h_ptr s (freep s)) s = Ret (p1 + hsz, t) \<and>
      heap_inv b0 t zs (insert p1 al) \<and> p1 \<notin> al \<and> h_size t p1 = n \<and> (\<forall>a \<in> al. h_size t a = h_size s a)"
    | (more) "\<forall>z \<in> set bs. h_size s z < n" "malloc_loop fuel grant n (freep s) (h_ptr s (freep s)) s =
      obind (morecore grant n s) (\<lambda>(p1, s1). if p1 = 0 then Ret (0, s1) else malloc_loop ?f grant n p1 (h_ptr s1 p1) s1)"
    using malloc_scan[OF inv n(1), of ?f grant] unfolding k by blast
  then show ?thesis
  proof cases
    case found
    then show ?thesis by blast
  next
    case more
    show ?thesis
    proof (cases "grant (int (hsz * core_units n)) (u_brk s)")
      case False
      then have "morecore grant n s = Ret (0, s)" using morecore_ok[OF inv n(2) g] by (simp only: if_False)
      then show ?thesis using more False by simp
    next
      case True
      then obtain t zs where t: "morecore grant n s = Ret (freep t, t)" "heap_inv b0 t zs al" "\<exists>z \<in> set zs. n \<le> h_size t z"
        "\<forall>a \<in> al. h_size t a = h_size s a" "length zs \<le> length bs + 1"
        using morecore_ok[OF inv n(2) g] by (simp only: if_True) blast
      have "freep t \<noteq> 0" using heap_invD(1,5)[OF t(2)] spaced_bounds[OF heap_invD(4)[OF t(2)]] by auto
      then have "malloc_loop fuel grant n (freep s) (h_ptr s (freep s)) s = malloc_loop ?f grant n (freep t) (h_ptr t (freep t)) t"
        using more(2) t(1) by simp
      moreover obtain k' where k': "?f = Suc (length zs) + k'" using t(5) le_Suc_ex[of "Suc (length zs)" ?f] by auto
      moreover have "\<not> (\<forall>z \<in> set zs. h_size t z < n)" using t(3) by (meson leD)
      then obtain p1 u us where u: "malloc_loop ?f grant n (freep t) (h_ptr t (freep t)) t = Ret (p1 + hsz, u)"
        "heap_inv b0 u us (insert p1 al)" "p1 \<notin> al" "h_size u p1 = n" "\<forall>a \<in> al. h_size u a = h_size t a"
        using malloc_scan[OF t(2) n(1), of k' grant] unfolding k' by blast
      moreover have "\<forall>a \<in> al. h_size u a = h_size s a" using u(5) t(4) by simp
      ultimately show ?thesis by (simp only:) blast
    qed
  qed
qed

text \<open>A heap whose free list may still be uninitialised: nothing is free and nothing allocated.\<close>

definition heap_ready :: "nat \<Rightarrow> uheap \<Rightarrow> nat list \<Rightarrow> nat set \<Rightarrow> bool" where
  "heap_ready b0 s bs al \<longleftrightarrow> heap_inv b0 s bs al \<or>
     freep s = 0 \<and> bs = [] \<and> al = {} \<and> 0 < b0 \<and> b0 + hsz \<le> u_brk s \<and> u_brk s \<le> heap_limit"

lemma malloc_ready:
  assumes r: "heap_ready b0 s bs al" and n: "nbytes \<le> 2 ^ 31 - 32" and g: "grant_ok grant"
  shows "\<exists>r t zs. malloc grant b0 nbytes s = Ret (r, t) \<and>
    (if r = 0 then heap_inv b0 t bs al \<and> (\<forall>z \<in> set bs. h_size s z < units nbytes) \<and> \<not> grant (int (hsz * core_units (units nbytes))) (u_brk s)
     else \<exists>p. r = p + hsz \<and> p \<notin> al \<and> heap_inv b0 t zs (insert p al) \<and> h_size t p = units nbytes \<and> (\<forall>a \<in> al. h_size t a = h_size s a))"
proof -
  let ?s = "if freep s = 0 then set_size b0 0 (set_ptr b0 b0 s\<lparr>freep := b0\<rparr>) else s"
  have inv: "heap_inv b0 ?s bs al" and sz: "\<forall>a \<in> al \<union> set bs. h_size ?s a = h_size s a" and brk: "u_brk ?s = u_brk s"
  proof -
    have "freep s \<noteq> 0" if "heap_inv b0 s bs al"
      using heap_invD(1,5)[OF that] spaced_bounds[OF heap_invD(4)[OF that]] by auto
    then show "heap_inv b0 ?s bs al" using r by (auto simp: heap_ready_def heap_inv_def)
    show "\<forall>a \<in> al \<union> set bs. h_size ?s a = h_size s a" "u_brk ?s = u_brk s"
      using r \<open>heap_inv b0 s bs al \<Longrightarrow> freep s \<noteq> 0\<close> by (auto simp: heap_ready_def)
  qed
  let ?n = "units nbytes"
  have m: "?n mod 2 ^ 32 = ?n" using units_small[OF n] by simp
  have f: "2 * length bs + 3 \<le> 2 * list_fuel s + 4" using heap_inv_length[OF inv] brk by (simp add: list_fuel_def)
  have "malloc grant b0 nbytes s = malloc_loop (2 * list_fuel s + 4) grant ?n (freep ?s) (h_ptr ?s (freep ?s)) ?s"
    unfolding malloc_def Let_def m ..
  with malloc_run[OF inv _ units_small[OF n] g f] consider
    (ok) p1 t zs where "malloc grant b0 nbytes s = Ret (p1 + hsz, t)" "heap_inv b0 t zs (insert p1 al)" "p1 \<notin> al" "h_size t p1 = ?n"
      "\<forall>a \<in> al. h_size t a = h_size ?s a"
    | (no) "\<forall>z \<in> set bs. h_size ?s z < ?n" "\<not> grant (int (hsz * core_units ?n)) (u_brk ?s)" "malloc grant b0 nbytes s = Ret (0, ?s)"
    by auto
  then show ?thesis
  proof cases
    case ok
    then show ?thesis using sz by (intro exI[of _ "p1 + hsz"] exI[of _ t] exI[of _ zs]) auto
  next
    case no
    then show ?thesis using sz brk inv by (intro exI[of _ 0] exI[of _ ?s]) simp
  qed
qed

section \<open>Clients\<close>

text \<open>Any sequence of calls by a program that frees only what it holds; \<open>A\<close> are the addresses it holds.\<close>

inductive heap_run :: "(int \<Rightarrow> nat \<Rightarrow> bool) \<Rightarrow> nat \<Rightarrow> uheap \<Rightarrow> nat set \<Rightarrow> bool" for grant b0 where
  start: "freep s = 0 \<Longrightarrow> 0 < b0 \<Longrightarrow> b0 + hsz \<le> u_brk s \<Longrightarrow> u_brk s \<le> heap_limit \<Longrightarrow> heap_run grant b0 s {}"
| malloc: "heap_run grant b0 s A \<Longrightarrow> nbytes \<le> 2 ^ 31 - 32 \<Longrightarrow> malloc grant b0 nbytes s = Ret (r, t) \<Longrightarrow>
    heap_run grant b0 t (if r = 0 then A else insert r A)"
| free: "heap_run grant b0 s A \<Longrightarrow> r \<in> A \<Longrightarrow> free r s = Ret t \<Longrightarrow> heap_run grant b0 t (A - {r})"

lemma heap_run_ready:
  assumes "heap_run grant b0 s A" "grant_ok grant"
  shows "\<exists>bs al. heap_ready b0 s bs al \<and> A = (\<lambda>p. p + hsz) ` al"
  using assms
proof (induction rule: heap_run.induct)
  case (start s)
  then show ?case by (intro exI[of _ "[]"] exI[of _ "{}"]) (simp add: heap_ready_def)
next
  case (malloc s A nbytes r t)
  then obtain bs al where b: "heap_ready b0 s bs al" "A = (\<lambda>p. p + hsz) ` al" by blast
  from malloc_ready[OF b(1) malloc.hyps(2) malloc.prems] malloc.hyps(3) show ?case
    using b(2) by (cases "r = 0") (auto simp: heap_ready_def)
next
  case (free s A r t)
  then obtain bs al where b: "heap_ready b0 s bs al" "A = (\<lambda>p. p + hsz) ` al" by blast
  then obtain bp where bp: "r = bp + hsz" "bp \<in> al" "heap_inv b0 s bs al" using free.hyps(2) by (auto simp: heap_ready_def)
  from free_ok[OF bp(3,2)] free.hyps(3) bp(1) obtain zs where "heap_inv b0 t zs (al - {bp})" by auto
  moreover have "A - {r} = (\<lambda>p. p + hsz) ` (al - {bp})" using b(2) bp(1) by auto
  ultimately show ?case by (auto simp: heap_ready_def)
qed

definition demo_heap :: uheap where
  "demo_heap = \<lparr>h_ptr = \<lambda>_. 0, h_size = \<lambda>_. 0, freep = 0, u_brk = 16384\<rparr>"

definition demo_grant :: "int \<Rightarrow> nat \<Rightarrow> bool" where
  "demo_grant n b \<longleftrightarrow> int b + n \<le> 2 ^ 27"

lemma demo_grant_ok: "grant_ok demo_grant"
  by (auto simp: grant_ok_def demo_grant_def heap_limit_def)

lemma demo_malloc:
  "\<exists>p t zs. malloc demo_grant 8192 100 demo_heap = Ret (p + hsz, t) \<and> heap_inv 8192 t zs {p} \<and> h_size t p = 8 \<and> heap_run demo_grant 8192 t {p + hsz}"
proof -
  have "heap_ready 8192 demo_heap [] {}" by (simp add: heap_ready_def demo_heap_def heap_limit_def)
  from malloc_ready[OF this _ demo_grant_ok, of 100] obtain p t zs where
    t: "malloc demo_grant 8192 100 demo_heap = Ret (p + hsz, t)" "heap_inv 8192 t zs {p}" "h_size t p = 8"
    by (auto simp: demo_grant_def demo_heap_def split: if_splits)
  moreover have "heap_run demo_grant 8192 demo_heap {}" by (rule heap_run.start) (simp_all add: demo_heap_def heap_limit_def)
  from heap_run.malloc[OF this _ t(1)] have "heap_run demo_grant 8192 t {p + hsz}" by simp
  ultimately show ?thesis by blast
qed

text \<open>C38.  A program that calls \<^verbatim>\<open>malloc\<close> and \<^verbatim>\<open>free\<close> in any order, asking for at most \<open>2 ^ 31 - 32\<close> bytes at a time and freeing only what it
  holds: the blocks it holds never overlap and lie between the static header and the break, every free of one of them returns, and every further
  request within the limit returns, either a null pointer or a block of the asked size it did not hold before, without touching the size of any
  block it holds.  The limit is sharp: \<open>malloc_unbacked\<close> below shows what a request of one unit more does.\<close>

theorem malloc_free_run_safe:
  assumes g: "grant_ok grant" and run: "heap_run grant b0 s A"
  shows "(\<forall>r \<in> A. b0 + 2 * hsz \<le> r \<and> range_of s (r - hsz) \<subseteq> {b0 + hsz ..< u_brk s} \<and> (\<forall>c \<in> A. c \<noteq> r \<longrightarrow> range_of s (r - hsz) \<inter> range_of s (c - hsz) = {}) \<and>
      (\<exists>t. free r s = Ret t)) \<and>
    (\<forall>nbytes \<le> 2 ^ 31 - 32. \<exists>r t. malloc grant b0 nbytes s = Ret (r, t) \<and>
      (r = 0 \<or> r \<notin> A \<and> {r ..< r + nbytes} \<subseteq> range_of t (r - hsz) \<and> (\<forall>c \<in> A. h_size t (c - hsz) = h_size s (c - hsz))))"
proof -
  obtain bs al where b: "heap_ready b0 s bs al" "A = (\<lambda>p. p + hsz) ` al" using heap_run_ready[OF run g] by blast
  have inv: "heap_inv b0 s bs al" if "p \<in> al" for p using b(1) that by (auto simp: heap_ready_def)
  have "b0 + 2 * hsz \<le> r \<and> range_of s (r - hsz) \<subseteq> {b0 + hsz ..< u_brk s} \<and> (\<forall>c \<in> A. c \<noteq> r \<longrightarrow> range_of s (r - hsz) \<inter> range_of s (c - hsz) = {}) \<and>
      (\<exists>t. free r s = Ret t)" if r: "r \<in> A" for r
  proof -
    obtain p where p: "r = p + hsz" "p \<in> al" using r b(2) by auto
    note D = heap_invD[OF inv[OF p(2)]]
    have "range_of s p \<subseteq> {b0 + hsz ..< u_brk s}" using D(7,9)[OF p(2)] by (auto simp: range_of_def)
    moreover have "\<forall>c \<in> A. c \<noteq> r \<longrightarrow> range_of s p \<inter> range_of s (c - hsz) = {}"
      using D(11)[OF p(2)] p(1) b(2) by (auto simp del: hsz_def)
    moreover have "\<exists>t. free r s = Ret t" using free_ok[OF inv[OF p(2)] p(2)] p(1) by blast
    ultimately show ?thesis using D(7)[OF p(2)] p(1) by simp
  qed
  moreover have "\<exists>r t. malloc grant b0 nbytes s = Ret (r, t) \<and>
      (r = 0 \<or> r \<notin> A \<and> {r ..< r + nbytes} \<subseteq> range_of t (r - hsz) \<and> (\<forall>c \<in> A. h_size t (c - hsz) = h_size s (c - hsz)))"
    if n: "nbytes \<le> 2 ^ 31 - 32" for nbytes
  proof -
    have "{p + hsz ..< p + hsz + nbytes} \<subseteq> range_of t p" if "h_size t p = units nbytes" for p t
      using that by (auto simp: range_of_def)
    then show ?thesis using malloc_ready[OF b(1) n g] b(2) by (fastforce split: if_splits)
  qed
  ultimately show ?thesis by blast
qed

theorem malloc_free_run_safe_witness:
  "\<exists>r t. malloc demo_grant 8192 100 demo_heap = Ret (r, t) \<and> heap_run demo_grant 8192 t {r} \<and> range_of t (r - hsz) \<subseteq> {8208 ..< u_brk t} \<and>
     (\<exists>u. free r t = Ret u)"
proof -
  obtain p t zs where t: "malloc demo_grant 8192 100 demo_heap = Ret (p + hsz, t)" "heap_run demo_grant 8192 t {p + hsz}"
    using demo_malloc by blast
  from malloc_free_run_safe[OF demo_grant_ok t(2)] t show ?thesis by (intro exI[of _ "p + hsz"] exI[of _ t]) simp
qed

text \<open>C39.  \<^verbatim>\<open>free\<close> of an allocated block returns, whatever the free list: the list stays circular and in address order, exactly the bytes of the block become
  free, and no two free blocks are left adjacent, so the block is whole inside one free block.\<close>

theorem free_coalesces:
  assumes inv: "heap_inv b0 s bs al" and bp: "bp \<in> al"
  shows "\<exists>t zs z. free (bp + hsz) s = Ret t \<and> heap_inv b0 t zs (al - {bp}) \<and> space t zs = space s bs \<union> range_of s bp \<and>
    z \<in> set zs \<and> range_of s bp \<subseteq> range_of t z \<and> (\<forall>x \<in> set zs. x + hsz * h_size t x \<notin> set zs)"
proof -
  obtain t zs where t: "free (bp + hsz) s = Ret t" "heap_inv b0 t zs (al - {bp})" "space t zs = space s bs \<union> range_of s bp"
    "\<exists>z \<in> set zs. range_of s bp \<subseteq> range_of t z"
    using free_ok[OF assms] by blast
  have "x + hsz * h_size t x \<notin> set zs" if x: "x \<in> set zs" for x
  proof -
    obtain us vs where zs: "zs = us @ x # vs" using split_list[OF x] by blast
    note M = spaced_member[OF heap_invD(4)[OF t(2), unfolded zs]]
    show ?thesis using M(2,3,4) by (fastforce simp: zs)
  qed
  then show ?thesis using t by blast
qed

theorem free_coalesces_witness:
  "\<exists>p t u zs. malloc demo_grant 8192 100 demo_heap = Ret (p + hsz, t) \<and> free (p + hsz) t = Ret u \<and> heap_inv 8192 u zs {}"
proof -
  obtain p t zs where t: "malloc demo_grant 8192 100 demo_heap = Ret (p + hsz, t)" "heap_inv 8192 t zs {p}"
    using demo_malloc by blast
  from free_coalesces[OF t(2), of p] t(1) show ?thesis by auto
qed

text \<open>A request of half the address range of \<^verbatim>\<open>int\<close> wraps: \<^verbatim>\<open>sbrk\<close> is asked for a negative number of bytes below zero, leaves the break where it is and
  reports success, and \<^verbatim>\<open>malloc\<close> returns a block that no memory backs, whatever the kernel can grant.\<close>

theorem malloc_unbacked:
  assumes "freep s = 0" "0 < b0" "b0 + hsz \<le> u_brk s" "u_brk s < 2 ^ 31"
  shows "\<exists>t. malloc grant b0 (2 ^ 31 - 16) s = Ret (u_brk s + hsz, t) \<and> u_brk t = u_brk s"
proof -
  let ?s = "set_size b0 0 (set_ptr b0 b0 s\<lparr>freep := b0\<rparr>)" let ?hp = "u_brk s"
  let ?v = "set_size ?hp (2 ^ 27) ?s"
  have "(int ?hp - 2147483648) mod 18446744073709551616 = int ?hp - 2147483648 + 18446744073709551616"
    by (rule int_mod_pos_eq[of _ _ "- 1"]) (use assms(4) in simp_all)
  then have sb: "sbrk grant (sint (word_of_int (int (2 ^ 27 * hsz)) :: uint)) ?s = (Some ?hp, ?s)"
    by (simp add: sbrk_def Let_def)
  have st: "search_stop ?v ?hp b0" using assms by (simp add: search_stop_def)
  have fr: "free (?hp + hsz) ?v = Ret (free_join ?hp b0 ?v)"
    using st by (simp add: free_def Let_def list_fuel_def)
  have fj: "free_join ?hp b0 ?v = (set_ptr b0 ?hp (set_ptr ?hp b0 ?v))\<lparr>freep := b0\<rparr>"
    using assms by (simp add: free_join_def hend_def Let_def)
  have fu: "2 * list_fuel s + 4 = Suc (Suc (2 * list_fuel s + 2))" by simp
  have mc: "morecore grant (2 ^ 27) ?s = Ret (b0, free_join ?hp b0 ?v)"
    unfolding morecore_def Let_def using fr by (simp add: sb[simplified] free_join_frame)
  show ?thesis
    using assms mc fj unfolding malloc_def Let_def fu by (simp add: take_block_def)
qed

end
