(* ===== verification/Spec2Isabelle.thy ===== *)
theory Spec2Isabelle
  imports Harts Disk_Queue Trap Inode_Disk Path_Names Pipe_Queue Spinlock Grep Printf Shell_Order Umalloc
begin

text \<open>
  A verification library for an xv6-derived teaching kernel for RISC-V, extended with a multi-level
  feedback queue scheduler, a frame table with clock replacement and swapping, and a disk
  scheduler with RAID address maps.  The sources are under \<^verbatim>\<open>src/kernel\<close> and \<^verbatim>\<open>src/user\<close>.

  \<^bold>\<open>How the model is built.\<close>  Every C function is one definition, in the order of its file and with its name.
  C integers keep their width: \<^verbatim>\<open>uint\<close>, \<^verbatim>\<open>uint64\<close> and pointers are words that wrap, signed \<^verbatim>\<open>int\<close> counters
  that the code keeps in range are \<open>int\<close>.  Physical memory is a map from addresses to bytes; the free
  list of pages, the page tables and user memory live in it, as they do in the machine.  The state is a chain
  of records, each extending the one before it: \<open>kmem_state\<close> (memory and allocator), \<open>proc_state\<close> (process table,
  scheduler, harts), \<open>disk_state\<close> (disk scheduler), \<open>mm_state\<close> (frame table, swap), \<open>blk_state\<close> (buffer cache,
  virtio queue, disk), \<open>log_state\<close>, \<open>fs_state\<close>, \<open>cons_state\<close> and \<open>file_state\<close>.  Operations are
  polymorphic in the rest of the record, so a function of a low layer runs unchanged on the state of a high one.
  A function returns an \<open>outcome\<close>: \<open>Ret\<close>, \<open>Panic\<close> with the message of the source, or \<open>Hang\<close>.  \<open>Hang\<close> is a loop that
  exhausts its fuel, or a wait for what only another process can bring.  Spin locks bracket atomic steps: an operation
  that holds a lock is one step, and a call that may sleep returns \<open>Inl\<close> of the point where it resumes.

  \<^bold>\<open>Theories and sources.\<close>
  \<^item> \<open>Prelude\<close>, \<open>Memory\<close>, \<open>Bytes\<close>: outcomes, integer types, table scans, byte memory, little-endian fields.
  \<^item> \<open>Kstring\<close> (\<^verbatim>\<open>string.c\<close>): memory and string routines; \<open>memmove\<close> is correct on overlapping ranges.
  \<^item> \<open>Kalloc\<close> (\<^verbatim>\<open>kalloc.c\<close>): the page allocator, as an instance of the interface \<open>page_allocator\<close>; every page is handed out
    once, frees are checked, nothing else is touched.
  \<^item> \<open>Proc\<close>, \<open>Mlfq\<close>, \<open>Harts\<close> (\<^verbatim>\<open>proc.c\<close>, \<^verbatim>\<open>trap.c\<close>, \<^verbatim>\<open>sysproc.c\<close>): scheduling, sleep and wakeup, kill, clock, and the reporting
    system calls; the scheduler of one hart as a step relation, and that of several harts, in which the functions that walk the
    process table are taken apart into their locked sections and the unlocked accounting of \<open>clockintr\<close> into its accesses.
  \<^item> \<open>Pagetable\<close>, \<open>Pt_Tree\<close>, \<open>Vm_Map\<close>, \<open>Vm_Unmap\<close> (\<^verbatim>\<open>vm.c\<close>): three-level page tables in memory refine an address map.
  \<^item> \<open>Disk_Sched\<close>, \<open>Disk_Queue\<close> (\<^verbatim>\<open>disk_sched.c\<close>): the request queue as linked records, first-come and shortest-seek
    policies and the choice between them as instances of \<open>disk_policy\<close>, the RAID maps in 32-bit arithmetic.
  \<^item> \<open>Memsys\<close>, \<open>Clock\<close>, \<open>Swap\<close> (\<^verbatim>\<open>memsys.c\<close>, page faults of \<^verbatim>\<open>vm.c\<close>): clock replacement, eviction and swapping.
  \<^item> \<open>User_Copy\<close>, \<open>User_Bytes\<close> (\<^verbatim>\<open>vm.c\<close>): faults and the copies between kernel and user memory.
  \<^item> \<open>Virtio\<close> (\<^verbatim>\<open>virtio_disk.c\<close>): the driver against any device that keeps the virtio
    specification for well-formed requests (\<open>device_ok\<close>); the device is a field of the state.
  \<^item> \<open>Bio\<close>, \<open>Bcache\<close>, \<open>Blocks\<close> (\<^verbatim>\<open>bio.c\<close>, \<^verbatim>\<open>sleeplock.c\<close>): the buffer cache as a coherent least-recently-used cache, and the
    contents of blocks as its clients see them.
  \<^item> \<open>Log\<close>, \<open>Log_Txn\<close>, \<open>Log_Crash\<close> (\<^verbatim>\<open>log.c\<close>): write-ahead logging; a crash at any disk write is atomic.
  \<^item> \<open>Fs\<close>, \<open>Path_Names\<close>, \<open>Fs_Alloc\<close>, \<open>Inode_Disk\<close> (\<^verbatim>\<open>fs.c\<close>): block allocator, inodes, contents, directories, path names; path walks
    equal a reference over the components, the allocator hands out the lowest free block, inodes survive the way to disk and back.
  \<^item> \<open>Ring\<close>, \<open>Console\<close>, \<open>Line_Edit\<close> (\<^verbatim>\<open>console.c\<close>, \<^verbatim>\<open>uart.c\<close>): ring buffers with wrapping indices; the line discipline
    as a reference editor, with the kernel's \<open>printf\<close> and the process list it prints.
  \<^item> \<open>File\<close>, \<open>Pipe_Queue\<close> (\<^verbatim>\<open>file.c\<close>, \<^verbatim>\<open>pipe.c\<close>): open files and pipes; a pipe is a bounded queue.
  \<^item> \<open>Sysfile\<close> (\<^verbatim>\<open>sysfile.c\<close>), \<open>Exec\<close> (\<^verbatim>\<open>exec.c\<close>), \<open>Life\<close> (creation and end of processes in \<^verbatim>\<open>proc.c\<close>), \<open>Trap\<close>
    (\<^verbatim>\<open>syscall.c\<close>, \<^verbatim>\<open>trap.c\<close>): system calls and traps.
  \<^item> \<open>Spinlock\<close> (\<^verbatim>\<open>spinlock.c\<close>): the locks themselves, access by access, for any interleaving of the harts.
  \<^item> \<open>Ulib\<close>, \<open>Printf\<close> (\<^verbatim>\<open>user/ulib.c\<close>, \<^verbatim>\<open>printf.c\<close>): string and number routines, formatted output of kernel and user programs.
  \<^item> \<open>Grep\<close> (\<^verbatim>\<open>user/grep.c\<close>): matcher and line loop against a reference semantics of patterns.
  \<^item> \<open>Umalloc\<close> (\<^verbatim>\<open>user/umalloc.c\<close>): the user memory allocator over any run of calls.
  \<^item> \<open>Shell\<close>, \<open>Shell_Run\<close>, \<open>Shell_Order\<close> (\<^verbatim>\<open>user/sh.c\<close>): the parser and its printer; the descriptors commands run with; and their order
    when the processes run concurrently.

  \<^bold>\<open>Fuel.\<close>  A loop whose end the data does not show carries fuel, chosen at its call from the data it runs over: pages of
  a range, bytes of a copy, requests of a queue (there are at most as many as pages), twice the frame table for the
  clock hand, the length of a path, the length of a command line for the parser, the number of input bytes for the loops of
  the shell and of grep, the number of descriptors for a disk request, sixty-four digits for a number.  The theorems about
  these loops state that they return, so the fuel is enough.

  \<^bold>\<open>What the model takes for granted.\<close>  The functions on the whole process table (\<open>mlfq_boost\<close>, \<open>wakeup\<close>, \<open>kkill\<close>, \<open>scheduler_round\<close>,
  \<open>clockintr\<close>) are passes with no other hart at work in between; \<open>Harts\<close> shows that they are runs of the machine of several harts
  and proves its invariant for every interleaving, so that a statement about a pass is one about a run that was not disturbed.  The sleep
  loop of \<open>virtio_disk_rw\<close> is \<open>await_disk\<close>: while the process sleeps the device serves a request and the interrupt handler runs.  A disk
  request of \<^verbatim>\<open>disk_sched.c\<close> is kept in a map from the address of its page, beside the byte memory; the link that \<open>enqueue_request\<close>
  stores into a freed request therefore does not show in the free list, where it would overwrite a pointer.  The shell's parser
  always gets the memory it asks for, and its recursion fits the one page of user stack.

  \<^bold>\<open>Not modelled.\<close>  Assembly (\<^verbatim>\<open>entry.S\<close>, \<^verbatim>\<open>kernelvec.S\<close>, \<^verbatim>\<open>trampoline.S\<close>, \<^verbatim>\<open>swtch.S\<close>) and the code that only programs devices and
  control registers (\<^verbatim>\<open>start.c\<close>, \<^verbatim>\<open>main.c\<close>, \<^verbatim>\<open>plic.c\<close>, \<^verbatim>\<open>uartinit\<close>, the accessors of \<^verbatim>\<open>riscv.h\<close>): they have no state the
  model could observe.  The small programs (\<^verbatim>\<open>cat\<close>, \<^verbatim>\<open>ls\<close>, \<^verbatim>\<open>init\<close> and the like) pass their arguments to system calls.  The test programs of \<^verbatim>\<open>src/user\<close> exercise the kernel through system calls and
  hold no code the kernel depends on.  What is printed on the console by kernel diagnostics is left out.
\<close>

end
